(* ===== verification/Prelude.thy ===== *)
theory Prelude
  imports Complex_Main "HOL-Library.Word"
begin

text \<open>
  Shared vocabulary of the development: bytes and Python strings, the Python exceptions the
  modelled code can raise, a state monad whose actions may raise (\<open>act\<close>), total-correctness
  triples over it, and frame conditions (\<open>keeps\<close>): the state relation an action stays in.

  An action is a function from the state to a result and the new state. A raised exception is
  the value \<open>Inl e\<close> and keeps the effects made before it, as in Python.
\<close>

section \<open>Lemma collections\<close>

named_theorems keeps_intro \<open>frame conditions of actions, one rule per way to build an action\<close>
named_theorems triple_intro \<open>total-correctness triples, one rule per way to build an action\<close>
named_theorems const_defs \<open>the protocol constants of the source\<close>

section \<open>Bytes and strings\<close>

type_synonym byte = "8 word"

type_synonym bytes = "byte list"

text \<open>A Python string is a sequence of code points.\<close>

type_synonym pystr = "nat list"

definition lit :: "string \<Rightarrow> pystr" where
  "lit s = map of_char s"

text \<open>\<open>bytes([n])\<close>: a value outside 0..255 raises ValueError.\<close>

datatype perr =
    ShortHello
  | BadVersion byte
  | BadName pystr
  | JoinBeforeHello
  | UnknownType byte

datatype exn =
    ProtocolError perr
  | ValueError
  | AssertionError
  | AttributeError
  | UnicodeEncodeError
  | OSError
  | IndexError
  | KeyError
  | EOFError
  | TimeoutError
  | UnicodeDecodeError

definition mk_byte :: "int \<Rightarrow> exn + byte" where
  "mk_byte n = (if 0 \<le> n \<and> n < 256 then Inr (word_of_int n) else Inl ValueError)"

lemma mk_byte_Inr [simp]: "0 \<le> n \<Longrightarrow> n < 256 \<Longrightarrow> mk_byte n = Inr (word_of_int n)"
  by (simp add: mk_byte_def)

lemma mk_byte_cases:
  "mk_byte n = Inr b \<Longrightarrow> 0 \<le> n \<and> n < 256 \<and> uint b = n"
  by (auto simp: mk_byte_def uint_word_of_int split: if_splits)

lemma unat_byte_less [simp]: "unat (b :: byte) < 256"
  using unsigned_less [of b] by simp

lemma unat_of_nat_byte [simp]: "n < 256 \<Longrightarrow> unat (of_nat n :: byte) = n"
  by (simp add: unat_of_nat)

lemma of_nat_byte_inject:
  "m < 256 \<Longrightarrow> n < 256 \<Longrightarrow> (of_nat m :: byte) = of_nat n \<longleftrightarrow> m = n"
  by (metis unat_of_nat_byte)

unbundle bit_operations_syntax

lemma low_byte: "(n :: nat) AND 0xFF = n mod 256"
proof -
  have "mask 8 = (0xFF :: nat)" by (simp add: mask_eq_exp_minus_1)
  then show ?thesis using take_bit_eq_mask [of 8 n] by (simp add: take_bit_eq_mod)
qed

lemma low_byte_less: "(n :: nat) AND 0xFF < 256"
  by (simp add: low_byte)

section \<open>Actions\<close>

type_synonym ('s, 'a) act = "'s \<Rightarrow> (exn + 'a) \<times> 's"

definition ret :: "'a \<Rightarrow> ('s, 'a) act" where
  "ret x s = (Inr x, s)"

definition throw :: "exn \<Rightarrow> ('s, 'a) act" where
  "throw e s = (Inl e, s)"

definition gets :: "('s \<Rightarrow> 'a) \<Rightarrow> ('s, 'a) act" where
  "gets f s = (Inr (f s), s)"

definition modify :: "('s \<Rightarrow> 's) \<Rightarrow> ('s, unit) act" where
  "modify f s = (Inr (), f s)"

definition bnd :: "('s, 'a) act \<Rightarrow> ('a \<Rightarrow> ('s, 'b) act) \<Rightarrow> ('s, 'b) act" where
  "bnd m f s = (case m s of (Inl e, s') \<Rightarrow> (Inl e, s') | (Inr x, s') \<Rightarrow> f x s')"

text \<open>A pure computation that may raise, run as an action.\<close>

definition lift :: "exn + 'a \<Rightarrow> ('s, 'a) act" where
  "lift r s = (r, s)"

definition guarded :: "bool \<Rightarrow> ('s, unit) act \<Rightarrow> ('s, unit) act" where
  "guarded b m = (if b then m else ret ())"

text \<open>A block of statements, run in order until one raises.\<close>

fun seqs :: "('s, unit) act list \<Rightarrow> ('s, unit) act" where
  "seqs [] = ret ()"
| "seqs (m # ms) = bnd m (\<lambda>_. seqs ms)"

text \<open>\<open>for x in list(xs)\<close>: iteration over a snapshot.\<close>

fun for_each :: "'b list \<Rightarrow> ('b \<Rightarrow> ('s, unit) act) \<Rightarrow> ('s, unit) act" where
  "for_each [] f = ret ()"
| "for_each (x # xs) f = bnd (f x) (\<lambda>_. for_each xs f)"

text \<open>\<open>try: m except: h\<close>.\<close>

definition catch :: "('s, unit) act \<Rightarrow> (exn \<Rightarrow> ('s, unit) act) \<Rightarrow> ('s, unit) act" where
  "catch m h s = (case m s of (Inl e, s') \<Rightarrow> h e s' | (Inr x, s') \<Rightarrow> (Inr x, s'))"

lemmas act_defs = ret_def throw_def gets_def modify_def bnd_def lift_def guarded_def catch_def

lemma bnd_ret [simp]: "bnd (ret x) f = f x"
  by (rule ext) (simp add: act_defs)

lemma bnd_gets [simp]: "bnd (gets g) f s = f (g s) s"
  by (simp add: act_defs)

lemma bnd_modify [simp]: "bnd (modify g) f s = f () (g s)"
  by (simp add: act_defs)

lemma bnd_lift_Inr [simp]: "bnd (lift (Inr x)) f = f x"
  by (rule ext) (simp add: act_defs)

lemma bnd_lift_Inl [simp]: "bnd (lift (Inl e)) f s = (Inl e, s)"
  by (simp add: act_defs)

lemma bnd_throw [simp]: "bnd (throw e) f s = (Inl e, s)"
  by (simp add: act_defs)

lemma guarded_True [simp]: "guarded True m = m"
  by (simp add: guarded_def)

lemma guarded_False [simp]: "guarded False m = ret ()"
  by (simp add: guarded_def)

lemma bnd_assoc: "bnd (bnd m f) g = bnd m (\<lambda>x. bnd (f x) g)"
  by (rule ext) (auto simp: act_defs split: sum.splits prod.splits)

section \<open>Triples\<close>

text \<open>
  \<open>triple P m Q E\<close>: from a state with \<open>P\<close> the action either returns \<open>x\<close> in a state with
  \<open>Q x\<close>, or raises \<open>e\<close> in a state with \<open>E e\<close>. With \<open>E\<close> false the action raises nothing.
\<close>

definition triple ::
  "('s \<Rightarrow> bool) \<Rightarrow> ('s, 'a) act \<Rightarrow> ('a \<Rightarrow> 's \<Rightarrow> bool) \<Rightarrow> (exn \<Rightarrow> 's \<Rightarrow> bool) \<Rightarrow> bool" where
  "triple P m Q E \<longleftrightarrow>
     (\<forall>s. P s \<longrightarrow> (case m s of (Inl e, s') \<Rightarrow> E e s' | (Inr x, s') \<Rightarrow> Q x s'))"

text \<open>An action that keeps \<open>P\<close> and raises nothing.\<close>

definition safe :: "('s \<Rightarrow> bool) \<Rightarrow> ('s, 'a) act \<Rightarrow> bool" where
  "safe P m \<longleftrightarrow> triple P m (\<lambda>_. P) (\<lambda>_ _. False)"

lemma tripleI:
  "(\<And>s. P s \<Longrightarrow> (case m s of (Inl e, s') \<Rightarrow> E e s' | (Inr x, s') \<Rightarrow> Q x s')) \<Longrightarrow> triple P m Q E"
  by (simp add: triple_def)

lemma tripleD:
  "triple P m Q E \<Longrightarrow> P s \<Longrightarrow> (case m s of (Inl e, s') \<Rightarrow> E e s' | (Inr x, s') \<Rightarrow> Q x s')"
  by (simp add: triple_def)

lemma triple_InrD: "triple P m Q E \<Longrightarrow> P s \<Longrightarrow> m s = (Inr x, s') \<Longrightarrow> Q x s'"
  by (auto simp: triple_def split: prod.splits sum.splits)

lemma triple_InlD: "triple P m Q E \<Longrightarrow> P s \<Longrightarrow> m s = (Inl e, s') \<Longrightarrow> E e s'"
  by (auto simp: triple_def split: prod.splits sum.splits)

lemma triple_weaken:
  assumes "triple P m Q E" "\<And>s. P' s \<Longrightarrow> P s" "\<And>x s. Q x s \<Longrightarrow> Q' x s"
    "\<And>e s. E e s \<Longrightarrow> E' e s"
  shows "triple P' m Q' E'"
  unfolding triple_def
proof (intro allI impI)
  fix s assume "P' s"
  with assms(1,2) have "case m s of (Inl e, s') \<Rightarrow> E e s' | (Inr x, s') \<Rightarrow> Q x s'"
    by (simp add: triple_def)
  with assms(3,4) show "case m s of (Inl e, s') \<Rightarrow> E' e s' | (Inr x, s') \<Rightarrow> Q' x s'"
    by (auto split: prod.splits sum.splits)
qed

lemma triple_bnd:
  assumes "triple P m R E" "\<And>x. triple (R x) (f x) Q E"
  shows "triple P (bnd m f) Q E"
proof (rule tripleI)
  fix s assume P: "P s"
  obtain r s1 where m: "m s = (r, s1)" by fastforce
  show "case bnd m f s of (Inl e, s') \<Rightarrow> E e s' | (Inr x, s') \<Rightarrow> Q x s'"
  proof (cases r)
    case (Inl e)
    with assms(1) P m show ?thesis by (simp add: bnd_def triple_InlD)
  next
    case (Inr x)
    with assms(1) P m have "R x s1" by (simp add: triple_InrD)
    with assms(2) [of x] m Inr show ?thesis by (simp add: bnd_def triple_def)
  qed
qed

lemma triple_gets: "triple P (gets f) (\<lambda>x s. P s \<and> x = f s) E"
  by (simp add: triple_def gets_def)

lemma safe_ret [triple_intro]: "safe P (ret x)"
  by (simp add: safe_def triple_def ret_def)

lemma safe_gets [triple_intro]: "safe P (gets f)"
  by (simp add: safe_def triple_def gets_def)

lemma safe_modify: "(\<And>s. P s \<Longrightarrow> P (f s)) \<Longrightarrow> safe P (modify f)"
  by (simp add: safe_def triple_def modify_def)

lemma safe_bnd [triple_intro]:
  "safe P m \<Longrightarrow> (\<And>x. safe P (f x)) \<Longrightarrow> safe P (bnd m f)"
  unfolding safe_def by (rule triple_bnd)

lemma safe_guarded [triple_intro]: "safe P m \<Longrightarrow> safe P (guarded b m)"
  by (simp add: guarded_def safe_ret)

lemma safe_seqs [triple_intro]: "(\<And>m. m \<in> set ms \<Longrightarrow> safe P m) \<Longrightarrow> safe P (seqs ms)"
  by (induction ms) (auto intro: safe_ret safe_bnd)

lemma safe_for_each [triple_intro]:
  "(\<And>x. x \<in> set xs \<Longrightarrow> safe P (f x)) \<Longrightarrow> safe P (for_each xs f)"
  by (induction xs) (auto intro: safe_ret safe_bnd)

lemma safeE:
  assumes "safe P m" "P s"
  obtains x s' where "m s = (Inr x, s')" "P s'"
proof -
  obtain r s' where m: "m s = (r, s')" by fastforce
  with assms obtain x where "r = Inr x" "P s'"
    by (cases r) (auto simp: safe_def triple_def)
  with m that show ?thesis by simp
qed

lemma safeD: "safe P m \<Longrightarrow> P s \<Longrightarrow> P (snd (m s)) \<and> (\<exists>x. fst (m s) = Inr x)"
  by (erule (1) safeE) simp

section \<open>Frame conditions\<close>

text \<open>
  \<open>keeps R m\<close>: however the action ends, the state before and the state after are related by
  \<open>R\<close>. For a reflexive and transitive \<open>R\<close> this composes along the program text.
\<close>

definition keeps :: "('s \<Rightarrow> 's \<Rightarrow> bool) \<Rightarrow> ('s, 'a) act \<Rightarrow> bool" where
  "keeps R m \<longleftrightarrow> (\<forall>s. R s (snd (m s)))"

lemma keepsD: "keeps R m \<Longrightarrow> R s (snd (m s))"
  by (simp add: keeps_def)

lemma keeps_modify: "(\<And>s. R s (f s)) \<Longrightarrow> keeps R (modify f)"
  by (simp add: keeps_def modify_def)

locale preorder_rel =
  fixes R :: "'s \<Rightarrow> 's \<Rightarrow> bool"
  assumes R_refl: "R s s"
    and R_trans: "R s t \<Longrightarrow> R t u \<Longrightarrow> R s u"
begin

lemma kp_ret: "keeps R (ret x)"
  by (simp add: keeps_def ret_def R_refl)

lemma kp_throw: "keeps R (throw e)"
  by (simp add: keeps_def throw_def R_refl)

lemma kp_gets: "keeps R (gets f)"
  by (simp add: keeps_def gets_def R_refl)

lemma kp_lift: "keeps R (lift r)"
  by (simp add: keeps_def lift_def R_refl)

lemma kp_bnd: "keeps R m \<Longrightarrow> (\<And>x. keeps R (f x)) \<Longrightarrow> keeps R (bnd m f)"
  unfolding keeps_def bnd_def
  by (auto split: prod.splits sum.splits) (metis R_trans snd_conv)+

lemma kp_guarded: "keeps R m \<Longrightarrow> keeps R (guarded b m)"
  by (simp add: guarded_def kp_ret)

lemma kp_if: "(b \<Longrightarrow> keeps R m) \<Longrightarrow> (\<not> b \<Longrightarrow> keeps R n) \<Longrightarrow> keeps R (if b then m else n)"
  by simp

lemma kp_seqs: "(\<And>m. m \<in> set ms \<Longrightarrow> keeps R m) \<Longrightarrow> keeps R (seqs ms)"
  by (induction ms) (auto intro: kp_ret kp_bnd)

lemma kp_for_each: "(\<And>x. x \<in> set xs \<Longrightarrow> keeps R (f x)) \<Longrightarrow> keeps R (for_each xs f)"
  by (induction xs) (auto intro: kp_ret kp_bnd)

lemma kp_catch: "keeps R m \<Longrightarrow> (\<And>e. keeps R (h e)) \<Longrightarrow> keeps R (catch m h)"
  unfolding keeps_def catch_def
  by (auto split: prod.splits sum.splits) (metis R_trans snd_conv)+

lemmas kp_rules = kp_ret kp_throw kp_gets kp_lift kp_bnd kp_guarded kp_if kp_seqs kp_for_each kp_catch

end

section \<open>Agreement of actions\<close>

text \<open>Two actions agree from the states with \<open>P\<close>.\<close>

definition agree :: "('s \<Rightarrow> bool) \<Rightarrow> ('s, 'a) act \<Rightarrow> ('s, 'a) act \<Rightarrow> bool" where
  "agree P m n \<longleftrightarrow> (\<forall>s. P s \<longrightarrow> m s = n s)"

definition stays :: "('s \<Rightarrow> bool) \<Rightarrow> ('s, 'a) act \<Rightarrow> bool" where
  "stays P m \<longleftrightarrow> (\<forall>s. P s \<longrightarrow> P (snd (m s)))"

lemma agree_refl: "agree P m m"
  by (simp add: agree_def)

lemma agree_bnd:
  assumes "agree P m n" "stays P m" "\<And>x. agree P (f x) (g x)"
  shows "agree P (bnd m f) (bnd n g)"
  using assms unfolding agree_def stays_def bnd_def
  by (auto split: prod.splits sum.splits)

lemma agree_guarded: "agree P m n \<Longrightarrow> agree P (guarded b m) (guarded b n)"
  by (simp add: guarded_def agree_refl)

lemma agree_for_each:
  "(\<And>x. agree P (f x) (g x)) \<Longrightarrow> (\<And>x. stays P (f x)) \<Longrightarrow> agree P (for_each xs f) (for_each xs g)"
  by (induction xs) (auto intro: agree_refl agree_bnd)

lemma keeps_stays: "keeps R m \<Longrightarrow> (\<And>s t. P s \<Longrightarrow> R s t \<Longrightarrow> P t) \<Longrightarrow> stays P m"
  by (auto simp: keeps_def stays_def)

end
