(* ===== verification/PyDict.thy ===== *)
theory PyDict
  imports Prelude
begin

text \<open>
  Python dictionaries as association lists in insertion order: assigning to a present key keeps
  its position, a new key goes to the end, deleting keeps the order of the rest. The relay relies
  on this order (the lobby list a console sees is the order of \<open>by_name\<close>). The interface is the
  locale \<open>py_dict\<close>; the association lists are its interpretation \<open>dict\<close>.
\<close>

section \<open>The operations\<close>

type_synonym ('k, 'v) pydict = "('k \<times> 'v) list"

fun dget :: "('k, 'v) pydict \<Rightarrow> 'k \<Rightarrow> 'v option" where
  "dget [] k = None"
| "dget ((k', v) # d) k = (if k' = k then Some v else dget d k)"

fun dset :: "('k, 'v) pydict \<Rightarrow> 'k \<Rightarrow> 'v \<Rightarrow> ('k, 'v) pydict" where
  "dset [] k v = [(k, v)]"
| "dset ((k', v') # d) k v = (if k' = k then (k', v) # d else (k', v') # dset d k v)"

definition ddel :: "('k, 'v) pydict \<Rightarrow> 'k \<Rightarrow> ('k, 'v) pydict" where
  "ddel d k = filter (\<lambda>(k', v). k' \<noteq> k) d"

definition dkeys :: "('k, 'v) pydict \<Rightarrow> 'k list" where
  "dkeys d = map fst d"

definition dwf :: "('k, 'v) pydict \<Rightarrow> bool" where
  "dwf d \<longleftrightarrow> distinct (dkeys d)"

section \<open>The interface\<close>

locale py_dict =
  fixes lookup :: "'d \<Rightarrow> 'k \<Rightarrow> 'v option"
    and store :: "'d \<Rightarrow> 'k \<Rightarrow> 'v \<Rightarrow> 'd"
    and remove :: "'d \<Rightarrow> 'k \<Rightarrow> 'd"
    and ks :: "'d \<Rightarrow> 'k list"
    and wf :: "'d \<Rightarrow> bool"
  assumes lookup_store: "lookup (store d k v) k' = (if k' = k then Some v else lookup d k')"
    and lookup_remove: "lookup (remove d k) k' = (if k' = k then None else lookup d k')"
    and ks_lookup: "k \<in> set (ks d) \<longleftrightarrow> lookup d k \<noteq> None"
    and ks_store: "ks (store d k v) = (if lookup d k = None then ks d @ [k] else ks d)"
    and ks_remove: "ks (remove d k) = filter (\<lambda>x. x \<noteq> k) (ks d)"
    and wf_distinct: "wf d \<longleftrightarrow> distinct (ks d)"
begin

lemma wf_store: "wf d \<Longrightarrow> wf (store d k v)"
  by (simp add: wf_distinct ks_store ks_lookup)

lemma wf_remove: "wf d \<Longrightarrow> wf (remove d k)"
  by (simp add: wf_distinct ks_remove)

lemma lookup_store_same: "lookup (store d k v) k = Some v"
  by (simp add: lookup_store)

lemma length_store:
  "length (ks (store d k v)) = (if lookup d k = None then Suc (length (ks d)) else length (ks d))"
  by (simp add: ks_store)

lemma length_remove_le: "length (ks (remove d k)) \<le> length (ks d)"
  by (simp add: ks_remove)

lemma length_remove_less: "lookup d k \<noteq> None \<Longrightarrow> length (ks (remove d k)) < length (ks d)"
  using length_filter_less [of k "ks d" "\<lambda>x. x \<noteq> k"] by (simp add: ks_remove ks_lookup)

lemma remove_absent_ks: "lookup d k = None \<Longrightarrow> ks (remove d k) = ks d"
  by (metis (mono_tags, lifting) filter_True ks_lookup ks_remove)

text \<open>A rename keeps everybody else's place.\<close>

lemma ks_rename_others:
  "x \<noteq> k \<Longrightarrow> x \<noteq> k' \<Longrightarrow>
     (x \<in> set (ks (store (remove d k) k' v))) = (x \<in> set (ks d))"
  by (simp add: ks_lookup lookup_store lookup_remove)

end

section \<open>Association lists implement it\<close>

lemma dget_dset: "dget (dset d k v) k' = (if k' = k then Some v else dget d k')"
  by (induction d) auto

lemma dget_ddel: "dget (ddel d k) k' = (if k' = k then None else dget d k')"
  by (induction d) (auto simp: ddel_def)

lemma dget_None: "dget d k = None \<longleftrightarrow> k \<notin> fst ` set d"
  by (induction d k rule: dget.induct) (simp_all add: eq_commute)

lemma dkeys_dset: "dkeys (dset d k v) = (if dget d k = None then dkeys d @ [k] else dkeys d)"
  by (induction d k v rule: dset.induct) (simp_all add: dkeys_def)

lemma dkeys_ddel: "dkeys (ddel d k) = filter (\<lambda>x. x \<noteq> k) (dkeys d)"
  by (induction d) (auto simp: dkeys_def ddel_def)

interpretation dict: py_dict dget dset ddel dkeys dwf
proof unfold_locales
  show "k \<in> set (dkeys d) \<longleftrightarrow> dget d k \<noteq> None" for d :: "('a, 'b) pydict" and k
    unfolding dget_None by (simp add: dkeys_def)
qed (simp_all add: dget_dset dget_ddel dkeys_dset dkeys_ddel dwf_def)

lemma length_dkeys [simp]: "length (dkeys d) = length d"
  by (simp add: dkeys_def)

lemma dget_Some_in: "dget d k = Some v \<Longrightarrow> (k, v) \<in> set d"
  by (induction d) (auto split: if_splits)

lemma dget_in: "dwf d \<Longrightarrow> (k, v) \<in> set d \<Longrightarrow> dget d k = Some v"
  by (induction d) (auto simp: dwf_def dkeys_def, force)

lemma in_dset: "(k', v') \<in> set (dset d k v) \<Longrightarrow> (k' = k \<and> v' = v) \<or> (k', v') \<in> set d"
  by (induction d) (auto split: if_splits)

lemma in_ddel: "x \<in> set (ddel d k) \<longleftrightarrow> x \<in> set d \<and> fst x \<noteq> k"
  by (auto simp: ddel_def)

lemma dset_not_Nil [simp]: "dset d k v \<noteq> []"
  by (cases "(d, k, v)" rule: dset.cases) auto

end
