(* ===== verification/Frames.thy ===== *)
theory Frames
  imports Prelude PyDict
begin

text \<open>
  The wire format of \<open>server/intv_relay_server.py\<close>: message types, \<open>frame\<close>, \<open>pad_name\<close>, the
  name rules of \<open>on_hello\<close>, and the reassembler's view of a receive buffer (\<open>scan_frame\<close>, the
  test at the head of the loop of \<open>service\<close>). The contract between whoever writes frames and
  whoever reads them back from a byte stream is the locale \<open>framing\<close>.
\<close>

section \<open>Message types and limits\<close>

definition T_HELLO :: byte where "T_HELLO = 0x01"
definition T_LIST :: byte where "T_LIST = 0x02"
definition T_LOBBY :: byte where "T_LOBBY = 0x03"
definition T_JOIN :: byte where "T_JOIN = 0x04"
definition T_START :: byte where "T_START = 0x05"
definition T_INPUT :: byte where "T_INPUT = 0x06"
definition T_CRC :: byte where "T_CRC = 0x07"
definition T_STATE :: byte where "T_STATE = 0x08"
definition T_RESYNC :: byte where "T_RESYNC = 0x09"
definition T_BYE :: byte where "T_BYE = 0x0A"
definition T_PEER_LEFT :: byte where "T_PEER_LEFT = 0x0B"
definition T_PING :: byte where "T_PING = 0x0C"
definition T_PONG :: byte where "T_PONG = 0x0D"
definition T_ROOM :: byte where "T_ROOM = 0x0E"
definition T_GO :: byte where "T_GO = 0x0F"

definition RELAY_TYPES :: "byte list" where
  "RELAY_TYPES = [T_INPUT, T_CRC, T_STATE, T_RESYNC]"

lemmas type_defs [const_defs] =
  T_HELLO_def T_LIST_def T_LOBBY_def T_JOIN_def T_START_def T_INPUT_def T_CRC_def T_STATE_def
  T_RESYNC_def T_BYE_def T_PEER_LEFT_def T_PING_def T_PONG_def T_ROOM_def T_GO_def RELAY_TYPES_def

definition NAME_CHARS :: "nat set" where
  "NAME_CHARS = set (lit ''ABCDEFGHIJKLMNOPQRSTUVWXYZ0123456789'')"

definition PROTO_VER :: byte where "PROTO_VER = 2"
definition DEFAULT_DELAY :: int where "DEFAULT_DELAY = 3"
definition MAX_SEATS :: nat where "MAX_SEATS = 2"
definition ROSTER_SLOTS :: nat where "ROSTER_SLOTS = 4"
definition MAX_TX_BACKLOG :: nat where "MAX_TX_BACKLOG = 64 * 1024"
definition MAX_CLIENTS :: nat where "MAX_CLIENTS = 64"
definition MAX_CONNECTIONS_PER_IP :: nat where "MAX_CONNECTIONS_PER_IP = 8"
definition HELLO_TIMEOUT :: rat where "HELLO_TIMEOUT = 60"
definition STATS_INTERVAL :: rat where "STATS_INTERVAL = 60"

lemmas limit_defs [const_defs] =
  PROTO_VER_def DEFAULT_DELAY_def MAX_SEATS_def ROSTER_SLOTS_def MAX_TX_BACKLOG_def
  MAX_CLIENTS_def MAX_CONNECTIONS_PER_IP_def HELLO_TIMEOUT_def STATS_INTERVAL_def

section \<open>frame and pad_name\<close>

definition frame :: "byte \<Rightarrow> bytes \<Rightarrow> exn + bytes" where
  "frame ftype payload =
     (let body = ftype # payload
      in if length body \<le> 255 then Inr (of_nat (length body) # body) else Inl AssertionError)"

text \<open>\<open>name.encode("ascii")\<close>; the name of a client that has not said HELLO is None.\<close>

definition encode_ascii :: "pystr \<Rightarrow> exn + bytes" where
  "encode_ascii s = (if list_all (\<lambda>c. c < 128) s then Inr (map of_nat s) else Inl UnicodeEncodeError)"

definition ljust :: "nat \<Rightarrow> bytes \<Rightarrow> bytes" where
  "ljust n b = b @ replicate (n - length b) 0"

definition pad_name :: "pystr option \<Rightarrow> exn + bytes" where
  "pad_name name =
     (case name of
        None \<Rightarrow> Inl AttributeError
      | Some s \<Rightarrow> (case encode_ascii s of Inl e \<Rightarrow> Inl e | Inr b \<Rightarrow> Inr (ljust 8 (take 8 b))))"

section \<open>Names on the way in\<close>

text \<open>\<open>decode("ascii", "replace")\<close>: a byte from 0x80 up becomes U+FFFD.\<close>

definition decode_ascii :: "bytes \<Rightarrow> pystr" where
  "decode_ascii b = map (\<lambda>x. if unat x < 128 then unat x else 0xFFFD) b"

text \<open>\<open>rstrip("\0 ")\<close>.\<close>

definition rstrip_pad :: "pystr \<Rightarrow> pystr" where
  "rstrip_pad s = rev (dropWhile (\<lambda>c. c = 0 \<or> c = 32) (rev s))"

definition valid_name :: "pystr \<Rightarrow> bool" where
  "valid_name name \<longleftrightarrow> 2 \<le> length name \<and> length name \<le> 8 \<and> set name \<subseteq> NAME_CHARS"

section \<open>The receive buffer\<close>

text \<open>
  What the head of the loop of \<open>service\<close> decides from a buffer: nothing to do yet, a length byte
  no frame can have, or the body of the first frame and the bytes behind it.
\<close>

datatype scan = Wait | Bad byte | Got bytes bytes

definition scan_frame :: "bytes \<Rightarrow> scan" where
  "scan_frame rx =
     (case rx of
        [] \<Rightarrow> Wait
      | l # _ \<Rightarrow>
          (let need = unat l + 1
           in if need < 2 \<or> 200 < unat l then Bad l
              else if length rx < need then Wait
              else Got (take (need - 1) (drop 1 rx)) (drop need rx)))"

text \<open>All the frames a buffer holds, and what is left: the unread bytes, or the bad length.\<close>

fun drain_n :: "nat \<Rightarrow> (bytes \<Rightarrow> scan) \<Rightarrow> bytes \<Rightarrow> bytes list \<times> (byte + bytes)" where
  "drain_n 0 nxt b = ([], Inr b)"
| "drain_n (Suc n) nxt b =
     (case nxt b of
        Wait \<Rightarrow> ([], Inr b)
      | Bad l \<Rightarrow> ([], Inl l)
      | Got m rest \<Rightarrow> (let (ms, r) = drain_n n nxt rest in (m # ms, r)))"

definition drain :: "(bytes \<Rightarrow> scan) \<Rightarrow> bytes \<Rightarrow> bytes list \<times> (byte + bytes)" where
  "drain nxt b = drain_n (length b) nxt b"

section \<open>The framing contract\<close>

locale framing =
  fixes enc :: "bytes \<Rightarrow> bytes"
    and ok :: "bytes \<Rightarrow> bool"
    and nxt :: "bytes \<Rightarrow> scan"
  assumes nxt_Nil: "nxt [] = Wait"
    and nxt_enc: "ok m \<Longrightarrow> nxt (enc m @ rest) = Got m rest"
    and nxt_shrink: "nxt b = Got m rest \<Longrightarrow> length rest < length b"
    and nxt_more: "nxt b = Got m rest \<Longrightarrow> nxt (b @ c) = Got m (rest @ c)"
    and nxt_bad: "nxt b = Bad l \<Longrightarrow> nxt (b @ c) = Bad l"
begin

lemma drain_n_enough:
  "length b \<le> n \<Longrightarrow> length b \<le> k \<Longrightarrow> drain_n n nxt b = drain_n k nxt b"
proof (induction n arbitrary: b k)
  case 0
  then have "b = []" by simp
  then show ?case by (cases k) (simp_all add: nxt_Nil)
next
  case (Suc n)
  show ?case
  proof (cases k)
    case 0
    with Suc.prems have "b = []" by simp
    with 0 show ?thesis by (simp add: nxt_Nil)
  next
    case (Suc k')
    show ?thesis
    proof (cases "nxt b")
      case (Got m rest)
      then have "length rest < length b" by (rule nxt_shrink)
      with Suc Suc.prems Suc.IH [of rest k'] Got show ?thesis by simp
    qed (simp_all add: Suc)
  qed
qed

text \<open>The loop of the reader, without its bound.\<close>

lemma drain_step:
  "drain nxt b =
     (case nxt b of
        Wait \<Rightarrow> ([], Inr b)
      | Bad l \<Rightarrow> ([], Inl l)
      | Got m rest \<Rightarrow> (let (ms, r) = drain nxt rest in (m # ms, r)))"
proof (cases b)
  case Nil
  then show ?thesis by (simp add: drain_def nxt_Nil)
next
  case (Cons x xs)
  show ?thesis
  proof (cases "nxt b")
    case (Got m rest)
    then have "length rest < length b" by (rule nxt_shrink)
    then have "drain_n (length xs) nxt rest = drain_n (length rest) nxt rest"
      using Cons by (intro drain_n_enough) simp_all
    with Got Cons show ?thesis by (simp add: drain_def)
  qed (use Cons in \<open>simp_all add: drain_def\<close>)
qed

text \<open>A stream of written frames is read back frame by frame, whatever follows.\<close>

lemma drain_encs:
  "list_all ok ms \<Longrightarrow>
     drain nxt (concat (map enc ms) @ rest) = (let (ms', r) = drain nxt rest in (ms @ ms', r))"
proof (induction ms)
  case Nil
  then show ?case by simp
next
  case (Cons m ms)
  then have "nxt (concat (map enc (m # ms)) @ rest) = Got m (concat (map enc ms) @ rest)"
    by (simp add: nxt_enc)
  with Cons show ?case
    by (subst drain_step) (simp split: prod.splits)
qed

text \<open>Where the stream is cut into reads makes no difference.\<close>

lemma drain_append:
  "drain nxt (a @ b) =
     (case drain nxt a of
        (ms, Inl l) \<Rightarrow> (ms, Inl l)
      | (ms, Inr rest) \<Rightarrow> (let (ms', r) = drain nxt (rest @ b) in (ms @ ms', r)))"
proof (induction "length a" arbitrary: a rule: less_induct)
  case less
  show ?case
  proof (cases "nxt a")
    case Wait
    then show ?thesis by (subst (2) drain_step) simp
  next
    case (Bad l)
    then show ?thesis
      by (subst drain_step, subst (2) drain_step) (simp add: nxt_bad)
  next
    case (Got m rest)
    then have "length rest < length a" by (rule nxt_shrink)
    with less have "drain nxt (rest @ b) =
      (case drain nxt rest of
        (ms, Inl l) \<Rightarrow> (ms, Inl l)
      | (ms, Inr r) \<Rightarrow> (let (ms', q) = drain nxt (r @ b) in (ms @ ms', q)))" by blast
    with Got show ?thesis
      by (subst drain_step, subst (2) drain_step)
        (auto simp: nxt_more split: prod.splits sum.splits)
  qed
qed

end

section \<open>The relay's frames satisfy it\<close>

text \<open>The bytes of a frame with a given body, and the bodies the relay's reader accepts.\<close>

definition wire_of :: "bytes \<Rightarrow> bytes" where
  "wire_of body = of_nat (length body) # body"

definition readable :: "bytes \<Rightarrow> bool" where
  "readable body \<longleftrightarrow> 1 \<le> length body \<and> length body \<le> 200"

lemma frame_wire_of: "length payload \<le> 254 \<Longrightarrow> frame t payload = Inr (wire_of (t # payload))"
  by (simp add: frame_def wire_of_def)

lemma frame_Inr: "frame t payload = Inr d \<Longrightarrow> d = wire_of (t # payload) \<and> length payload \<le> 254"
  by (auto simp: frame_def wire_of_def Let_def split: if_splits)

lemma scan_frame_enc: "readable m \<Longrightarrow> scan_frame (wire_of m @ rest) = Got m rest"
proof -
  assume m: "readable m"
  then have "unat (of_nat (length m) :: byte) = length m"
    by (simp add: readable_def)
  with m show ?thesis
    by (auto simp: scan_frame_def wire_of_def readable_def simp del: of_nat_Suc)
qed

lemma scan_frame_shrink: "scan_frame b = Got m rest \<Longrightarrow> length rest < length b"
  by (auto simp: scan_frame_def Let_def split: list.splits if_splits)

lemma scan_frame_more: "scan_frame b = Got m rest \<Longrightarrow> scan_frame (b @ c) = Got m (rest @ c)"
  by (auto simp: scan_frame_def Let_def split: list.splits if_splits)

lemma scan_frame_bad: "scan_frame b = Bad l \<Longrightarrow> scan_frame (b @ c) = Bad l"
  by (auto simp: scan_frame_def Let_def split: list.splits if_splits)

interpretation relay_rx: framing wire_of readable scan_frame
proof unfold_locales
  show "scan_frame [] = Wait" by (simp add: scan_frame_def)
qed (fact scan_frame_enc scan_frame_shrink scan_frame_more scan_frame_bad)+

text \<open>What a scan yields is the frame that was there.\<close>

lemma scan_frame_Got:
  "scan_frame b = Got m rest \<Longrightarrow> readable m \<and> b = wire_of m @ rest"
proof (cases b)
  case (Cons l xs)
  assume "scan_frame b = Got m rest"
  with Cons have "unat l \<le> 200" "1 \<le> unat l" "unat l \<le> length xs"
    "m = take (unat l) xs" "rest = drop (unat l) xs"
    by (auto simp: scan_frame_def Let_def split: if_splits)
  with Cons show ?thesis by (simp add: readable_def wire_of_def)
qed (simp add: scan_frame_def)

section \<open>Names\<close>

lemma NAME_CHARS_range: "c \<in> NAME_CHARS \<Longrightarrow> 48 \<le> c \<and> c \<le> 90"
  by (auto simp: NAME_CHARS_def lit_def)

lemma valid_name_chars: "valid_name n \<Longrightarrow> c \<in> set n \<Longrightarrow> 48 \<le> c \<and> c \<le> 90"
  using NAME_CHARS_range by (auto simp: valid_name_def)

lemma pad_name_valid:
  assumes "valid_name n"
  shows "pad_name (Some n) = Inr (map of_nat n @ replicate (8 - length n) 0)"
proof -
  have "list_all (\<lambda>c. c < 128) n"
    using valid_name_chars [OF assms] by (fastforce simp: list_all_iff)
  with assms show ?thesis
    by (simp add: pad_name_def encode_ascii_def ljust_def valid_name_def)
qed

lemma pad_name_length: "pad_name n = Inr b \<Longrightarrow> length b = 8"
  by (auto simp: pad_name_def ljust_def split: option.splits sum.splits)

lemma rstrip_pad_append:
  "list_all (\<lambda>c. c = 0 \<or> c = 32) ys \<Longrightarrow> rstrip_pad (xs @ ys) = rstrip_pad xs"
  by (subst rstrip_pad_def, subst rev_append, subst dropWhile_append2)
    (auto simp: rstrip_pad_def list_all_iff)

lemma rstrip_pad_last: "xs = [] \<or> (last xs \<noteq> 0 \<and> last xs \<noteq> 32) \<Longrightarrow> rstrip_pad xs = xs"
proof (cases xs rule: rev_exhaust)
  case (snoc ys y)
  assume "xs = [] \<or> (last xs \<noteq> 0 \<and> last xs \<noteq> 32)"
  with snoc show ?thesis by (simp add: rstrip_pad_def)
qed (simp add: rstrip_pad_def)

lemma decode_pad:
  assumes "valid_name n" "pad_name (Some n) = Inr b"
  shows "rstrip_pad (decode_ascii b) = n"
proof -
  have small: "c < 128" if "c \<in> set n" for c
    using valid_name_chars [OF assms(1) that] by simp
  have "map ((\<lambda>x. if unat x < 128 then unat x else 0xFFFD) \<circ> (of_nat :: nat \<Rightarrow> byte)) n = n"
    using small by (intro map_idI) (fastforce simp: unat_of_nat)
  with assms have "decode_ascii b = n @ replicate (8 - length n) 0"
    by (auto simp: pad_name_valid decode_ascii_def)
  moreover have "n \<noteq> []" using assms(1) by (auto simp: valid_name_def)
  then have "last n \<noteq> 0 \<and> last n \<noteq> 32"
    using valid_name_chars [OF assms(1), of "last n"] by auto
  ultimately show ?thesis
    by (simp add: rstrip_pad_append rstrip_pad_last list_all_iff)
qed

lemma pad_name_inject:
  assumes "valid_name m" "valid_name n" "pad_name (Some m) = pad_name (Some n)"
  shows "m = n"
proof -
  obtain b where "pad_name (Some m) = Inr b" using assms(1) by (simp add: pad_name_valid)
  with assms show ?thesis using decode_pad by metis
qed

end
