(* ===== verification/Publisher.thy ===== *)
theory Publisher
  imports Prelude
begin

text \<open>
  \<open>LobbyPublisher\<close> of \<open>server/intv_relay_server.py\<close>: the payload it publishes, the operations
  the relay's thread calls (\<open>update\<close>, \<open>shutdown\<close>) and the worker thread \<open>_run\<close>, as atomic
  steps. Everything between taking and releasing \<open>_cond\<close> is one step; the HTTP request, the
  debounce wait and the join are steps of their own, so any interleaving the lock allows is a
  run of \<open>pub_step\<close>. \<open>pb_attempts\<close> lists the payloads handed to \<open>_post\<close>, in order.
\<close>

section \<open>State\<close>

record pub_payload =
  pl_game :: string
  pl_appkey :: int
  pl_server :: string
  pl_region :: string
  pl_serverurl :: string
  pl_status :: string
  pl_maxplayers :: int
  pl_curplayers :: nat
  pl_clients :: "(string \<times> string) list"

text \<open>
  Where the worker stands: at the head of its loop, in \<open>_cond.wait\<close>, in \<open>_post\<close> with its
  snapshot, in the one-second debounce, returned, or ended by an exception \<open>_post\<close> lets through.
\<close>

datatype worker_pc = WTop | WWait | WPost pub_payload | WDebounce | WReturned | WCrashed

text \<open>Where the thread that calls \<open>shutdown\<close> stands.\<close>

datatype main_pc = MRun | MJoin pub_payload | MPost pub_payload | MDone

record publisher =
  pb_payload :: pub_payload
  pb_failures :: nat
  pb_dirty :: bool
  pb_stopping :: bool
  pb_stop_evt :: bool
  pb_worker :: worker_pc
  pb_main :: main_pc
  pb_attempts :: "pub_payload list"

section \<open>Operations\<close>

definition pub_init :: "string \<Rightarrow> string \<Rightarrow> int \<Rightarrow> string \<Rightarrow> string \<Rightarrow> string \<Rightarrow> publisher" where
  "pub_init serverurl client_url appkey region game_name server_name =
     \<lparr> pb_payload =
         \<lparr> pl_game = game_name, pl_appkey = appkey, pl_server = server_name, pl_region = region,
           pl_serverurl = serverurl, pl_status = ''online'', pl_maxplayers = 2,
           pl_curplayers = 0, pl_clients = [(''intv'', client_url)] \<rparr>,
       pb_failures = 0, pb_dirty = False, pb_stopping = False, pb_stop_evt = False,
       pb_worker = WTop, pb_main = MRun, pb_attempts = [] \<rparr>"

definition pub_update :: "nat \<Rightarrow> publisher \<Rightarrow> publisher" where
  "pub_update curplayers p =
     (if pb_stopping p then p
      else p\<lparr>pb_payload := (pb_payload p)\<lparr>pl_curplayers := curplayers\<rparr>, pb_dirty := True\<rparr>)"

text \<open>
  \<open>shutdown\<close> in three parts: under the lock (and setting \<open>_stop_evt\<close>), the join, the last POST.
\<close>

definition pub_shutdown_begin :: "publisher \<Rightarrow> publisher" where
  "pub_shutdown_begin p =
     (let pl = (pb_payload p)\<lparr>pl_status := ''offline''\<rparr>
      in p\<lparr>pb_stopping := True, pb_payload := pl, pb_stop_evt := True, pb_main := MJoin pl\<rparr>)"

text \<open>The worker's critical section once it may leave the inner loop.\<close>

definition worker_take :: "publisher \<Rightarrow> publisher" where
  "worker_take p =
     (let q = p\<lparr>pb_dirty := False\<rparr>
      in if pb_stopping q then q\<lparr>pb_worker := WReturned\<rparr>
         else q\<lparr>pb_worker := WPost (pb_payload q)\<rparr>)"

text \<open>The test of the inner loop: wait again, or leave it.\<close>

definition worker_check :: "publisher \<Rightarrow> publisher" where
  "worker_check p =
     (if \<not> pb_dirty p \<and> \<not> pb_stopping p then p\<lparr>pb_worker := WWait\<rparr> else worker_take p)"

text \<open>
  How an HTTP request ends: a response, an \<open>OSError\<close> (caught and counted), or any other
  exception (not caught by \<open>_post\<close>).
\<close>

datatype post_result = PostOk | PostOSError | PostOther

definition post :: "pub_payload \<Rightarrow> post_result \<Rightarrow> publisher \<Rightarrow> publisher" where
  "post pl r p =
     p\<lparr>pb_attempts := pb_attempts p @ [pl],
       pb_failures := (if r = PostOSError then Suc (pb_failures p) else pb_failures p)\<rparr>"

section \<open>Steps\<close>

inductive worker_step :: "publisher \<Rightarrow> publisher \<Rightarrow> bool" where
  enter: "pb_worker p = WTop \<Longrightarrow> worker_step p (worker_check p)"
| wake: "pb_worker p = WWait \<Longrightarrow> worker_step p (worker_check p)"
| timeout: "pb_worker p = WWait \<Longrightarrow> worker_step p (worker_check (p\<lparr>pb_dirty := True\<rparr>))"
| post: "pb_worker p = WPost pl \<Longrightarrow>
    worker_step p ((post pl r p)\<lparr>pb_worker := (if r = PostOther then WCrashed else WDebounce)\<rparr>)"
| debounce: "pb_worker p = WDebounce \<Longrightarrow> worker_step p (p\<lparr>pb_worker := WTop\<rparr>)"

inductive_cases worker_stepE: "worker_step p q"

text \<open>\<open>strict\<close>: the join of \<open>shutdown\<close> ends because the worker has ended, not by its timeout.\<close>

inductive pub_step :: "bool \<Rightarrow> publisher \<Rightarrow> publisher \<Rightarrow> bool" for strict :: bool where
  worker: "worker_step p q \<Longrightarrow> pub_step strict p q"
| update: "pb_main p = MRun \<Longrightarrow> pub_step strict p (pub_update n p)"
| shutdown: "pb_main p = MRun \<Longrightarrow> pub_step strict p (pub_shutdown_begin p)"
| joined: "pb_main p = MJoin pl \<Longrightarrow> pb_worker p \<in> {WReturned, WCrashed} \<Longrightarrow>
    pub_step strict p (p\<lparr>pb_main := MPost pl\<rparr>)"
| join_timeout: "\<not> strict \<Longrightarrow> pb_main p = MJoin pl \<Longrightarrow> pub_step strict p (p\<lparr>pb_main := MPost pl\<rparr>)"
| last_post: "pb_main p = MPost pl \<Longrightarrow> pub_step strict p ((post pl r p)\<lparr>pb_main := MDone\<rparr>)"

inductive pub_run :: "bool \<Rightarrow> publisher \<Rightarrow> publisher \<Rightarrow> bool" for strict :: bool and p0 :: publisher where
  start: "pub_run strict p0 p0"
| step: "pub_run strict p0 p \<Longrightarrow> pub_step strict p q \<Longrightarrow> pub_run strict p0 q"

section \<open>What the server's thread can rely on\<close>

lemma pub_update_curplayers [simp]:
  "\<not> pb_stopping p \<Longrightarrow> pl_curplayers (pb_payload (pub_update n p)) = n"
  by (simp add: pub_update_def)

lemma pub_update_stopping [simp]: "pb_stopping (pub_update n p) = pb_stopping p"
  by (simp add: pub_update_def)

lemma worker_check_keeps [simp]:
  "pb_payload (worker_check p) = pb_payload p"
  "pb_stopping (worker_check p) = pb_stopping p"
  "pb_main (worker_check p) = pb_main p"
  "pb_attempts (worker_check p) = pb_attempts p"
  by (simp_all add: worker_check_def worker_take_def Let_def)

lemma post_keeps [simp]:
  "pb_payload (post pl r p) = pb_payload p"
  "pb_stopping (post pl r p) = pb_stopping p"
  "pb_main (post pl r p) = pb_main p"
  "pb_dirty (post pl r p) = pb_dirty p"
  "pb_worker (post pl r p) = pb_worker p"
  "pb_attempts (post pl r p) = pb_attempts p @ [pl]"
  by (simp_all add: post_def)

lemma worker_step_payload:
  "worker_step p q \<Longrightarrow> pb_payload q = pb_payload p \<and> pb_stopping q = pb_stopping p \<and> pb_main q = pb_main p"
  by (auto elim!: worker_stepE)

section \<open>No update is lost\<close>

text \<open>
  Unless a new POST is due, what was published last (or is being published) is the current
  payload; before the first POST the payload is the initial one.
\<close>

definition newest :: "pub_payload \<Rightarrow> publisher \<Rightarrow> bool" where
  "newest pl0 p \<longleftrightarrow>
     (\<not> pb_dirty p \<and> \<not> pb_stopping p \<longrightarrow>
        (case pb_worker p of
           WPost pl \<Rightarrow> pl = pb_payload p
         | _ \<Rightarrow> (if pb_attempts p = [] then pb_payload p = pl0
                 else last (pb_attempts p) = pb_payload p)))"

definition main_ok :: "publisher \<Rightarrow> bool" where
  "main_ok p \<longleftrightarrow>
     (pb_stopping p \<longleftrightarrow> pb_main p \<noteq> MRun) \<and> (pb_worker p = WReturned \<longrightarrow> pb_stopping p)"

lemma main_ok_check: "pb_worker p \<noteq> WReturned \<Longrightarrow> main_ok p \<Longrightarrow> main_ok (worker_check p)"
  by (auto simp: main_ok_def worker_check_def worker_take_def Let_def)

lemma main_ok_dirty: "main_ok (p\<lparr>pb_dirty := b\<rparr>) = main_ok p"
  by (simp add: main_ok_def)

lemma main_ok_worker: "worker_step p q \<Longrightarrow> main_ok p \<Longrightarrow> main_ok q"
  by (erule worker_stepE) (simp_all add: main_ok_check main_ok_dirty, simp_all add: main_ok_def)

lemma newest_check:
  "pb_worker p = WTop \<or> pb_worker p = WWait \<Longrightarrow> newest pl0 p \<Longrightarrow> newest pl0 (worker_check p)"
  by (auto simp: newest_def worker_check_def worker_take_def Let_def)

lemma newest_timeout: "newest pl0 (p\<lparr>pb_dirty := True\<rparr>)"
  by (simp add: newest_def)

lemma newest_worker: "worker_step p q \<Longrightarrow> newest pl0 p \<Longrightarrow> newest pl0 q"
  by (erule worker_stepE)
    (simp_all add: newest_check newest_timeout, simp_all add: newest_def)

lemma main_ok_step: "pub_step strict p q \<Longrightarrow> main_ok p \<Longrightarrow> main_ok q"
proof (induction rule: pub_step.induct)
  case (worker p q)
  then show ?case by (rule main_ok_worker)
qed (auto simp: main_ok_def pub_update_def pub_shutdown_begin_def Let_def)

lemma newest_step: "pub_step strict p q \<Longrightarrow> main_ok p \<Longrightarrow> newest pl0 p \<Longrightarrow> newest pl0 q"
proof (induction rule: pub_step.induct)
  case (worker p q)
  then show ?case by (simp add: newest_worker)
qed (simp_all add: newest_def main_ok_def pub_update_def pub_shutdown_begin_def Let_def)

lemma pub_run_inv:
  "pub_run strict p0 p \<Longrightarrow> p0 = pub_init su cu ak rg gn sn \<Longrightarrow> main_ok p \<and> newest (pb_payload p0) p"
proof (induction rule: pub_run.induct)
  case start
  then show ?case by (simp add: main_ok_def newest_def pub_init_def)
next
  case (step p q)
  then show ?case using main_ok_step newest_step by blast
qed

section \<open>The last word\<close>

text \<open>
  When \<open>shutdown\<close> really waits for the worker to end, the worker has ended by the time of the
  last POST, and that POST announces \<open>offline\<close>.
\<close>

definition final_ok :: "publisher \<Rightarrow> bool" where
  "final_ok p \<longleftrightarrow>
     (case pb_main p of
        MRun \<Rightarrow> True
      | MJoin pl \<Rightarrow> pl_status pl = ''offline''
      | MPost pl \<Rightarrow> pl_status pl = ''offline'' \<and> pb_worker p \<in> {WReturned, WCrashed}
      | MDone \<Rightarrow> pb_worker p \<in> {WReturned, WCrashed} \<and> pb_attempts p \<noteq> [] \<and>
          pl_status (last (pb_attempts p)) = ''offline'')"

lemma worker_ended: "pb_worker p \<in> {WReturned, WCrashed} \<Longrightarrow> \<not> worker_step p q"
  by (auto elim: worker_stepE)

lemma final_ok_worker: "worker_step p q \<Longrightarrow> final_ok p \<Longrightarrow> final_ok q"
  using worker_step_payload [of p q] worker_ended [of p q]
  by (cases "pb_main p") (auto simp: final_ok_def)

lemma final_ok_step: "pub_step True p q \<Longrightarrow> final_ok p \<Longrightarrow> final_ok q"
proof (induction rule: pub_step.induct)
  case (worker p q)
  then show ?case by (rule final_ok_worker)
qed (auto simp: final_ok_def pub_update_def pub_shutdown_begin_def Let_def)

lemma final_ok_run: "pub_run True p0 p \<Longrightarrow> final_ok p0 \<Longrightarrow> final_ok p"
  by (induction rule: pub_run.induct) (auto intro: final_ok_step)

lemma final_ok_init: "final_ok (pub_init su cu ak rg gn sn)"
  by (simp add: final_ok_def pub_init_def)

lemma done_stuck: "final_ok p \<Longrightarrow> pb_main p = MDone \<Longrightarrow> \<not> pub_step True p q"
  using worker_ended [of p q] by (auto simp: final_ok_def elim: pub_step.cases)

end
