(* ===== verification/RelayState.thy ===== *)
theory RelayState
  imports Frames PyDict Publisher
begin

text \<open>
  The state of \<open>server/intv_relay_server.py\<close>: \<open>Client\<close>, \<open>Room\<close> and \<open>Server\<close> objects as
  records in a heap indexed by object numbers (two variables of the source can name one object,
  and rooms are shared by their members), with the properties and the small helpers of the three
  classes. The sockets and the random source are parameters in the state (\<open>sv_net\<close>,
  \<open>sv_rand\<close>): any behaviour of the peers and of the kernel's buffers is a value of theirs.
\<close>

section \<open>Objects\<close>

type_synonym cid = nat
type_synonym rid = nat
type_synonym addr = "string \<times> nat"

text \<open>\<open>socket.send\<close>: would block, an \<open>OSError\<close>, or the number of bytes the kernel took.\<close>

datatype send_outcome = SBlocks | SError | SSent nat

text \<open>
  \<open>cl_sent\<close> and \<open>cl_calls\<close> belong to the socket: the bytes it took so far and how often
  \<open>send\<close> was called on it.
\<close>

record client =
  cl_addr :: addr
  cl_rx :: bytes
  cl_tx :: bytes
  cl_name :: "pystr option"
  cl_room :: "rid option"
  cl_connected_at :: rat
  cl_dead :: bool
  cl_sent :: bytes
  cl_calls :: nat

type_synonym crc_entry = "(nat, nat) pydict"

record room =
  rm_members :: "cid list"
  rm_started :: bool
  rm_seed :: nat
  rm_crc :: "(nat, crc_entry) pydict"
  rm_crc_ok :: nat

record stats =
  st_tx_backlog_drops :: nat
  st_hello_timeouts :: nat
  st_connection_limit_rejections :: nat

text \<open>Why a connection is dropped: the message of the drop log line.\<close>

datatype why =
    WhyBacklog
  | WhySendError
  | WhySendZero
  | WhyHelloTimeout
  | WhyRecvError
  | WhyClosed
  | WhyBadLength byte
  | WhyProtocol perr
  | WhyReplaced
  | WhyInternal
  | WhyBye

text \<open>\<open>repr\<close> of a client: its name once it has one, its address before.\<close>

datatype crepr = RName pystr | RAddr addr

text \<open>One event for each log call of the relay, with the values its format string shows.\<close>

datatype log_event =
    LDrop crepr why
  | LMatchEnded nat crepr nat
  | LBackToLobby crepr
  | LDissolvedHostLeft "pystr list"
  | LRename crepr pystr
  | LHello crepr
  | LJoin crepr "pystr list"
  | LStarted "pystr list" nat nat
  | LMismatch nat "(nat \<times> nat) list"
  | LCrcOk nat nat
  | LRejectFull addr nat
  | LRejectPerIp addr nat
  | LConnect addr
  | LStats nat nat stats nat
  | LUnexpected crepr exn

record server =
  sv_delay :: int
  sv_auto_go :: int
  sv_lobby :: "publisher option"
  sv_by_name :: "(pystr, cid) pydict"
  sv_clients :: "cid list"
  sv_sel :: "cid \<Rightarrow> bool option"
  sv_stats :: stats
  sv_last_stats :: "stats \<times> nat"
  sv_log :: "log_event list"
  sv_client :: "cid \<Rightarrow> client"
  sv_nclient :: nat
  sv_room :: "rid \<Rightarrow> room"
  sv_nroom :: nat
  sv_net :: "cid \<Rightarrow> nat \<Rightarrow> send_outcome"
  sv_rand :: "nat \<Rightarrow> nat"
  sv_draws :: nat

text \<open>
  \<open>sv_clients\<close> holds the elements of the Python set; nothing depends on its order (the sweep
  takes the order it iterates in as an argument). \<open>sv_sel c\<close> is the selector's entry for the
  socket of \<open>c\<close>: absent, or whether EVENT_WRITE is asked for beside EVENT_READ.
\<close>

section \<open>Construction\<close>

definition new_client :: "addr \<Rightarrow> rat \<Rightarrow> client" where
  "new_client a now =
     \<lparr> cl_addr = a, cl_rx = [], cl_tx = [], cl_name = None, cl_room = None,
       cl_connected_at = now, cl_dead = False, cl_sent = [], cl_calls = 0 \<rparr>"

definition new_room :: "cid \<Rightarrow> room" where
  "new_room host =
     \<lparr> rm_members = [host], rm_started = False, rm_seed = 0, rm_crc = [], rm_crc_ok = 0 \<rparr>"

definition new_server ::
  "int \<Rightarrow> publisher option \<Rightarrow> int \<Rightarrow> (cid \<Rightarrow> nat \<Rightarrow> send_outcome) \<Rightarrow> (nat \<Rightarrow> nat) \<Rightarrow> server" where
  "new_server delay lobby auto_go net rand =
     \<lparr> sv_delay = delay, sv_auto_go = auto_go, sv_lobby = lobby, sv_by_name = [],
       sv_clients = [], sv_sel = (\<lambda>_. None),
       sv_stats = \<lparr> st_tx_backlog_drops = 0, st_hello_timeouts = 0, st_connection_limit_rejections = 0 \<rparr>,
       sv_last_stats = (\<lparr> st_tx_backlog_drops = 0, st_hello_timeouts = 0, st_connection_limit_rejections = 0 \<rparr>, 0),
       sv_log = [], sv_client = (\<lambda>_. new_client ('''', 0) 0), sv_nclient = 0,
       sv_room = (\<lambda>_. new_room 0), sv_nroom = 0, sv_net = net, sv_rand = rand, sv_draws = 0 \<rparr>"

section \<open>Access\<close>

type_synonym 'a srv = "(server, 'a) act"

definition upd_client :: "cid \<Rightarrow> (client \<Rightarrow> client) \<Rightarrow> server \<Rightarrow> server" where
  "upd_client c f s = s\<lparr>sv_client := (sv_client s)(c := f (sv_client s c))\<rparr>"

definition upd_room :: "rid \<Rightarrow> (room \<Rightarrow> room) \<Rightarrow> server \<Rightarrow> server" where
  "upd_room r f s = s\<lparr>sv_room := (sv_room s)(r := f (sv_room s r))\<rparr>"

definition add_log :: "log_event \<Rightarrow> server \<Rightarrow> server" where
  "add_log e s = s\<lparr>sv_log := sv_log s @ [e]\<rparr>"

text \<open>\<open>client.dead\<close>; a number no object has counts as dead.\<close>

definition is_dead :: "server \<Rightarrow> cid \<Rightarrow> bool" where
  "is_dead s c \<longleftrightarrow> sv_nclient s \<le> c \<or> cl_dead (sv_client s c)"

definition members :: "server \<Rightarrow> rid \<Rightarrow> cid list" where
  "members s r = rm_members (sv_room s r)"

definition name_of :: "server \<Rightarrow> cid \<Rightarrow> pystr option" where
  "name_of s c = cl_name (sv_client s c)"

definition room_of :: "server \<Rightarrow> cid \<Rightarrow> rid option" where
  "room_of s c = cl_room (sv_client s c)"

text \<open>Everything handed to a client's socket or waiting for it, in order.\<close>

definition stream :: "server \<Rightarrow> cid \<Rightarrow> bytes" where
  "stream s c = cl_sent (sv_client s c) @ cl_tx (sv_client s c)"

section \<open>The classes' own helpers\<close>

definition client_repr :: "server \<Rightarrow> cid \<Rightarrow> crepr" where
  "client_repr s c =
     (case name_of s c of
        Some n \<Rightarrow> (if n = [] then RAddr (cl_addr (sv_client s c)) else RName n)
      | None \<Rightarrow> RAddr (cl_addr (sv_client s c)))"

definition room_repr :: "server \<Rightarrow> rid \<Rightarrow> pystr list" where
  "room_repr s r =
     map (\<lambda>m. case name_of s m of Some n \<Rightarrow> (if n = [] then lit ''?'' else n) | None \<Rightarrow> lit ''?'')
       (members s r)"

text \<open>\<open>list.index\<close> and \<open>list.remove\<close>.\<close>

fun list_index :: "'a list \<Rightarrow> 'a \<Rightarrow> exn + nat" where
  "list_index [] x = Inl ValueError"
| "list_index (y # ys) x =
     (if y = x then Inr 0 else (case list_index ys x of Inl e \<Rightarrow> Inl e | Inr n \<Rightarrow> Inr (Suc n)))"

definition list_remove :: "'a list \<Rightarrow> 'a \<Rightarrow> exn + 'a list" where
  "list_remove xs x = (if x \<in> set xs then Inr (remove1 x xs) else Inl ValueError)"

definition seat :: "server \<Rightarrow> cid \<Rightarrow> exn + nat option" where
  "seat s c =
     (case room_of s c of
        None \<Rightarrow> Inr None
      | Some r \<Rightarrow> (case list_index (members s r) c of Inl e \<Rightarrow> Inl e | Inr n \<Rightarrow> Inr (Some n)))"

definition solo :: "server \<Rightarrow> cid \<Rightarrow> bool" where
  "solo s c \<longleftrightarrow> name_of s c \<noteq> None \<and> room_of s c = None"

fun pad_names :: "pystr option list \<Rightarrow> exn + bytes" where
  "pad_names [] = Inr []"
| "pad_names (n # ns) =
     (case pad_name n of
        Inl e \<Rightarrow> Inl e
      | Inr b \<Rightarrow> (case pad_names ns of Inl e \<Rightarrow> Inl e | Inr bs \<Rightarrow> Inr (b @ bs)))"

definition roster :: "server \<Rightarrow> rid \<Rightarrow> exn + bytes" where
  "roster s r =
     (case pad_names (map (name_of s) (members s r)) of
        Inl e \<Rightarrow> Inl e
      | Inr pads \<Rightarrow> Inr (pads @ replicate (8 * (ROSTER_SLOTS - length (members s r))) 0))"

section \<open>Basic facts\<close>

lemma upd_client_simps [simp]:
  "sv_client (upd_client c f s) = (sv_client s)(c := f (sv_client s c))"
  "sv_delay (upd_client c f s) = sv_delay s"
  "sv_auto_go (upd_client c f s) = sv_auto_go s"
  "sv_lobby (upd_client c f s) = sv_lobby s"
  "sv_by_name (upd_client c f s) = sv_by_name s"
  "sv_clients (upd_client c f s) = sv_clients s"
  "sv_sel (upd_client c f s) = sv_sel s"
  "sv_stats (upd_client c f s) = sv_stats s"
  "sv_last_stats (upd_client c f s) = sv_last_stats s"
  "sv_log (upd_client c f s) = sv_log s"
  "sv_nclient (upd_client c f s) = sv_nclient s"
  "sv_room (upd_client c f s) = sv_room s"
  "sv_nroom (upd_client c f s) = sv_nroom s"
  "sv_net (upd_client c f s) = sv_net s"
  "sv_rand (upd_client c f s) = sv_rand s"
  "sv_draws (upd_client c f s) = sv_draws s"
  by (simp_all add: upd_client_def)

lemma upd_room_simps [simp]:
  "sv_room (upd_room r g s) = (sv_room s)(r := g (sv_room s r))"
  "sv_delay (upd_room r g s) = sv_delay s"
  "sv_auto_go (upd_room r g s) = sv_auto_go s"
  "sv_lobby (upd_room r g s) = sv_lobby s"
  "sv_by_name (upd_room r g s) = sv_by_name s"
  "sv_clients (upd_room r g s) = sv_clients s"
  "sv_sel (upd_room r g s) = sv_sel s"
  "sv_stats (upd_room r g s) = sv_stats s"
  "sv_last_stats (upd_room r g s) = sv_last_stats s"
  "sv_log (upd_room r g s) = sv_log s"
  "sv_client (upd_room r g s) = sv_client s"
  "sv_nclient (upd_room r g s) = sv_nclient s"
  "sv_nroom (upd_room r g s) = sv_nroom s"
  "sv_net (upd_room r g s) = sv_net s"
  "sv_rand (upd_room r g s) = sv_rand s"
  "sv_draws (upd_room r g s) = sv_draws s"
  by (simp_all add: upd_room_def)

lemma add_log_simps [simp]:
  "sv_log (add_log e s) = sv_log s @ [e]"
  "sv_delay (add_log e s) = sv_delay s"
  "sv_auto_go (add_log e s) = sv_auto_go s"
  "sv_lobby (add_log e s) = sv_lobby s"
  "sv_by_name (add_log e s) = sv_by_name s"
  "sv_clients (add_log e s) = sv_clients s"
  "sv_sel (add_log e s) = sv_sel s"
  "sv_stats (add_log e s) = sv_stats s"
  "sv_last_stats (add_log e s) = sv_last_stats s"
  "sv_client (add_log e s) = sv_client s"
  "sv_nclient (add_log e s) = sv_nclient s"
  "sv_room (add_log e s) = sv_room s"
  "sv_nroom (add_log e s) = sv_nroom s"
  "sv_net (add_log e s) = sv_net s"
  "sv_rand (add_log e s) = sv_rand s"
  "sv_draws (add_log e s) = sv_draws s"
  by (simp_all add: add_log_def)

lemmas access_defs = is_dead_def members_def name_of_def room_of_def

lemma list_index_in: "x \<in> set xs \<Longrightarrow> \<exists>n. list_index xs x = Inr n \<and> n < length xs \<and> xs ! n = x"
  by (induction xs) fastforce+

lemma list_index_Inr: "list_index xs x = Inr n \<Longrightarrow> n < length xs \<and> xs ! n = x"
  by (induction xs arbitrary: n) (auto split: if_splits sum.splits)

lemma list_index_nth: "distinct xs \<Longrightarrow> n < length xs \<Longrightarrow> list_index xs (xs ! n) = Inr n"
  by (induction xs arbitrary: n) (auto simp: nth_Cons split: nat.splits)

lemma pad_names_ok:
  "(\<And>n. n \<in> set ns \<Longrightarrow> \<exists>m. n = Some m \<and> valid_name m) \<Longrightarrow>
     \<exists>b. pad_names ns = Inr b \<and> length b = 8 * length ns"
proof (induction ns)
  case (Cons n ns)
  then obtain m where m: "n = Some m" "valid_name m" by auto
  then obtain b where b: "pad_name n = Inr b" by (simp add: pad_name_valid)
  moreover obtain bs where "pad_names ns = Inr bs" "length bs = 8 * length ns"
    using Cons by auto
  ultimately show ?case by (simp add: pad_name_length)
qed simp

lemma roster_ok:
  assumes "\<And>m. m \<in> set (members s r) \<Longrightarrow> \<exists>n. name_of s m = Some n \<and> valid_name n"
    and "length (members s r) \<le> ROSTER_SLOTS"
  shows "\<exists>b. roster s r = Inr b \<and> length b = 8 * ROSTER_SLOTS"
proof -
  have "\<exists>b. pad_names (map (name_of s) (members s r)) = Inr b
          \<and> length b = 8 * length (map (name_of s) (members s r))"
    using assms(1) by (intro pad_names_ok) auto
  then show ?thesis using assms(2) by (auto simp: roster_def algebra_simps)
qed

end
