(* ===== verification/Plumbing.thy ===== *)
theory Plumbing
  imports RelayState
begin

text \<open>
  Sending and dropping: \<open>send\<close>, \<open>flush\<close>, \<open>_update_events\<close>, \<open>lobby_update\<close>,
  \<open>room_broadcast\<close>, \<open>dissolve\<close> and \<open>drop\<close> of \<open>Server\<close>. They call each other: a failed send
  drops the client, and dropping it announces the loss to its room by sending. The definitions
  take the callee that closes the circle, \<open>drp\<close>, as their first argument; \<open>drop\<close> ties the knot
  with as many levels as there are living clients, and \<open>drop_eq\<close> shows that it satisfies the
  recursive equation of the source for every client and state.
\<close>

section \<open>lobby_update\<close>

definition lobby_update :: "server \<Rightarrow> server" where
  "lobby_update s =
     (case sv_lobby s of
        None \<Rightarrow> s
      | Some p \<Rightarrow> s\<lparr>sv_lobby := Some (pub_update (length (sv_by_name s)) p)\<rparr>)"

section \<open>send and flush\<close>

text \<open>
  The loop of \<open>flush\<close>: what the socket does from its \<open>k\<close>-th call on decides. It returns how the
  loop ended, the number of calls made, the bytes still queued, and the bytes the socket took.
\<close>

datatype flush_end = FlushDone | FlushFail why

function flush_loop ::
  "(nat \<Rightarrow> send_outcome) \<Rightarrow> nat \<Rightarrow> bytes \<Rightarrow> bytes \<Rightarrow> flush_end \<times> nat \<times> bytes \<times> bytes" where
  "flush_loop sock k tx took =
     (if tx = [] then (FlushDone, k, tx, took)
      else (case sock k of
              SBlocks \<Rightarrow> (FlushDone, Suc k, tx, took)
            | SError \<Rightarrow> (FlushFail WhySendError, Suc k, tx, took)
            | SSent n \<Rightarrow>
                if n = 0 then (FlushFail WhySendZero, Suc k, tx, took)
                else flush_loop sock (Suc k) (drop n tx) (took @ take n tx)))"
  by pat_completeness auto
termination
  by (relation "measure (\<lambda>(sock, k, tx, took). length tx)") auto

declare flush_loop.simps [simp del]

definition update_events :: "cid \<Rightarrow> server \<Rightarrow> server" where
  "update_events c s =
     (case sv_sel s c of
        None \<Rightarrow> s
      | Some _ \<Rightarrow> s\<lparr>sv_sel := (sv_sel s)(c \<mapsto> (cl_tx (sv_client s c) \<noteq> []))\<rparr>)"

definition flush :: "(cid \<Rightarrow> why \<Rightarrow> unit srv) \<Rightarrow> cid \<Rightarrow> unit srv" where
  "flush drp c =
     bnd (gets (\<lambda>s. flush_loop (sv_net s c) (cl_calls (sv_client s c)) (cl_tx (sv_client s c)) []))
       (\<lambda>(fin, k, tx, took).
          bnd (modify (upd_client c
                 (\<lambda>cl. cl\<lparr>cl_calls := k, cl_tx := tx, cl_sent := cl_sent cl @ took\<rparr>)))
            (\<lambda>_. case fin of
                    FlushFail w \<Rightarrow> drp c w
                  | FlushDone \<Rightarrow> modify (update_events c)))"

definition count_backlog_drop :: "server \<Rightarrow> server" where
  "count_backlog_drop s =
     s\<lparr>sv_stats := (sv_stats s)\<lparr>st_tx_backlog_drops := Suc (st_tx_backlog_drops (sv_stats s))\<rparr>\<rparr>"

definition queue :: "cid \<Rightarrow> bytes \<Rightarrow> server \<Rightarrow> server" where
  "queue c data = upd_client c (\<lambda>cl. cl\<lparr>cl_tx := cl_tx cl @ data\<rparr>)"

definition send :: "(cid \<Rightarrow> why \<Rightarrow> unit srv) \<Rightarrow> cid \<Rightarrow> bytes \<Rightarrow> unit srv" where
  "send drp c data =
     bnd (gets (\<lambda>s. is_dead s c)) (\<lambda>dead.
       if dead then ret ()
       else bnd (gets (\<lambda>s. length (cl_tx (sv_client s c)))) (\<lambda>queued.
         if MAX_TX_BACKLOG < queued + length data
         then bnd (modify count_backlog_drop) (\<lambda>_. drp c WhyBacklog)
         else bnd (modify (queue c data)) (\<lambda>_. flush drp c)))"

section \<open>Iterating over a room\<close>

text \<open>
  \<open>for m in room.members\<close>: a Python list iterator is an index, and looks at the list anew at
  each step, so members that leave during the loop shift the rest. The first argument bounds the
  number of steps; the loops start it at the length of the list, which no operation in their
  bodies makes longer (\<open>walk_enough\<close>).
\<close>

fun walk :: "nat \<Rightarrow> rid \<Rightarrow> nat \<Rightarrow> (nat \<Rightarrow> cid \<Rightarrow> unit srv) \<Rightarrow> unit srv" where
  "walk 0 r i f = ret ()"
| "walk (Suc n) r i f =
     bnd (gets (\<lambda>s. members s r)) (\<lambda>ms.
       if i < length ms then bnd (f i (ms ! i)) (\<lambda>_. walk n r (Suc i) f) else ret ())"

definition for_members :: "rid \<Rightarrow> (nat \<Rightarrow> cid \<Rightarrow> unit srv) \<Rightarrow> unit srv" where
  "for_members r f = bnd (gets (\<lambda>s. length (members s r))) (\<lambda>n. walk n r 0 f)"

section \<open>room_broadcast, dissolve, drop\<close>

definition room_payload :: "server \<Rightarrow> rid \<Rightarrow> exn + bytes" where
  "room_payload s r =
     (case mk_byte (int (length (members s r))) of
        Inl e \<Rightarrow> Inl e
      | Inr n \<Rightarrow> (case roster s r of Inl e \<Rightarrow> Inl e | Inr b \<Rightarrow> Inr (n # b)))"

definition room_broadcast :: "(cid \<Rightarrow> why \<Rightarrow> unit srv) \<Rightarrow> rid \<Rightarrow> unit srv" where
  "room_broadcast drp r =
     bnd (gets (\<lambda>s. room_payload s r)) (\<lambda>p. bnd (lift p) (\<lambda>payload.
       for_members r (\<lambda>_ m. bnd (lift (frame T_ROOM payload)) (send drp m))))"

text \<open>\<open>for m in list(room.members): m.room = None\<close>.\<close>

definition detach_members :: "rid \<Rightarrow> server \<Rightarrow> server" where
  "detach_members r s = fold (\<lambda>m. upd_client m (\<lambda>cl. cl\<lparr>cl_room := None\<rparr>)) (members s r) s"

definition clear_members :: "rid \<Rightarrow> server \<Rightarrow> server" where
  "clear_members r = upd_room r (\<lambda>rm. rm\<lparr>rm_members := []\<rparr>)"

definition dissolve :: "(cid \<Rightarrow> why \<Rightarrow> unit srv) \<Rightarrow> rid \<Rightarrow> cid list \<Rightarrow> unit srv" where
  "dissolve drp r notify =
     seqs [
       modify (detach_members r),
       for_each notify (\<lambda>m. bnd (lift (frame T_ROOM (0 # replicate 32 0))) (send drp m)),
       modify (clear_members r)]"

text \<open>The part of \<open>drop\<close> from \<open>room = client.room\<close> on, for a client that is in a room.\<close>

definition peer_left :: "server \<Rightarrow> cid \<Rightarrow> nat \<Rightarrow> exn + bytes" where
  "peer_left s c st =
     (case mk_byte (int st) of
        Inl e \<Rightarrow> Inl e
      | Inr b \<Rightarrow> (case pad_name (name_of s c) of
                    Inl e \<Rightarrow> Inl e
                  | Inr p \<Rightarrow> frame T_PEER_LEFT (b # p)))"

definition remove_member :: "cid \<Rightarrow> rid \<Rightarrow> unit srv" where
  "remove_member c r s =
     (case list_remove (members s r) c of
        Inl e \<Rightarrow> (Inl e, s)
      | Inr ms \<Rightarrow> (Inr (), upd_room r (\<lambda>rm. rm\<lparr>rm_members := ms\<rparr>) s))"

definition end_match :: "(cid \<Rightarrow> why \<Rightarrow> unit srv) \<Rightarrow> cid \<Rightarrow> rid \<Rightarrow> nat \<Rightarrow> unit srv" where
  "end_match drp c r st =
     bnd (modify (\<lambda>s. add_log (LMatchEnded (rm_crc_ok (sv_room s r)) (client_repr s c) st) s)) (\<lambda>_.
     bnd (gets (\<lambda>s. peer_left s c st)) (\<lambda>p. bnd (lift p) (\<lambda>pl.
     bnd (gets (\<lambda>s. members s r)) (\<lambda>survivors.
       seqs [
         dissolve drp r [],
         for_each survivors (\<lambda>m. seqs [
           send drp m pl,
           modify (\<lambda>s. add_log (LBackToLobby (client_repr s m)) s)])]))))"

definition leave_forming :: "(cid \<Rightarrow> why \<Rightarrow> unit srv) \<Rightarrow> rid \<Rightarrow> nat \<Rightarrow> unit srv" where
  "leave_forming drp r st =
     (if st = 0 then
        bnd (modify (\<lambda>s. add_log (LDissolvedHostLeft (room_repr s r)) s)) (\<lambda>_.
        bnd (gets (\<lambda>s. members s r)) (\<lambda>notify. dissolve drp r notify))
      else
        bnd (gets (\<lambda>s. members s r)) (\<lambda>left.
          if length left < 2 then dissolve drp r left else room_broadcast drp r))"

definition leave_room :: "(cid \<Rightarrow> why \<Rightarrow> unit srv) \<Rightarrow> cid \<Rightarrow> rid \<Rightarrow> unit srv" where
  "leave_room drp c r =
     bnd (gets (\<lambda>s. list_index (members s r) c)) (\<lambda>idx. bnd (lift idx) (\<lambda>st.
     bnd (modify (upd_client c (\<lambda>cl. cl\<lparr>cl_room := None\<rparr>))) (\<lambda>_.
     bnd (remove_member c r) (\<lambda>_.
     bnd (gets (\<lambda>s. rm_started (sv_room s r))) (\<lambda>started.
     bnd (if started then end_match drp c r st else leave_forming drp r st)
       (\<lambda>_. modify lobby_update))))))"

text \<open>The part before: nothing in it calls back.\<close>

definition mark_dead :: "cid \<Rightarrow> why \<Rightarrow> server \<Rightarrow> server" where
  "mark_dead c w s =
     (let s1 = upd_client c (\<lambda>cl. cl\<lparr>cl_dead := True\<rparr>) s;
          s2 = add_log (LDrop (client_repr s1 c) w) s1;
          s3 = s2\<lparr>sv_sel := (sv_sel s2)(c := None)\<rparr>
      in s3\<lparr>sv_clients := filter (\<lambda>x. x \<noteq> c) (sv_clients s3)\<rparr>)"

definition forget_names :: "cid \<Rightarrow> server \<Rightarrow> server" where
  "forget_names c s =
     (let stale = map fst (filter (\<lambda>(n, x). x = c) (sv_by_name s));
          s1 = s\<lparr>sv_by_name := fold (\<lambda>n d. ddel d n) stale (sv_by_name s)\<rparr>
      in if stale = [] then s1 else lobby_update s1)"

definition drop_body :: "(cid \<Rightarrow> why \<Rightarrow> unit srv) \<Rightarrow> cid \<Rightarrow> why \<Rightarrow> unit srv" where
  "drop_body drp c w =
     bnd (gets (\<lambda>s. is_dead s c)) (\<lambda>dead.
       if dead then ret ()
       else
         bnd (modify (mark_dead c w)) (\<lambda>_.
         bnd (modify (forget_names c)) (\<lambda>_.
         bnd (gets (\<lambda>s. room_of s c)) (\<lambda>room.
           case room of None \<Rightarrow> ret () | Some r \<Rightarrow> leave_room drp c r))))"

text \<open>
  \<open>n\<close> levels of \<open>drop\<close>. Below the last level every client is dead, and dropping a dead client
  does nothing.
\<close>

fun drop_n :: "nat \<Rightarrow> cid \<Rightarrow> why \<Rightarrow> unit srv" where
  "drop_n 0 = (\<lambda>c w. ret ())"
| "drop_n (Suc n) = drop_body (drop_n n)"

definition nlive :: "server \<Rightarrow> nat" where
  "nlive s = length (filter (\<lambda>c. \<not> cl_dead (sv_client s c)) [0..<sv_nclient s])"

definition drop_client :: "cid \<Rightarrow> why \<Rightarrow> unit srv" where
  "drop_client c w s = drop_n (nlive s) c w s"

section \<open>What none of these operations touches\<close>

text \<open>
  \<open>calm s t\<close>: from \<open>s\<close> to \<open>t\<close> no object was made, nobody came back to life, no receive
  buffer, name or room history changed, rooms and the name table only lost entries, clients only
  left rooms, and output streams and the log only grew (a dead client's stream not at all).
\<close>

definition calm :: "server \<Rightarrow> server \<Rightarrow> bool" where
  "calm s t \<longleftrightarrow>
     sv_nclient t = sv_nclient s \<and> sv_nroom t = sv_nroom s \<and> sv_net t = sv_net s \<and>
     sv_rand t = sv_rand s \<and> sv_draws t = sv_draws s \<and> sv_delay t = sv_delay s \<and>
     sv_auto_go t = sv_auto_go s \<and> sv_last_stats t = sv_last_stats s \<and>
     set (sv_by_name t) \<subseteq> set (sv_by_name s) \<and>
     set (sv_clients t) \<subseteq> set (sv_clients s) \<and>
     (\<exists>l. sv_log t = sv_log s @ l) \<and>
     (\<forall>c. (cl_dead (sv_client s c) \<longrightarrow> cl_dead (sv_client t c)) \<and>
          cl_rx (sv_client t c) = cl_rx (sv_client s c) \<and>
          cl_name (sv_client t c) = cl_name (sv_client s c) \<and>
          cl_addr (sv_client t c) = cl_addr (sv_client s c) \<and>
          cl_connected_at (sv_client t c) = cl_connected_at (sv_client s c) \<and>
          (cl_room (sv_client t c) = None \<or> cl_room (sv_client t c) = cl_room (sv_client s c)) \<and>
          (\<exists>ext. stream t c = stream s c @ ext) \<and>
          (is_dead s c \<longrightarrow> stream t c = stream s c)) \<and>
     (\<forall>r. set (members t r) \<subseteq> set (members s r) \<and>
          length (members t r) \<le> length (members s r) \<and>
          rm_started (sv_room t r) = rm_started (sv_room s r) \<and>
          rm_seed (sv_room t r) = rm_seed (sv_room s r) \<and>
          rm_crc (sv_room t r) = rm_crc (sv_room s r) \<and>
          rm_crc_ok (sv_room t r) = rm_crc_ok (sv_room s r))"

lemma calm_refl: "calm s s"
  by (simp add: calm_def)

lemma calm_dead: "calm s t \<Longrightarrow> is_dead s c \<Longrightarrow> is_dead t c"
  by (auto simp: calm_def is_dead_def)

lemma calm_stream: "calm s t \<Longrightarrow> \<exists>ext. stream t c = stream s c @ ext"
  by (simp add: calm_def)

lemma calm_stream_dead: "calm s t \<Longrightarrow> is_dead s c \<Longrightarrow> stream t c = stream s c"
  by (simp add: calm_def)

lemma calm_trans:
  assumes "calm s t" "calm t u"
  shows "calm s u"
proof -
  have "\<exists>ext. stream u c = stream s c @ ext" for c
    using assms [THEN calm_stream, of c] by auto
  moreover have "\<exists>l. sv_log u = sv_log s @ l"
    using assms by (auto simp: calm_def)
  moreover have "stream u c = stream s c" if "is_dead s c" for c
    using that assms calm_dead calm_stream_dead by metis
  moreover have "cl_room (sv_client u c) = None \<or> cl_room (sv_client u c) = cl_room (sv_client s c)" for c
    using assms by (metis calm_def)
  moreover have "set (members u r) \<subseteq> set (members s r) \<and> length (members u r) \<le> length (members s r)" for r
    using assms by (meson calm_def order_trans)
  moreover have "set (sv_by_name u) \<subseteq> set (sv_by_name s)" "set (sv_clients u) \<subseteq> set (sv_clients s)"
    using assms by (auto simp: calm_def)
  ultimately show ?thesis
    using assms unfolding calm_def by simp
qed

interpretation calm: preorder_rel calm
  by unfold_locales (fact calm_refl, erule (1) calm_trans)

lemma calm_log: "calm s (add_log e s)"
  by (simp add: calm_def stream_def members_def)

lemma calm_lobby: "calm s (lobby_update s)"
  by (auto simp: calm_def stream_def members_def lobby_update_def split: option.split)

lemma calm_backlog: "calm s (count_backlog_drop s)"
  by (auto simp: calm_def stream_def members_def count_backlog_drop_def)

lemma calm_events: "calm s (update_events c s)"
  by (auto simp: calm_def stream_def members_def update_events_def split: option.split)

lemma calm_queue: "\<not> is_dead s c \<Longrightarrow> calm s (queue c d s)"
  by (auto simp: calm_def stream_def members_def queue_def)

lemma calm_upd_client:
  assumes "\<And>cl. cl_dead cl \<Longrightarrow> cl_dead (f cl)" "\<And>cl. cl_rx (f cl) = cl_rx cl"
    "\<And>cl. cl_name (f cl) = cl_name cl" "\<And>cl. cl_addr (f cl) = cl_addr cl"
    "\<And>cl. cl_connected_at (f cl) = cl_connected_at cl"
    "\<And>cl. cl_room (f cl) = None \<or> cl_room (f cl) = cl_room cl"
    "cl_sent (f (sv_client s c)) @ cl_tx (f (sv_client s c)) = stream s c"
  shows "calm s (upd_client c f s)"
  using assms by (auto simp: calm_def stream_def members_def)

lemma calm_detach: "calm s (detach_members r s)"
proof -
  have "calm s (fold (\<lambda>m. upd_client m (\<lambda>cl. cl\<lparr>cl_room := None\<rparr>)) ms s)" for ms
  proof (induction ms arbitrary: s)
    case (Cons m ms)
    have "calm s (upd_client m (\<lambda>cl. cl\<lparr>cl_room := None\<rparr>) s)"
      by (rule calm_upd_client) (simp_all add: stream_def)
    with Cons show ?case by (auto intro: calm_trans)
  qed (simp add: calm_refl)
  then show ?thesis by (simp add: detach_members_def)
qed

lemma calm_clear: "calm s (clear_members r s)"
  by (auto simp: calm_def stream_def members_def clear_members_def)

lemma calm_set_members:
  "set ms \<subseteq> set (members s r) \<Longrightarrow> length ms \<le> length (members s r) \<Longrightarrow>
     calm s (upd_room r (\<lambda>rm. rm\<lparr>rm_members := ms\<rparr>) s)"
  by (auto simp: calm_def stream_def members_def)

lemma calm_mark_dead: "calm s (mark_dead c w s)"
  by (auto simp: calm_def stream_def members_def mark_dead_def Let_def)

lemma fold_ddel_subset: "set (fold (\<lambda>n d. ddel d n) ns d) \<subseteq> set d"
proof (induction ns arbitrary: d)
  case (Cons n ns)
  have "set (ddel d n) \<subseteq> set d" by (auto simp: ddel_def)
  with Cons [of "ddel d n"] show ?case by auto
qed simp

lemma calm_forget_names: "calm s (forget_names c s)"
proof -
  define t where "t = s\<lparr>sv_by_name :=
    fold (\<lambda>n d. ddel d n) (map fst (filter (\<lambda>(n, x). x = c) (sv_by_name s))) (sv_by_name s)\<rparr>"
  have "calm s t"
    using fold_ddel_subset by (simp add: t_def calm_def stream_def members_def is_dead_def)
  moreover have "forget_names c s = t \<or> forget_names c s = lobby_update t"
    by (simp add: forget_names_def t_def Let_def)
  ultimately show ?thesis using calm_lobby calm_trans by metis
qed

lemma list_remove_Inr: "list_remove xs x = Inr ys \<Longrightarrow> set ys \<subseteq> set xs \<and> length ys \<le> length xs"
  by (auto simp: list_remove_def length_remove1 dest: notin_set_remove1 set_remove1_subset [THEN subsetD]
      split: if_splits)

lemma calm_remove_member: "keeps calm (remove_member c r)"
  by (auto simp: keeps_def remove_member_def calm_refl
      intro: calm_set_members dest: list_remove_Inr split: sum.split)

section \<open>The contract of the callee\<close>

lemma flush_loop_keeps:
  "flush_loop sock k tx took = (fin, k', tx', took') \<Longrightarrow> took' @ tx' = took @ tx"
proof (induction sock k tx took arbitrary: fin k' tx' took' rule: flush_loop.induct)
  case (1 sock k tx took)
  show ?case
  proof (cases "tx = []")
    case True
    with "1.prems" show ?thesis by (simp add: flush_loop.simps)
  next
    case False
    with 1 show ?thesis
      by (auto simp: flush_loop.simps [of sock k tx] split: send_outcome.splits if_splits)
  qed
qed

text \<open>
  A frame condition that the sends and the single updates of \<open>drop\<close> stay in is one of everything
  built from them.
\<close>

locale sender = preorder_rel R for R :: "server \<Rightarrow> server \<Rightarrow> bool" +
  fixes drp :: "cid \<Rightarrow> why \<Rightarrow> unit srv"
  assumes send_R: "keeps R (send drp c data)"
    and log_R: "R s (add_log e s)"
    and lobby_R: "R s (lobby_update s)"
    and detach_R: "R s (detach_members r s)"
    and clear_R: "R s (clear_members r s)"
    and leave_R: "R s (upd_client c (\<lambda>cl. cl\<lparr>cl_room := None\<rparr>) s)"
    and remove_R: "keeps R (remove_member c r)"
    and mark_dead_R: "R s (mark_dead c w s)"
    and forget_names_R: "R s (forget_names c s)"
begin

lemma kp_send_lift: "keeps R (bnd (lift d) (send drp m))"
  by (intro kp_bnd kp_lift send_R)

lemma kp_log: "keeps R (modify (\<lambda>s. add_log (e s) s))"
  by (intro keeps_modify log_R)

lemma kp_lobby: "keeps R (modify lobby_update)"
  by (intro keeps_modify lobby_R)

lemma kp_walk: "(\<And>i m. keeps R (f i m)) \<Longrightarrow> keeps R (walk n r i f)"
proof (induction n arbitrary: i)
  case 0
  show ?case by (simp add: kp_ret)
next
  case (Suc n)
  then have "keeps R (walk n r (Suc i) f)" by blast
  with Suc.prems show ?case unfolding walk.simps by (intro kp_rules) auto
qed

lemma kp_for_members: "(\<And>i m. keeps R (f i m)) \<Longrightarrow> keeps R (for_members r f)"
  unfolding for_members_def by (intro kp_bnd kp_gets kp_walk)

lemma kp_room_broadcast: "keeps R (room_broadcast drp r)"
  unfolding room_broadcast_def
  by (intro kp_bnd kp_gets kp_lift kp_for_members kp_send_lift)

lemma kp_dissolve: "keeps R (dissolve drp r notify)"
  unfolding dissolve_def
  by (auto intro!: kp_bnd kp_ret kp_for_each send_R kp_lift keeps_modify detach_R clear_R)

lemma kp_end_match: "keeps R (end_match drp c r st)"
  unfolding end_match_def
  by (intro kp_rules kp_log) (auto intro!: kp_rules send_R kp_dissolve kp_log)

lemma kp_leave_forming: "keeps R (leave_forming drp r st)"
  unfolding leave_forming_def
  by (intro kp_rules kp_log kp_dissolve kp_room_broadcast)

lemma kp_leave_room: "keeps R (leave_room drp c r)"
  unfolding leave_room_def
  by (intro kp_rules keeps_modify leave_R remove_R kp_end_match kp_leave_forming lobby_R)

lemma kp_drop_body: "keeps R (drop_body drp c w)"
  unfolding drop_body_def
  by (auto intro!: kp_bnd kp_gets kp_ret keeps_modify mark_dead_R forget_names_R kp_leave_room split: option.split)

end

text \<open>
  Sending and dropping rely on the callee \<open>drp\<close> for one thing only: that it is \<open>calm\<close>. Then so
  is everything built from it.
\<close>

locale dropper =
  fixes drp :: "cid \<Rightarrow> why \<Rightarrow> unit srv"
  assumes drp_calm: "keeps calm (drp c w)"
begin

lemma flush_calm: "keeps calm (flush drp c)"
  unfolding keeps_def
proof
  fix s :: server
  obtain fin k tx took where l:
    "flush_loop (sv_net s c) (cl_calls (sv_client s c)) (cl_tx (sv_client s c)) [] = (fin, k, tx, took)"
    by (metis prod_cases4)
  define t where "t = upd_client c (\<lambda>cl. cl\<lparr>cl_calls := k, cl_tx := tx, cl_sent := cl_sent cl @ took\<rparr>) s"
  have "calm s t"
    unfolding t_def using flush_loop_keeps [OF l] by (intro calm_upd_client) (auto simp: stream_def)
  moreover have "calm t (snd (flush drp c s))"
    using drp_calm calm_events l by (cases fin) (auto simp: flush_def t_def keeps_def modify_def)
  ultimately show "calm s (snd (flush drp c s))" by (rule calm_trans)
qed

lemma send_calm: "keeps calm (send drp c data)"
  unfolding keeps_def
proof
  fix s :: server
  show "calm s (snd (send drp c data s))"
  proof (cases "is_dead s c")
    case False
    have "calm (queue c data s) (snd (flush drp c (queue c data s)))"
      using flush_calm by (simp add: keeps_def)
    moreover have "calm (count_backlog_drop s) (snd (drp c WhyBacklog (count_backlog_drop s)))"
      using drp_calm by (simp add: keeps_def)
    ultimately show ?thesis
      using False calm_queue calm_backlog calm_trans by (simp add: send_def) metis
  qed (simp add: send_def ret_def calm_refl)
qed

sublocale frame: sender calm drp
proof unfold_locales
  show "calm s (upd_client c (\<lambda>cl. cl\<lparr>cl_room := None\<rparr>) s)" for c s
    by (rule calm_upd_client) (simp_all add: stream_def)
qed (fact send_calm calm_log calm_lobby calm_detach calm_clear calm_remove_member calm_mark_dead calm_forget_names)+

lemmas send_lift_calm = frame.kp_send_lift
lemmas walk_calm = frame.kp_walk
lemmas for_members_calm = frame.kp_for_members
lemmas room_broadcast_calm = frame.kp_room_broadcast
lemmas dissolve_calm = frame.kp_dissolve
lemmas lobby_calm = frame.kp_lobby
lemmas log_calm = frame.kp_log
lemmas end_match_calm = frame.kp_end_match
lemmas leave_forming_calm = frame.kp_leave_forming
lemmas leave_room_calm = frame.kp_leave_room
lemmas drop_body_calm = frame.kp_drop_body

end

text \<open>Every level of \<open>drop\<close> keeps the contract, and so does \<open>drop\<close> itself.\<close>

lemma dropper_drop_n: "dropper (drop_n n)"
proof (induction n)
  case 0
  show ?case by unfold_locales (simp add: calm.kp_ret)
next
  case (Suc n)
  then show ?case by (auto intro: dropper.intro dropper.drop_body_calm)
qed

interpretation drops: dropper drop_client
proof
  show "keeps calm (drop_client c w)" for c w
    using dropper.drp_calm [OF dropper_drop_n] by (simp add: keeps_def drop_client_def)
qed

end
