(* ===== verification/DropEq.thy ===== *)
theory DropEq
  imports Plumbing
begin

text \<open>
  \<open>drop\<close> terminates and satisfies the recursive equation of the source: dropping a living
  client leaves fewer living clients, so as many levels as there are living clients are enough,
  and further levels change nothing. Likewise the bounds of the loops over a room are enough.
\<close>

section \<open>Living clients\<close>

lemma nlive_card: "nlive s = card {c. c < sv_nclient s \<and> \<not> cl_dead (sv_client s c)}"
proof -
  have "nlive s = card (set (filter (\<lambda>c. \<not> cl_dead (sv_client s c)) [0..<sv_nclient s]))"
    unfolding nlive_def by (intro distinct_card [symmetric] distinct_filter distinct_upt)
  moreover have "set (filter (\<lambda>c. \<not> cl_dead (sv_client s c)) [0..<sv_nclient s])
      = {c. c < sv_nclient s \<and> \<not> cl_dead (sv_client s c)}" by auto
  ultimately show ?thesis by simp
qed

lemma nlive_mono: "calm s t \<Longrightarrow> nlive t \<le> nlive s"
  unfolding nlive_card by (rule card_mono) (auto simp: calm_def)

lemma nlive_less: "calm s t \<Longrightarrow> \<not> is_dead s c \<Longrightarrow> is_dead t c \<Longrightarrow> nlive t < nlive s"
  unfolding nlive_card by (rule psubset_card_mono) (auto simp: calm_def is_dead_def)

lemma nlive_0: "nlive s = 0 \<Longrightarrow> is_dead s c"
  by (auto simp: nlive_def is_dead_def filter_empty_conv)

lemma mark_dead_dead: "is_dead (mark_dead c w s) c"
  by (simp add: mark_dead_def is_dead_def Let_def)

lemma nlive_mark_dead: "\<not> is_dead s c \<Longrightarrow> nlive (mark_dead c w s) < nlive s"
  using nlive_less calm_mark_dead mark_dead_dead by blast

lemma nlive_upd_client:
  assumes "\<And>cl. cl_dead (f cl) = cl_dead cl"
  shows "nlive (upd_client c f s) = nlive s"
proof -
  have "(\<lambda>x. \<not> cl_dead (sv_client (upd_client c f s) x)) = (\<lambda>x. \<not> cl_dead (sv_client s x))"
    using assms by (auto simp: fun_eq_iff)
  then show ?thesis by (simp add: nlive_def del: upd_client_simps(1))
qed

abbreviation few :: "nat \<Rightarrow> server \<Rightarrow> bool" where
  "few n s \<equiv> nlive s \<le> n"

lemma stays_few: "keeps calm m \<Longrightarrow> stays (few n) m"
  by (erule keeps_stays) (use nlive_mono in \<open>fastforce\<close>)

section \<open>Enough levels\<close>

locale two_droppers =
  fixes d :: "cid \<Rightarrow> why \<Rightarrow> unit srv" and e :: "cid \<Rightarrow> why \<Rightarrow> unit srv" and n :: nat
  assumes d_calm: "keeps calm (d c w)"
    and de: "agree (few n) (d c w) (e c w)"
begin

sublocale dropper d
  by unfold_locales (rule d_calm)

lemma ag_const: "agree (few n) m m"
  by (rule agree_refl)

lemma ag_flush: "agree (few n) (flush d c) (flush e c)"
  unfolding flush_def
proof (rule agree_bnd [OF ag_const])
  show "stays (few n) (gets f)" for f :: "server \<Rightarrow> 'x" by (simp add: stays_def gets_def)
  show "agree (few n)
    (case x of (fin, k, tx, took) \<Rightarrow>
       bnd (modify (upd_client c (\<lambda>cl. cl\<lparr>cl_calls := k, cl_tx := tx, cl_sent := cl_sent cl @ took\<rparr>)))
         (\<lambda>_. case fin of FlushFail w \<Rightarrow> d c w | FlushDone \<Rightarrow> modify (update_events c)))
    (case x of (fin, k, tx, took) \<Rightarrow>
       bnd (modify (upd_client c (\<lambda>cl. cl\<lparr>cl_calls := k, cl_tx := tx, cl_sent := cl_sent cl @ took\<rparr>)))
         (\<lambda>_. case fin of FlushFail w \<Rightarrow> e c w | FlushDone \<Rightarrow> modify (update_events c)))" for x
  proof (cases x)
    case (fields fin k tx took)
    have "stays (few n) (modify (upd_client c (\<lambda>cl. cl\<lparr>cl_calls := k, cl_tx := tx, cl_sent := cl_sent cl @ took\<rparr>)))"
      by (simp add: stays_def modify_def nlive_upd_client)
    then show ?thesis
      using de fields by (auto intro!: agree_bnd [OF ag_const] agree_refl split: flush_end.split)
  qed
qed

lemma stays_gets: "stays (few n) (gets f)"
  by (simp add: stays_def gets_def)

lemma stays_lift: "stays (few n) (lift r)"
  by (simp add: stays_def lift_def)

lemmas ag_rules = agree_refl agree_bnd [OF agree_refl stays_gets] agree_bnd [OF agree_refl stays_lift]

lemma ag_send: "agree (few n) (send d c data) (send e c data)"
proof -
  have q: "stays (few n) (modify (queue c data))"
    by (simp add: stays_def modify_def nlive_upd_client queue_def)
  have b: "stays (few n) (modify count_backlog_drop)"
    by (simp add: stays_def modify_def nlive_def count_backlog_drop_def)
  show ?thesis
    unfolding send_def
    by (intro ag_rules) (auto intro!: ag_rules agree_bnd [OF agree_refl q] agree_bnd [OF agree_refl b]
        ag_flush de)
qed

lemma ag_send_lift: "agree (few n) (bnd (lift x) (send d m)) (bnd (lift x) (send e m))"
  by (intro ag_rules ag_send)

lemma ag_walk:
  assumes "\<And>i m. agree (few n) (f i m) (g i m)" "\<And>i m. keeps calm (f i m)"
  shows "agree (few n) (walk k r i f) (walk k r i g)"
proof (induction k arbitrary: i)
  case (Suc k)
  have "agree (few n) (bnd (f i m) (\<lambda>_. walk k r (Suc i) f)) (bnd (g i m) (\<lambda>_. walk k r (Suc i) g))" for m
    using assms Suc by (intro agree_bnd stays_few)
  then show ?case unfolding walk.simps by (intro ag_rules) (auto intro: agree_refl)
qed (simp add: agree_refl)

lemma ag_for_members:
  assumes "\<And>i m. agree (few n) (f i m) (g i m)" "\<And>i m. keeps calm (f i m)"
  shows "agree (few n) (for_members r f) (for_members r g)"
  unfolding for_members_def using assms by (intro ag_rules ag_walk)

lemma ag_room_broadcast: "agree (few n) (room_broadcast d r) (room_broadcast e r)"
  unfolding room_broadcast_def
  by (intro ag_rules ag_for_members ag_send_lift send_lift_calm)

lemma ag_dissolve: "agree (few n) (dissolve d r notify) (dissolve e r notify)"
proof -
  let ?f = "\<lambda>drp m. bnd (lift (frame T_ROOM (0 # replicate 32 0))) (send drp m)"
  have "agree (few n) (for_each notify (?f d)) (for_each notify (?f e))"
    by (intro agree_for_each ag_send_lift stays_few send_lift_calm)
  moreover have "keeps calm (for_each notify (?f d))"
    by (intro calm.kp_for_each send_lift_calm)
  moreover have "stays (few n) (modify (detach_members r))"
    by (intro stays_few keeps_modify calm_detach)
  ultimately show ?thesis
    unfolding dissolve_def seqs.simps
    by (intro agree_bnd agree_refl stays_few) (auto simp: keeps_modify calm_detach)
qed

lemma stays_log: "stays (few n) (modify (\<lambda>s. add_log (x s) s))"
  by (simp add: stays_def modify_def nlive_def)

lemma ag_end_match: "agree (few n) (end_match d c r st) (end_match e c r st)"
proof -
  let ?b = "\<lambda>drp pl m. seqs [send drp m pl, modify (\<lambda>s. add_log (LBackToLobby (client_repr s m)) s)]"
  have "agree (few n) (?b d pl m) (?b e pl m)" for pl m
    by (simp, intro agree_bnd ag_send agree_refl stays_few send_calm)
  moreover have "keeps calm (?b d pl m)" for pl m
    by (auto intro!: calm.kp_rules send_calm log_calm)
  ultimately have "agree (few n) (for_each ms (?b d pl)) (for_each ms (?b e pl))" for pl ms
    by (intro agree_for_each stays_few)
  then have "agree (few n) (seqs [dissolve d r [], for_each ms (?b d pl)])
      (seqs [dissolve e r [], for_each ms (?b e pl)])" for pl ms
    unfolding seqs.simps
    by (intro agree_bnd ag_dissolve agree_refl stays_few dissolve_calm)
      (auto intro!: calm.kp_rules send_calm log_calm)
  then show ?thesis
    unfolding end_match_def
    by (intro ag_rules agree_bnd [OF agree_refl stays_log])
qed

lemma ag_leave_forming: "agree (few n) (leave_forming d r st) (leave_forming e r st)"
proof (cases "st = 0")
  case True
  then show ?thesis
    unfolding leave_forming_def
    by (simp, intro ag_rules agree_bnd [OF agree_refl stays_log] ag_dissolve)
next
  case False
  have "agree (few n) (if length ms < 2 then dissolve d r ms else room_broadcast d r)
      (if length ms < 2 then dissolve e r ms else room_broadcast e r)" for ms
    by (simp add: ag_dissolve ag_room_broadcast)
  with False show ?thesis
    unfolding leave_forming_def by (simp, intro ag_rules)
qed

lemma ag_leave_room: "agree (few n) (leave_room d c r) (leave_room e c r)"
proof -
  have u: "stays (few n) (modify (upd_client c (\<lambda>cl. cl\<lparr>cl_room := None\<rparr>)))"
    by (simp add: stays_def modify_def nlive_upd_client)
  have m: "stays (few n) (remove_member c r)"
    by (intro stays_few calm_remove_member)
  have "agree (few n) (bnd (if started then end_match d c r st else leave_forming d r st) k)
    (bnd (if started then end_match e c r st else leave_forming e r st) k)" for started st k
    by (cases started)
      (auto intro!: agree_bnd ag_end_match ag_leave_forming agree_refl stays_few
        end_match_calm leave_forming_calm)
  then show ?thesis
    unfolding leave_room_def
    by (intro ag_rules agree_bnd [OF agree_refl u] agree_bnd [OF agree_refl m])
qed

text \<open>One level up, the states may have one more living client.\<close>

lemma ag_drop_body: "agree (few (Suc n)) (drop_body d c w) (drop_body e c w)"
  unfolding agree_def
proof (intro allI impI)
  fix s assume s: "few (Suc n) s"
  show "drop_body d c w s = drop_body e c w s"
  proof (cases "is_dead s c")
    case True
    then show ?thesis by (simp add: drop_body_def)
  next
    case False
    let ?t = "forget_names c (mark_dead c w s)"
    have "nlive ?t < nlive s"
      using False nlive_mark_dead nlive_mono [OF calm_forget_names] le_less_trans by blast
    with s have "few n ?t" by simp
    with False ag_leave_room show ?thesis
      by (auto simp: drop_body_def agree_def split: option.split)
  qed
qed

end

lemma agree_drop_n: "agree (few n) (drop_n n c w) (drop_n (Suc n) c w)"
proof (induction n arbitrary: c w)
  case 0
  show ?case by (auto simp: agree_def drop_body_def nlive_0)
next
  case (Suc n)
  have "two_droppers (drop_n n) (drop_n (Suc n)) n"
    using Suc dropper.drp_calm [OF dropper_drop_n]
    by (intro two_droppers.intro)
  then show ?case
    using two_droppers.ag_drop_body by simp
qed

lemma drop_n_more: "nlive s \<le> n \<Longrightarrow> drop_n (n + k) c w s = drop_n n c w s"
proof (induction k)
  case (Suc k)
  have "drop_n (Suc (n + k)) c w s = drop_n (n + k) c w s"
    using agree_drop_n Suc.prems unfolding agree_def by (metis trans_le_add1)
  with Suc show ?case by simp
qed simp

lemma drop_n_enough: "nlive s \<le> n \<Longrightarrow> drop_n n c w s = drop_client c w s"
  unfolding drop_client_def using drop_n_more [of s "nlive s" "n - nlive s"] by simp

interpretation levels: two_droppers "drop_n n" drop_client n for n
  using dropper.drp_calm [OF dropper_drop_n]
  by unfold_locales (simp_all add: agree_def drop_n_enough)

text \<open>The equation of the source.\<close>

lemma drop_unfold: "drop_client c w s = drop_body drop_client c w s"
proof (cases "nlive s")
  case 0
  then show ?thesis by (simp add: drop_client_def ret_def drop_body_def nlive_0)
next
  case (Suc n)
  then show ?thesis
    using levels.ag_drop_body by (simp add: drop_client_def agree_def)
qed

section \<open>Enough steps of the loops\<close>

lemma walk_more:
  assumes "\<And>i m. keeps calm (f i m)" "length (members s r) \<le> i + n"
  shows "walk (n + k) r i f s = walk n r i f s"
  using assms(2)
proof (induction n arbitrary: i s)
  case 0
  then show ?case by (cases k) auto
next
  case (Suc n)
  show ?case
  proof (cases "i < length (members s r)")
    case True
    obtain res t where f: "f i (members s r ! i) s = (res, t)" by fastforce
    then have "calm s t" using assms(1) by (metis keepsD snd_conv)
    then have "length (members t r) \<le> Suc i + n"
      using Suc.prems by (auto simp: calm_def elim!: allE [of _ r])
    with Suc.IH f True show ?thesis
      by (auto simp: bnd_def gets_def split: sum.split)
  qed simp
qed

end
