(* ===== verification/Invariant.thy ===== *)
theory Invariant
  imports DropEq
begin

text \<open>
  The consistency of the relay's state, \<open>INV\<close>, which every operation keeps: the name table, the
  connections (client set, selector, queues, limits), the rooms, the CRC tables, the player count
  handed to the lobby publisher, and the framing of every output stream. Each part is a predicate
  of its own; the lemmas say which state changes keep which part.
\<close>

section \<open>The parts\<close>

definition names_ok :: "server \<Rightarrow> bool" where
  "names_ok s \<longleftrightarrow>
     dwf (sv_by_name s) \<and>
     (\<forall>n c. (n, c) \<in> set (sv_by_name s) \<longrightarrow> c < sv_nclient s \<and> name_of s c = Some n) \<and>
     (\<forall>n c. \<not> is_dead s c \<and> name_of s c = Some n \<longrightarrow> (n, c) \<in> set (sv_by_name s)) \<and>
     (\<forall>n c. c < sv_nclient s \<and> name_of s c = Some n \<longrightarrow> valid_name n)"

definition clients_ok :: "server \<Rightarrow> bool" where
  "clients_ok s \<longleftrightarrow>
     distinct (sv_clients s) \<and>
     (\<forall>c. c \<in> set (sv_clients s) \<longleftrightarrow> \<not> is_dead s c) \<and>
     length (sv_clients s) \<le> MAX_CLIENTS \<and>
     (\<forall>ip. length (filter (\<lambda>c. fst (cl_addr (sv_client s c)) = ip) (sv_clients s))
             \<le> MAX_CONNECTIONS_PER_IP)"

text \<open>
  The selector watches exactly the living clients, and asks for writability exactly where bytes
  wait; \<open>X\<close> exempts the client whose queue is just being changed from the latter.
\<close>

definition queues_ok :: "cid set \<Rightarrow> server \<Rightarrow> bool" where
  "queues_ok X s \<longleftrightarrow>
     (\<forall>c. sv_sel s c = None \<longleftrightarrow> is_dead s c) \<and>
     (\<forall>c b. c \<notin> X \<and> sv_sel s c = Some b \<longrightarrow> b = (cl_tx (sv_client s c) \<noteq> [])) \<and>
     (\<forall>c. c < sv_nclient s \<longrightarrow> length (cl_tx (sv_client s c)) \<le> MAX_TX_BACKLOG)"

definition room_fine :: "server \<Rightarrow> rid \<Rightarrow> bool" where
  "room_fine s r \<longleftrightarrow>
     r < sv_nroom s \<and> distinct (members s r) \<and> length (members s r) \<le> MAX_SEATS \<and>
     (\<forall>m \<in> set (members s r). m < sv_nclient s \<and> room_of s m = Some r \<and> name_of s m \<noteq> None)"

text \<open>Rooms nobody refers to are garbage, and nothing is said about them.\<close>

definition rooms_ok :: "server \<Rightarrow> bool" where
  "rooms_ok s \<longleftrightarrow>
     (\<forall>c r. c < sv_nclient s \<and> room_of s c = Some r \<longrightarrow>
        c \<in> set (members s r) \<and> room_fine s r \<and> 2 \<le> length (members s r))"

definition crc_tables_ok :: "server \<Rightarrow> bool" where
  "crc_tables_ok s \<longleftrightarrow>
     (\<forall>r. dwf (rm_crc (sv_room s r)) \<and> length (rm_crc (sv_room s r)) \<le> 64)"

definition lobby_ok :: "server \<Rightarrow> bool" where
  "lobby_ok s \<longleftrightarrow>
     (case sv_lobby s of
        None \<Rightarrow> True
      | Some p \<Rightarrow> pb_stopping p \<or> pl_curplayers (pb_payload p) = length (sv_by_name s))"

definition framed :: "bytes \<Rightarrow> bool" where
  "framed b \<longleftrightarrow> (\<exists>ms. list_all readable ms \<and> b = concat (map wire_of ms))"

definition streams_ok :: "server \<Rightarrow> bool" where
  "streams_ok s \<longleftrightarrow> (\<forall>c. framed (stream s c))"

definition INV_but :: "cid set \<Rightarrow> server \<Rightarrow> bool" where
  "INV_but X s \<longleftrightarrow>
     names_ok s \<and> clients_ok s \<and> queues_ok X s \<and> rooms_ok s \<and> crc_tables_ok s \<and> lobby_ok s \<and>
     streams_ok s"

abbreviation INV :: "server \<Rightarrow> bool" where
  "INV \<equiv> INV_but {}"

text \<open>During a departure: everything but the rooms, where \<open>r\<close> may have become too small.\<close>

definition INV_room :: "rid \<Rightarrow> server \<Rightarrow> bool" where
  "INV_room r s \<longleftrightarrow>
     names_ok s \<and> clients_ok s \<and> queues_ok {} s \<and> crc_tables_ok s \<and> lobby_ok s \<and> streams_ok s \<and>
     room_fine s r \<and>
     (\<forall>c q. c < sv_nclient s \<and> room_of s c = Some q \<longrightarrow>
        c \<in> set (members s q) \<and> (q \<noteq> r \<longrightarrow> room_fine s q \<and> 2 \<le> length (members s q)))"

definition unreferenced :: "rid \<Rightarrow> server \<Rightarrow> bool" where
  "unreferenced r s \<longleftrightarrow> (\<forall>c. c < sv_nclient s \<longrightarrow> room_of s c \<noteq> Some r)"

text \<open>The room's roster can be written.\<close>

definition announceable :: "rid \<Rightarrow> server \<Rightarrow> bool" where
  "announceable r s \<longleftrightarrow>
     length (members s r) \<le> MAX_SEATS \<and>
     (\<forall>m \<in> set (members s r). m < sv_nclient s \<and> name_of s m \<noteq> None)"

lemmas inv_defs =
  names_ok_def clients_ok_def queues_ok_def rooms_ok_def room_fine_def crc_tables_ok_def
  lobby_ok_def streams_ok_def

section \<open>Reading the invariant\<close>

lemma INV_D:
  assumes "INV_but X s"
  shows "names_ok s" "clients_ok s" "queues_ok X s" "rooms_ok s" "crc_tables_ok s" "lobby_ok s"
    "streams_ok s"
  using assms by (simp_all add: INV_but_def)

lemma INV_I:
  "names_ok s \<Longrightarrow> clients_ok s \<Longrightarrow> queues_ok X s \<Longrightarrow> rooms_ok s \<Longrightarrow> crc_tables_ok s \<Longrightarrow>
     lobby_ok s \<Longrightarrow> streams_ok s \<Longrightarrow> INV_but X s"
  by (simp add: INV_but_def)

lemma names_ok_wf: "names_ok s \<Longrightarrow> dwf (sv_by_name s)"
  by (simp add: names_ok_def)

lemma names_ok_entry:
  "names_ok s \<Longrightarrow> (n, c) \<in> set (sv_by_name s) \<Longrightarrow> c < sv_nclient s \<and> name_of s c = Some n"
  unfolding names_ok_def by blast

lemma names_ok_live:
  "names_ok s \<Longrightarrow> \<not> is_dead s c \<Longrightarrow> name_of s c = Some n \<Longrightarrow> (n, c) \<in> set (sv_by_name s)"
  unfolding names_ok_def by blast

lemma names_ok_valid:
  "names_ok s \<Longrightarrow> c < sv_nclient s \<Longrightarrow> name_of s c = Some n \<Longrightarrow> valid_name n"
  unfolding names_ok_def by blast

lemma names_okI:
  assumes "dwf (sv_by_name s)"
    "\<And>n c. (n, c) \<in> set (sv_by_name s) \<Longrightarrow> c < sv_nclient s \<and> name_of s c = Some n"
    "\<And>n c. \<not> is_dead s c \<Longrightarrow> name_of s c = Some n \<Longrightarrow> (n, c) \<in> set (sv_by_name s)"
    "\<And>n c. c < sv_nclient s \<Longrightarrow> name_of s c = Some n \<Longrightarrow> valid_name n"
  shows "names_ok s"
  using assms unfolding names_ok_def by blast

lemma rooms_okD:
  "rooms_ok s \<Longrightarrow> c < sv_nclient s \<Longrightarrow> room_of s c = Some r \<Longrightarrow>
     c \<in> set (members s r) \<and> room_fine s r \<and> 2 \<le> length (members s r)"
  unfolding rooms_ok_def by blast

lemma rooms_okI:
  "(\<And>c r. c < sv_nclient s \<Longrightarrow> room_of s c = Some r \<Longrightarrow>
     c \<in> set (members s r) \<and> room_fine s r \<and> 2 \<le> length (members s r)) \<Longrightarrow> rooms_ok s"
  unfolding rooms_ok_def by blast

lemma room_fineD:
  assumes "room_fine s r"
  shows "r < sv_nroom s" "distinct (members s r)" "length (members s r) \<le> MAX_SEATS"
    "\<And>m. m \<in> set (members s r) \<Longrightarrow> m < sv_nclient s \<and> room_of s m = Some r \<and> name_of s m \<noteq> None"
  using assms unfolding room_fine_def by blast+

section \<open>Framed streams\<close>

lemma framed_Nil [simp]: "framed []"
  by (auto simp: framed_def intro: exI [of _ "[]"])

lemma framed_append: "framed a \<Longrightarrow> framed b \<Longrightarrow> framed (a @ b)"
  unfolding framed_def
proof (elim exE conjE)
  fix xs ys
  assume "list_all readable xs" "a = concat (map wire_of xs)"
    "list_all readable ys" "b = concat (map wire_of ys)"
  then show "\<exists>ms. list_all readable ms \<and> a @ b = concat (map wire_of ms)"
    by (intro exI [of _ "xs @ ys"]) simp
qed

lemma framed_wire_of: "readable m \<Longrightarrow> framed (wire_of m)"
  by (auto simp: framed_def intro!: exI [of _ "[m]"])

lemma framed_frame: "frame t payload = Inr d \<Longrightarrow> length payload \<le> 199 \<Longrightarrow> framed d"
  by (auto dest!: frame_Inr intro: framed_wire_of simp: readable_def)

section \<open>What each part looks at\<close>

lemma names_ok_cong:
  "sv_by_name t = sv_by_name s \<Longrightarrow> sv_nclient t = sv_nclient s \<Longrightarrow> (\<And>c. is_dead t c = is_dead s c) \<Longrightarrow>
     (\<And>c. name_of t c = name_of s c) \<Longrightarrow> names_ok t = names_ok s"
  by (simp add: names_ok_def)

lemma clients_ok_cong:
  "sv_clients t = sv_clients s \<Longrightarrow> (\<And>c. is_dead t c = is_dead s c) \<Longrightarrow>
     (\<And>c. cl_addr (sv_client t c) = cl_addr (sv_client s c)) \<Longrightarrow> clients_ok t = clients_ok s"
  by (simp add: clients_ok_def)

lemma queues_ok_cong:
  "sv_sel t = sv_sel s \<Longrightarrow> sv_nclient t = sv_nclient s \<Longrightarrow> (\<And>c. is_dead t c = is_dead s c) \<Longrightarrow>
     (\<And>c. cl_tx (sv_client t c) = cl_tx (sv_client s c)) \<Longrightarrow> queues_ok X t = queues_ok X s"
  by (simp add: queues_ok_def)

lemma room_fine_cong:
  "sv_nclient t = sv_nclient s \<Longrightarrow> sv_nroom t = sv_nroom s \<Longrightarrow> members t r = members s r \<Longrightarrow>
     (\<And>c. room_of t c = room_of s c) \<Longrightarrow> (\<And>c. name_of t c = name_of s c) \<Longrightarrow>
     room_fine t r = room_fine s r"
  by (simp add: room_fine_def)

lemma rooms_ok_cong:
  assumes "sv_nclient t = sv_nclient s" "sv_nroom t = sv_nroom s" "\<And>r. members t r = members s r"
    "\<And>c. room_of t c = room_of s c" "\<And>c. name_of t c = name_of s c"
  shows "rooms_ok t = rooms_ok s"
  using assms room_fine_cong [of t s] by (simp add: rooms_ok_def)

lemma crc_tables_ok_cong:
  "(\<And>r. rm_crc (sv_room t r) = rm_crc (sv_room s r)) \<Longrightarrow> crc_tables_ok t = crc_tables_ok s"
  by (simp add: crc_tables_ok_def)

lemma lobby_ok_cong:
  "sv_lobby t = sv_lobby s \<Longrightarrow> sv_by_name t = sv_by_name s \<Longrightarrow> lobby_ok t = lobby_ok s"
  by (simp add: lobby_ok_def split: option.split)

lemma streams_ok_cong: "(\<And>c. stream t c = stream s c) \<Longrightarrow> streams_ok t = streams_ok s"
  by (simp add: streams_ok_def)

lemmas parts_cong = names_ok_cong clients_ok_cong queues_ok_cong rooms_ok_cong crc_tables_ok_cong
  lobby_ok_cong streams_ok_cong

text \<open>The state seen by the invariant: two states that agree on it agree on the invariant.\<close>

definition same_view :: "server \<Rightarrow> server \<Rightarrow> bool" where
  "same_view t s \<longleftrightarrow>
     sv_client t = sv_client s \<and> sv_nclient t = sv_nclient s \<and> sv_room t = sv_room s \<and>
     sv_nroom t = sv_nroom s \<and> sv_by_name t = sv_by_name s \<and> sv_clients t = sv_clients s \<and>
     sv_sel t = sv_sel s \<and> sv_lobby t = sv_lobby s"

lemma same_view_access:
  "same_view t s \<Longrightarrow> is_dead t c = is_dead s c" "same_view t s \<Longrightarrow> name_of t c = name_of s c"
  "same_view t s \<Longrightarrow> room_of t c = room_of s c" "same_view t s \<Longrightarrow> members t r = members s r"
  "same_view t s \<Longrightarrow> stream t c = stream s c"
  by (simp_all add: same_view_def access_defs stream_def)

lemma same_view_parts:
  assumes "same_view t s"
  shows "names_ok t = names_ok s" "clients_ok t = clients_ok s" "queues_ok X t = queues_ok X s"
    "rooms_ok t = rooms_ok s" "crc_tables_ok t = crc_tables_ok s" "lobby_ok t = lobby_ok s"
    "streams_ok t = streams_ok s" "room_fine t r = room_fine s r"
proof -
  note acc = same_view_access [OF assms]
  note eqs = assms [unfolded same_view_def]
  show "names_ok t = names_ok s" by (rule names_ok_cong) (simp_all add: acc eqs)
  show "clients_ok t = clients_ok s" by (rule clients_ok_cong) (simp_all add: acc eqs)
  show "queues_ok X t = queues_ok X s" by (rule queues_ok_cong) (simp_all add: acc eqs)
  show "rooms_ok t = rooms_ok s" by (rule rooms_ok_cong) (simp_all add: acc eqs)
  show "crc_tables_ok t = crc_tables_ok s" by (rule crc_tables_ok_cong) (simp add: eqs)
  show "lobby_ok t = lobby_ok s" by (rule lobby_ok_cong) (simp_all add: eqs)
  show "streams_ok t = streams_ok s" by (rule streams_ok_cong) (simp add: acc)
  show "room_fine t r = room_fine s r" by (rule room_fine_cong) (simp_all add: acc eqs)
qed

lemma INV_same_view: "same_view t s \<Longrightarrow> INV_but X t = INV_but X s"
  by (simp add: INV_but_def same_view_parts)

lemma INV_room_same_view: "same_view t s \<Longrightarrow> INV_room r t = INV_room r s"
  by (simp add: INV_room_def same_view_parts same_view_access) (simp add: same_view_def)

section \<open>Small state changes\<close>

lemma INV_log [simp]: "INV_but X (add_log e s) = INV_but X s"
  by (rule INV_same_view) (simp add: same_view_def)

lemma INV_room_log [simp]: "INV_room r (add_log e s) = INV_room r s"
  by (rule INV_room_same_view) (simp add: same_view_def)

lemma INV_backlog [simp]: "INV_but X (count_backlog_drop s) = INV_but X s"
  by (rule INV_same_view) (simp add: same_view_def count_backlog_drop_def)

lemma INV_weaken: "INV_but X s \<Longrightarrow> X \<subseteq> Y \<Longrightarrow> INV_but Y s"
  by (auto simp: INV_but_def queues_ok_def)

lemma lobby_ok_update: "lobby_ok (lobby_update s)"
  by (auto simp: lobby_ok_def lobby_update_def pub_update_def split: option.split)

lemma lobby_update_simps [simp]:
  "sv_client (lobby_update s) = sv_client s" "sv_nclient (lobby_update s) = sv_nclient s"
  "sv_room (lobby_update s) = sv_room s" "sv_nroom (lobby_update s) = sv_nroom s"
  "sv_by_name (lobby_update s) = sv_by_name s" "sv_clients (lobby_update s) = sv_clients s"
  "sv_sel (lobby_update s) = sv_sel s" "sv_log (lobby_update s) = sv_log s"
  "sv_net (lobby_update s) = sv_net s" "sv_draws (lobby_update s) = sv_draws s"
  "sv_rand (lobby_update s) = sv_rand s" "sv_delay (lobby_update s) = sv_delay s"
  "sv_auto_go (lobby_update s) = sv_auto_go s" "sv_stats (lobby_update s) = sv_stats s"
  by (simp_all add: lobby_update_def split: option.split)

lemma lobby_update_access [simp]:
  "is_dead (lobby_update s) c = is_dead s c" "name_of (lobby_update s) c = name_of s c"
  "room_of (lobby_update s) c = room_of s c" "members (lobby_update s) r = members s r"
  "stream (lobby_update s) c = stream s c"
  by (simp_all add: access_defs stream_def)

lemma INV_lobby_update:
  assumes "names_ok s" "clients_ok s" "queues_ok X s" "rooms_ok s" "crc_tables_ok s" "streams_ok s"
  shows "INV_but X (lobby_update s)"
proof -
  have "names_ok (lobby_update s)" "clients_ok (lobby_update s)" "queues_ok X (lobby_update s)"
    "rooms_ok (lobby_update s)" "crc_tables_ok (lobby_update s)" "streams_ok (lobby_update s)"
    using assms
      names_ok_cong [of "lobby_update s" s] clients_ok_cong [of "lobby_update s" s]
      queues_ok_cong [of "lobby_update s" s] rooms_ok_cong [of "lobby_update s" s]
      crc_tables_ok_cong [of "lobby_update s" s] streams_ok_cong [of "lobby_update s" s]
    by simp_all
  then show ?thesis by (simp add: INV_but_def lobby_ok_update)
qed

text \<open>Changes of one client that leave its name, room, address and life alone.\<close>

lemma upd_client_access:
  assumes "\<And>cl. cl_dead (f cl) = cl_dead cl" "\<And>cl. cl_name (f cl) = cl_name cl"
    and "\<And>cl. cl_room (f cl) = cl_room cl" "\<And>cl. cl_addr (f cl) = cl_addr cl"
  shows "is_dead (upd_client c f s) d = is_dead s d" "name_of (upd_client c f s) d = name_of s d"
    "room_of (upd_client c f s) d = room_of s d"
    "cl_addr (sv_client (upd_client c f s) d) = cl_addr (sv_client s d)"
    "members (upd_client c f s) r = members s r"
  using assms by (simp_all add: access_defs)

lemma INV_queue_change:
  assumes inv: "INV_but {c} s"
    and f: "\<And>cl. cl_dead (f cl) = cl_dead cl" "\<And>cl. cl_name (f cl) = cl_name cl"
      "\<And>cl. cl_room (f cl) = cl_room cl" "\<And>cl. cl_addr (f cl) = cl_addr cl"
    and tx: "length (cl_tx (f (sv_client s c))) \<le> MAX_TX_BACKLOG"
    and st: "framed (cl_sent (f (sv_client s c)) @ cl_tx (f (sv_client s c)))"
  shows "INV_but {c} (upd_client c f s)"
proof -
  let ?t = "upd_client c f s"
  note same = upd_client_access [of f, OF f] f
  have "names_ok ?t = names_ok s" by (rule names_ok_cong) (simp_all add: same)
  moreover have "clients_ok ?t = clients_ok s" by (rule clients_ok_cong) (simp_all add: same)
  moreover have "rooms_ok ?t = rooms_ok s" by (rule rooms_ok_cong) (simp_all add: same)
  moreover have "crc_tables_ok ?t = crc_tables_ok s" by (rule crc_tables_ok_cong) simp
  moreover have "lobby_ok ?t = lobby_ok s" by (rule lobby_ok_cong) simp_all
  moreover have "queues_ok {c} ?t"
    using inv tx by (simp add: INV_but_def queues_ok_def same)
  moreover have "streams_ok ?t"
    using inv st by (simp add: INV_but_def streams_ok_def stream_def)
  ultimately show ?thesis using inv by (simp add: INV_but_def)
qed

lemma INV_queue:
  assumes "INV s" "framed data" "length (cl_tx (sv_client s c)) + length data \<le> MAX_TX_BACKLOG"
  shows "INV_but {c} (queue c data s)"
proof -
  have "framed (stream s c @ data)"
    using assms by (auto simp: INV_but_def streams_ok_def intro: framed_append)
  then show ?thesis
    unfolding queue_def using assms INV_weaken [of "{}" s "{c}"]
    by (intro INV_queue_change) (simp_all add: stream_def)
qed

lemma INV_events:
  assumes "INV_but {c} s" "\<not> is_dead s c"
  shows "INV (update_events c s)"
proof -
  let ?t = "update_events c s"
  have sel: "?t = s\<lparr>sv_sel := (sv_sel s)(c \<mapsto> (cl_tx (sv_client s c) \<noteq> []))\<rparr>"
    using assms by (auto simp: update_events_def INV_but_def queues_ok_def split: option.split)
  note acc = access_defs stream_def sel
  have "names_ok ?t = names_ok s" by (rule names_ok_cong) (simp_all add: acc)
  moreover have "clients_ok ?t = clients_ok s" by (rule clients_ok_cong) (simp_all add: acc)
  moreover have "rooms_ok ?t = rooms_ok s" by (rule rooms_ok_cong) (simp_all add: acc)
  moreover have "crc_tables_ok ?t = crc_tables_ok s" by (rule crc_tables_ok_cong) (simp add: acc)
  moreover have "lobby_ok ?t = lobby_ok s" by (rule lobby_ok_cong) (simp_all add: acc)
  moreover have "streams_ok ?t = streams_ok s" by (rule streams_ok_cong) (simp add: acc)
  moreover have "queues_ok {} ?t"
    using assms unfolding sel by (simp add: INV_but_def queues_ok_def is_dead_def)
  ultimately show ?thesis using assms by (simp add: INV_but_def)
qed

lemma INV_announceable:
  "INV s \<Longrightarrow> c < sv_nclient s \<Longrightarrow> room_of s c = Some r \<Longrightarrow> announceable r s"
  unfolding announceable_def by (blast dest: INV_D(4) rooms_okD room_fineD)

section \<open>A client goes\<close>

lemma mark_dead_simps [simp]:
  "sv_by_name (mark_dead c w s) = sv_by_name s" "sv_nclient (mark_dead c w s) = sv_nclient s"
  "sv_room (mark_dead c w s) = sv_room s" "sv_nroom (mark_dead c w s) = sv_nroom s"
  "sv_lobby (mark_dead c w s) = sv_lobby s"
  "sv_sel (mark_dead c w s) = (sv_sel s)(c := None)"
  "sv_clients (mark_dead c w s) = filter (\<lambda>x. x \<noteq> c) (sv_clients s)"
  "sv_client (mark_dead c w s) = (sv_client s)(c := (sv_client s c)\<lparr>cl_dead := True\<rparr>)"
  by (simp_all add: mark_dead_def Let_def)

lemma mark_dead_access [simp]:
  "name_of (mark_dead c w s) d = name_of s d" "room_of (mark_dead c w s) d = room_of s d"
  "stream (mark_dead c w s) d = stream s d" "members (mark_dead c w s) r = members s r"
  by (simp_all add: access_defs stream_def)

lemma is_dead_mark_dead: "is_dead (mark_dead c w s) d \<longleftrightarrow> d = c \<or> is_dead s d"
  by (simp add: mark_dead_def is_dead_def Let_def)

lemma length_filter_filter_le: "length (filter P (filter Q xs)) \<le> length (filter P xs)"
  by (induction xs) auto

lemma clients_ok_mark_dead:
  assumes "clients_ok s"
  shows "clients_ok (mark_dead c w s)"
proof -
  let ?t = "mark_dead c w s"
  let ?cs = "filter (\<lambda>x. x \<noteq> c) (sv_clients s)"
  have "length ?cs \<le> MAX_CLIENTS"
    using assms length_filter_le by (metis clients_ok_def le_trans)
  moreover have "length (filter (\<lambda>d. fst (cl_addr (sv_client s d)) = ip) ?cs) \<le> MAX_CONNECTIONS_PER_IP" for ip
    using assms length_filter_filter_le by (metis clients_ok_def le_trans)
  moreover have "cl_addr (sv_client ?t d) = cl_addr (sv_client s d)" for d by simp
  ultimately show ?thesis
    using assms unfolding clients_ok_def mark_dead_simps(7) is_dead_mark_dead by auto
qed

lemma INV_mark_dead:
  assumes "INV_but {c} s" "\<not> is_dead s c"
  shows "INV (mark_dead c w s)"
proof -
  let ?t = "mark_dead c w s"
  have "rooms_ok ?t = rooms_ok s" by (rule rooms_ok_cong) simp_all
  moreover have "crc_tables_ok ?t = crc_tables_ok s" by (rule crc_tables_ok_cong) simp
  moreover have "lobby_ok ?t = lobby_ok s" by (rule lobby_ok_cong) simp_all
  moreover have "streams_ok ?t = streams_ok s" by (rule streams_ok_cong) simp
  moreover have "names_ok ?t"
  proof (rule names_okI)
    note names = INV_D(1) [OF assms(1)]
    show "dwf (sv_by_name ?t)" using names by (simp add: names_ok_wf)
    show "d < sv_nclient ?t \<and> name_of ?t d = Some n" if "(n, d) \<in> set (sv_by_name ?t)" for n d
      using names_ok_entry [OF names] that by simp
    show "(n, d) \<in> set (sv_by_name ?t)" if "\<not> is_dead ?t d" "name_of ?t d = Some n" for n d
      using names_ok_live [OF names] that by (simp add: is_dead_mark_dead)
    show "valid_name n" if "d < sv_nclient ?t" "name_of ?t d = Some n" for n d
      using names_ok_valid [OF names] that by simp
  qed
  moreover have "queues_ok {} ?t"
    using assms(1) unfolding INV_but_def queues_ok_def by (simp add: is_dead_mark_dead)
  ultimately show ?thesis
    using assms(1) clients_ok_mark_dead by (simp add: INV_but_def)
qed

lemma in_fold_ddel: "x \<in> set (fold (\<lambda>n d. ddel d n) ns d) \<longleftrightarrow> x \<in> set d \<and> fst x \<notin> set ns"
  by (induction ns arbitrary: d) (auto simp: in_ddel)

lemma dwf_fold_ddel: "dwf d \<Longrightarrow> dwf (fold (\<lambda>n d. ddel d n) ns d)"
  by (induction ns arbitrary: d) (auto simp: dict.wf_remove)

lemma forget_names_simps [simp]:
  "sv_client (forget_names c s) = sv_client s" "sv_nclient (forget_names c s) = sv_nclient s"
  "sv_room (forget_names c s) = sv_room s" "sv_nroom (forget_names c s) = sv_nroom s"
  "sv_clients (forget_names c s) = sv_clients s" "sv_sel (forget_names c s) = sv_sel s"
  by (simp_all add: forget_names_def Let_def)

lemma forget_names_access [simp]:
  "is_dead (forget_names c s) d = is_dead s d" "name_of (forget_names c s) d = name_of s d"
  "room_of (forget_names c s) d = room_of s d" "members (forget_names c s) r = members s r"
  "stream (forget_names c s) d = stream s d"
  by (simp_all add: access_defs stream_def)

lemma forget_names_by_name:
  assumes "dwf (sv_by_name s)"
  shows "set (sv_by_name (forget_names c s)) = {x \<in> set (sv_by_name s). snd x \<noteq> c}"
proof -
  have uniq: "snd x = snd y" if "x \<in> set (sv_by_name s)" "y \<in> set (sv_by_name s)" "fst y = fst x" for x y
  proof -
    have "dget (sv_by_name s) (fst x) = Some (snd x)" "dget (sv_by_name s) (fst y) = Some (snd y)"
      using that(1,2) by (simp_all add: dget_in [OF assms])
    with that(3) show ?thesis by simp
  qed
  have stale: "fst x \<in> fst ` {y \<in> set (sv_by_name s). snd y = c} \<longleftrightarrow> snd x = c"
    if x: "x \<in> set (sv_by_name s)" for x
  proof
    assume "fst x \<in> fst ` {y \<in> set (sv_by_name s). snd y = c}"
    then obtain y where "y \<in> set (sv_by_name s)" "snd y = c" "fst y = fst x" by auto
    then show "snd x = c" using uniq [OF x] by simp
  qed (use x in auto)
  have "sv_by_name (forget_names c s) = fold (\<lambda>n d. ddel d n)
      (map fst (filter (\<lambda>(n, x). x = c) (sv_by_name s))) (sv_by_name s)"
    by (simp add: forget_names_def Let_def)
  moreover have "set (map fst (filter (\<lambda>(n, x). x = c) (sv_by_name s)))
      = fst ` {y \<in> set (sv_by_name s). snd y = c}"
    by (simp add: case_prod_beta)
  ultimately have "x \<in> set (sv_by_name (forget_names c s)) \<longleftrightarrow>
      x \<in> set (sv_by_name s) \<and> fst x \<notin> fst ` {y \<in> set (sv_by_name s). snd y = c}" for x
    by (simp only: in_fold_ddel)
  then show ?thesis using stale by blast
qed

lemma INV_forget_names:
  assumes "INV s" "is_dead s c"
  shows "INV (forget_names c s)"
proof -
  let ?t = "forget_names c s"
  have wf: "dwf (sv_by_name s)" using assms(1) by (simp add: INV_but_def names_ok_def)
  have "rooms_ok ?t = rooms_ok s" by (rule rooms_ok_cong) simp_all
  moreover have "clients_ok ?t = clients_ok s" by (rule clients_ok_cong) simp_all
  moreover have "queues_ok {} ?t = queues_ok {} s" by (rule queues_ok_cong) simp_all
  moreover have "crc_tables_ok ?t = crc_tables_ok s" by (rule crc_tables_ok_cong) simp
  moreover have "streams_ok ?t = streams_ok s" by (rule streams_ok_cong) simp
  moreover have "dwf (sv_by_name ?t)"
    using wf by (simp add: forget_names_def Let_def dwf_fold_ddel)
  then have "names_ok ?t"
  proof (rule names_okI)
    note names = INV_D(1) [OF assms(1)]
    note ent = forget_names_by_name [OF wf, of c]
    show "d < sv_nclient ?t \<and> name_of ?t d = Some n" if "(n, d) \<in> set (sv_by_name ?t)" for n d
      using names_ok_entry [OF names, of n d] that by (simp add: ent)
    show "(n, d) \<in> set (sv_by_name ?t)" if "\<not> is_dead ?t d" "name_of ?t d = Some n" for n d
      using names_ok_live [OF names, of d n] that assms(2) by (auto simp: ent)
    show "valid_name n" if "d < sv_nclient ?t" "name_of ?t d = Some n" for n d
      using names_ok_valid [OF names] that by simp
  qed
  moreover have "lobby_ok ?t"
  proof (cases "filter (\<lambda>(n, x). x = c) (sv_by_name s) = []")
    case True
    then have "?t = s" by (simp add: forget_names_def Let_def)
    with assms show ?thesis by (simp add: INV_but_def)
  next
    case False
    then show ?thesis by (simp add: forget_names_def Let_def lobby_ok_update)
  qed
  ultimately show ?thesis using assms by (simp add: INV_but_def)
qed

end
