(* ===== verification/DropSafe.thy ===== *)
theory DropSafe
  imports Invariant
begin

text \<open>
  Sending and dropping keep the invariant and raise nothing. The functions of \<open>Plumbing\<close> are
  built on a callee \<open>drp\<close>; the locale \<open>safe_dropper\<close> says what they need of it, every level of
  \<open>drop\<close> satisfies it one level further up, and \<open>drop\<close> itself at every level.
\<close>

section \<open>Departures\<close>

lemma INV_roomI:
  assumes "names_ok s" "clients_ok s" "queues_ok {} s" "crc_tables_ok s" "lobby_ok s" "streams_ok s"
    "room_fine s r"
    "\<And>c q. c < sv_nclient s \<Longrightarrow> room_of s c = Some q \<Longrightarrow>
       c \<in> set (members s q) \<and> (q \<noteq> r \<longrightarrow> room_fine s q \<and> 2 \<le> length (members s q))"
  shows "INV_room r s"
  using assms unfolding INV_room_def by blast

lemma INV_roomD:
  assumes "INV_room r s"
  shows "room_fine s r"
    "\<And>c q. c < sv_nclient s \<Longrightarrow> room_of s c = Some q \<Longrightarrow>
       c \<in> set (members s q) \<and> (q \<noteq> r \<longrightarrow> room_fine s q \<and> 2 \<le> length (members s q))"
  using assms unfolding INV_room_def by blast+

text \<open>\<open>client.room = None; room.members.remove(client)\<close>.\<close>

definition depart :: "cid \<Rightarrow> rid \<Rightarrow> server \<Rightarrow> server" where
  "depart c r s =
     upd_room r (\<lambda>rm. rm\<lparr>rm_members := remove1 c (rm_members rm)\<rparr>)
       (upd_client c (\<lambda>cl. cl\<lparr>cl_room := None\<rparr>) s)"

lemma depart_access [simp]:
  "is_dead (depart c r s) d = is_dead s d" "name_of (depart c r s) d = name_of s d"
  "room_of (depart c r s) d = (if d = c then None else room_of s d)"
  "members (depart c r s) q = (if q = r then remove1 c (members s r) else members s q)"
  "stream (depart c r s) d = stream s d" "sv_nclient (depart c r s) = sv_nclient s"
  "sv_nroom (depart c r s) = sv_nroom s" "sv_by_name (depart c r s) = sv_by_name s"
  "sv_clients (depart c r s) = sv_clients s" "sv_sel (depart c r s) = sv_sel s"
  "sv_lobby (depart c r s) = sv_lobby s"
  "cl_tx (sv_client (depart c r s) d) = cl_tx (sv_client s d)"
  "cl_addr (sv_client (depart c r s) d) = cl_addr (sv_client s d)"
  "rm_crc (sv_room (depart c r s) q) = rm_crc (sv_room s q)"
  by (simp_all add: depart_def access_defs stream_def)

lemma INV_depart:
  assumes inv: "INV s" and c: "c < sv_nclient s" "room_of s c = Some r"
  shows "INV_room r (depart c r s)"
proof -
  let ?t = "depart c r s"
  note rooms = rooms_okD [OF INV_D(4) [OF inv]]
  have fine: "room_fine s r" using rooms [OF c] by simp
  have "names_ok ?t = names_ok s" by (rule names_ok_cong) simp_all
  moreover have "clients_ok ?t = clients_ok s" by (rule clients_ok_cong) simp_all
  moreover have "queues_ok {} ?t = queues_ok {} s" by (rule queues_ok_cong) simp_all
  moreover have "crc_tables_ok ?t = crc_tables_ok s" by (rule crc_tables_ok_cong) simp
  moreover have "lobby_ok ?t = lobby_ok s" by (rule lobby_ok_cong) simp_all
  moreover have "streams_ok ?t = streams_ok s" by (rule streams_ok_cong) simp
  moreover have "m < sv_nclient s \<and> room_of ?t m = Some r \<and> name_of s m \<noteq> None"
    if "m \<in> set (remove1 c (members s r))" for m
    using that room_fineD(2,4) [OF fine] by (simp add: set_remove1_eq)
  then have "room_fine ?t r"
    using room_fineD(1,2,3) [OF fine] unfolding room_fine_def
    by (simp add: length_remove1 distinct_remove1) linarith
  moreover have "d \<in> set (members ?t q) \<and> (q \<noteq> r \<longrightarrow> room_fine ?t q \<and> 2 \<le> length (members ?t q))"
    if d: "d < sv_nclient ?t" "room_of ?t d = Some q" for d q
  proof -
    have dc: "d \<noteq> c" and ds: "d < sv_nclient s" "room_of s d = Some q"
      using d by (auto split: if_splits)
    note q = rooms [OF ds]
    have "room_fine ?t q" if "q \<noteq> r"
    proof -
      have "m \<noteq> c" if "m \<in> set (members s q)" for m
        using that \<open>q \<noteq> r\<close> q room_fineD(4) [of s q m] c by auto
      with q \<open>q \<noteq> r\<close> show ?thesis by (simp add: room_fine_def)
    qed
    with q dc show ?thesis by (auto simp: in_set_remove1)
  qed
  ultimately show ?thesis using INV_D [OF inv] by (intro INV_roomI) simp_all
qed

lemma INV_room_full: "INV_room r s \<Longrightarrow> 2 \<le> length (members s r) \<Longrightarrow> INV s"
  unfolding INV_room_def INV_but_def by (auto intro!: rooms_okI)

lemma INV_room_announceable: "INV_room r s \<Longrightarrow> announceable r s"
  unfolding INV_room_def announceable_def by (blast dest: room_fineD)

lemma fold_detach_client:
  "sv_client (fold (\<lambda>m. upd_client m (\<lambda>cl. cl\<lparr>cl_room := None\<rparr>)) ms s) d =
     (if d \<in> set ms then (sv_client s d)\<lparr>cl_room := None\<rparr> else sv_client s d)"
  by (induction ms arbitrary: s) auto

lemma fold_detach_rest:
  fixes s defines "t ms \<equiv> fold (\<lambda>m. upd_client m (\<lambda>cl. cl\<lparr>cl_room := None\<rparr>)) ms s"
  shows "sv_nclient (t ms) = sv_nclient s \<and> sv_room (t ms) = sv_room s \<and> sv_nroom (t ms) = sv_nroom s \<and>
    sv_by_name (t ms) = sv_by_name s \<and> sv_clients (t ms) = sv_clients s \<and> sv_sel (t ms) = sv_sel s \<and>
    sv_lobby (t ms) = sv_lobby s \<and> sv_log (t ms) = sv_log s"
  unfolding t_def by (induction ms arbitrary: s) auto

lemma detach_access [simp]:
  "is_dead (detach_members r s) d = is_dead s d" "name_of (detach_members r s) d = name_of s d"
  "room_of (detach_members r s) d = (if d \<in> set (members s r) then None else room_of s d)"
  "members (detach_members r s) q = members s q" "stream (detach_members r s) d = stream s d"
  "sv_nclient (detach_members r s) = sv_nclient s" "sv_nroom (detach_members r s) = sv_nroom s"
  "sv_by_name (detach_members r s) = sv_by_name s" "sv_clients (detach_members r s) = sv_clients s"
  "sv_sel (detach_members r s) = sv_sel s" "sv_lobby (detach_members r s) = sv_lobby s"
  "cl_tx (sv_client (detach_members r s) d) = cl_tx (sv_client s d)"
  "cl_addr (sv_client (detach_members r s) d) = cl_addr (sv_client s d)"
  "sv_room (detach_members r s) = sv_room s"
  using fold_detach_rest [of "members s r" s]
  by (simp_all add: detach_members_def access_defs stream_def fold_detach_client)

lemma INV_detach:
  assumes inv: "INV_room r s"
  shows "INV (detach_members r s) \<and> unreferenced r (detach_members r s)"
proof -
  let ?t = "detach_members r s"
  have out: "room_of s c = Some q \<and> q \<noteq> r \<and> c \<notin> set (members s r)"
    if "c < sv_nclient s" "room_of ?t c = Some q" for c q
    using that INV_roomD(2) [OF inv, of c q] by (auto split: if_splits)
  have "names_ok ?t = names_ok s" by (rule names_ok_cong) simp_all
  moreover have "clients_ok ?t = clients_ok s" by (rule clients_ok_cong) simp_all
  moreover have "queues_ok {} ?t = queues_ok {} s" by (rule queues_ok_cong) simp_all
  moreover have "crc_tables_ok ?t = crc_tables_ok s" by (rule crc_tables_ok_cong) simp
  moreover have "lobby_ok ?t = lobby_ok s" by (rule lobby_ok_cong) simp_all
  moreover have "streams_ok ?t = streams_ok s" by (rule streams_ok_cong) simp
  moreover have "rooms_ok ?t"
  proof (rule rooms_okI)
    fix c q assume t: "c < sv_nclient ?t" "room_of ?t c = Some q"
    from t(1) have c: "c < sv_nclient s" by simp
    have q: "room_of s c = Some q" "q \<noteq> r" using out [OF c t(2)] by blast+
    then have all: "c \<in> set (members s q)" "room_fine s q" "2 \<le> length (members s q)"
      using INV_roomD(2) [OF inv c q(1)] by blast+
    have "m \<notin> set (members s r)" if "m \<in> set (members s q)" for m
      using that q(2) room_fineD(4) [OF all(2), of m] room_fineD(4) [OF INV_roomD(1) [OF inv], of m]
      by auto
    then have "room_fine ?t q"
      using all(2) by (simp add: room_fine_def)
    with all show "c \<in> set (members ?t q) \<and> room_fine ?t q \<and> 2 \<le> length (members ?t q)" by simp
  qed
  moreover have "unreferenced r ?t"
    unfolding unreferenced_def detach_access(6) using out by blast
  ultimately show ?thesis
    using inv [unfolded INV_room_def] by (intro conjI INV_I) (simp_all only:)

qed

lemma clear_members_access [simp]:
  "is_dead (clear_members r s) d = is_dead s d" "name_of (clear_members r s) d = name_of s d"
  "room_of (clear_members r s) d = room_of s d" "stream (clear_members r s) d = stream s d"
  "members (clear_members r s) q = (if q = r then [] else members s q)"
  "sv_nclient (clear_members r s) = sv_nclient s" "sv_nroom (clear_members r s) = sv_nroom s"
  "sv_by_name (clear_members r s) = sv_by_name s" "sv_clients (clear_members r s) = sv_clients s"
  "sv_sel (clear_members r s) = sv_sel s" "sv_lobby (clear_members r s) = sv_lobby s"
  "sv_client (clear_members r s) = sv_client s"
  "rm_crc (sv_room (clear_members r s) q) = rm_crc (sv_room s q)"
  by (simp_all add: clear_members_def access_defs stream_def)

lemma INV_clear_members:
  assumes inv: "INV s" and un: "unreferenced r s"
  shows "INV (clear_members r s)"
proof -
  let ?t = "clear_members r s"
  have "names_ok ?t = names_ok s" by (rule names_ok_cong) simp_all
  moreover have "clients_ok ?t = clients_ok s" by (rule clients_ok_cong) simp_all
  moreover have "queues_ok {} ?t = queues_ok {} s" by (rule queues_ok_cong) simp_all
  moreover have "crc_tables_ok ?t = crc_tables_ok s" by (rule crc_tables_ok_cong) simp
  moreover have "lobby_ok ?t = lobby_ok s" by (rule lobby_ok_cong) simp_all
  moreover have "streams_ok ?t = streams_ok s" by (rule streams_ok_cong) simp
  moreover have "rooms_ok ?t"
  proof (rule rooms_okI)
    fix c q assume "c < sv_nclient ?t" "room_of ?t c = Some q"
    then have c: "c < sv_nclient s" "room_of s c = Some q" by simp_all
    with un have "q \<noteq> r" by (auto simp: unreferenced_def)
    moreover from this have "room_fine ?t q = room_fine s q"
      by (intro room_fine_cong) simp_all
    ultimately show "c \<in> set (members ?t q) \<and> room_fine ?t q \<and> 2 \<le> length (members ?t q)"
      using rooms_okD [OF INV_D(4) [OF inv] c] by simp
  qed
  ultimately show ?thesis using inv by (simp add: INV_but_def)
qed

text \<open>A dead client has no selector entry to be wrong.\<close>

lemma INV_but_dead:
  assumes "INV_but {c} s" "is_dead s c"
  shows "INV s"
proof -
  have "sv_sel s c = None"
    using assms by (simp add: INV_but_def queues_ok_def)
  then have "queues_ok {} s"
    using INV_D(3) [OF assms(1)] unfolding queues_ok_def
    by (intro conjI) (blast, metis option.distinct(1) singletonD, blast)
  with INV_D [OF assms(1)] show ?thesis by (intro INV_I)
qed

section \<open>Settling actions\<close>

text \<open>The action raises nothing and ends with the invariant.\<close>

abbreviation settles :: "(server \<Rightarrow> bool) \<Rightarrow> 'a srv \<Rightarrow> bool" where
  "settles P m \<equiv> triple P m (\<lambda>_. INV) (\<lambda>_ _. False)"

abbreviation fit :: "nat \<Rightarrow> server \<Rightarrow> bool" where
  "fit n s \<equiv> INV s \<and> few n s"

definition calm_stable :: "(server \<Rightarrow> bool) \<Rightarrow> bool" where
  "calm_stable Q \<longleftrightarrow> (\<forall>s t. Q s \<longrightarrow> calm s t \<longrightarrow> Q t)"

lemma calm_stable_few: "calm_stable (few n)"
  using nlive_mono le_trans unfolding calm_stable_def by blast

lemma calm_stable_conj: "calm_stable P \<Longrightarrow> calm_stable Q \<Longrightarrow> calm_stable (\<lambda>s. P s \<and> Q s)"
  unfolding calm_stable_def by blast

lemma calm_stable_True: "calm_stable (\<lambda>s. True)"
  by (simp add: calm_stable_def)

lemma calm_stable_unreferenced: "calm_stable (unreferenced r)"
  unfolding calm_stable_def unreferenced_def calm_def room_of_def by (metis option.distinct(1))

lemma calm_stable_named: "calm_stable (\<lambda>s. c < sv_nclient s \<and> name_of s c \<noteq> None)"
  unfolding calm_stable_def calm_def name_of_def by simp

lemma calm_stable_keeps: "calm_stable Q \<Longrightarrow> keeps calm m \<Longrightarrow> Q s \<Longrightarrow> Q (snd (m s))"
  unfolding calm_stable_def keeps_def by blast

text \<open>A settling, calm action keeps everything calm states keep.\<close>

lemma settles_and:
  assumes "settles (\<lambda>s. INV s \<and> Q s) m" "keeps calm m" "calm_stable Q"
  shows "safe (\<lambda>s. INV s \<and> Q s) m"
  unfolding safe_def
proof (rule tripleI)
  fix s assume s: "INV s \<and> Q s"
  moreover have "Q (snd (m s))" using assms s calm_stable_keeps by blast
  ultimately show "case m s of (Inl e, s') \<Rightarrow> False | (Inr x, s') \<Rightarrow> INV s' \<and> Q s'"
    using triple_InlD [OF assms(1) s] triple_InrD [OF assms(1) s]
    by (auto split: prod.splits sum.splits)
qed

lemma safe_settles: "safe (\<lambda>s. INV s \<and> Q s) m \<Longrightarrow> settles (\<lambda>s. INV s \<and> Q s) m"
  unfolding safe_def by (erule triple_weaken) simp_all

lemma settles_and2:
  "settles (\<lambda>s. INV s \<and> P s) m \<Longrightarrow> keeps calm m \<Longrightarrow> calm_stable P \<Longrightarrow> calm_stable Q \<Longrightarrow>
     safe (\<lambda>s. INV s \<and> P s \<and> Q s) m"
  by (rule settles_and) (auto elim: triple_weaken intro: calm_stable_conj)

lemma settles_bnd:
  assumes "safe P m" "\<And>x. settles P (f x)"
  shows "settles P (bnd m f)"
  using assms unfolding safe_def by (intro triple_bnd [of P m "\<lambda>_. P"]) auto

lemma settles_pure:
  assumes "\<And>s. P s \<Longrightarrow> settles (\<lambda>t. t = s) (f (g s))"
  shows "settles P (bnd (gets g) f)"
  using assms by (simp add: triple_def)

lemma settles_modify: "(\<And>s. P s \<Longrightarrow> INV (f s)) \<Longrightarrow> settles P (modify f)"
  by (simp add: triple_def modify_def)

lemma nlive_backlog [simp]: "nlive (count_backlog_drop s) = nlive s"
  by (simp add: count_backlog_drop_def nlive_def)

lemma nlive_log [simp]: "nlive (add_log e s) = nlive s"
  by (simp add: nlive_def)

lemma announceable_names:
  assumes "INV_but X s" "announceable r s" "m \<in> set (members s r)"
  shows "\<exists>n. name_of s m = Some n \<and> valid_name n"
proof -
  have m: "m < sv_nclient s" "name_of s m \<noteq> None"
    using assms(2,3) by (simp_all add: announceable_def)
  then obtain n where "name_of s m = Some n" by blast
  with m(1) names_ok_valid [OF INV_D(1) [OF assms(1)]] show ?thesis by blast
qed

lemma room_payload_ok:
  assumes "INV_but X s" "announceable r s"
  shows "\<exists>p. room_payload s r = Inr p \<and> length p = 33"
proof -
  have len: "length (members s r) \<le> 2" using assms(2) by (simp add: announceable_def const_defs)
  have "\<exists>b. roster s r = Inr b \<and> length b = 8 * ROSTER_SLOTS"
  proof (rule roster_ok)
    show "\<exists>n. name_of s m = Some n \<and> valid_name n" if "m \<in> set (members s r)" for m
      using announceable_names [OF assms that] .
  qed (use len in \<open>simp add: const_defs\<close>)
  then obtain b where "roster s r = Inr b" "length b = 32" by (auto simp: const_defs)
  with len show ?thesis by (simp add: room_payload_def)
qed

lemma walk_safe:
  "(\<And>j m. j < b \<Longrightarrow> safe P (f j m)) \<Longrightarrow> i + k \<le> b \<Longrightarrow> safe P (walk k r i f)"
proof (induction k arbitrary: i)
  case (Suc k)
  have "safe P (bnd (f i m) (\<lambda>_. walk k r (Suc i) f))" for m
    using Suc by (intro safe_bnd) auto
  then show ?case unfolding walk.simps by (intro safe_bnd safe_gets) (auto intro: safe_ret)
qed (simp add: safe_ret)

lemma for_members_safe: "(\<And>i m. safe P (f i m)) \<Longrightarrow> safe P (for_members r f)"
  unfolding for_members_def by (intro safe_bnd safe_gets walk_safe [OF _ order_refl])

lemma peer_left_ok:
  assumes "valid_name nm" "name_of s c = Some nm" "st < 256"
  shows "\<exists>pl. peer_left s c st = Inr pl \<and> framed pl"
proof -
  obtain b where b: "pad_name (name_of s c) = Inr b" "length b = 8"
    using assms by (metis pad_name_length pad_name_valid)
  then have "peer_left s c st = frame T_PEER_LEFT (of_nat st # b)"
    using assms(3) by (simp add: peer_left_def)
  then show ?thesis
    using b framed_frame [of T_PEER_LEFT "of_nat st # b"] by (simp add: frame_wire_of)
qed

lemma calm_depart: "calm s (depart c r s)"
proof -
  have "calm s (upd_client c (\<lambda>cl. cl\<lparr>cl_room := None\<rparr>) s)"
    by (rule calm_upd_client) (simp_all add: stream_def)
  moreover have "calm t (upd_room r (\<lambda>rm. rm\<lparr>rm_members := remove1 c (rm_members rm)\<rparr>) t)" for t
    using calm_set_members [of "remove1 c (members t r)" t r] set_remove1_subset [of c "members t r"]
    by (simp add: length_remove1 members_def upd_room_def)
  ultimately show ?thesis unfolding depart_def by (rule calm_trans)
qed

lemma depart_run:
  assumes "c \<in> set (members s r)"
  shows "bnd (remove_member c r) f (upd_client c (\<lambda>cl. cl\<lparr>cl_room := None\<rparr>) s) = f () (depart c r s)"
  using assms
  by (simp add: bnd_def [of "remove_member c r"] remove_member_def list_remove_def members_def depart_def
      upd_room_def)

section \<open>What the plumbing needs of its callee\<close>

locale safe_dropper = dropper +
  fixes n :: nat
  assumes drp_ok: "settles (\<lambda>s. INV_but {c} s \<and> few n s) (drp c w)"
begin

lemma flush_settles: "settles (\<lambda>s. INV_but {c} s \<and> few n s \<and> \<not> is_dead s c) (flush drp c)"
proof (rule tripleI)
  fix s assume s: "INV_but {c} s \<and> few n s \<and> \<not> is_dead s c"
  obtain fin k tx took where l:
    "flush_loop (sv_net s c) (cl_calls (sv_client s c)) (cl_tx (sv_client s c)) [] = (fin, k, tx, took)"
    by (metis prod_cases4)
  note kept = flush_loop_keeps [OF l]
  let ?f = "\<lambda>cl. cl\<lparr>cl_calls := k, cl_tx := tx, cl_sent := cl_sent cl @ took\<rparr>"
  let ?t = "upd_client c ?f s"
  have "length took + length tx = length (cl_tx (sv_client s c))"
    using kept by (metis append_Nil length_append)
  moreover have "length (cl_tx (sv_client s c)) \<le> MAX_TX_BACKLOG"
    using s by (simp add: INV_but_def queues_ok_def is_dead_def)
  moreover have "framed (cl_sent (sv_client s c) @ took @ tx)"
    using s kept by (simp add: INV_but_def streams_ok_def stream_def)
  ultimately have inv: "INV_but {c} ?t"
    using s by (intro INV_queue_change) simp_all
  have few: "few n ?t" and live: "\<not> is_dead ?t c"
    using s by (simp_all add: nlive_upd_client is_dead_def)
  show "case flush drp c s of (Inl e, s') \<Rightarrow> False | (Inr x, s') \<Rightarrow> INV s'"
  proof (cases fin)
    case FlushDone
    with l INV_events [OF inv live] show ?thesis by (simp add: flush_def modify_def)
  next
    case (FlushFail w)
    with l show ?thesis
      using drp_ok [of c w] inv few unfolding triple_def by (simp add: flush_def)
  qed
qed

lemma send_settles:
  assumes "framed data"
  shows "settles (fit n) (send drp c data)"
proof (rule tripleI)
  fix s assume s: "fit n s"
  let ?goal = "\<lambda>r. case r of (Inl e, s') \<Rightarrow> False | (Inr x, s') \<Rightarrow> INV s'"
  show "?goal (send drp c data s)"
  proof (cases "is_dead s c")
    case True
    with s show ?thesis by (simp add: send_def ret_def)
  next
    case live: False
    show ?thesis
    proof (cases "MAX_TX_BACKLOG < length (cl_tx (sv_client s c)) + length data")
      case True
      have "INV_but {c} (count_backlog_drop s) \<and> few n (count_backlog_drop s)"
        using s INV_weaken [of "{}" s "{c}"] by simp
      then have "?goal (drp c WhyBacklog (count_backlog_drop s))"
        by (rule tripleD [OF drp_ok])
      with live True show ?thesis by (simp add: send_def)
    next
      case False
      have "INV_but {c} (queue c data s)"
        using s assms False by (intro INV_queue) simp_all
      moreover have "few n (queue c data s)" "\<not> is_dead (queue c data s) c"
        using s live by (simp_all add: queue_def nlive_upd_client is_dead_def)
      ultimately have "?goal (flush drp c (queue c data s))"
        by (intro tripleD [OF flush_settles] conjI)
      with live False show ?thesis by (simp add: send_def)
    qed
  qed
qed

lemma send_safe: "framed data \<Longrightarrow> calm_stable Q \<Longrightarrow> safe (\<lambda>s. INV s \<and> few n s \<and> Q s) (send drp c data)"
  using settles_and2 [OF send_settles send_calm calm_stable_few] by blast

lemma send_frame_safe:
  assumes "length payload \<le> 199" "calm_stable Q"
  shows "safe (\<lambda>s. INV s \<and> few n s \<and> Q s) (bnd (lift (frame t payload)) (send drp c))"
  using assms send_safe framed_wire_of [of "t # payload"]
  by (simp add: frame_wire_of readable_def)

lemma room_broadcast_settles: "settles (\<lambda>s. fit n s \<and> announceable r s) (room_broadcast drp r)"
  unfolding room_broadcast_def
proof (rule settles_pure)
  fix s assume s: "fit n s \<and> announceable r s"
  then obtain p where p: "room_payload s r = Inr p" "length p = 33"
    using room_payload_ok by blast
  have "safe (\<lambda>s. INV s \<and> few n s \<and> True)
      (for_members r (\<lambda>_ m. bnd (lift (frame T_ROOM p)) (send drp m)))"
    using p by (intro for_members_safe send_frame_safe calm_stable_True) simp
  then show "settles (\<lambda>t. t = s) (bnd (lift (room_payload s r)) (\<lambda>payload.
      for_members r (\<lambda>_ m. bnd (lift (frame T_ROOM payload)) (send drp m))))"
    using s p unfolding safe_def by (auto elim!: triple_weaken)
qed

lemma sends_safe:
  assumes "length payload \<le> 199" "calm_stable Q"
  shows "safe (\<lambda>s. INV s \<and> few n s \<and> Q s)
    (for_each ms (\<lambda>m. bnd (lift (frame t payload)) (send drp m)))"
  using assms by (intro safe_for_each send_frame_safe)

lemma dissolve_settles: "settles (\<lambda>s. INV_room r s \<and> few n s) (dissolve drp r notify)"
proof -
  let ?P = "\<lambda>s. INV s \<and> few n s \<and> unreferenced r s"
  let ?sends = "for_each notify (\<lambda>m. bnd (lift (frame T_ROOM (0 # replicate 32 0))) (send drp m))"
  have "triple (\<lambda>s. INV_room r s \<and> few n s) (modify (detach_members r)) (\<lambda>_. ?P) (\<lambda>_ _. False)"
    using INV_detach [of r] le_trans [OF nlive_mono [OF calm_detach [of _ r]]]
    by (simp add: triple_def modify_def)
  moreover have "safe ?P ?sends"
    by (intro sends_safe calm_stable_unreferenced) simp
  then have "settles ?P (bnd ?sends (\<lambda>_. bnd (modify (clear_members r)) (\<lambda>_. ret ())))"
    by (rule settles_bnd) (simp add: triple_def modify_def bnd_def ret_def INV_clear_members)
  ultimately show ?thesis
    unfolding dissolve_def seqs.simps by (rule triple_bnd)
qed

lemma dissolve_fit: "triple (\<lambda>s. INV_room r s \<and> few n s) (dissolve drp r notify) (\<lambda>_. fit n) (\<lambda>_ _. False)"
proof (rule tripleI)
  fix s assume s: "INV_room r s \<and> few n s"
  then have "few n (snd (dissolve drp r notify s))"
    using calm_stable_keeps [OF calm_stable_few dissolve_calm] by blast
  then show "case dissolve drp r notify s of (Inl e, s') \<Rightarrow> False | (Inr x, s') \<Rightarrow> fit n s'"
    using triple_InlD [OF dissolve_settles s] triple_InrD [OF dissolve_settles s]
    by (auto split: prod.splits sum.splits)
qed

lemma survivors_safe:
  assumes "framed pl"
  shows "safe (fit n) (for_each ms (\<lambda>m. seqs [send drp m pl,
    modify (\<lambda>s. add_log (LBackToLobby (client_repr s m)) s)]))"
proof -
  have "safe (fit n) (modify (\<lambda>s. add_log (LBackToLobby (client_repr s m)) s))" for m
    by (rule safe_modify) (simp add: nlive_def)
  moreover have "safe (fit n) (send drp m pl)" for m
    using send_safe [OF assms calm_stable_True] by simp
  ultimately show ?thesis
    by (auto intro!: safe_for_each safe_bnd safe_ret)
qed

lemma end_match_settles:
  assumes "st < 256"
  shows "settles (\<lambda>s. INV_room r s \<and> few n s \<and> c < sv_nclient s \<and> name_of s c \<noteq> None) (end_match drp c r st)"
proof (rule tripleI)
  fix s assume s: "INV_room r s \<and> few n s \<and> c < sv_nclient s \<and> name_of s c \<noteq> None"
  let ?s = "add_log (LMatchEnded (rm_crc_ok (sv_room s r)) (client_repr s c) st) s"
  obtain nm where nm: "name_of ?s c = Some nm" using s by (auto simp: name_of_def)
  have "names_ok s" using s by (simp add: INV_room_def)
  then have "valid_name nm" using names_ok_valid s nm by (auto simp: name_of_def)
  then obtain pl where pl: "peer_left ?s c st = Inr pl" "framed pl"
    using peer_left_ok assms nm by blast
  have run: "triple (\<lambda>s. INV_room r s \<and> few n s) (seqs [dissolve drp r [],
      for_each ms (\<lambda>m. seqs [send drp m pl, modify (\<lambda>s. add_log (LBackToLobby (client_repr s m)) s)])])
      (\<lambda>_. fit n) (\<lambda>_ _. False)" for ms
  proof (subst seqs.simps(2), rule triple_bnd [OF dissolve_fit])
    have "safe (fit n) (seqs [for_each ms (\<lambda>m. seqs [send drp m pl,
        modify (\<lambda>s. add_log (LBackToLobby (client_repr s m)) s)])])"
      using survivors_safe [OF pl(2)] by (intro safe_seqs) auto
    then show "triple (fit n) (seqs [for_each ms (\<lambda>m. seqs [send drp m pl,
        modify (\<lambda>s. add_log (LBackToLobby (client_repr s m)) s)])]) (\<lambda>_. fit n) (\<lambda>_ _. False)"
      unfolding safe_def .
  qed
  have "INV_room r ?s \<and> few n ?s" using s by simp
  then have "case seqs [dissolve drp r [], for_each (members ?s r) (\<lambda>m. seqs [send drp m pl,
      modify (\<lambda>s. add_log (LBackToLobby (client_repr s m)) s)])] ?s of
      (Inl e, s') \<Rightarrow> False | (Inr x, s') \<Rightarrow> fit n s'"
    by (rule tripleD [OF run])
  then show "case end_match drp c r st s of (Inl e, s') \<Rightarrow> False | (Inr x, s') \<Rightarrow> INV s'"
    using pl(1) by (simp add: end_match_def del: seqs.simps split: prod.splits sum.splits)
qed

lemma leave_forming_settles: "settles (\<lambda>s. INV_room r s \<and> few n s) (leave_forming drp r st)"
proof (cases "st = 0")
  case True
  have "settles (\<lambda>s. INV_room r s \<and> few n s) (bnd (gets (\<lambda>s. members s r)) (dissolve drp r))"
    by (rule settles_pure) (auto intro: triple_weaken [OF dissolve_settles])
  then have "settles (\<lambda>s. INV_room r s \<and> few n s)
      (bnd (modify (\<lambda>s. add_log (LDissolvedHostLeft (room_repr s r)) s))
        (\<lambda>_. bnd (gets (\<lambda>s. members s r)) (dissolve drp r)))"
    by (simp add: triple_def)
  with True show ?thesis unfolding leave_forming_def by simp
next
  case False
  have "settles (\<lambda>s. INV_room r s \<and> few n s) (bnd (gets (\<lambda>s. members s r)) (\<lambda>left.
      if length left < 2 then dissolve drp r left else room_broadcast drp r))"
  proof (rule settles_pure)
    fix s assume s: "INV_room r s \<and> few n s"
    show "settles (\<lambda>t. t = s) (if length (members s r) < 2 then dissolve drp r (members s r)
        else room_broadcast drp r)"
    proof (cases "length (members s r) < 2")
      case True
      with s show ?thesis by (auto intro: triple_weaken [OF dissolve_settles])
    next
      case False
      then have "fit n s \<and> announceable r s"
        using s INV_room_full [of r s] INV_room_announceable [of r s] by linarith
      with False show ?thesis by (auto intro: triple_weaken [OF room_broadcast_settles])
    qed
  qed
  with False show ?thesis unfolding leave_forming_def by simp
qed

lemma leave_room_settles:
  "settles (\<lambda>s. fit n s \<and> c < sv_nclient s \<and> room_of s c = Some r) (leave_room drp c r)"
proof (rule tripleI)
  fix s assume s: "fit n s \<and> c < sv_nclient s \<and> room_of s c = Some r"
  let ?t = "depart c r s"
  have room: "c \<in> set (members s r)" "room_fine s r"
    using rooms_okD [OF INV_D(4), of "{}" s c r] s by blast+
  obtain st where st: "list_index (members s r) c = Inr st" "st < length (members s r)"
    using list_index_in [OF room(1)] by blast
  have few: "few n ?t"
    using s nlive_mono [OF calm_depart, of c r s] by simp
  have inv: "INV_room r ?t" using s INV_depart by blast
  have named: "c < sv_nclient ?t \<and> name_of ?t c \<noteq> None"
    using s room_fineD(4) [OF room(2,1)] by simp
  have small: "st < 256" using st(2) room_fineD(3) [OF room(2)] by (simp add: const_defs)
  have "settles (\<lambda>u. u = ?t) (if rm_started (sv_room ?t r) then end_match drp c r st else leave_forming drp r st)"
    using inv few named by (auto intro: triple_weaken [OF end_match_settles [OF small]]
        triple_weaken [OF leave_forming_settles])
  then have "settles (\<lambda>u. u = ?t) (bnd (if rm_started (sv_room ?t r) then end_match drp c r st
      else leave_forming drp r st) (\<lambda>_. modify lobby_update))"
    by (rule triple_bnd) (auto intro!: settles_modify INV_lobby_update dest: INV_D)
  then show "case leave_room drp c r s of (Inl e, s') \<Rightarrow> False | (Inr x, s') \<Rightarrow> INV s'"
    using st(1) by (simp add: leave_room_def depart_run [OF room(1)] triple_def)
qed

text \<open>One level further up: the caller may have one living client more.\<close>

lemma drop_body_settles: "settles (\<lambda>s. INV_but {c} s \<and> few (Suc n) s) (drop_body drp c w)"
proof (rule tripleI)
  fix s assume s: "INV_but {c} s \<and> few (Suc n) s"
  let ?t = "forget_names c (mark_dead c w s)"
  show "case drop_body drp c w s of (Inl e, s') \<Rightarrow> False | (Inr x, s') \<Rightarrow> INV s'"
  proof (cases "is_dead s c")
    case True
    then have "INV s" using s INV_but_dead by blast
    with True show ?thesis by (simp add: drop_body_def ret_def)
  next
    case False
    have inv: "INV ?t"
      using INV_forget_names [OF INV_mark_dead mark_dead_dead] s False by blast
    have "nlive ?t < nlive s"
      using False nlive_mark_dead nlive_mono [OF calm_forget_names] le_less_trans by blast
    with s have few: "few n ?t" by simp
    show ?thesis
    proof (cases "room_of ?t c")
      case None
      with False inv show ?thesis by (simp add: drop_body_def ret_def del: forget_names_access mark_dead_access)
    next
      case (Some r)
      have "fit n ?t \<and> c < sv_nclient ?t \<and> room_of ?t c = Some r"
        using inv few Some False by (simp add: is_dead_def)
      then have "case leave_room drp c r ?t of (Inl e, s') \<Rightarrow> False | (Inr x, s') \<Rightarrow> INV s'"
        by (rule tripleD [OF leave_room_settles])
      with False Some show ?thesis by (simp add: drop_body_def del: forget_names_access mark_dead_access)
    qed
  qed
qed

end

section \<open>drop satisfies it\<close>

lemma safe_dropper_drop_n: "safe_dropper (drop_n n) n"
proof (induction n)
  case 0
  have "INV s" if "INV_but {c} s" "few 0 s" for s c
    using that nlive_0 [of s c] INV_but_dead [of c s] by simp
  then show ?case
    by (intro safe_dropper.intro dropper_drop_n safe_dropper_axioms.intro) (auto simp: triple_def ret_def)
next
  case (Suc n)
  then show ?case
    using safe_dropper.drop_body_settles
    by (intro safe_dropper.intro dropper_drop_n safe_dropper_axioms.intro) simp
qed

lemma drop_settles: "settles (INV_but {c}) (drop_client c w)"
proof (rule tripleI)
  fix s assume "INV_but {c} s"
  then show "case drop_client c w s of (Inl e, s') \<Rightarrow> False | (Inr x, s') \<Rightarrow> INV s'"
    unfolding drop_client_def
    by (intro tripleD [OF safe_dropper.drp_ok [OF safe_dropper_drop_n]]) simp
qed

text \<open>The same for the functions on top of it, with the knot tied.\<close>

interpretation safe_drops: safe_dropper drop_client n for n
  by unfold_locales (rule triple_weaken [OF drop_settles], simp_all)

lemma settles_all_levels:
  assumes "\<And>n. settles (\<lambda>s. fit n s \<and> P s) m"
  shows "settles (\<lambda>s. INV s \<and> P s) m"
proof (rule tripleI)
  fix s assume "INV s \<and> P s"
  then show "case m s of (Inl e, s') \<Rightarrow> False | (Inr x, s') \<Rightarrow> INV s'"
    by (intro tripleD [OF assms [of "nlive s"]]) simp
qed

lemma transmit_safe:
  assumes "framed data" "calm_stable Q"
  shows "safe (\<lambda>s. INV s \<and> Q s) (send drop_client c data)"
proof (rule settles_and [OF _ drops.send_calm assms(2)])
  show "settles (\<lambda>s. INV s \<and> Q s) (send drop_client c data)"
    by (rule settles_all_levels, rule triple_weaken [OF safe_drops.send_settles [OF assms(1)]]) auto
qed

lemma broadcast_safe:
  assumes "calm_stable Q"
  shows "triple (\<lambda>s. INV s \<and> announceable r s \<and> Q s) (room_broadcast drop_client r)
    (\<lambda>_ s. INV s \<and> Q s) (\<lambda>_ _. False)"
proof (rule tripleI)
  fix s assume s: "INV s \<and> announceable r s \<and> Q s"
  have run: "settles (\<lambda>s. INV s \<and> announceable r s) (room_broadcast drop_client r)"
    by (rule settles_all_levels, rule triple_weaken [OF safe_drops.room_broadcast_settles]) auto
  have "Q (snd (room_broadcast drop_client r s))"
    using s calm_stable_keeps [OF assms drops.room_broadcast_calm] by blast
  then show "case room_broadcast drop_client r s of (Inl e, s') \<Rightarrow> False | (Inr x, s') \<Rightarrow> INV s' \<and> Q s'"
    using triple_InlD [OF run] triple_InrD [OF run] s
    by (fastforce split: prod.splits sum.splits)
qed

lemma drop_safe:
  assumes "calm_stable Q"
  shows "safe (\<lambda>s. INV s \<and> Q s) (drop_client c w)"
proof (rule settles_and [OF _ drops.drp_calm assms])
  show "settles (\<lambda>s. INV s \<and> Q s) (drop_client c w)"
    by (rule triple_weaken [OF drop_settles]) (auto intro: INV_weaken)
qed

text \<open>Afterwards the client is dead.\<close>

lemma drop_dead: "is_dead (snd (drop_client c w s)) c"
proof (cases "is_dead s c")
  case True
  then show ?thesis using calm_dead keepsD [OF drops.drp_calm] by blast
next
  case False
  let ?t = "forget_names c (mark_dead c w s)"
  have dead: "is_dead ?t c" using mark_dead_dead by simp
  have eq: "drop_client c w s =
      (case room_of ?t c of None \<Rightarrow> ret () | Some r \<Rightarrow> leave_room drop_client c r) ?t"
    using False by (subst drop_unfold) (simp add: drop_body_def del: forget_names_access mark_dead_access)
  have "keeps calm (case room_of ?t c of None \<Rightarrow> ret () | Some r \<Rightarrow> leave_room drop_client c r)"
    by (auto intro: calm.kp_ret drops.leave_room_calm split: option.split)
  then have "calm ?t (snd (drop_client c w s))" unfolding eq by (rule keepsD)
  then show ?thesis using dead by (rule calm_dead)
qed

end
