(* ===== verification/Protocol.thy ===== *)
theory Protocol
  imports DropSafe
begin

text \<open>
  The protocol handlers of \<open>Server\<close>: \<open>handle\<close> and what it dispatches to. A handler takes the
  client the frame came from and the payload; a \<open>raise\<close> of the source is an exception of the
  action. \<open>drop\<close> and \<open>send\<close> are those of \<open>Plumbing\<close>, with the knot tied.
\<close>

unbundle bit_operations_syntax

abbreviation transmit :: "cid \<Rightarrow> bytes \<Rightarrow> unit srv" where
  "transmit \<equiv> send drop_client"

abbreviation proto_error :: "perr \<Rightarrow> 'a srv" where
  "proto_error p \<equiv> throw (ProtocolError p)"

section \<open>The lobby list\<close>

definition status :: "server \<Rightarrow> cid \<Rightarrow> nat" where
  "status s c =
     (case room_of s c of
        None \<Rightarrow> 1
      | Some r \<Rightarrow>
          (let n = length (members s r);
               busy = (if rm_started (sv_room s r) \<or> MAX_SEATS \<le> n then 0x80 else 0)
           in busy OR n))"

text \<open>The entries of the list: everybody registered but the asker, in the order of \<open>by_name\<close>.\<close>

definition list_others :: "server \<Rightarrow> cid \<Rightarrow> cid list" where
  "list_others s c =
     take 8 (filter (\<lambda>d. d \<noteq> c \<and> name_of s d \<noteq> None \<and> name_of s d \<noteq> Some [])
       (map snd (sv_by_name s)))"

fun list_entries :: "server \<Rightarrow> cid list \<Rightarrow> exn + bytes" where
  "list_entries s [] = Inr []"
| "list_entries s (c # cs) =
     (case pad_name (name_of s c) of
        Inl e \<Rightarrow> Inl e
      | Inr nm \<Rightarrow> (case mk_byte (int (status s c)) of
          Inl e \<Rightarrow> Inl e
        | Inr st \<Rightarrow> (case list_entries s cs of Inl e \<Rightarrow> Inl e | Inr b \<Rightarrow> Inr (nm @ st # b))))"

definition lobby_payload :: "server \<Rightarrow> cid \<Rightarrow> exn + bytes" where
  "lobby_payload s c =
     (let others = list_others s c
      in case mk_byte (int (length others)) of
           Inl e \<Rightarrow> Inl e
         | Inr n \<Rightarrow> (case list_entries s others of Inl e \<Rightarrow> Inl e | Inr b \<Rightarrow> Inr (n # b)))"

definition on_list :: "cid \<Rightarrow> unit srv" where
  "on_list c =
     bnd (gets (\<lambda>s. lobby_payload s c)) (\<lambda>p. bnd (lift p) (\<lambda>payload.
       bnd (lift (frame T_LOBBY payload)) (transmit c)))"

section \<open>HELLO\<close>

definition hello_name :: "bytes \<Rightarrow> exn + pystr" where
  "hello_name payload =
     (if length payload < 3 then Inl (ProtocolError ShortHello)
      else if payload ! 0 \<noteq> PROTO_VER then Inl (ProtocolError (BadVersion (payload ! 0)))
      else
        (let name = rstrip_pad (decode_ascii (drop 1 payload))
         in if valid_name name then Inr name else Inl (ProtocolError (BadName name))))"

text \<open>A repeated HELLO with a new name: the old alias goes.\<close>

definition drop_alias :: "cid \<Rightarrow> pystr \<Rightarrow> server \<Rightarrow> server" where
  "drop_alias c name s =
     (case name_of s c of
        None \<Rightarrow> s
      | Some old \<Rightarrow>
          if old = name then s
          else
            (let s1 = (if dget (sv_by_name s) old = Some c
                       then s\<lparr>sv_by_name := ddel (sv_by_name s) old\<rparr> else s)
             in add_log (LRename (client_repr s1 c) name) s1))"

definition set_name :: "cid \<Rightarrow> pystr \<Rightarrow> server \<Rightarrow> server" where
  "set_name c name s =
     (let s1 = upd_client c (\<lambda>cl. cl\<lparr>cl_name := Some name\<rparr>) s;
          s2 = s1\<lparr>sv_by_name := dset (sv_by_name s1) name c\<rparr>
      in add_log (LHello (client_repr s2 c)) s2)"

definition on_hello :: "cid \<Rightarrow> bytes \<Rightarrow> unit srv" where
  "on_hello c payload =
     bnd (lift (hello_name payload)) (\<lambda>name.
     bnd (gets (\<lambda>s. dget (sv_by_name s) name)) (\<lambda>old.
     bnd (case old of
            None \<Rightarrow> ret ()
          | Some d \<Rightarrow> if d \<noteq> c then drop_client d WhyReplaced else ret ()) (\<lambda>_.
       seqs [
         modify (drop_alias c name),
         modify (set_name c name),
         modify lobby_update,
         on_list c])))"

section \<open>START\<close>

text \<open>
  \<open>random.randrange(1, 0x10000)\<close>; \<open>rm_crc_ok\<close> and the CRC table start afresh.
\<close>

definition begin_match :: "rid \<Rightarrow> server \<Rightarrow> server" where
  "begin_match r s =
     (upd_room r (\<lambda>rm. rm\<lparr>rm_started := True, rm_seed := 1 + sv_rand s (sv_draws s) mod 0xFFFF,
                          rm_crc := [], rm_crc_ok := 0\<rparr>) s)
       \<lparr>sv_draws := Suc (sv_draws s)\<rparr>"

text \<open>\<open>bytes([len(room.members), room.seed & 0xFF, room.seed >> 8, self.delay]) + room.roster()\<close>.\<close>

definition start_common :: "server \<Rightarrow> rid \<Rightarrow> exn + bytes" where
  "start_common s r =
     (case mk_byte (int (length (members s r))) of Inl e \<Rightarrow> Inl e | Inr n \<Rightarrow>
     (case mk_byte (int (rm_seed (sv_room s r) AND 0xFF)) of Inl e \<Rightarrow> Inl e | Inr lo \<Rightarrow>
     (case mk_byte (int (drop_bit 8 (rm_seed (sv_room s r)))) of Inl e \<Rightarrow> Inl e | Inr hi \<Rightarrow>
     (case mk_byte (sv_delay s) of Inl e \<Rightarrow> Inl e | Inr dl \<Rightarrow>
     (case roster s r of Inl e \<Rightarrow> Inl e | Inr b \<Rightarrow> Inr ([n, lo, hi, dl] @ b))))))"

definition start_frame :: "bytes \<Rightarrow> nat \<Rightarrow> exn + bytes" where
  "start_frame common st =
     (case mk_byte (int st) of Inl e \<Rightarrow> Inl e | Inr b \<Rightarrow> frame T_START (b # common))"

definition start_room :: "rid \<Rightarrow> unit srv" where
  "start_room r =
     bnd (modify (begin_match r)) (\<lambda>_.
     bnd (gets (\<lambda>s. start_common s r)) (\<lambda>x. bnd (lift x) (\<lambda>common.
       seqs [
         for_members r (\<lambda>st m. bnd (lift (start_frame common st)) (transmit m)),
         modify (\<lambda>s. add_log (LStarted (room_repr s r) (length (members s r)) (rm_seed (sv_room s r))) s),
         modify lobby_update])))"

section \<open>JOIN and GO\<close>

definition unjoinable :: "server \<Rightarrow> cid \<Rightarrow> cid option \<Rightarrow> bool" where
  "unjoinable s c target =
     (case target of
        None \<Rightarrow> True
      | Some t \<Rightarrow>
          t = c \<or> name_of s t = None \<or>
          (case room_of s t of
             None \<Rightarrow> False
           | Some r \<Rightarrow> rm_started (sv_room s r) \<or> MAX_SEATS \<le> length (members s r)))"

definition make_room :: "cid \<Rightarrow> server \<Rightarrow> server" where
  "make_room host s =
     (let r = sv_nroom s;
          s1 = s\<lparr>sv_room := (sv_room s)(r := new_room host), sv_nroom := Suc r\<rparr>
      in upd_client host (\<lambda>cl. cl\<lparr>cl_room := Some r\<rparr>) s1)"

definition enter_room :: "cid \<Rightarrow> rid \<Rightarrow> server \<Rightarrow> server" where
  "enter_room c r s =
     (let s1 = upd_room r (\<lambda>rm. rm\<lparr>rm_members := rm_members rm @ [c]\<rparr>) s;
          s2 = upd_client c (\<lambda>cl. cl\<lparr>cl_room := Some r\<rparr>) s1
      in add_log (LJoin (client_repr s2 c) (room_repr s2 r)) s2)"

text \<open>The target's room, made when there is none.\<close>

definition join_target :: "cid \<Rightarrow> rid srv" where
  "join_target t =
     bnd (gets (\<lambda>s. room_of s t)) (\<lambda>room.
       case room of
         Some r \<Rightarrow> ret r
       | None \<Rightarrow> bnd (gets sv_nroom) (\<lambda>r. bnd (modify (make_room t)) (\<lambda>_. ret r)))"

definition auto_start :: "rid \<Rightarrow> unit srv" where
  "auto_start r =
     bnd (gets (\<lambda>s. sv_auto_go s \<noteq> 0 \<and> sv_auto_go s \<le> int (length (members s r)))) (\<lambda>b.
       guarded b (start_room r))"

definition join_room :: "cid \<Rightarrow> cid \<Rightarrow> unit srv" where
  "join_room c t =
     bnd (join_target t) (\<lambda>r.
       seqs [
         modify (enter_room c r),
         room_broadcast drop_client r,
         modify lobby_update,
         auto_start r])"

definition on_join :: "cid \<Rightarrow> bytes \<Rightarrow> unit srv" where
  "on_join c payload =
     bnd (gets (\<lambda>s. name_of s c)) (\<lambda>name.
     if name = None then proto_error JoinBeforeHello
     else bnd (gets (\<lambda>s. room_of s c)) (\<lambda>room.
       if room \<noteq> None then ret ()
       else bnd (gets (\<lambda>s. dget (sv_by_name s) (rstrip_pad (decode_ascii payload)))) (\<lambda>target.
         bnd (gets (\<lambda>s. unjoinable s c target)) (\<lambda>no.
           if no then on_list c else join_room c (the target)))))"

definition on_go :: "cid \<Rightarrow> unit srv" where
  "on_go c =
     bnd (gets (\<lambda>s. room_of s c)) (\<lambda>room.
       case room of
         None \<Rightarrow> ret ()
       | Some r \<Rightarrow>
           bnd (gets (\<lambda>s. rm_started (sv_room s r))) (\<lambda>started.
             if started then ret ()
             else bnd (gets (\<lambda>s. seat s c)) (\<lambda>x. bnd (lift x) (\<lambda>st.
               if st \<noteq> Some 0 then ret ()
               else bnd (gets (\<lambda>s. length (members s r))) (\<lambda>n.
                 if \<not> (2 \<le> n \<and> n \<le> MAX_SEATS) then ret () else start_room r)))))"

section \<open>CRC rounds\<close>

text \<open>
  One CRC report in a room with \<open>n\<close> members: the room afterwards and the line logged, if any.
  The entry of the tick stays in hand when the eviction removes it from the table.
\<close>

definition crc_tick :: "bytes \<Rightarrow> nat" where
  "crc_tick payload = unat (payload ! 1) OR push_bit 8 (unat (payload ! 2))"

definition crc_value :: "bytes \<Rightarrow> nat" where
  "crc_value payload = unat (payload ! 3) OR push_bit 8 (unat (payload ! 4))"

definition crc_store :: "bytes \<Rightarrow> (nat, crc_entry) pydict \<Rightarrow> crc_entry \<times> (nat, crc_entry) pydict" where
  "crc_store payload crc =
     (let tick = crc_tick payload;
          entry = dset (case dget crc tick of None \<Rightarrow> [] | Some e \<Rightarrow> e) (unat (payload ! 0)) (crc_value payload);
          crc1 = dset crc tick entry
      in (entry, if 64 < length crc1 then ddel crc1 (Min (set (dkeys crc1))) else crc1))"

definition crc_round :: "nat \<Rightarrow> bytes \<Rightarrow> room \<Rightarrow> room \<times> log_event list" where
  "crc_round n payload rm =
     (let tick = crc_tick payload;
          (entry, crc) = crc_store payload (rm_crc rm)
      in if length entry < n then (rm\<lparr>rm_crc := crc\<rparr>, [])
         else
           (let rm1 = rm\<lparr>rm_crc := ddel crc tick\<rparr>
            in if card (set (map snd entry)) \<noteq> 1 then (rm1, [LMismatch tick (sort_key fst entry)])
               else
                 (let ok = Suc (rm_crc_ok rm1)
                  in (rm1\<lparr>rm_crc_ok := ok\<rparr>, if ok mod 4 = 0 then [LCrcOk tick ok] else []))))"

definition log_crc :: "rid \<Rightarrow> bytes \<Rightarrow> server \<Rightarrow> server" where
  "log_crc r payload s =
     (let (rm, ls) = crc_round (length (members s r)) payload (sv_room s r)
      in fold add_log ls (upd_room r (\<lambda>_. rm) s))"

section \<open>handle\<close>

definition relay :: "cid \<Rightarrow> byte \<Rightarrow> bytes \<Rightarrow> unit srv" where
  "relay c ftype payload =
     bnd (gets (\<lambda>s. room_of s c)) (\<lambda>room.
       case room of
         None \<Rightarrow> ret ()
       | Some r \<Rightarrow>
           bnd (gets (\<lambda>s. rm_started (sv_room s r))) (\<lambda>started.
             if \<not> started then ret ()
             else
               bnd (guarded (ftype = T_CRC \<and> length payload = 5) (modify (log_crc r payload))) (\<lambda>_.
               bnd (lift (frame ftype payload)) (\<lambda>data.
                 for_members r (\<lambda>_ m. guarded (m \<noteq> c) (transmit m data))))))"

definition handle :: "cid \<Rightarrow> byte \<Rightarrow> bytes \<Rightarrow> unit srv" where
  "handle c ftype payload =
     (if ftype \<in> set RELAY_TYPES then relay c ftype payload
      else if ftype = T_HELLO then on_hello c payload
      else if ftype = T_LIST then on_list c
      else if ftype = T_JOIN then on_join c payload
      else if ftype = T_GO then on_go c
      else if ftype = T_BYE then drop_client c WhyBye
      else if ftype = T_PING then bnd (lift (frame T_PONG [])) (transmit c)
      else proto_error (UnknownType ftype))"

end
