(* ===== verification/ProtocolSafe.thy ===== *)
theory ProtocolSafe
  imports Protocol
begin

text \<open>
  Every handler keeps the invariant, and the only exceptions that leave \<open>handle\<close> are the
  protocol errors it raises on purpose, as long as the input delay of the server fits a byte.
  The last section gives the frame condition of the handlers, \<open>evolves\<close>.
\<close>

section \<open>The lobby list\<close>

lemma seat_cases: "length ms \<le> MAX_SEATS \<Longrightarrow> length ms = 0 \<or> length ms = 1 \<or> length ms = 2"
  unfolding MAX_SEATS_def by linarith

lemma status_small:
  assumes "INV s" "c < sv_nclient s"
  shows "status s c < 256"
proof (cases "room_of s c")
  case (Some r)
  then have "length (members s r) \<le> MAX_SEATS"
    using rooms_okD [OF INV_D(4) [OF assms(1)] assms(2)] room_fineD(3) by blast
  then have "length (members s r) = 0 \<or> length (members s r) = 1 \<or> length (members s r) = 2"
    by (rule seat_cases)
  with Some show ?thesis
    by (elim disjE) (simp_all add: status_def Let_def MAX_SEATS_def)
qed (simp add: status_def)

lemma list_others_ok:
  assumes "INV s" "d \<in> set (list_others s c)"
  shows "d < sv_nclient s \<and> (\<exists>n. name_of s d = Some n \<and> valid_name n)"
proof -
  have "d \<in> set (map snd (sv_by_name s))"
    using assms(2) unfolding list_others_def by (auto dest: in_set_takeD)
  then obtain n where "(n, d) \<in> set (sv_by_name s)" by auto
  with names_ok_entry [OF INV_D(1) [OF assms(1)]] names_ok_valid [OF INV_D(1) [OF assms(1)]]
  show ?thesis by blast
qed

lemma list_entries_ok:
  "(\<And>d. d \<in> set cs \<Longrightarrow> (\<exists>n. name_of s d = Some n \<and> valid_name n) \<and> status s d < 256) \<Longrightarrow>
     \<exists>b. list_entries s cs = Inr b \<and> length b = 9 * length cs"
proof (induction cs)
  case (Cons d cs)
  obtain n where d: "name_of s d = Some n" "valid_name n" "status s d < 256"
    using Cons.prems [of d] by auto
  obtain b where b: "list_entries s cs = Inr b" "length b = 9 * length cs"
    using Cons.IH Cons.prems by (meson list.set_intros(2))
  obtain p where "pad_name (Some n) = Inr p" "length p = 8"
    using d(2) by (metis pad_name_length pad_name_valid)
  with d b show ?case by simp
qed simp

lemma lobby_payload_ok:
  assumes "INV s"
  shows "\<exists>p. lobby_payload s c = Inr p \<and> length p = 1 + 9 * length (list_others s c)"
proof -
  have "\<exists>b. list_entries s (list_others s c) = Inr b \<and> length b = 9 * length (list_others s c)"
    using list_others_ok [OF assms] status_small [OF assms] by (intro list_entries_ok) blast
  moreover have "length (list_others s c) \<le> 8" by (simp add: list_others_def)
  ultimately show ?thesis by (auto simp: lobby_payload_def)
qed

lemma safe_frame:
  assumes "length payload \<le> 199" "calm_stable Q"
  shows "safe (\<lambda>s. INV s \<and> Q s) (bnd (lift (frame t payload)) (transmit c))"
  using assms transmit_safe framed_wire_of [of "t # payload"]
  by (simp add: frame_wire_of readable_def)

lemma safe_pure:
  assumes "\<And>s. P s \<Longrightarrow> \<exists>x. g s = Inr x \<and> safe P (f x)"
  shows "safe P (bnd (gets g) (\<lambda>r. bnd (lift r) f))"
  unfolding safe_def
proof (rule tripleI)
  fix s assume s: "P s"
  then obtain x where x: "g s = Inr x" "safe P (f x)" using assms by blast
  have "case f x s of (Inl e, s') \<Rightarrow> False | (Inr x, s') \<Rightarrow> P s'"
    using tripleD [OF x(2) [unfolded safe_def] s] .
  with x(1) show "case bnd (gets g) (\<lambda>r. bnd (lift r) f) s of (Inl e, s') \<Rightarrow> False | (Inr x, s') \<Rightarrow> P s'"
    by simp
qed

lemma settles_at: "settles P m \<Longrightarrow> P s \<Longrightarrow> settles (\<lambda>t. t = s) m"
  by (erule triple_weaken) simp_all

lemma seqs_modify: "seqs (modify f # ms) s = seqs ms (f s)"
  by simp

lemma on_list_safe:
  assumes "calm_stable Q"
  shows "safe (\<lambda>s. INV s \<and> Q s) (on_list c)"
  unfolding on_list_def
proof (rule safe_pure)
  fix s assume s: "INV s \<and> Q s"
  then obtain p where p: "lobby_payload s c = Inr p" "length p = 1 + 9 * length (list_others s c)"
    using lobby_payload_ok by blast
  moreover have "length (list_others s c) \<le> 8" by (simp add: list_others_def)
  ultimately show "\<exists>x. lobby_payload s c = Inr x \<and>
      safe (\<lambda>s. INV s \<and> Q s) (bnd (lift (frame T_LOBBY x)) (transmit c))"
    using safe_frame [OF _ assms] by simp
qed

lemma on_list_safe0: "safe INV (on_list c)"
  using on_list_safe [OF calm_stable_True] by simp

section \<open>HELLO\<close>

lemma hello_name_valid: "hello_name p = Inr n \<Longrightarrow> valid_name n"
  by (auto simp: hello_name_def Let_def split: if_splits)

lemma hello_name_error: "hello_name p = Inl e \<Longrightarrow> \<exists>q. e = ProtocolError q"
  by (auto simp: hello_name_def Let_def split: if_splits)

text \<open>Nobody else alive has the name.\<close>

definition name_free :: "cid \<Rightarrow> pystr \<Rightarrow> server \<Rightarrow> bool" where
  "name_free c n s \<longleftrightarrow> (\<forall>d. d \<noteq> c \<and> \<not> is_dead s d \<longrightarrow> name_of s d \<noteq> Some n)"

lemma name_free_dropped:
  assumes "INV s" "calm s t" "\<And>d. dget (sv_by_name s) n = Some d \<Longrightarrow> d \<noteq> c \<Longrightarrow> is_dead t d"
  shows "name_free c n t"
  unfolding name_free_def
proof (intro allI impI notI)
  fix d assume d: "d \<noteq> c \<and> \<not> is_dead t d" "name_of t d = Some n"
  then have live: "\<not> is_dead s d" using assms(2) calm_dead by blast
  have "name_of t d = name_of s d" using assms(2) by (simp add: calm_def name_of_def)
  with d live have "\<not> is_dead s d" "name_of s d = Some n" by simp_all
  then have "(n, d) \<in> set (sv_by_name s)"
    using names_ok_live [OF INV_D(1) [OF assms(1)]] by blast
  then have "dget (sv_by_name s) n = Some d"
    by (rule dget_in [OF names_ok_wf [OF INV_D(1) [OF assms(1)]]])
  with assms(3) d show False by blast
qed

definition renamed :: "cid \<Rightarrow> pystr \<Rightarrow> server \<Rightarrow> server" where
  "renamed c n s = set_name c n (drop_alias c n s)"

lemma drop_alias_by_name:
  "sv_by_name (drop_alias c n s) =
     (case name_of s c of
        None \<Rightarrow> sv_by_name s
      | Some old \<Rightarrow> if old \<noteq> n \<and> dget (sv_by_name s) old = Some c then ddel (sv_by_name s) old
                    else sv_by_name s)"
  by (simp add: drop_alias_def Let_def split: option.split)

lemma drop_alias_simps [simp]:
  "sv_client (drop_alias c n s) = sv_client s" "sv_nclient (drop_alias c n s) = sv_nclient s"
  "sv_room (drop_alias c n s) = sv_room s" "sv_nroom (drop_alias c n s) = sv_nroom s"
  "sv_clients (drop_alias c n s) = sv_clients s" "sv_sel (drop_alias c n s) = sv_sel s"
  "sv_lobby (drop_alias c n s) = sv_lobby s" "sv_delay (drop_alias c n s) = sv_delay s"
  by (simp_all add: drop_alias_def Let_def split: option.split)

lemma renamed_simps [simp]:
  "sv_nclient (renamed c n s) = sv_nclient s" "sv_room (renamed c n s) = sv_room s"
  "sv_nroom (renamed c n s) = sv_nroom s" "sv_clients (renamed c n s) = sv_clients s"
  "sv_sel (renamed c n s) = sv_sel s" "sv_delay (renamed c n s) = sv_delay s"
  "sv_by_name (renamed c n s) = dset (sv_by_name (drop_alias c n s)) n c"
  "sv_client (renamed c n s) = (sv_client s)(c := (sv_client s c)\<lparr>cl_name := Some n\<rparr>)"
  by (simp_all add: renamed_def set_name_def Let_def)

lemma renamed_access [simp]:
  "is_dead (renamed c n s) d = is_dead s d" "room_of (renamed c n s) d = room_of s d"
  "name_of (renamed c n s) d = (if d = c then Some n else name_of s d)"
  "members (renamed c n s) r = members s r" "stream (renamed c n s) d = stream s d"
  by (simp_all add: access_defs stream_def)

text \<open>The lookups afterwards.\<close>

lemma dget_renamed:
  "dget (sv_by_name (renamed c n s)) k =
     (if k = n then Some c
      else if name_of s c = Some k \<and> dget (sv_by_name s) k = Some c then None
      else dget (sv_by_name s) k)"
  by (simp add: dict.lookup_store drop_alias_by_name dict.lookup_remove split: option.split)

lemma names_ok_renamed:
  assumes ok: "names_ok s" and c: "c < sv_nclient s" and n: "valid_name n" and free: "name_free c n s"
  shows "names_ok (renamed c n s)"
proof (rule names_okI)
  let ?t = "renamed c n s"
  note wf = names_ok_wf [OF ok]
  have "dwf (sv_by_name (drop_alias c n s))"
    using wf by (simp add: drop_alias_by_name dict.wf_remove split: option.split)
  then show wft: "dwf (sv_by_name ?t)" by (simp add: dict.wf_store)
  show "d < sv_nclient ?t \<and> name_of ?t d = Some k" if "(k, d) \<in> set (sv_by_name ?t)" for k d
  proof -
    have k: "dget (sv_by_name ?t) k = Some d" using dget_in [OF wft that] .
    show ?thesis
    proof (cases "k = n")
      case True
      with k c show ?thesis by (simp add: dget_renamed del: renamed_simps(7))
    next
      case False
      with k have old: "dget (sv_by_name s) k = Some d" "\<not> (name_of s c = Some k \<and> d = c)"
        by (auto simp add: dget_renamed simp del: renamed_simps(7) split: if_splits)
      with names_ok_entry [OF ok dget_Some_in [OF old(1)]] show ?thesis by auto
    qed
  qed
  show "(k, d) \<in> set (sv_by_name ?t)" if d: "\<not> is_dead ?t d" "name_of ?t d = Some k" for k d
  proof (cases "d = c")
    case True
    with d have "dget (sv_by_name ?t) k = Some d" by (simp add: dget_renamed del: renamed_simps(7))
    then show ?thesis by (rule dget_Some_in)
  next
    case False
    with d have ds: "\<not> is_dead s d" "name_of s d = Some k" by simp_all
    then have "dget (sv_by_name s) k = Some d"
      using dget_in [OF wf] names_ok_live [OF ok] by blast
    moreover have "k \<noteq> n" using free ds False by (auto simp: name_free_def)
    ultimately have "dget (sv_by_name ?t) k = Some d"
      using False by (simp add: dget_renamed del: renamed_simps(7))
    then show ?thesis by (rule dget_Some_in)
  qed
  show "valid_name k" if "d < sv_nclient ?t" "name_of ?t d = Some k" for k d
    using that n names_ok_valid [OF ok] by (auto split: if_splits)
qed

lemma rooms_ok_renamed:
  assumes "rooms_ok s"
  shows "rooms_ok (renamed c n s)"
proof (rule rooms_okI)
  fix d r assume "d < sv_nclient (renamed c n s)" "room_of (renamed c n s) d = Some r"
  then have d: "d < sv_nclient s" "room_of s d = Some r" by simp_all
  note all = rooms_okD [OF assms d]
  have "room_fine (renamed c n s) r"
    using all by (simp add: room_fine_def)
  with all show "d \<in> set (members (renamed c n s) r) \<and> room_fine (renamed c n s) r
      \<and> 2 \<le> length (members (renamed c n s) r)" by simp
qed

lemma INV_renamed:
  assumes inv: "INV s" and c: "c < sv_nclient s" and n: "valid_name n" and free: "name_free c n s"
  shows "INV (lobby_update (renamed c n s))"
proof -
  let ?t = "renamed c n s"
  note parts = INV_D [OF inv]
  have "clients_ok ?t = clients_ok s" by (rule clients_ok_cong) simp_all
  moreover have "queues_ok {} ?t = queues_ok {} s" by (rule queues_ok_cong) simp_all
  moreover have "crc_tables_ok ?t = crc_tables_ok s" by (rule crc_tables_ok_cong) simp
  moreover have "streams_ok ?t = streams_ok s" by (rule streams_ok_cong) simp
  ultimately show ?thesis
    using parts names_ok_renamed [OF parts(1) c n free] rooms_ok_renamed [OF parts(4)]
    by (intro INV_lobby_update) simp_all
qed

text \<open>The three ways an action may end: well, or with a protocol error.\<close>

definition only_protocol :: "exn \<Rightarrow> server \<Rightarrow> bool" where
  "only_protocol e s \<longleftrightarrow> INV s \<and> (\<exists>p. e = ProtocolError p)"

abbreviation answers :: "(server \<Rightarrow> bool) \<Rightarrow> unit srv \<Rightarrow> bool" where
  "answers P m \<equiv> triple P m (\<lambda>_. INV) only_protocol"

lemma safe_answers: "safe (\<lambda>s. INV s \<and> Q s) m \<Longrightarrow> answers (\<lambda>s. INV s \<and> Q s) m"
  unfolding safe_def by (erule triple_weaken) simp_all

lemma answers_error: "answers INV (proto_error p)"
  by (simp add: triple_def throw_def only_protocol_def)

lemma hello_tail_safe:
  assumes "valid_name n"
  shows "settles (\<lambda>s. INV s \<and> c < sv_nclient s \<and> name_free c n s)
    (seqs [modify (drop_alias c n), modify (set_name c n), modify lobby_update, on_list c])"
proof (rule tripleI)
  fix s assume "INV s \<and> c < sv_nclient s \<and> name_free c n s"
  then have "INV (lobby_update (renamed c n s))" using INV_renamed assms by blast
  then have "case bnd (on_list c) (\<lambda>_. ret ()) (lobby_update (renamed c n s)) of
      (Inl e, s') \<Rightarrow> False | (Inr x, s') \<Rightarrow> INV s'"
    by (rule tripleD [OF safe_bnd [OF on_list_safe0 safe_ret, unfolded safe_def]])
  then show "case seqs [modify (drop_alias c n), modify (set_name c n), modify lobby_update, on_list c] s of
      (Inl e, s') \<Rightarrow> False | (Inr x, s') \<Rightarrow> INV s'"
    by (simp add: renamed_def)
qed

lemma on_hello_answers: "answers (\<lambda>s. INV s \<and> c < sv_nclient s) (on_hello c payload)"
proof (rule tripleI)
  fix s assume s: "INV s \<and> c < sv_nclient s"
  show "case on_hello c payload s of (Inl e, s') \<Rightarrow> only_protocol e s' | (Inr x, s') \<Rightarrow> INV s'"
  proof (cases "hello_name payload")
    case (Inl e)
    then obtain q where "e = ProtocolError q" using hello_name_error by blast
    with Inl s show ?thesis by (simp add: on_hello_def only_protocol_def)
  next
    case (Inr n)
    note valid = hello_name_valid [OF Inr]
    let ?m = "case dget (sv_by_name s) n of None \<Rightarrow> ret ()
      | Some d \<Rightarrow> if d \<noteq> c then drop_client d WhyReplaced else ret ()"
    let ?tail = "seqs [modify (drop_alias c n), modify (set_name c n), modify lobby_update, on_list c]"
    have "safe INV ?m"
      using drop_safe [OF calm_stable_True] by (auto intro: safe_ret split: option.split)
    then obtain t where t: "?m s = (Inr (), t)" "INV t"
      using s by (auto elim!: safeE [of _ _ s])
    have "keeps calm ?m"
      by (auto intro: calm.kp_ret drops.drp_calm split: option.split)
    then have "calm s t" using keepsD [of calm ?m s] t by simp
    moreover have "is_dead t d" if "dget (sv_by_name s) n = Some d" "d \<noteq> c" for d
      using that t drop_dead [of d WhyReplaced s] by simp
    ultimately have "name_free c n t" using s by (intro name_free_dropped) auto
    moreover have "c < sv_nclient t" using s \<open>calm s t\<close> by (simp add: calm_def)
    ultimately have "case ?tail t of (Inl e, s') \<Rightarrow> False | (Inr x, s') \<Rightarrow> INV s'"
      using t(2) by (intro tripleD [OF hello_tail_safe [OF valid]]) simp
    moreover have "on_hello c payload s = ?tail t"
      using Inr t(1) by (simp add: on_hello_def bnd_def [of ?m] del: seqs.simps)
    ultimately show ?thesis by (auto split: prod.splits sum.splits)
  qed
qed

section \<open>START\<close>

definition delay_ok :: "server \<Rightarrow> bool" where
  "delay_ok s \<longleftrightarrow> 0 \<le> sv_delay s \<and> sv_delay s < 256"

lemma calm_stable_delay: "calm_stable delay_ok"
  unfolding calm_stable_def calm_def delay_ok_def by simp

lemma calm_stable_announceable: "calm_stable (announceable r)"
  unfolding calm_stable_def
proof (intro allI impI)
  fix s t assume a: "announceable r s" and c: "calm s t"
  have "length (members t r) \<le> length (members s r)" "set (members t r) \<subseteq> set (members s r)"
    "\<And>m. name_of t m = name_of s m" "sv_nclient t = sv_nclient s"
    using c by (simp_all add: calm_def name_of_def)
  with a show "announceable r t" unfolding announceable_def by (metis order_trans subsetD)
qed

lemma begin_match_simps [simp]:
  "sv_client (begin_match r s) = sv_client s" "sv_nclient (begin_match r s) = sv_nclient s"
  "sv_nroom (begin_match r s) = sv_nroom s" "sv_by_name (begin_match r s) = sv_by_name s"
  "sv_clients (begin_match r s) = sv_clients s" "sv_sel (begin_match r s) = sv_sel s"
  "sv_lobby (begin_match r s) = sv_lobby s" "sv_delay (begin_match r s) = sv_delay s"
  "sv_room (begin_match r s) = (sv_room s)(r := (sv_room s r)\<lparr>rm_started := True,
     rm_seed := 1 + sv_rand s (sv_draws s) mod 0xFFFF, rm_crc := [], rm_crc_ok := 0\<rparr>)"
  "sv_log (begin_match r s) = sv_log s" "sv_net (begin_match r s) = sv_net s"
  by (simp_all add: begin_match_def)

lemma begin_match_access [simp]:
  "is_dead (begin_match r s) d = is_dead s d" "room_of (begin_match r s) d = room_of s d"
  "name_of (begin_match r s) d = name_of s d" "members (begin_match r s) q = members s q"
  "stream (begin_match r s) d = stream s d"
  by (simp_all add: access_defs stream_def)

lemma INV_begin_match:
  assumes "INV s"
  shows "INV (begin_match r s)"
proof -
  let ?t = "begin_match r s"
  note parts = INV_D [OF assms]
  have "names_ok ?t = names_ok s" by (rule names_ok_cong) simp_all
  moreover have "clients_ok ?t = clients_ok s" by (rule clients_ok_cong) simp_all
  moreover have "queues_ok {} ?t = queues_ok {} s" by (rule queues_ok_cong) simp_all
  moreover have "rooms_ok ?t = rooms_ok s" by (rule rooms_ok_cong) simp_all
  moreover have "lobby_ok ?t = lobby_ok s" by (rule lobby_ok_cong) simp_all
  moreover have "streams_ok ?t = streams_ok s" by (rule streams_ok_cong) simp
  moreover have "crc_tables_ok ?t"
    using parts(5) by (simp add: crc_tables_ok_def dwf_def dkeys_def)
  ultimately show ?thesis using parts by (intro INV_I) simp_all
qed

lemma seed_range: "1 \<le> rm_seed (sv_room (begin_match r s) r) \<and> rm_seed (sv_room (begin_match r s) r) \<le> 0xFFFF"
  by simp

lemma start_common_ok:
  assumes "INV s" "announceable r s" "delay_ok s" "rm_seed (sv_room s r) \<le> 0xFFFF"
  shows "\<exists>b. start_common s r = Inr b \<and> length b = 36"
proof -
  have len: "length (members s r) \<le> 2" using assms(2) by (simp add: announceable_def const_defs)
  have "\<exists>b. roster s r = Inr b \<and> length b = 8 * ROSTER_SLOTS"
    using announceable_names [OF assms(1,2)] len by (intro roster_ok) (auto simp: const_defs)
  then obtain b where "roster s r = Inr b" "length b = 32" by (auto simp: const_defs)
  moreover have "rm_seed (sv_room s r) AND 0xFF < 256"
    by (rule low_byte_less)
  moreover have "drop_bit 8 (rm_seed (sv_room s r)) < 256"
    using assms(4) by (simp add: drop_bit_eq_div)
  ultimately show ?thesis
    using len assms(3) by (simp add: start_common_def delay_ok_def)
qed

lemma small_loop_settles:
  assumes "\<And>st m. st < 256 \<Longrightarrow> safe INV (f st m)"
  shows "settles (\<lambda>s. INV s \<and> announceable r s) (for_members r f)"
  unfolding for_members_def
proof (rule settles_pure)
  fix s assume s: "INV s \<and> announceable r s"
  then have "safe INV (walk (length (members s r)) r 0 f)"
    using assms by (intro walk_safe [where b = 256]) (simp_all add: announceable_def const_defs)
  then show "settles (\<lambda>t. t = s) (walk (length (members s r)) r 0 f)"
    using s unfolding safe_def by (auto elim: triple_weaken)
qed

lemma start_frame_safe:
  assumes "st < 256" "length common = 36"
  shows "safe INV (bnd (lift (start_frame common st)) (transmit m))"
  using assms safe_frame [of "of_nat st # common" "\<lambda>_. True" T_START m]
  by (simp add: start_frame_def calm_stable_True)

lemma safe_lobby_update: "safe INV (modify lobby_update)"
  by (rule safe_modify) (auto intro: INV_lobby_update dest: INV_D)

lemma safe_log: "safe INV (modify (\<lambda>s. add_log (e s) s))"
  by (rule safe_modify) simp

lemma start_room_settles:
  "settles (\<lambda>s. INV s \<and> announceable r s \<and> delay_ok s) (start_room r)"
proof (rule tripleI)
  fix s assume s: "INV s \<and> announceable r s \<and> delay_ok s"
  let ?t = "begin_match r s"
  have t: "INV ?t \<and> announceable r ?t"
    using s INV_begin_match by (simp add: announceable_def)
  have "delay_ok ?t" using s by (simp add: delay_ok_def)
  then obtain common where common: "start_common ?t r = Inr common" "length common = 36"
    using start_common_ok t seed_range by blast
  let ?loop = "for_members r (\<lambda>st m. bnd (lift (start_frame common st)) (transmit m))"
  let ?rest = "[modify (\<lambda>s. add_log (LStarted (room_repr s r) (length (members s r))
      (rm_seed (sv_room s r))) s), modify lobby_update]"
  have "settles (\<lambda>s. INV s \<and> announceable r s) ?loop"
    using start_frame_safe common(2) by (intro small_loop_settles)
  moreover have "safe INV (seqs ?rest)"
    by (intro safe_seqs) (auto intro: safe_lobby_update safe_log)
  ultimately have "settles (\<lambda>s. INV s \<and> announceable r s) (seqs (?loop # ?rest))"
    unfolding safe_def seqs.simps(2) [of ?loop] by (rule triple_bnd)
  then have "case seqs (?loop # ?rest) ?t of (Inl e, s') \<Rightarrow> False | (Inr x, s') \<Rightarrow> INV s'"
    using t by (rule tripleD)
  then show "case start_room r s of (Inl e, s') \<Rightarrow> False | (Inr x, s') \<Rightarrow> INV s'"
    using common(1) by (simp add: start_room_def del: seqs.simps begin_match_simps begin_match_access)
qed

section \<open>JOIN and GO\<close>

lemma make_room_access [simp]:
  "is_dead (make_room t s) d = is_dead s d" "name_of (make_room t s) d = name_of s d"
  "room_of (make_room t s) d = (if d = t then Some (sv_nroom s) else room_of s d)"
  "members (make_room t s) q = (if q = sv_nroom s then [t] else members s q)"
  "stream (make_room t s) d = stream s d" "sv_nclient (make_room t s) = sv_nclient s"
  "sv_nroom (make_room t s) = Suc (sv_nroom s)" "sv_by_name (make_room t s) = sv_by_name s"
  "sv_clients (make_room t s) = sv_clients s" "sv_sel (make_room t s) = sv_sel s"
  "sv_lobby (make_room t s) = sv_lobby s" "sv_delay (make_room t s) = sv_delay s"
  "cl_tx (sv_client (make_room t s) d) = cl_tx (sv_client s d)"
  "cl_addr (sv_client (make_room t s) d) = cl_addr (sv_client s d)"
  "rm_crc (sv_room (make_room t s) q) = (if q = sv_nroom s then [] else rm_crc (sv_room s q))"
  by (simp_all add: make_room_def Let_def access_defs stream_def new_room_def)

text \<open>A new room holds its host and nobody else yet.\<close>

lemma INV_make_room:
  assumes inv: "INV s" and t: "t < sv_nclient s" "name_of s t \<noteq> None" "room_of s t = None"
  shows "INV_room (sv_nroom s) (make_room t s)"
proof (rule INV_roomI)
  let ?t = "make_room t s"
  note parts = INV_D [OF inv]
  have "names_ok ?t = names_ok s" by (rule names_ok_cong) simp_all
  then show "names_ok ?t" using parts by simp
  have "clients_ok ?t = clients_ok s" by (rule clients_ok_cong) simp_all
  then show "clients_ok ?t" using parts by simp
  have "queues_ok {} ?t = queues_ok {} s" by (rule queues_ok_cong) simp_all
  then show "queues_ok {} ?t" using parts by simp
  have "lobby_ok ?t = lobby_ok s" by (rule lobby_ok_cong) simp_all
  then show "lobby_ok ?t" using parts by simp
  have "streams_ok ?t = streams_ok s" by (rule streams_ok_cong) simp
  then show "streams_ok ?t" using parts by simp
  show "crc_tables_ok ?t"
    using parts(5) by (simp add: crc_tables_ok_def dwf_def dkeys_def)
  show "room_fine ?t (sv_nroom s)"
    using t by (simp add: room_fine_def const_defs)
  fix c q assume c: "c < sv_nclient ?t" "room_of ?t c = Some q"
  show "c \<in> set (members ?t q) \<and> (q \<noteq> sv_nroom s \<longrightarrow> room_fine ?t q \<and> 2 \<le> length (members ?t q))"
  proof (cases "c = t")
    case True
    with c show ?thesis by simp
  next
    case False
    with c have "c < sv_nclient s" "room_of s c = Some q" by simp_all
    note old = rooms_okD [OF parts(4) this]
    then have "q < sv_nroom s" by (blast dest: room_fineD)
    moreover have "room_fine ?t q"
      using old \<open>q < sv_nroom s\<close> t(3) by (auto simp: room_fine_def)
    ultimately show ?thesis using old by simp
  qed
qed

lemma enter_room_access [simp]:
  "is_dead (enter_room c r s) d = is_dead s d" "name_of (enter_room c r s) d = name_of s d"
  "room_of (enter_room c r s) d = (if d = c then Some r else room_of s d)"
  "members (enter_room c r s) q = (if q = r then members s r @ [c] else members s q)"
  "stream (enter_room c r s) d = stream s d" "sv_nclient (enter_room c r s) = sv_nclient s"
  "sv_nroom (enter_room c r s) = sv_nroom s" "sv_by_name (enter_room c r s) = sv_by_name s"
  "sv_clients (enter_room c r s) = sv_clients s" "sv_sel (enter_room c r s) = sv_sel s"
  "sv_lobby (enter_room c r s) = sv_lobby s" "sv_delay (enter_room c r s) = sv_delay s"
  "cl_tx (sv_client (enter_room c r s) d) = cl_tx (sv_client s d)"
  "cl_addr (sv_client (enter_room c r s) d) = cl_addr (sv_client s d)"
  "rm_crc (sv_room (enter_room c r s) q) = rm_crc (sv_room s q)"
  by (simp_all add: enter_room_def Let_def access_defs stream_def)

lemma INV_enter_room:
  assumes inv: "INV_room r s" and c: "c < sv_nclient s" "name_of s c \<noteq> None" "room_of s c = None"
    and room: "members s r \<noteq> []" "length (members s r) < MAX_SEATS"
  shows "INV (enter_room c r s) \<and> announceable r (enter_room c r s)"
proof -
  let ?t = "enter_room c r s"
  note fine = INV_roomD(1) [OF inv]
  note parts = inv [unfolded INV_room_def]
  have "names_ok ?t = names_ok s" by (rule names_ok_cong) simp_all
  moreover have "clients_ok ?t = clients_ok s" by (rule clients_ok_cong) simp_all
  moreover have "queues_ok {} ?t = queues_ok {} s" by (rule queues_ok_cong) simp_all
  moreover have "lobby_ok ?t = lobby_ok s" by (rule lobby_ok_cong) simp_all
  moreover have "crc_tables_ok ?t = crc_tables_ok s" by (rule crc_tables_ok_cong) simp
  moreover have "streams_ok ?t = streams_ok s" by (rule streams_ok_cong) simp
  moreover have fresh: "c \<notin> set (members s r)" using room_fineD(4) [OF fine] c(3) by fastforce
  then have fine_t: "room_fine ?t r"
    using room_fineD [OF fine] c room by (auto simp: room_fine_def)
  moreover have "rooms_ok ?t"
  proof (rule rooms_okI)
    fix d q assume d: "d < sv_nclient ?t" "room_of ?t d = Some q"
    show "d \<in> set (members ?t q) \<and> room_fine ?t q \<and> 2 \<le> length (members ?t q)"
    proof (cases "q = r")
      case True
      have "d \<in> set (members s r @ [c])"
        using d True INV_roomD(2) [OF inv, of d r] by (auto split: if_splits)
      with True fine_t room(1) show ?thesis by (cases "members s r") auto
    next
      case False
      with d have "d < sv_nclient s" "room_of s d = Some q" by (auto split: if_splits)
      note old = INV_roomD(2) [OF inv this]
      with False c(3) have "room_fine ?t q" by (auto simp: room_fine_def)
      with old False show ?thesis by simp
    qed
  qed
  moreover have "announceable r ?t"
    using room_fineD [OF fine_t] by (auto simp: announceable_def)
  ultimately show ?thesis using parts by (intro conjI INV_I) (simp_all only:)
qed

abbreviation ready_to_start :: "rid \<Rightarrow> server \<Rightarrow> bool" where
  "ready_to_start r s \<equiv> announceable r s \<and> delay_ok s"

lemma auto_start_settles: "settles (\<lambda>s. INV s \<and> ready_to_start r s) (auto_start r)"
  unfolding auto_start_def
proof (rule settles_pure)
  fix s assume s: "INV s \<and> ready_to_start r s"
  have "settles (\<lambda>s. INV s \<and> ready_to_start r s) (guarded b (start_room r))" for b
    using start_room_settles by (cases b) (auto simp: triple_def ret_def)
  then show "settles (\<lambda>t. t = s)
      (guarded (sv_auto_go s \<noteq> 0 \<and> sv_auto_go s \<le> int (length (members s r))) (start_room r))"
    using s by (rule settles_at)
qed

lemma join_tail_settles:
  "settles (\<lambda>s. INV s \<and> ready_to_start r s)
     (seqs [room_broadcast drop_client r, modify lobby_update, auto_start r])"
proof -
  let ?P = "\<lambda>s. INV s \<and> ready_to_start r s"
  have "calm_stable (ready_to_start r)"
    by (intro calm_stable_conj calm_stable_announceable calm_stable_delay)
  from broadcast_safe [OF this, of r] have "safe ?P (room_broadcast drop_client r)"
    unfolding safe_def by (rule triple_weaken) auto
  moreover have "safe ?P (modify lobby_update)"
    by (rule safe_modify)
      (auto intro!: INV_lobby_update dest: INV_D simp: announceable_def delay_ok_def)
  moreover have "settles ?P (bnd (auto_start r) (\<lambda>_. ret ()))"
    by (rule triple_bnd [OF auto_start_settles]) (simp add: triple_def ret_def)
  ultimately have "settles ?P (bnd (room_broadcast drop_client r) (\<lambda>_. bnd (modify lobby_update)
      (\<lambda>_. bnd (auto_start r) (\<lambda>_. ret ()))))"
    by (intro settles_bnd [of ?P "room_broadcast drop_client r"] settles_bnd [of ?P "modify lobby_update"])
  then show ?thesis unfolding seqs.simps .
qed

text \<open>What the guard of \<open>on_join\<close> leaves.\<close>

definition may_join :: "cid \<Rightarrow> cid \<Rightarrow> server \<Rightarrow> bool" where
  "may_join c t s \<longleftrightarrow>
     c < sv_nclient s \<and> name_of s c \<noteq> None \<and> room_of s c = None \<and>
     t < sv_nclient s \<and> \<not> unjoinable s c (Some t)"

lemma INV_room_of:
  assumes "INV s" "c < sv_nclient s" "room_of s c = Some r"
  shows "INV_room r s"
proof (rule INV_roomI)
  note parts = INV_D [OF assms(1)]
  show "names_ok s" "clients_ok s" "queues_ok {} s" "crc_tables_ok s" "lobby_ok s" "streams_ok s"
    using parts by simp_all
  show "room_fine s r" using rooms_okD [OF parts(4) assms(2,3)] by blast
  show "d \<in> set (members s q) \<and> (q \<noteq> r \<longrightarrow> room_fine s q \<and> 2 \<le> length (members s q))"
    if "d < sv_nclient s" "room_of s d = Some q" for d q
    using rooms_okD [OF parts(4) that] by blast
qed

lemma join_target_ok:
  assumes inv: "INV s" and j: "may_join c t s"
  obtains r s1 where "join_target t s = (Inr r, s1)" "INV_room r s1" "room_of s1 c = None"
    "members s1 r \<noteq> []" "length (members s1 r) < MAX_SEATS" "sv_nclient s1 = sv_nclient s"
    "name_of s1 c = name_of s c" "sv_delay s1 = sv_delay s"
proof (cases "room_of s t")
  case None
  have t: "t < sv_nclient s" "name_of s t \<noteq> None" "t \<noteq> c"
    using j by (simp_all add: may_join_def unjoinable_def)
  show ?thesis
  proof (rule that)
    show "join_target t s = (Inr (sv_nroom s), make_room t s)"
      using None by (simp add: join_target_def ret_def)
    show "INV_room (sv_nroom s) (make_room t s)"
      using INV_make_room inv t None by blast
  qed (use t j in \<open>simp_all add: may_join_def const_defs\<close>)
next
  case (Some r)
  have t: "t < sv_nclient s" using j by (simp add: may_join_def)
  show ?thesis
  proof (rule that)
    show "join_target t s = (Inr r, s)" using Some by (simp add: join_target_def ret_def)
    show "INV_room r s" using INV_room_of inv t Some by blast
    show "members s r \<noteq> []"
      using rooms_okD [OF INV_D(4) [OF inv] t Some] by auto
  qed (use Some j in \<open>simp_all add: may_join_def unjoinable_def\<close>)
qed

lemma join_room_settles:
  "settles (\<lambda>s. INV s \<and> may_join c t s \<and> delay_ok s) (join_room c t)"
proof (rule tripleI)
  fix s assume s: "INV s \<and> may_join c t s \<and> delay_ok s"
  then obtain r s1 where j: "join_target t s = (Inr r, s1)" "INV_room r s1" "room_of s1 c = None"
    "members s1 r \<noteq> []" "length (members s1 r) < MAX_SEATS" "sv_nclient s1 = sv_nclient s"
    "name_of s1 c = name_of s c" "sv_delay s1 = sv_delay s"
    using join_target_ok by blast
  let ?u = "enter_room c r s1"
  have "INV ?u \<and> announceable r ?u"
    using s j by (intro INV_enter_room) (simp_all add: may_join_def)
  moreover have "delay_ok ?u" using s j(8) by (simp add: delay_ok_def)
  ultimately have "INV ?u \<and> ready_to_start r ?u" by blast
  then have "case seqs [room_broadcast drop_client r, modify lobby_update, auto_start r] ?u of
      (Inl e, s') \<Rightarrow> False | (Inr x, s') \<Rightarrow> INV s'"
    by (rule tripleD [OF join_tail_settles])
  then show "case join_room c t s of (Inl e, s') \<Rightarrow> False | (Inr x, s') \<Rightarrow> INV s'"
    using j(1) by (simp add: join_room_def bnd_def [of "join_target t"] seqs_modify del: seqs.simps)
qed

lemma on_join_answers:
  "answers (\<lambda>s. INV s \<and> c < sv_nclient s \<and> delay_ok s) (on_join c payload)"
proof (rule tripleI)
  fix s assume s: "INV s \<and> c < sv_nclient s \<and> delay_ok s"
  let ?t = "dget (sv_by_name s) (rstrip_pad (decode_ascii payload))"
  let ?goal = "\<lambda>r. case r of (Inl e, s') \<Rightarrow> only_protocol e s' | (Inr x, s') \<Rightarrow> INV s'"
  consider (noname) "name_of s c = None"
    | (inroom) "name_of s c \<noteq> None" "room_of s c \<noteq> None"
    | (no) "name_of s c \<noteq> None" "room_of s c = None" "unjoinable s c ?t"
    | (yes) t where "name_of s c \<noteq> None" "room_of s c = None" "\<not> unjoinable s c ?t" "?t = Some t"
    by (metis (no_types, lifting) not_None_eq option.case(1) unjoinable_def)
  then show "?goal (on_join c payload s)"
  proof cases
    case noname
    with s show ?thesis by (simp add: on_join_def throw_def only_protocol_def)
  next
    case inroom
    with s show ?thesis by (auto simp: on_join_def ret_def)
  next
    case no
    have "case on_list c s of (Inl e, s') \<Rightarrow> False | (Inr x, s') \<Rightarrow> INV s'"
      using s by (intro tripleD [OF on_list_safe0 [unfolded safe_def]]) simp
    with no show ?thesis by (auto simp: on_join_def split: prod.splits sum.splits)
  next
    case yes
    have "t < sv_nclient s"
      using names_ok_entry [OF INV_D(1) dget_Some_in [OF yes(4)]] s by blast
    then have "INV s \<and> may_join c t s \<and> delay_ok s"
      using s yes by (simp add: may_join_def)
    then have "case join_room c t s of (Inl e, s') \<Rightarrow> False | (Inr x, s') \<Rightarrow> INV s'"
      by (rule tripleD [OF join_room_settles])
    with yes show ?thesis by (auto simp: on_join_def split: prod.splits sum.splits)
  qed
qed

lemma on_go_settles:
  "settles (\<lambda>s. INV s \<and> c < sv_nclient s \<and> delay_ok s) (on_go c)"
proof (rule tripleI)
  fix s assume s: "INV s \<and> c < sv_nclient s \<and> delay_ok s"
  let ?goal = "\<lambda>r. case r of (Inl e, s') \<Rightarrow> False | (Inr x, s') \<Rightarrow> INV s'"
  show "?goal (on_go c s)"
  proof (cases "room_of s c")
    case None
    with s show ?thesis by (simp add: on_go_def ret_def)
  next
    case (Some r)
    have "INV s" "c < sv_nclient s" using s by simp_all
    note room = rooms_okD [OF INV_D(4) [OF this(1)] this(2) Some]
    obtain i where i: "list_index (members s r) c = Inr i"
      using list_index_in [OF room [THEN conjunct1]] by blast
    have "announceable r s"
      using \<open>INV s\<close> \<open>c < sv_nclient s\<close> Some by (rule INV_announceable)
    with s have "INV s \<and> announceable r s \<and> delay_ok s" by blast
    then have run: "?goal (start_room r s)" by (rule tripleD [OF start_room_settles])
    have "on_go c s = (if rm_started (sv_room s r) \<or> i \<noteq> 0 \<or> \<not> (2 \<le> length (members s r) \<and>
        length (members s r) \<le> MAX_SEATS) then ret () else start_room r) s"
      using Some i by (simp add: on_go_def seat_def)
    with run s show ?thesis by (simp add: ret_def)
  qed
qed

section \<open>CRC rounds\<close>

lemma length_ddel_less: "dget d k \<noteq> None \<Longrightarrow> length (ddel d k) < length d"
  using dict.length_remove_less [of d k] by simp

lemma length_ddel_le: "length (ddel d k) \<le> length d"
  using dict.length_remove_le [of d k] by simp

lemma length_dset_le: "length (dset d k v) \<le> Suc (length d)"
  using dict.length_store [of d k v] by simp

lemma Min_key: "d \<noteq> [] \<Longrightarrow> dget d (Min (set (dkeys d))) \<noteq> None" for d :: "(nat, 'v) pydict"
  by (metis List.finite_set Min_in dict.ks_lookup length_0_conv length_dkeys set_empty)

lemma crc_store_ok:
  assumes "dwf crc" "length crc \<le> 64" "crc_store payload crc = (entry, crc')"
  shows "dwf crc' \<and> length crc' \<le> 64"
proof -
  let ?k = "crc_tick payload"
  have "crc' = (if 64 < length (dset crc ?k entry)
      then ddel (dset crc ?k entry) (Min (set (dkeys (dset crc ?k entry)))) else dset crc ?k entry)"
    using assms(3) by (auto simp: crc_store_def Let_def)
  moreover have "dwf (dset crc ?k entry)" using assms(1) by (rule dict.wf_store)
  moreover have "length (dset crc ?k entry) \<le> 65"
    using length_dset_le [of crc ?k entry] assms(2) by simp
  moreover have "length (ddel (dset crc ?k entry) (Min (set (dkeys (dset crc ?k entry)))))
      < length (dset crc ?k entry)"
    by (rule length_ddel_less, rule Min_key) simp
  ultimately show ?thesis by (auto simp: dict.wf_remove)
qed

lemma crc_round_ok:
  assumes "dwf (rm_crc rm)" "length (rm_crc rm) \<le> 64" "crc_round n payload rm = (rm', ls)"
  shows "dwf (rm_crc rm') \<and> length (rm_crc rm') \<le> 64 \<and> rm_members rm' = rm_members rm \<and>
    rm_started rm' = rm_started rm \<and> rm_seed rm' = rm_seed rm"
proof -
  obtain entry crc where st: "crc_store payload (rm_crc rm) = (entry, crc)" by fastforce
  note ok = crc_store_ok [OF assms(1,2) st]
  have "dwf (ddel crc (crc_tick payload))" using ok by (simp add: dict.wf_remove)
  moreover have "length (ddel crc (crc_tick payload)) \<le> 64"
    using ok length_ddel_le [of crc "crc_tick payload"] by linarith
  ultimately show ?thesis
    using ok assms(3) st
    by (auto simp: crc_round_def Let_def split: if_splits)
qed

lemma fold_add_log: "fold add_log ls s = s\<lparr>sv_log := sv_log s @ ls\<rparr>"
  by (induction ls arbitrary: s) (simp_all add: add_log_def)

lemma log_crc_simps [simp]:
  "sv_client (log_crc r p s) = sv_client s" "sv_nclient (log_crc r p s) = sv_nclient s"
  "sv_nroom (log_crc r p s) = sv_nroom s" "sv_by_name (log_crc r p s) = sv_by_name s"
  "sv_clients (log_crc r p s) = sv_clients s" "sv_sel (log_crc r p s) = sv_sel s"
  "sv_lobby (log_crc r p s) = sv_lobby s" "sv_delay (log_crc r p s) = sv_delay s"
  "sv_room (log_crc r p s) = (sv_room s)(r := fst (crc_round (length (members s r)) p (sv_room s r)))"
  by (simp_all add: log_crc_def fold_add_log split: prod.split)

lemma INV_log_crc:
  assumes "INV s"
  shows "INV (log_crc r p s)"
proof -
  let ?t = "log_crc r p s"
  note parts = INV_D [OF assms]
  obtain rm ls where rm: "crc_round (length (members s r)) p (sv_room s r) = (rm, ls)" by fastforce
  have "dwf (rm_crc (sv_room s r))" "length (rm_crc (sv_room s r)) \<le> 64"
    using parts(5) by (simp_all add: crc_tables_ok_def)
  note ok = crc_round_ok [OF this rm]
  have mem: "members ?t q = members s q" for q using ok rm by (simp add: members_def)
  have acc: "is_dead ?t d = is_dead s d" "room_of ?t d = room_of s d" "name_of ?t d = name_of s d"
    "stream ?t d = stream s d" for d
    by (simp_all add: access_defs stream_def)
  have "names_ok ?t = names_ok s" by (rule names_ok_cong) (simp_all add: acc)
  moreover have "clients_ok ?t = clients_ok s" by (rule clients_ok_cong) (simp_all add: acc)
  moreover have "queues_ok {} ?t = queues_ok {} s" by (rule queues_ok_cong) (simp_all add: acc)
  moreover have "rooms_ok ?t = rooms_ok s" by (rule rooms_ok_cong) (simp_all add: acc mem)
  moreover have "lobby_ok ?t = lobby_ok s" by (rule lobby_ok_cong) simp_all
  moreover have "streams_ok ?t = streams_ok s" by (rule streams_ok_cong) (simp add: acc)
  moreover have "crc_tables_ok ?t"
    using parts(5) ok rm by (simp add: crc_tables_ok_def)
  ultimately show ?thesis using parts by (intro INV_I) simp_all
qed

section \<open>handle\<close>

lemma relay_settles:
  assumes "length payload \<le> 199"
  shows "settles INV (relay c ftype payload)"
proof (rule tripleI)
  fix s assume s: "INV s"
  let ?goal = "\<lambda>r. case r of (Inl e, s') \<Rightarrow> False | (Inr x, s') \<Rightarrow> INV s'"
  show "?goal (relay c ftype payload s)"
  proof (cases "room_of s c")
    case None
    with s show ?thesis by (simp add: relay_def ret_def)
  next
    case (Some r)
    let ?data = "wire_of (ftype # payload)"
    have d: "frame ftype payload = Inr ?data" "framed ?data"
      using assms framed_wire_of [of "ftype # payload"] by (simp_all add: frame_wire_of readable_def)
    have "safe INV (transmit m ?data)" for m
      using transmit_safe [OF d(2) calm_stable_True, of m] by simp
    then have "safe INV (for_members r (\<lambda>_ m. guarded (m \<noteq> c) (transmit m ?data)))"
      by (intro for_members_safe safe_guarded)
    moreover have "safe INV (guarded b (modify (log_crc r payload)))" for b
      by (intro safe_guarded safe_modify INV_log_crc)
    ultimately have "safe INV (bnd (guarded b (modify (log_crc r payload)))
        (\<lambda>_. for_members r (\<lambda>_ m. guarded (m \<noteq> c) (transmit m ?data))))" for b
      by (intro safe_bnd)
    then have "?goal (bnd (guarded (ftype = T_CRC \<and> length payload = 5) (modify (log_crc r payload)))
        (\<lambda>_. for_members r (\<lambda>_ m. guarded (m \<noteq> c) (transmit m ?data))) s)"
      using s unfolding safe_def by (rule tripleD)
    with s Some d(1) show ?thesis
      by (cases "rm_started (sv_room s r)") (simp_all add: relay_def ret_def)
  qed
qed

lemma settles_answers: "settles P m \<Longrightarrow> answers P m"
  by (erule triple_weaken) simp_all

lemma triple_pre: "triple P m Q E \<Longrightarrow> (\<And>s. P' s \<Longrightarrow> P s) \<Longrightarrow> triple P' m Q E"
  by (erule triple_weaken) simp_all

lemma handle_answers:
  assumes "length payload \<le> 199"
  shows "answers (\<lambda>s. INV s \<and> c < sv_nclient s \<and> delay_ok s) (handle c ftype payload)"
proof -
  let ?P = "\<lambda>s. INV s \<and> c < sv_nclient s \<and> delay_ok s"
  have "answers ?P (relay c ftype payload)"
    using settles_answers [OF relay_settles [OF assms]] by (rule triple_pre) simp
  moreover have "answers ?P (on_hello c payload)"
    by (rule triple_pre [OF on_hello_answers]) simp
  moreover have "answers ?P (on_list c)"
    by (rule triple_pre [OF settles_answers [OF on_list_safe0 [unfolded safe_def]]]) simp
  moreover have "answers ?P (on_join c payload)"
    by (rule on_join_answers)
  moreover have "answers ?P (on_go c)"
    by (rule settles_answers [OF on_go_settles])
  moreover have "answers ?P (drop_client c WhyBye)"
    by (rule triple_pre [OF settles_answers [OF drop_settles]]) (auto intro: INV_weaken)
  moreover have "safe (\<lambda>s. INV s \<and> True) (bnd (lift (frame T_PONG [])) (transmit c))"
    by (rule safe_frame) (simp_all add: calm_stable_True)
  then have "answers ?P (bnd (lift (frame T_PONG [])) (transmit c))"
    using settles_answers [unfolded safe_def] safe_answers by (intro triple_pre [OF safe_answers]) auto
  moreover have "answers ?P (proto_error (UnknownType ftype))"
    by (rule triple_pre [OF answers_error]) simp
  ultimately show ?thesis unfolding handle_def by presburger
qed

end
