(* ===== verification/Service.thy ===== *)
theory Service
  imports ProtocolSafe
begin

text \<open>
  The event loop of \<open>Server\<close>: \<open>service\<close> (receive and reassemble), \<open>accept\<close>, \<open>sweep\<close>,
  \<open>log_stats\<close> and the body of \<open>run\<close>, one step per event the selector or the clock brings. What
  the sockets deliver is an argument of the steps.
\<close>

section \<open>What handlers leave alone\<close>

text \<open>
  \<open>evolves s t\<close>: no connection was made, nobody came back to life, receive buffers, addresses
  and parameters are unchanged, a name once given is not taken back, a started room stays started,
  streams and the log only grow, and a dead client's stream does not.
\<close>

definition evolves :: "server \<Rightarrow> server \<Rightarrow> bool" where
  "evolves s t \<longleftrightarrow>
     sv_nclient t = sv_nclient s \<and> sv_nroom s \<le> sv_nroom t \<and> sv_net t = sv_net s \<and>
     sv_rand t = sv_rand s \<and> sv_delay t = sv_delay s \<and> sv_auto_go t = sv_auto_go s \<and>
     sv_last_stats t = sv_last_stats s \<and> (\<exists>l. sv_log t = sv_log s @ l) \<and>
     (\<forall>c. (cl_dead (sv_client s c) \<longrightarrow> cl_dead (sv_client t c)) \<and>
          cl_rx (sv_client t c) = cl_rx (sv_client s c) \<and>
          cl_addr (sv_client t c) = cl_addr (sv_client s c) \<and>
          cl_connected_at (sv_client t c) = cl_connected_at (sv_client s c) \<and>
          (cl_name (sv_client s c) \<noteq> None \<longrightarrow> cl_name (sv_client t c) \<noteq> None) \<and>
          (\<exists>ext. stream t c = stream s c @ ext) \<and>
          (is_dead s c \<longrightarrow> stream t c = stream s c)) \<and>
     (\<forall>r. r < sv_nroom s \<and> rm_started (sv_room s r) \<longrightarrow> rm_started (sv_room t r))"

lemma evolves_refl: "evolves s s"
  by (simp add: evolves_def)

lemma evolves_dead: "evolves s t \<Longrightarrow> is_dead s c \<Longrightarrow> is_dead t c"
  by (auto simp: evolves_def is_dead_def)

lemma evolves_stream: "evolves s t \<Longrightarrow> \<exists>ext. stream t c = stream s c @ ext"
  by (simp add: evolves_def)

lemma evolves_stream_dead: "evolves s t \<Longrightarrow> is_dead s c \<Longrightarrow> stream t c = stream s c"
  by (simp add: evolves_def)

lemma evolves_trans:
  assumes "evolves s t" "evolves t u"
  shows "evolves s u"
proof -
  have "\<exists>ext. stream u c = stream s c @ ext" for c
    using assms [THEN evolves_stream, of c] by auto
  moreover have "\<exists>l. sv_log u = sv_log s @ l"
    using assms by (auto simp: evolves_def)
  moreover have "stream u c = stream s c" if "is_dead s c" for c
    using that assms evolves_dead evolves_stream_dead by metis
  ultimately show ?thesis
    using assms unfolding evolves_def by simp
qed

interpretation evolves: preorder_rel evolves
  by unfold_locales (fact evolves_refl, erule (1) evolves_trans)

lemma calm_evolves: "calm s t \<Longrightarrow> evolves s t"
  unfolding calm_def evolves_def by simp

lemma keeps_evolves: "keeps calm m \<Longrightarrow> keeps evolves m"
  unfolding keeps_def using calm_evolves by blast

lemma evolves_upd_client:
  assumes "\<And>cl. cl_dead (f cl) = cl_dead cl" "\<And>cl. cl_rx (f cl) = cl_rx cl"
    "\<And>cl. cl_addr (f cl) = cl_addr cl" "\<And>cl. cl_connected_at (f cl) = cl_connected_at cl"
    "\<And>cl. cl_name cl \<noteq> None \<Longrightarrow> cl_name (f cl) \<noteq> None"
    "\<And>cl. cl_sent (f cl) = cl_sent cl" "\<And>cl. cl_tx (f cl) = cl_tx cl"
  shows "evolves s (upd_client c f s)"
  using assms by (simp add: evolves_def stream_def)

lemma evolves_log: "evolves s (add_log e s)"
  using calm_evolves calm_log by blast

lemma evolves_by_name: "evolves s (s\<lparr>sv_by_name := d\<rparr>)"
  by (simp add: evolves_def stream_def is_dead_def)

lemma evolves_drop_alias: "evolves s (drop_alias c n s)"
  using evolves_trans [OF evolves_by_name evolves_log] evolves_log evolves_refl
  by (auto simp: drop_alias_def Let_def split: option.split)

lemma evolves_set_name: "evolves s (set_name c n s)"
proof -
  have "evolves s (upd_client c (\<lambda>cl. cl\<lparr>cl_name := Some n\<rparr>) s)"
    by (rule evolves_upd_client) simp_all
  then show ?thesis
    unfolding set_name_def Let_def by (blast intro: evolves_trans evolves_by_name evolves_log)
qed

lemma evolves_begin_match: "evolves s (begin_match r s)"
  by (auto simp: evolves_def begin_match_def upd_room_def stream_def is_dead_def)

lemma evolves_make_room: "evolves s (make_room t s)"
  by (auto simp: evolves_def make_room_def Let_def stream_def is_dead_def)

lemma evolves_enter_room: "evolves s (enter_room c r s)"
  by (auto simp: evolves_def enter_room_def Let_def stream_def is_dead_def)

lemma crc_round_started: "rm_started (fst (crc_round n p rm)) = rm_started rm"
  by (simp add: crc_round_def Let_def split: prod.split)

lemma evolves_log_crc: "evolves s (log_crc r p s)"
proof -
  have "sv_net (log_crc r p s) = sv_net s" "sv_rand (log_crc r p s) = sv_rand s"
    "sv_auto_go (log_crc r p s) = sv_auto_go s" "sv_last_stats (log_crc r p s) = sv_last_stats s"
    "\<exists>l. sv_log (log_crc r p s) = sv_log s @ l"
    by (simp_all add: log_crc_def fold_add_log split: prod.split)
  then show ?thesis by (simp add: evolves_def stream_def crc_round_started)
qed

lemmas evolves_small = evolves_log evolves_drop_alias evolves_set_name evolves_begin_match
  evolves_make_room evolves_enter_room evolves_log_crc

lemma ev_drop: "keeps evolves (drop_client c w)"
  by (intro keeps_evolves drops.drp_calm)

section \<open>Frame conditions of the handlers\<close>

text \<open>
  A frame condition that sending, dropping and the handlers' single updates stay in is one of
  every handler.
\<close>

locale talker = sender R drop_client for R :: "server \<Rightarrow> server \<Rightarrow> bool" +
  assumes drop_R: "keeps R (drop_client c w)"
    and drop_alias_R: "R s (drop_alias c n s)"
    and set_name_R: "R s (set_name c n s)"
    and begin_match_R: "R s (begin_match r s)"
    and make_room_R: "R s (make_room t s)"
    and enter_room_R: "R s (enter_room c r s)"
begin

lemma kp_on_list: "keeps R (on_list c)"
  unfolding on_list_def by (intro kp_bnd kp_gets kp_lift send_R)

lemma kp_on_hello: "keeps R (on_hello c payload)"
proof -
  have "keeps R (case old of None \<Rightarrow> ret ()
      | Some d \<Rightarrow> if d \<noteq> c then drop_client d WhyReplaced else ret ())" for old
    by (auto intro: kp_ret drop_R split: option.split)
  moreover have "keeps R (seqs [modify (drop_alias c n), modify (set_name c n),
      modify lobby_update, on_list c])" for n
    by (rule kp_seqs) (auto intro: kp_lobby kp_on_list keeps_modify drop_alias_R set_name_R)
  ultimately show ?thesis
    unfolding on_hello_def by (intro kp_bnd kp_gets kp_lift)
qed

lemma kp_start_room: "keeps R (start_room r)"
proof -
  have "keeps R (seqs [for_members r (\<lambda>st m. bnd (lift (start_frame common st)) (transmit m)),
      modify (\<lambda>s. add_log (LStarted (room_repr s r) (length (members s r)) (rm_seed (sv_room s r))) s),
      modify lobby_update])" for common
    by (rule kp_seqs) (auto intro!: kp_for_members kp_send_lift kp_lobby kp_log)
  then show ?thesis
    unfolding start_room_def
    by (intro kp_bnd kp_gets kp_lift) (simp_all add: keeps_modify begin_match_R)
qed

lemma kp_auto_start: "keeps R (auto_start r)"
  unfolding auto_start_def by (intro kp_bnd kp_gets kp_guarded kp_start_room)

lemma kp_join_room: "keeps R (join_room c t)"
proof -
  have "keeps R (join_target t)"
    unfolding join_target_def
    by (auto intro!: kp_bnd kp_gets kp_ret keeps_modify make_room_R split: option.split)
  moreover have "keeps R (seqs [modify (enter_room c r), room_broadcast drop_client r,
      modify lobby_update, auto_start r])" for r
    by (rule kp_seqs) (auto intro: kp_lobby kp_auto_start keeps_modify enter_room_R kp_room_broadcast)
  ultimately show ?thesis unfolding join_room_def by (intro kp_bnd)
qed

lemma kp_on_join: "keeps R (on_join c payload)"
  unfolding on_join_def
  by (intro kp_bnd kp_gets kp_if kp_throw kp_ret kp_on_list kp_join_room)

lemma kp_on_go: "keeps R (on_go c)"
  unfolding on_go_def
  by (auto intro!: kp_bnd kp_gets kp_ret kp_lift kp_start_room split: option.split)

end

text \<open>With the CRC reports, of \<open>handle\<close> itself.\<close>

locale handler = talker +
  assumes log_crc_R: "R s (log_crc r p s)"
begin

lemma kp_relay: "keeps R (relay c ftype payload)"
proof -
  have "keeps R (for_members r (\<lambda>_ m. guarded (m \<noteq> c) (transmit m d)))" for r d
    by (intro kp_for_members kp_guarded send_R)
  moreover have "keeps R (guarded b (modify (log_crc r payload)))" for b r
    by (intro kp_guarded keeps_modify log_crc_R)
  ultimately show ?thesis
    unfolding relay_def
    by (auto intro!: kp_bnd kp_gets kp_ret kp_lift split: option.split)
qed

lemma kp_handle: "keeps R (handle c ftype payload)"
  unfolding handle_def
  by (intro kp_if kp_relay kp_on_hello kp_on_list kp_on_join kp_on_go drop_R kp_send_lift kp_throw)

end

interpretation ev: handler evolves
proof unfold_locales
  show "keeps evolves (transmit c d)" for c d
    by (intro keeps_evolves drops.send_calm)
  show "keeps evolves (remove_member c r)" for c r
    by (intro keeps_evolves calm_remove_member)
  show "evolves s (upd_client c (\<lambda>cl. cl\<lparr>cl_room := None\<rparr>) s)" for c s
    by (rule evolves_upd_client) simp_all
qed (fact ev_drop evolves_small calm_evolves [OF calm_lobby] calm_evolves [OF calm_detach]
  calm_evolves [OF calm_clear] calm_evolves [OF calm_mark_dead] calm_evolves [OF calm_forget_names])+

lemmas ev_handle = ev.kp_handle

section \<open>service\<close>

text \<open>\<open>client.sock.recv(4096)\<close>; no data means that the peer closed.\<close>

datatype recv_outcome = RBlocks | RError | RData bytes

definition set_rx :: "cid \<Rightarrow> bytes \<Rightarrow> server \<Rightarrow> server" where
  "set_rx c rx = upd_client c (\<lambda>cl. cl\<lparr>cl_rx := rx\<rparr>)"

text \<open>
  \<open>handle\<close> under \<open>except ProtocolError\<close>: whether the loop goes on. Other exceptions pass.
\<close>

definition handle_frame :: "cid \<Rightarrow> bytes \<Rightarrow> bool srv" where
  "handle_frame c body s =
     (case handle c (hd body) (tl body) s of
        (Inr _, s') \<Rightarrow> (Inr (\<not> is_dead s' c), s')
      | (Inl (ProtocolError p), s') \<Rightarrow> bnd (drop_client c (WhyProtocol p)) (\<lambda>_. ret False) s'
      | (Inl e, s') \<Rightarrow> (Inl e, s'))"

text \<open>
  The loop over the buffer. Each round takes a frame off \<open>client.rx\<close>, and nothing else writes it,
  so the length of the buffer bounds the rounds (\<open>pump_unfold\<close>).
\<close>

fun pump_n :: "nat \<Rightarrow> cid \<Rightarrow> unit srv" where
  "pump_n 0 c = ret ()"
| "pump_n (Suc n) c =
     bnd (gets (\<lambda>s. scan_frame (cl_rx (sv_client s c)))) (\<lambda>sc.
       case sc of
         Wait \<Rightarrow> ret ()
       | Bad l \<Rightarrow> drop_client c (WhyBadLength l)
       | Got body rest \<Rightarrow>
           bnd (modify (set_rx c rest)) (\<lambda>_.
           bnd (handle_frame c body) (\<lambda>go_on. if go_on then pump_n n c else ret ())))"

definition pump :: "cid \<Rightarrow> unit srv" where
  "pump c = bnd (gets (\<lambda>s. length (cl_rx (sv_client s c)))) (\<lambda>n. pump_n n c)"

definition service :: "cid \<Rightarrow> recv_outcome \<Rightarrow> unit srv" where
  "service c r =
     (case r of
        RBlocks \<Rightarrow> ret ()
      | RError \<Rightarrow> drop_client c WhyRecvError
      | RData data \<Rightarrow>
          if data = [] then drop_client c WhyClosed
          else bnd (modify (\<lambda>s. set_rx c (cl_rx (sv_client s c) @ data) s)) (\<lambda>_. pump c))"

section \<open>accept, sweep, log_stats\<close>

text \<open>
  What \<open>srv.accept()\<close> yields: an exception (the peer may be gone again), or a connection, on
  which \<open>setblocking\<close> and \<open>setsockopt\<close> may fail.
\<close>

datatype conn = NoConn | Conn addr bool

definition count_rejection :: "server \<Rightarrow> server" where
  "count_rejection s =
     s\<lparr>sv_stats := (sv_stats s)\<lparr>st_connection_limit_rejections :=
         Suc (st_connection_limit_rejections (sv_stats s))\<rparr>\<rparr>"

definition per_ip :: "server \<Rightarrow> addr \<Rightarrow> nat" where
  "per_ip s a = length (filter (\<lambda>c. fst (cl_addr (sv_client s c)) = fst a) (sv_clients s))"

definition add_client :: "addr \<Rightarrow> rat \<Rightarrow> server \<Rightarrow> server" where
  "add_client a now s =
     (let c = sv_nclient s
      in add_log (LConnect a)
           (s\<lparr>sv_client := (sv_client s)(c := new_client a now), sv_nclient := Suc c,
              sv_clients := sv_clients s @ [c], sv_sel := (sv_sel s)(c \<mapsto> False)\<rparr>))"

definition accept :: "conn \<Rightarrow> rat \<Rightarrow> unit srv" where
  "accept conn now =
     (case conn of
        NoConn \<Rightarrow> throw OSError
      | Conn a usable \<Rightarrow>
          bnd (gets (\<lambda>s. length (sv_clients s))) (\<lambda>n.
          if MAX_CLIENTS \<le> n then
            seqs [modify count_rejection, modify (add_log (LRejectFull a n))]
          else bnd (gets (\<lambda>s. per_ip s a)) (\<lambda>k.
          if MAX_CONNECTIONS_PER_IP \<le> k then
            seqs [modify count_rejection, modify (add_log (LRejectPerIp a k))]
          else if \<not> usable then throw OSError
          else modify (add_client a now))))"

definition count_timeout :: "server \<Rightarrow> server" where
  "count_timeout s =
     s\<lparr>sv_stats := (sv_stats s)\<lparr>st_hello_timeouts := Suc (st_hello_timeouts (sv_stats s))\<rparr>\<rparr>"

text \<open>\<open>order\<close> is the snapshot \<open>list(self.clients)\<close>.\<close>

definition sweep :: "rat \<Rightarrow> cid list \<Rightarrow> unit srv" where
  "sweep now order =
     for_each order (\<lambda>c.
       bnd (gets (\<lambda>s. name_of s c = None \<and> HELLO_TIMEOUT < now - cl_connected_at (sv_client s c)))
         (\<lambda>late. guarded late (seqs [modify count_timeout, drop_client c WhyHelloTimeout])))"

definition lobby_failures :: "server \<Rightarrow> nat" where
  "lobby_failures s = (case sv_lobby s of None \<Rightarrow> 0 | Some p \<Rightarrow> pb_failures p)"

definition log_stats :: "server \<Rightarrow> server" where
  "log_stats s =
     (let counts = (sv_stats s, lobby_failures s)
      in if counts = sv_last_stats s then s
         else add_log (LStats (length (sv_clients s))
                (length (filter (\<lambda>c. name_of s c = None) (sv_clients s))) (fst counts) (snd counts))
              (s\<lparr>sv_last_stats := counts\<rparr>))"

section \<open>run\<close>

text \<open>
  What the loop does for one ready connection: \<open>writable\<close> and \<open>incoming\<close> are the bits of the
  selector's mask, the latter with what \<open>recv\<close> will yield.
\<close>

definition serve :: "cid \<Rightarrow> bool \<Rightarrow> recv_outcome option \<Rightarrow> unit srv" where
  "serve c writable incoming =
     catch
       (seqs [
          bnd (gets (\<lambda>s. is_dead s c)) (\<lambda>dead. guarded (writable \<and> \<not> dead) (flush drop_client c)),
          bnd (gets (\<lambda>s. is_dead s c)) (\<lambda>dead.
            case incoming of None \<Rightarrow> ret () | Some r \<Rightarrow> guarded (\<not> dead) (service c r))])
       (\<lambda>e. seqs [modify (\<lambda>s. add_log (LUnexpected (client_repr s c) e) s), drop_client c WhyInternal])"

text \<open>
  What the handlers, the departures, \<open>flush\<close>, a write to the receive buffer and a log line respect, a
  ready connection respects.
\<close>

locale server_loop = preorder_rel R for R :: "server \<Rightarrow> server \<Rightarrow> bool" +
  assumes handle_R: "keeps R (handle c ftype payload)"
    and drop_R: "keeps R (drop_client c w)"
    and flush_R: "keeps R (flush drop_client c)"
    and set_rx_R: "R s (set_rx c rx s)"
    and log_R: "R s (add_log e s)"
begin

lemma kp_set_rx: "keeps R (modify (\<lambda>s. set_rx c (rx s) s))" "keeps R (modify (set_rx c b))"
  by (simp_all add: keeps_modify set_rx_R)

lemma kp_log: "keeps R (modify (\<lambda>s. add_log (e s) s))" "keeps R (modify (add_log l))"
  by (simp_all add: keeps_modify log_R)

lemma kp_handle_frame: "keeps R (handle_frame c body)"
  unfolding keeps_def
proof
  fix s
  obtain r t where h: "handle c (hd body) (tl body) s = (r, t)" by fastforce
  have "R s t" using keepsD [OF handle_R, of s c "hd body" "tl body"] h by simp
  moreover have "R t (snd (bnd (drop_client c w) (\<lambda>_. ret False) t))" for w
    by (intro keepsD [of R] kp_bnd kp_ret drop_R)
  ultimately show "R s (snd (handle_frame c body s))"
    using h R_trans by (auto simp: handle_frame_def split: sum.split exn.split)
qed

lemma kp_pump: "keeps R (pump c)"
proof -
  have "keeps R (pump_n n c)" for n
  proof (induction n)
    case (Suc n)
    then show ?case
      unfolding pump_n.simps
      by (intro kp_bnd kp_gets) (auto intro!: kp_bnd kp_ret kp_set_rx kp_handle_frame drop_R split: scan.split)
  qed (simp add: kp_ret)
  then show ?thesis unfolding pump_def by (intro kp_bnd kp_gets)
qed

lemma kp_service: "keeps R (service c r)"
  unfolding service_def
  by (auto intro!: kp_bnd kp_ret kp_set_rx drop_R kp_pump split: recv_outcome.split)

lemma kp_serve: "keeps R (serve c w r)"
  unfolding serve_def
  by (auto intro!: kp_catch kp_seqs kp_bnd kp_gets kp_guarded kp_ret flush_R kp_service kp_log drop_R
      split: option.split)

end

text \<open>The events of the loop.\<close>

datatype event =
    EvAccept conn rat
  | EvReady cid bool "recv_outcome option"
  | EvSweep rat "cid list"
  | EvStats

definition run_event :: "event \<Rightarrow> unit srv" where
  "run_event ev =
     (case ev of
        EvAccept conn now \<Rightarrow> accept conn now
      | EvReady c w r \<Rightarrow> serve c w r
      | EvSweep now order \<Rightarrow> sweep now order
      | EvStats \<Rightarrow> modify log_stats)"

text \<open>
  The events that can come: the selector only reports connections it was given (one of them may
  have been dropped since, by an event of the same batch), the sweep sees every open connection.
\<close>

definition possible :: "server \<Rightarrow> event \<Rightarrow> bool" where
  "possible s ev =
     (case ev of
        EvAccept conn now \<Rightarrow> True
      | EvReady c w r \<Rightarrow> c < sv_nclient s
      | EvSweep now order \<Rightarrow> distinct order \<and> set order = set (sv_clients s)
      | EvStats \<Rightarrow> True)"

text \<open>
  One step of the process: an event handled by the loop, or a step of the publisher's thread. An
  exception that leaves \<open>run\<close> ends the loop: there is no step then.
\<close>

inductive relay_step :: "server \<Rightarrow> server \<Rightarrow> bool" where
  event: "possible s ev \<Longrightarrow> run_event ev s = (Inr (), t) \<Longrightarrow> relay_step s t"
| publisher: "sv_lobby s = Some p \<Longrightarrow> worker_step p q \<Longrightarrow> relay_step s (s\<lparr>sv_lobby := Some q\<rparr>)"

inductive_cases relay_stepE: "relay_step s t"

inductive reachable :: "server \<Rightarrow> server \<Rightarrow> bool" for s0 :: server where
  start: "reachable s0 s0"
| step: "reachable s0 s \<Longrightarrow> relay_step s t \<Longrightarrow> reachable s0 t"

end
