(* ===== verification/ServiceSafe.thy ===== *)
theory ServiceSafe
  imports Service
begin

text \<open>
  The event loop keeps the invariant: the reassembler's loop satisfies the equation of the source
  and serves every frame safely, no exception leaves the body of the loop for a ready connection,
  accepting keeps the limits, and so every reachable state satisfies \<open>INV\<close>.
\<close>

section \<open>Serving a frame\<close>

definition served :: "cid \<Rightarrow> server \<Rightarrow> bool" where
  "served c s \<longleftrightarrow> c < sv_nclient s \<and> delay_ok s"

lemma served_evolves: "evolves s t \<Longrightarrow> served c s \<Longrightarrow> served c t"
  by (simp add: evolves_def served_def delay_ok_def)

lemma calm_stable_served: "calm_stable (served c)"
  unfolding calm_stable_def using calm_evolves served_evolves by blast

abbreviation serving :: "cid \<Rightarrow> server \<Rightarrow> bool" where
  "serving c s \<equiv> INV s \<and> served c s"

lemma drop_serving: "safe (serving c) (drop_client d w)"
  using drop_safe [OF calm_stable_served] .

lemma set_rx_simps [simp]:
  "sv_nclient (set_rx c rx s) = sv_nclient s" "sv_room (set_rx c rx s) = sv_room s"
  "sv_nroom (set_rx c rx s) = sv_nroom s" "sv_by_name (set_rx c rx s) = sv_by_name s"
  "sv_clients (set_rx c rx s) = sv_clients s" "sv_sel (set_rx c rx s) = sv_sel s"
  "sv_lobby (set_rx c rx s) = sv_lobby s" "sv_delay (set_rx c rx s) = sv_delay s"
  "sv_log (set_rx c rx s) = sv_log s"
  "sv_client (set_rx c rx s) = (sv_client s)(c := (sv_client s c)\<lparr>cl_rx := rx\<rparr>)"
  by (simp_all add: set_rx_def)

lemma set_rx_access [simp]:
  "is_dead (set_rx c rx s) d = is_dead s d" "name_of (set_rx c rx s) d = name_of s d"
  "room_of (set_rx c rx s) d = room_of s d" "members (set_rx c rx s) r = members s r"
  "stream (set_rx c rx s) d = stream s d" "served d (set_rx c rx s) = served d s"
  by (simp_all add: access_defs stream_def served_def delay_ok_def)

lemma INV_set_rx [simp]: "INV (set_rx c rx s) = INV s"
proof -
  let ?t = "set_rx c rx s"
  have "names_ok ?t = names_ok s" by (rule names_ok_cong) simp_all
  moreover have "clients_ok ?t = clients_ok s" by (rule clients_ok_cong) simp_all
  moreover have "queues_ok {} ?t = queues_ok {} s" by (rule queues_ok_cong) simp_all
  moreover have "rooms_ok ?t = rooms_ok s" by (rule rooms_ok_cong) simp_all
  moreover have "lobby_ok ?t = lobby_ok s" by (rule lobby_ok_cong) simp_all
  moreover have "crc_tables_ok ?t = crc_tables_ok s" by (rule crc_tables_ok_cong) simp
  moreover have "streams_ok ?t = streams_ok s" by (rule streams_ok_cong) simp
  ultimately show ?thesis by (simp add: INV_but_def)
qed

lemma handle_frame_safe:
  assumes "readable body"
  shows "safe (serving c) (handle_frame c body)"
  unfolding safe_def
proof (rule tripleI)
  fix s assume s: "serving c s"
  let ?goal = "\<lambda>r. case r of (Inl e, s') \<Rightarrow> False | (Inr x, s') \<Rightarrow> serving c s'"
  obtain r t where h: "handle c (hd body) (tl body) s = (r, t)" by fastforce
  have "length (tl body) \<le> 199" using assms unfolding readable_def by simp linarith
  note run = handle_answers [OF this, of c "hd body"]
  have pre: "INV s \<and> c < sv_nclient s \<and> delay_ok s" using s by (simp add: served_def)
  have "evolves s t" using keepsD [OF ev_handle, of s c "hd body" "tl body"] h by simp
  then have t: "served c t" using s served_evolves by blast
  show "?goal (handle_frame c body s)"
  proof (cases r)
    case (Inr u)
    with triple_InrD [OF run pre] h t show ?thesis by (simp add: handle_frame_def)
  next
    case (Inl e)
    with triple_InlD [OF run pre] h obtain p where "e = ProtocolError p" "INV t"
      by (auto simp: only_protocol_def)
    moreover have "?goal (bnd (drop_client c (WhyProtocol p)) (\<lambda>_. ret False) t)"
      using t \<open>INV t\<close> by (intro tripleD [OF safe_bnd [OF drop_serving safe_ret, unfolded safe_def]]) simp
    ultimately show ?thesis using h Inl by (simp add: handle_frame_def)
  qed
qed

lemma ev_handle_frame: "keeps evolves (handle_frame c body)"
  unfolding keeps_def
proof
  fix s
  obtain r t where h: "handle c (hd body) (tl body) s = (r, t)" by fastforce
  have "evolves s t" using keepsD [OF ev_handle, of s c "hd body" "tl body"] h by simp
  moreover have "evolves t (snd (bnd (drop_client c w) (\<lambda>_. ret False) t))" for w
    by (intro keepsD [of evolves] evolves.kp_bnd evolves.kp_ret ev_drop)
  ultimately show "evolves s (snd (handle_frame c body s))"
    using h evolves_trans by (auto simp: handle_frame_def split: sum.split exn.split)
qed

section \<open>The loop over the buffer\<close>

lemma pump_n_safe: "safe (serving c) (pump_n n c)"
proof (induction n)
  case (Suc n)
  show ?case
    unfolding safe_def
  proof (rule tripleI)
    fix s assume s: "serving c s"
    let ?goal = "\<lambda>r. case r of (Inl e, s') \<Rightarrow> False | (Inr x, s') \<Rightarrow> serving c s'"
    show "?goal (pump_n (Suc n) c s)"
    proof (cases "scan_frame (cl_rx (sv_client s c))")
      case Wait
      with s show ?thesis by (simp add: ret_def)
    next
      case (Bad l)
      have "?goal (drop_client c (WhyBadLength l) s)"
        using s by (rule tripleD [OF drop_serving [unfolded safe_def]])
      with Bad show ?thesis by simp
    next
      case (Got body rest)
      then have "readable body" using scan_frame_Got by blast
      then have "safe (serving c) (bnd (handle_frame c body) (\<lambda>go_on. if go_on then pump_n n c else ret ()))"
        using Suc.IH safe_ret by (intro safe_bnd handle_frame_safe) auto
      then have "?goal (bnd (handle_frame c body) (\<lambda>go_on. if go_on then pump_n n c else ret ()) (set_rx c rest s))"
        unfolding safe_def by (rule tripleD) (simp add: s)
      with Got show ?thesis by simp
    qed
  qed
qed (simp add: safe_ret)

lemma handle_frame_rx: "handle_frame c body s = (r, t) \<Longrightarrow> cl_rx (sv_client t d) = cl_rx (sv_client s d)"
  using keepsD [OF ev_handle_frame, of s c body] by (simp add: evolves_def)

lemma handle_frame_goes_on: "handle_frame c body s = (Inr go, t) \<Longrightarrow> go \<longleftrightarrow> \<not> is_dead t c"
  using drop_dead [of c]
  by (auto simp: handle_frame_def bnd_def ret_def split: prod.splits sum.splits exn.splits) (metis snd_conv)+

lemma pump_n_enough:
  "length (cl_rx (sv_client s c)) \<le> n \<Longrightarrow> length (cl_rx (sv_client s c)) \<le> k \<Longrightarrow> pump_n n c s = pump_n k c s"
proof (induction n arbitrary: k s)
  case 0
  then show ?case by (cases k) (simp_all add: scan_frame_def)
next
  case (Suc n)
  show ?case
  proof (cases k)
    case 0
    with Suc.prems show ?thesis by (simp add: scan_frame_def)
  next
    case k: (Suc k')
    show ?thesis
    proof (cases "scan_frame (cl_rx (sv_client s c))")
      case (Got body rest)
      obtain r t where h: "handle_frame c body (set_rx c rest s) = (r, t)" by fastforce
      have "length rest < length (cl_rx (sv_client s c))" using scan_frame_shrink [OF Got] .
      moreover have "cl_rx (sv_client t c) = rest" using handle_frame_rx [OF h, of c] by simp
      ultimately have "pump_n n c t = pump_n k' c t" using Suc.prems k by (intro Suc.IH) simp_all
      with Got h k show ?thesis by (cases r) (simp_all add: bnd_def [of "handle_frame c body"])
    qed (simp_all add: k)
  qed
qed

text \<open>The loop of \<open>service\<close>, without its bound.\<close>

lemma pump_unfold:
  "pump c s =
     (case scan_frame (cl_rx (sv_client s c)) of
        Wait \<Rightarrow> ret ()
      | Bad l \<Rightarrow> drop_client c (WhyBadLength l)
      | Got body rest \<Rightarrow>
          bnd (modify (set_rx c rest)) (\<lambda>_.
          bnd (handle_frame c body) (\<lambda>go_on. if go_on then pump c else ret ()))) s"
proof -
  have "pump c s = pump_n (Suc (length (cl_rx (sv_client s c)))) c s"
    using pump_n_enough [of s c] by (simp add: pump_def del: pump_n.simps)
  moreover have "pump_n (length (cl_rx (sv_client s c))) c t = pump c t"
    if "scan_frame (cl_rx (sv_client s c)) = Got body rest"
      "handle_frame c body (set_rx c rest s) = (r, t)" for body rest r t
  proof -
    have "cl_rx (sv_client t c) = rest" using handle_frame_rx [OF that(2), of c] by simp
    then show ?thesis
      using scan_frame_shrink [OF that(1)] pump_n_enough [of t c] by (simp add: pump_def)
  qed
  ultimately show ?thesis
    by (auto simp: bnd_def [of "handle_frame c x" for x] split: scan.split prod.split sum.split)
qed

lemma pump_safe: "safe (serving c) (pump c)"
  unfolding pump_def by (intro safe_bnd safe_gets pump_n_safe)

lemma service_safe: "safe (serving c) (service c r)"
  unfolding service_def
  by (cases r) (auto intro!: safe_ret drop_serving safe_bnd safe_modify pump_safe)

section \<open>One ready connection\<close>

lemma flush_live:
  "triple (\<lambda>s. INV s \<and> Q s \<and> \<not> is_dead s c) (flush drop_client c) (\<lambda>_ s. INV s \<and> Q s) (\<lambda>_ _. False)"
  if "calm_stable Q"
proof (rule tripleI)
  fix s assume s: "INV s \<and> Q s \<and> \<not> is_dead s c"
  then have "INV_but {c} s \<and> few (nlive s) s \<and> \<not> is_dead s c" by (auto intro: INV_weaken)
  then have "case flush drop_client c s of (Inl e, s') \<Rightarrow> False | (Inr x, s') \<Rightarrow> INV s'"
    by (rule tripleD [OF safe_drops.flush_settles])
  moreover have "Q (snd (flush drop_client c s))"
    using that drops.flush_calm s by (blast intro: calm_stable_keeps)
  ultimately show "case flush drop_client c s of (Inl e, s') \<Rightarrow> False | (Inr x, s') \<Rightarrow> INV s' \<and> Q s'"
    by (auto split: prod.splits sum.splits)
qed

lemma safe_state:
  assumes "\<And>s. P s \<Longrightarrow> triple (\<lambda>t. t = s) (f (g s)) (\<lambda>_. P) (\<lambda>_ _. False)"
  shows "safe P (bnd (gets g) f)"
  using assms by (simp add: safe_def triple_def)

lemma serve_body_safe:
  "safe (serving c) (seqs [
     bnd (gets (\<lambda>s. is_dead s c)) (\<lambda>dead. guarded (writable \<and> \<not> dead) (flush drop_client c)),
     bnd (gets (\<lambda>s. is_dead s c)) (\<lambda>dead.
       case incoming of None \<Rightarrow> ret () | Some r \<Rightarrow> guarded (\<not> dead) (service c r))])"
proof (rule safe_seqs)
  have "safe (serving c) (bnd (gets (\<lambda>s. is_dead s c))
      (\<lambda>dead. guarded (writable \<and> \<not> dead) (flush drop_client c)))"
  proof (rule safe_state)
    fix s assume s: "serving c s"
    show "triple (\<lambda>t. t = s) (guarded (writable \<and> \<not> is_dead s c) (flush drop_client c))
        (\<lambda>_. serving c) (\<lambda>_ _. False)"
    proof (cases "writable \<and> \<not> is_dead s c")
      case True
      with s show ?thesis
        by (auto intro: triple_weaken [OF flush_live [OF calm_stable_served]])
    next
      case False
      with s show ?thesis by (auto simp: triple_def ret_def guarded_def)
    qed
  qed
  moreover have "safe (serving c) (bnd (gets (\<lambda>s. is_dead s c)) (\<lambda>dead.
       case incoming of None \<Rightarrow> ret () | Some r \<Rightarrow> guarded (\<not> dead) (service c r)))"
    by (cases incoming) (auto intro!: safe_bnd safe_gets safe_ret safe_guarded service_safe)
  ultimately show "safe (serving c) m" if "m \<in> set [
     bnd (gets (\<lambda>s. is_dead s c)) (\<lambda>dead. guarded (writable \<and> \<not> dead) (flush drop_client c)),
     bnd (gets (\<lambda>s. is_dead s c)) (\<lambda>dead.
       case incoming of None \<Rightarrow> ret () | Some r \<Rightarrow> guarded (\<not> dead) (service c r))]" for m
    using that by auto
qed

text \<open>The catch-all handler of the loop has nothing to catch.\<close>

lemma catch_safe: "safe P m \<Longrightarrow> P s \<Longrightarrow> catch m h s = m s"
  by (erule (1) safeE) (simp add: catch_def)

lemma serve_safe: "safe (serving c) (serve c writable incoming)"
  unfolding safe_def
proof (rule tripleI)
  fix s assume s: "serving c s"
  show "case serve c writable incoming s of (Inl e, s') \<Rightarrow> False | (Inr x, s') \<Rightarrow> serving c s'"
    unfolding serve_def catch_safe [OF serve_body_safe s]
    using s by (rule tripleD [OF serve_body_safe [unfolded safe_def]])
qed

section \<open>accept, sweep, log_stats\<close>

lemma add_client_simps [simp]:
  "sv_nclient (add_client a now s) = Suc (sv_nclient s)" "sv_room (add_client a now s) = sv_room s"
  "sv_nroom (add_client a now s) = sv_nroom s" "sv_by_name (add_client a now s) = sv_by_name s"
  "sv_clients (add_client a now s) = sv_clients s @ [sv_nclient s]"
  "sv_sel (add_client a now s) = (sv_sel s)(sv_nclient s \<mapsto> False)"
  "sv_lobby (add_client a now s) = sv_lobby s" "sv_delay (add_client a now s) = sv_delay s"
  "sv_client (add_client a now s) = (sv_client s)(sv_nclient s := new_client a now)"
  by (simp_all add: add_client_def Let_def)

lemma add_client_access [simp]:
  "name_of (add_client a now s) d = (if d = sv_nclient s then None else name_of s d)"
  "room_of (add_client a now s) d = (if d = sv_nclient s then None else room_of s d)"
  "members (add_client a now s) r = members s r"
  "stream (add_client a now s) d = (if d = sv_nclient s then [] else stream s d)"
  by (simp_all add: access_defs stream_def new_client_def)

lemma is_dead_add_client:
  "is_dead (add_client a now s) d \<longleftrightarrow> d \<noteq> sv_nclient s \<and> is_dead s d"
  by (auto simp: is_dead_def new_client_def)

lemma clients_ok_add:
  assumes ok: "clients_ok s" and n: "length (sv_clients s) < MAX_CLIENTS"
    and k: "per_ip s a < MAX_CONNECTIONS_PER_IP"
  shows "clients_ok (add_client a now s)"
proof -
  let ?t = "add_client a now s"
  have fresh: "sv_nclient s \<notin> set (sv_clients s)"
    using ok by (simp add: clients_ok_def is_dead_def)
  then have old: "filter (\<lambda>c. fst (cl_addr (sv_client ?t c)) = ip) (sv_clients s)
      = filter (\<lambda>c. fst (cl_addr (sv_client s c)) = ip) (sv_clients s)" for ip
    by (intro filter_cong) auto
  have "fst (cl_addr (sv_client ?t (sv_nclient s))) = fst a" by (simp add: new_client_def)
  then have "length (filter (\<lambda>c. fst (cl_addr (sv_client ?t c)) = ip) (sv_clients ?t)) \<le> MAX_CONNECTIONS_PER_IP"
    for ip
    using ok k unfolding add_client_simps(5) filter_append old
    by (auto simp: clients_ok_def per_ip_def)
  moreover have "c \<in> set (sv_clients ?t) \<longleftrightarrow> \<not> is_dead ?t c" for c
    using ok fresh by (auto simp: clients_ok_def is_dead_add_client)
  ultimately show ?thesis
    using ok fresh n unfolding clients_ok_def [of ?t] by (simp add: clients_ok_def)
qed

lemma names_ok_add: "names_ok s \<Longrightarrow> names_ok (add_client a now s)"
proof (rule names_okI)
  assume ok: "names_ok s"
  let ?t = "add_client a now s"
  show "dwf (sv_by_name ?t)" using names_ok_wf [OF ok] by simp
  show "d < sv_nclient ?t \<and> name_of ?t d = Some n" if "(n, d) \<in> set (sv_by_name ?t)" for n d
    using names_ok_entry [OF ok, of n d] that by auto
  show "(n, d) \<in> set (sv_by_name ?t)" if "\<not> is_dead ?t d" "name_of ?t d = Some n" for n d
    using names_ok_live [OF ok, of d n] that by (auto simp: is_dead_add_client split: if_splits)
  show "valid_name n" if "d < sv_nclient ?t" "name_of ?t d = Some n" for n d
    using names_ok_valid [OF ok, of d n] that by (auto split: if_splits)
qed

lemma rooms_ok_add: "rooms_ok s \<Longrightarrow> rooms_ok (add_client a now s)"
proof (rule rooms_okI)
  assume ok: "rooms_ok s"
  let ?t = "add_client a now s"
  fix c r assume c: "c < sv_nclient ?t" "room_of ?t c = Some r"
  then have "c < sv_nclient s" "room_of s c = Some r" by (auto split: if_splits)
  note old = rooms_okD [OF ok this]
  then have "room_fine ?t r" by (auto simp: room_fine_def)
  with old show "c \<in> set (members ?t r) \<and> room_fine ?t r \<and> 2 \<le> length (members ?t r)" by simp
qed

lemma queues_ok_add: "queues_ok {} s \<Longrightarrow> queues_ok {} (add_client a now s)"
  unfolding queues_ok_def by (auto simp: is_dead_add_client new_client_def less_Suc_eq)

lemma INV_add_client:
  assumes "INV s" "length (sv_clients s) < MAX_CLIENTS" "per_ip s a < MAX_CONNECTIONS_PER_IP"
  shows "INV (add_client a now s)"
proof (rule INV_I)
  note parts = INV_D [OF assms(1)]
  have "lobby_ok (add_client a now s) = lobby_ok s" by (rule lobby_ok_cong) simp_all
  then show "lobby_ok (add_client a now s)" using parts by simp
  have "crc_tables_ok (add_client a now s) = crc_tables_ok s" by (rule crc_tables_ok_cong) simp
  then show "crc_tables_ok (add_client a now s)" using parts by simp
  show "streams_ok (add_client a now s)" using parts(7) by (simp add: streams_ok_def)
qed (use INV_D [OF assms(1)] assms(2,3) in
  \<open>simp_all add: names_ok_add clients_ok_add queues_ok_add rooms_ok_add\<close>)

lemma INV_count_rejection [simp]: "INV_but X (count_rejection s) = INV_but X s"
  by (rule INV_same_view) (simp add: same_view_def count_rejection_def)

lemma INV_count_timeout [simp]: "INV_but X (count_timeout s) = INV_but X s"
  by (rule INV_same_view) (simp add: same_view_def count_timeout_def)

lemma INV_log_stats [simp]: "INV_but X (log_stats s) = INV_but X s"
  by (rule INV_same_view) (simp add: same_view_def log_stats_def Let_def)

text \<open>Only the socket's own errors leave \<open>accept\<close>.\<close>

lemma accept_keeps: "triple INV (accept conn now) (\<lambda>_. INV) (\<lambda>e s. INV s \<and> e = OSError)"
  by (cases conn) (auto simp: triple_def accept_def throw_def modify_def INV_add_client
      bnd_def ret_def gets_def)

lemma sweep_safe: "safe INV (sweep now order)"
proof -
  have "safe INV (modify count_timeout)" by (rule safe_modify) simp
  moreover have "safe INV (drop_client c w)" for c w
    using drop_safe [OF calm_stable_True] by simp
  ultimately have "safe INV (seqs [modify count_timeout, drop_client c WhyHelloTimeout])" for c
    by (intro safe_seqs) auto
  then show ?thesis
    unfolding sweep_def by (intro safe_for_each safe_bnd safe_gets safe_guarded)
qed

section \<open>Reachable states\<close>

text \<open>
  \<open>persists s t\<close>: connections are never forgotten, a dead one stays dead and gets nothing more, a
  name is never taken back, what was sent or queued stays the beginning of the stream, the log
  only grows, started rooms stay started, and the delay never changes.
\<close>

definition client_persists :: "server \<Rightarrow> server \<Rightarrow> cid \<Rightarrow> bool" where
  "client_persists s t c \<longleftrightarrow>
     (is_dead s c \<longrightarrow> is_dead t c \<and> stream t c = stream s c) \<and>
     cl_addr (sv_client t c) = cl_addr (sv_client s c) \<and>
     cl_connected_at (sv_client t c) = cl_connected_at (sv_client s c) \<and>
     (name_of s c \<noteq> None \<longrightarrow> name_of t c \<noteq> None) \<and>
     (\<exists>ext. stream t c = stream s c @ ext)"

definition persists :: "server \<Rightarrow> server \<Rightarrow> bool" where
  "persists s t \<longleftrightarrow>
     sv_nclient s \<le> sv_nclient t \<and> sv_nroom s \<le> sv_nroom t \<and> sv_delay t = sv_delay s \<and>
     (\<exists>l. sv_log t = sv_log s @ l) \<and>
     (\<forall>c. c < sv_nclient s \<longrightarrow> client_persists s t c) \<and>
     (\<forall>r. r < sv_nroom s \<and> rm_started (sv_room s r) \<longrightarrow> rm_started (sv_room t r))"

lemma client_persists_refl: "client_persists s s c"
  by (simp add: client_persists_def)

lemma client_persists_trans:
  "client_persists s t c \<Longrightarrow> client_persists t u c \<Longrightarrow> client_persists s u c"
  unfolding client_persists_def by (elim conjE exE) (simp add: append_assoc)

lemma persists_refl: "persists s s"
  by (simp add: persists_def client_persists_refl)

lemma persists_trans:
  assumes "persists s t" "persists t u"
  shows "persists s u"
proof -
  have le: "sv_nclient s \<le> sv_nclient t" "sv_nroom s \<le> sv_nroom t"
    using assms(1) by (simp_all add: persists_def)
  have "client_persists s u c" if "c < sv_nclient s" for c
    using client_persists_trans [of s t c u] assms that less_le_trans [OF that le(1)]
    by (simp add: persists_def)
  moreover obtain l1 l2 where "sv_log t = sv_log s @ l1" "sv_log u = sv_log t @ l2"
    using assms unfolding persists_def by blast
  then have "\<exists>l. sv_log u = sv_log s @ l" by simp
  moreover have "rm_started (sv_room u r)" if "r < sv_nroom s" "rm_started (sv_room s r)" for r
    using assms that less_le_trans [OF that(1) le(2)] by (simp add: persists_def)
  ultimately show ?thesis
    using assms le unfolding persists_def by simp
qed

interpretation persists: preorder_rel persists
  by unfold_locales (fact persists_refl, erule (1) persists_trans)

lemma evolves_persists: "evolves s t \<Longrightarrow> persists s t"
  by (auto simp: evolves_def persists_def client_persists_def is_dead_def name_of_def)

lemma ps_evolves: "keeps evolves m \<Longrightarrow> keeps persists m"
  unfolding keeps_def using evolves_persists by blast

text \<open>State changes that touch none of it.\<close>

lemma ps_modify:
  assumes "\<And>s. sv_nclient (f s) = sv_nclient s" "\<And>s. sv_nroom (f s) = sv_nroom s"
    "\<And>s. sv_delay (f s) = sv_delay s" "\<And>s. \<exists>l. sv_log (f s) = sv_log s @ l"
    "\<And>s. sv_client (f s) = sv_client s" "\<And>s. sv_room (f s) = sv_room s"
  shows "keeps persists (modify f)"
  using assms by (intro keeps_modify) (simp add: persists_def client_persists_def access_defs stream_def)

interpretation ps: server_loop persists
proof unfold_locales
  show "keeps persists (handle c ftype payload)" for c ftype payload by (rule ps_evolves [OF ev_handle])
  show "keeps persists (drop_client c w)" for c w by (rule ps_evolves [OF ev_drop])
  show "keeps persists (flush drop_client c)" for c by (rule ps_evolves [OF keeps_evolves [OF drops.flush_calm]])
qed (simp_all add: persists_def client_persists_def access_defs stream_def)

lemmas ps_rules = persists.kp_bnd persists.kp_gets persists.kp_ret persists.kp_guarded persists.kp_throw
  ps.drop_R ps.kp_log

lemmas ps_serve = ps.kp_serve

lemma ps_add_client: "keeps persists (modify (add_client a now))"
proof -
  have "\<exists>l. sv_log (add_client a now s) = sv_log s @ l" for s
    by (simp add: add_client_def Let_def)
  then show ?thesis
    by (intro keeps_modify) (simp add: persists_def client_persists_def is_dead_add_client)
qed

lemma ps_accept: "keeps persists (accept conn now)"
proof -
  have "keeps persists (modify count_rejection)"
    by (rule ps_modify) (simp_all add: count_rejection_def)
  then show ?thesis
    unfolding accept_def by (auto intro!: ps_rules ps_add_client split: conn.split)
qed

lemma ps_sweep: "keeps persists (sweep now order)"
proof -
  have "keeps persists (modify count_timeout)"
    by (rule ps_modify) (simp_all add: count_timeout_def)
  then show ?thesis
    unfolding sweep_def by (auto intro!: persists.kp_for_each ps_rules)
qed

lemma ps_run_event: "keeps persists (run_event ev)"
proof -
  have "\<exists>l. sv_log (log_stats s) = sv_log s @ l" for s
    by (simp add: log_stats_def Let_def)
  then have "keeps persists (modify log_stats)"
    by (intro ps_modify) (simp_all add: log_stats_def Let_def)
  then show ?thesis
    by (cases ev) (simp_all add: run_event_def ps_accept ps_serve ps_sweep)
qed

lemma persists_publisher: "persists s (s\<lparr>sv_lobby := l\<rparr>)"
  by (simp add: persists_def client_persists_def access_defs stream_def)

lemma relay_step_persists: "relay_step s t \<Longrightarrow> persists s t"
  by (erule relay_stepE) (metis keepsD ps_run_event snd_conv, simp add: persists_publisher)

lemma INV_publisher:
  assumes "INV s" "sv_lobby s = Some p" "worker_step p q"
  shows "INV (s\<lparr>sv_lobby := Some q\<rparr>)"
proof -
  let ?t = "s\<lparr>sv_lobby := Some q\<rparr>"
  note parts = INV_D [OF assms(1)]
  have "names_ok ?t = names_ok s" by (rule names_ok_cong) (simp_all add: access_defs)
  moreover have "clients_ok ?t = clients_ok s" by (rule clients_ok_cong) (simp_all add: access_defs)
  moreover have "queues_ok {} ?t = queues_ok {} s" by (rule queues_ok_cong) (simp_all add: access_defs)
  moreover have "rooms_ok ?t = rooms_ok s" by (rule rooms_ok_cong) (simp_all add: access_defs)
  moreover have "crc_tables_ok ?t = crc_tables_ok s" by (rule crc_tables_ok_cong) simp
  moreover have "streams_ok ?t = streams_ok s" by (rule streams_ok_cong) (simp add: stream_def)
  moreover have "lobby_ok ?t"
    using parts(6) assms(2) worker_step_payload [OF assms(3)] by (simp add: lobby_ok_def)
  ultimately show ?thesis using parts by (intro INV_I) simp_all
qed

text \<open>What can leave the loop is an error of the listening socket.\<close>

lemma run_event_keeps:
  assumes "INV s" "delay_ok s" "possible s ev"
  shows "case run_event ev s of
    (Inl e, t) \<Rightarrow> INV t \<and> e = OSError \<and> (\<exists>conn now. ev = EvAccept conn now) | (Inr x, t) \<Rightarrow> INV t"
proof (cases ev)
  case (EvAccept conn now)
  have "case accept conn now s of (Inl e, t) \<Rightarrow> INV t \<and> e = OSError | (Inr x, t) \<Rightarrow> INV t"
    using assms(1) by (rule tripleD [OF accept_keeps])
  with EvAccept show ?thesis by (auto simp: run_event_def split: prod.splits sum.splits)
next
  case (EvReady c w r)
  then have "serving c s" using assms by (simp add: served_def possible_def)
  then have "case serve c w r s of (Inl e, t) \<Rightarrow> False | (Inr x, t) \<Rightarrow> serving c t"
    by (rule tripleD [OF serve_safe [unfolded safe_def]])
  with EvReady show ?thesis by (auto simp: run_event_def split: prod.splits sum.splits)
next
  case (EvSweep now order)
  have "case sweep now order s of (Inl e, t) \<Rightarrow> False | (Inr x, t) \<Rightarrow> INV t"
    using assms(1) by (rule tripleD [OF sweep_safe [unfolded safe_def]])
  with EvSweep show ?thesis by (auto simp: run_event_def split: prod.splits sum.splits)
next
  case EvStats
  with assms(1) show ?thesis by (simp add: run_event_def modify_def)
qed

lemma relay_step_INV:
  assumes "relay_step s t" "INV s" "delay_ok s"
  shows "INV t \<and> delay_ok t"
  using assms(1)
proof cases
  case (event ev)
  have "delay_ok t"
    using relay_step_persists [OF assms(1)] assms(3) by (simp add: persists_def delay_ok_def)
  with run_event_keeps [OF assms(2,3) event(1)] event(2) show ?thesis by simp
next
  case (publisher p q)
  with INV_publisher [OF assms(2)] assms(3) show ?thesis by (simp add: delay_ok_def)
qed

text \<open>The states \<open>main\<close> can start the loop in.\<close>

definition initial :: "server \<Rightarrow> bool" where
  "initial s \<longleftrightarrow>
     (\<exists>delay lobby auto_go net rand. s = new_server delay lobby auto_go net rand \<and>
        (case lobby of None \<Rightarrow> True | Some p \<Rightarrow> pl_curplayers (pb_payload p) = 0))"

lemma INV_initial:
  assumes "initial s"
  shows "INV s"
proof -
  obtain delay lobby auto_go net rand where s: "s = new_server delay lobby auto_go net rand"
    and l: "case lobby of None \<Rightarrow> True | Some p \<Rightarrow> pl_curplayers (pb_payload p) = 0"
    using assms unfolding initial_def by blast
  show ?thesis
  proof (rule INV_I)
    show "lobby_ok s" using l by (simp add: s lobby_ok_def new_server_def split: option.splits)
  qed (simp_all add: s new_server_def names_ok_def clients_ok_def queues_ok_def rooms_ok_def
      crc_tables_ok_def streams_ok_def dwf_def dkeys_def is_dead_def new_client_def new_room_def
      stream_def)
qed

lemma reachable_INV:
  "reachable s0 s \<Longrightarrow> initial s0 \<Longrightarrow> delay_ok s0 \<Longrightarrow> INV s \<and> delay_ok s"
proof (induction rule: reachable.induct)
  case start
  then show ?case by (simp add: INV_initial)
next
  case (step s t)
  then show ?case using relay_step_INV by blast
qed

lemma reachable_persists: "reachable s0 s \<Longrightarrow> persists s0 s"
  by (induction rule: reachable.induct) (blast intro: persists_refl persists_trans relay_step_persists)+

lemma reachable_trans: "reachable s1 s2 \<Longrightarrow> reachable s0 s1 \<Longrightarrow> reachable s0 s2"
  by (induction rule: reachable.induct) (auto intro: reachable.step)

end
