(* ===== verification/Runs.thy ===== *)
theory Runs
  imports ServiceSafe
begin

text \<open>
  Evaluation of the model on concrete inputs by rewriting, with the collection \<open>run\<close>: every
  action applied to a state is computed to its result and new state. A small example session is
  run with it: AA and BB connect from two addresses and say HELLO (\<open>demo_idle\<close>), BB joins AA
  (\<open>demo_room\<close>), AA sends GO (\<open>demo_match\<close>). The states are reachable, and the theorems of the
  development are applied to them.
\<close>

section \<open>Rewriting a run\<close>

named_theorems run \<open>evaluation of actions on concrete states\<close>

lemma bnd_run [run]: "bnd m f s = (case m s of (Inl e, t) \<Rightarrow> (Inl e, t) | (Inr x, t) \<Rightarrow> f x t)"
  by (simp add: bnd_def)

lemma scan_run [run]: "scan_frame (l # xs) =
  (if unat l < 1 \<or> 200 < unat l then Bad l
   else if length xs < unat l then Wait else Got (take (unat l) xs) (drop (unat l) xs))"
  by (simp add: scan_frame_def)

lemma scan_run_Nil [run]: "scan_frame [] = Wait"
  by (simp add: scan_frame_def)

lemma replicate_run [run]: "replicate (numeral k) x = x # replicate (pred_numeral k) x"
  by (simp add: numeral_eq_Suc)

lemma drop_run [run]: "drop_client c w s = drop_body drop_client c w s"
  by (rule drop_unfold)

lemmas [run] = Let_def fold_add_log ret_def gets_def modify_def lift_def throw_def guarded_def catch_def

lemmas [run] = run_event_def serve_def service_def pump_unfold handle_frame_def handle_def relay_def
  on_hello_def on_list_def on_join_def on_go_def start_room_def join_room_def join_target_def
  auto_start_def accept_def

lemmas [run] = flush_def send_def for_members_def room_broadcast_def dissolve_def remove_member_def
  end_match_def leave_forming_def leave_room_def drop_body_def

lemmas [run] = upd_client_def upd_room_def add_log_def is_dead_def members_def name_of_def room_of_def
  client_repr_def room_repr_def list_remove_def seat_def roster_def lobby_update_def update_events_def
  count_backlog_drop_def queue_def room_payload_def detach_members_def clear_members_def peer_left_def
  mark_dead_def forget_names_def status_def list_others_def lobby_payload_def hello_name_def
  drop_alias_def set_name_def begin_match_def start_common_def start_frame_def unjoinable_def
  make_room_def enter_room_def set_rx_def per_ip_def add_client_def count_rejection_def
  new_client_def new_room_def new_server_def

lemmas [run] = frame_def pad_name_def encode_ascii_def ljust_def decode_ascii_def rstrip_pad_def
  valid_name_def NAME_CHARS_def lit_def ddel_def log_crc_def crc_round_def crc_store_def crc_tick_def
  crc_value_def dkeys_def flush_loop.simps const_defs

section \<open>The example session\<close>

text \<open>The link to the second client breaks after three calls.\<close>

definition demo_net :: "cid \<Rightarrow> nat \<Rightarrow> send_outcome" where
  "demo_net c k = (if c = 1 \<and> 3 \<le> k then SError else SSent 4096)"

declare demo_net_def [run]

definition demo_start :: server where
  "demo_start = new_server 3 None 0 demo_net (\<lambda>_. 5)"

definition demo1 :: server where
  "demo1 =
     \<lparr>sv_delay = 3, sv_auto_go = 0, sv_lobby = None, sv_by_name = [],
     sv_clients = [0], sv_sel = [0 \<mapsto> False],
     sv_stats =
     \<lparr>st_tx_backlog_drops = 0, st_hello_timeouts = 0,
     st_connection_limit_rejections = 0\<rparr>,
     sv_last_stats =
     (\<lparr>st_tx_backlog_drops = 0, st_hello_timeouts = 0,
     st_connection_limit_rejections = 0\<rparr>,
     0),
     sv_log = [LConnect (''a'', Suc 0)],
     sv_client =
     (\<lambda>_. \<lparr>cl_addr = ([], 0), cl_rx = [], cl_tx = [], cl_name = None,
     cl_room = None, cl_connected_at = 0, cl_dead = False,
     cl_sent = [], cl_calls = 0\<rparr>)
     (0 := \<lparr>cl_addr = (''a'', Suc 0), cl_rx = [], cl_tx = [],
     cl_name = None, cl_room = None, cl_connected_at = 0,
     cl_dead = False, cl_sent = [], cl_calls = 0\<rparr>),
     sv_nclient = Suc 0,
     sv_room =
     \<lambda>_. \<lparr>rm_members = [0], rm_started = False, rm_seed = 0,
     rm_crc = [], rm_crc_ok = 0\<rparr>,
     sv_nroom = 0, sv_net = demo_net, sv_rand = \<lambda>_. 5,
     sv_draws = 0\<rparr>"

definition demo2 :: server where
  "demo2 =
     \<lparr>sv_delay = 3, sv_auto_go = 0, sv_lobby = None,
     sv_by_name = [([65, 65], 0)], sv_clients = [0],
     sv_sel = [0 \<mapsto> False],
     sv_stats =
     \<lparr>st_tx_backlog_drops = 0, st_hello_timeouts = 0,
     st_connection_limit_rejections = 0\<rparr>,
     sv_last_stats =
     (\<lparr>st_tx_backlog_drops = 0, st_hello_timeouts = 0,
     st_connection_limit_rejections = 0\<rparr>,
     0),
     sv_log = [LConnect (''a'', Suc 0), LHello (RName [65, 65])],
     sv_client =
     (\<lambda>_. \<lparr>cl_addr = ([], 0), cl_rx = [], cl_tx = [], cl_name = None,
     cl_room = None, cl_connected_at = 0, cl_dead = False,
     cl_sent = [], cl_calls = 0\<rparr>)
     (0 := \<lparr>cl_addr = (''a'', Suc 0), cl_rx = [], cl_tx = [],
     cl_name = Some [65, 65], cl_room = None,
     cl_connected_at = 0, cl_dead = False,
     cl_sent = [2, 3, 0], cl_calls = Suc 0\<rparr>),
     sv_nclient = Suc 0,
     sv_room =
     \<lambda>_. \<lparr>rm_members = [0], rm_started = False, rm_seed = 0,
     rm_crc = [], rm_crc_ok = 0\<rparr>,
     sv_nroom = 0, sv_net = demo_net, sv_rand = \<lambda>_. 5,
     sv_draws = 0\<rparr>"

definition demo3 :: server where
  "demo3 =
     \<lparr>sv_delay = 3, sv_auto_go = 0, sv_lobby = None,
     sv_by_name = [([65, 65], 0)], sv_clients = [0, Suc 0],
     sv_sel = [0 \<mapsto> False, Suc 0 \<mapsto> False],
     sv_stats =
     \<lparr>st_tx_backlog_drops = 0, st_hello_timeouts = 0,
     st_connection_limit_rejections = 0\<rparr>,
     sv_last_stats =
     (\<lparr>st_tx_backlog_drops = 0, st_hello_timeouts = 0,
     st_connection_limit_rejections = 0\<rparr>,
     0),
     sv_log =
     [LConnect (''a'', Suc 0), LHello (RName [65, 65]),
     LConnect (''b'', 2)],
     sv_client =
     (\<lambda>_. \<lparr>cl_addr = ([], 0), cl_rx = [], cl_tx = [], cl_name = None,
     cl_room = None, cl_connected_at = 0, cl_dead = False,
     cl_sent = [], cl_calls = 0\<rparr>)
     (0 := \<lparr>cl_addr = (''a'', Suc 0), cl_rx = [], cl_tx = [],
     cl_name = Some [65, 65], cl_room = None,
     cl_connected_at = 0, cl_dead = False,
     cl_sent = [2, 3, 0], cl_calls = Suc 0\<rparr>,
     Suc 0 :=
     \<lparr>cl_addr = (''b'', 2), cl_rx = [], cl_tx = [],
     cl_name = None, cl_room = None, cl_connected_at = 0,
     cl_dead = False, cl_sent = [], cl_calls = 0\<rparr>),
     sv_nclient = Suc (Suc 0),
     sv_room =
     \<lambda>_. \<lparr>rm_members = [0], rm_started = False, rm_seed = 0,
     rm_crc = [], rm_crc_ok = 0\<rparr>,
     sv_nroom = 0, sv_net = demo_net, sv_rand = \<lambda>_. 5,
     sv_draws = 0\<rparr>"

definition demo_idle :: server where
  "demo_idle =
     \<lparr>sv_delay = 3, sv_auto_go = 0, sv_lobby = None,
     sv_by_name = [([65, 65], 0), ([66, 66], Suc 0)],
     sv_clients = [0, Suc 0], sv_sel = [0 \<mapsto> False, Suc 0 \<mapsto> False],
     sv_stats =
     \<lparr>st_tx_backlog_drops = 0, st_hello_timeouts = 0,
     st_connection_limit_rejections = 0\<rparr>,
     sv_last_stats =
     (\<lparr>st_tx_backlog_drops = 0, st_hello_timeouts = 0,
     st_connection_limit_rejections = 0\<rparr>,
     0),
     sv_log =
     [LConnect (''a'', Suc 0), LHello (RName [65, 65]),
     LConnect (''b'', 2), LHello (RName [66, 66])],
     sv_client =
     (\<lambda>_. \<lparr>cl_addr = ([], 0), cl_rx = [], cl_tx = [], cl_name = None,
     cl_room = None, cl_connected_at = 0, cl_dead = False,
     cl_sent = [], cl_calls = 0\<rparr>)
     (0 := \<lparr>cl_addr = (''a'', Suc 0), cl_rx = [], cl_tx = [],
     cl_name = Some [65, 65], cl_room = None,
     cl_connected_at = 0, cl_dead = False,
     cl_sent = [2, 3, 0], cl_calls = Suc 0\<rparr>,
     Suc 0 :=
     \<lparr>cl_addr = (''b'', 2), cl_rx = [], cl_tx = [],
     cl_name = Some [66, 66], cl_room = None,
     cl_connected_at = 0, cl_dead = False,
     cl_sent = [11, 3, 1, 65, 65, 0, 0, 0, 0, 0, 0, 1],
     cl_calls = Suc 0\<rparr>),
     sv_nclient = Suc (Suc 0),
     sv_room =
     \<lambda>_. \<lparr>rm_members = [0], rm_started = False, rm_seed = 0,
     rm_crc = [], rm_crc_ok = 0\<rparr>,
     sv_nroom = 0, sv_net = demo_net, sv_rand = \<lambda>_. 5,
     sv_draws = 0\<rparr>"

definition demo_room :: server where
  "demo_room =
     \<lparr>sv_delay = 3, sv_auto_go = 0, sv_lobby = None,
     sv_by_name = [([65, 65], 0), ([66, 66], Suc 0)],
     sv_clients = [0, Suc 0], sv_sel = [0 \<mapsto> False, Suc 0 \<mapsto> False],
     sv_stats =
     \<lparr>st_tx_backlog_drops = 0, st_hello_timeouts = 0,
     st_connection_limit_rejections = 0\<rparr>,
     sv_last_stats =
     (\<lparr>st_tx_backlog_drops = 0, st_hello_timeouts = 0,
     st_connection_limit_rejections = 0\<rparr>,
     0),
     sv_log =
     [LConnect (''a'', Suc 0), LHello (RName [65, 65]),
     LConnect (''b'', 2), LHello (RName [66, 66]),
     LJoin (RName [66, 66]) [[65, 65], [66, 66]]],
     sv_client =
     (\<lambda>_. \<lparr>cl_addr = ([], 0), cl_rx = [], cl_tx = [], cl_name = None,
     cl_room = None, cl_connected_at = 0, cl_dead = False,
     cl_sent = [], cl_calls = 0\<rparr>)
     (0 := \<lparr>cl_addr = (''a'', Suc 0), cl_rx = [], cl_tx = [],
     cl_name = Some [65, 65], cl_room = Some 0,
     cl_connected_at = 0, cl_dead = False,
     cl_sent =
     [2, 3, 0, 34, 14, 2, 65, 65, 0, 0, 0, 0, 0, 0, 66, 66,
     0, 0, 0, 0, 0, 0, 0, 0, 0, 0, 0, 0, 0, 0, 0, 0, 0, 0,
     0, 0, 0, 0],
     cl_calls = Suc (Suc 0)\<rparr>,
     Suc 0 :=
     \<lparr>cl_addr = (''b'', 2), cl_rx = [], cl_tx = [],
     cl_name = Some [66, 66], cl_room = Some 0,
     cl_connected_at = 0, cl_dead = False,
     cl_sent =
     [11, 3, 1, 65, 65, 0, 0, 0, 0, 0, 0, 1, 34, 14, 2, 65,
     65, 0, 0, 0, 0, 0, 0, 66, 66, 0, 0, 0, 0, 0, 0, 0, 0,
     0, 0, 0, 0, 0, 0, 0, 0, 0, 0, 0, 0, 0, 0],
     cl_calls = Suc (Suc 0)\<rparr>),
     sv_nclient = Suc (Suc 0),
     sv_room =
     (\<lambda>_. \<lparr>rm_members = [0], rm_started = False, rm_seed = 0,
     rm_crc = [], rm_crc_ok = 0\<rparr>)
     (0 := \<lparr>rm_members = [0, Suc 0], rm_started = False, rm_seed = 0,
     rm_crc = [], rm_crc_ok = 0\<rparr>),
     sv_nroom = Suc 0, sv_net = demo_net, sv_rand = \<lambda>_. 5,
     sv_draws = 0\<rparr>"

definition demo_match :: server where
  "demo_match =
     \<lparr>sv_delay = 3, sv_auto_go = 0, sv_lobby = None,
     sv_by_name = [([65, 65], 0), ([66, 66], Suc 0)],
     sv_clients = [0, Suc 0], sv_sel = [0 \<mapsto> False, Suc 0 \<mapsto> False],
     sv_stats =
     \<lparr>st_tx_backlog_drops = 0, st_hello_timeouts = 0,
     st_connection_limit_rejections = 0\<rparr>,
     sv_last_stats =
     (\<lparr>st_tx_backlog_drops = 0, st_hello_timeouts = 0,
     st_connection_limit_rejections = 0\<rparr>,
     0),
     sv_log =
     [LConnect (''a'', Suc 0), LHello (RName [65, 65]),
     LConnect (''b'', 2), LHello (RName [66, 66]),
     LJoin (RName [66, 66]) [[65, 65], [66, 66]],
     LStarted [[65, 65], [66, 66]] (Suc (Suc 0)) 6],
     sv_client =
     (\<lambda>_. \<lparr>cl_addr = ([], 0), cl_rx = [], cl_tx = [], cl_name = None,
     cl_room = None, cl_connected_at = 0, cl_dead = False,
     cl_sent = [], cl_calls = 0\<rparr>)
     (0 := \<lparr>cl_addr = (''a'', Suc 0), cl_rx = [], cl_tx = [],
     cl_name = Some [65, 65], cl_room = Some 0,
     cl_connected_at = 0, cl_dead = False,
     cl_sent =
     [2, 3, 0, 34, 14, 2, 65, 65, 0, 0, 0, 0, 0, 0, 66, 66,
     0, 0, 0, 0, 0, 0, 0, 0, 0, 0, 0, 0, 0, 0, 0, 0, 0, 0,
     0, 0, 0, 0, 38, 5, 0, 2, 6, 0, 3, 65, 65, 0, 0, 0, 0,
     0, 0, 66, 66, 0, 0, 0, 0, 0, 0, 0, 0, 0, 0, 0, 0, 0,
     0, 0, 0, 0, 0, 0, 0, 0, 0],
     cl_calls = Suc (Suc (Suc 0))\<rparr>,
     Suc 0 :=
     \<lparr>cl_addr = (''b'', 2), cl_rx = [], cl_tx = [],
     cl_name = Some [66, 66], cl_room = Some 0,
     cl_connected_at = 0, cl_dead = False,
     cl_sent =
     [11, 3, 1, 65, 65, 0, 0, 0, 0, 0, 0, 1, 34, 14, 2, 65,
     65, 0, 0, 0, 0, 0, 0, 66, 66, 0, 0, 0, 0, 0, 0, 0, 0,
     0, 0, 0, 0, 0, 0, 0, 0, 0, 0, 0, 0, 0, 0, 38, 5, 1, 2,
     6, 0, 3, 65, 65, 0, 0, 0, 0, 0, 0, 66, 66, 0, 0, 0, 0,
     0, 0, 0, 0, 0, 0, 0, 0, 0, 0, 0, 0, 0, 0, 0, 0, 0, 0],
     cl_calls = Suc (Suc (Suc 0))\<rparr>),
     sv_nclient = Suc (Suc 0),
     sv_room =
     (\<lambda>_. \<lparr>rm_members = [0], rm_started = False, rm_seed = 0,
     rm_crc = [], rm_crc_ok = 0\<rparr>)
     (0 := \<lparr>rm_members = [0, Suc 0], rm_started = True, rm_seed = 6,
     rm_crc = [], rm_crc_ok = 0\<rparr>),
     sv_nroom = Suc 0, sv_net = demo_net, sv_rand = \<lambda>_. 5,
     sv_draws = Suc 0\<rparr>"

lemma demo_step1: "run_event (EvAccept (Conn (''a'', 1) True) 0) demo_start = (Inr (), demo1)"
  by (simp add: run demo_start_def demo1_def)

lemma demo_step2: "run_event (EvReady 0 False (Some (RData [4, 1, 2, 65, 65]))) demo1 = (Inr (), demo2)"
  by (simp add: run demo1_def demo2_def)

lemma demo_step3: "run_event (EvAccept (Conn (''b'', 2) True) 0) demo2 = (Inr (), demo3)"
  by (simp add: run demo2_def demo3_def)

lemma demo_step4: "run_event (EvReady 1 False (Some (RData [4, 1, 2, 66, 66]))) demo3 = (Inr (), demo_idle)"
  by (simp add: run demo3_def demo_idle_def)

lemma demo_step5: "run_event (EvReady 1 False (Some (RData [9, 4, 65, 65, 0, 0, 0, 0, 0, 0]))) demo_idle = (Inr (), demo_room)"
  by (simp add: run demo_idle_def demo_room_def)

lemma demo_step6: "run_event (EvReady 0 False (Some (RData [1, 15]))) demo_room = (Inr (), demo_match)"
  by (simp add: run demo_room_def demo_match_def)

lemmas demo_steps = demo_step1 demo_step2 demo_step3 demo_step4 demo_step5 demo_step6

lemma initial_demo: "initial demo_start"
  unfolding initial_def demo_start_def
  by (intro exI conjI, rule refl, simp)

lemma delay_ok_demo: "delay_ok demo_start"
  by (simp add: delay_ok_def demo_start_def new_server_def)

lemma reachable_event:
  "reachable s0 s \<Longrightarrow> possible s ev \<Longrightarrow> run_event ev s = (Inr (), t) \<Longrightarrow> reachable s0 t"
  by (erule reachable.step) (rule relay_step.event)

lemma reachable_demo_idle: "reachable demo_start demo_idle"
proof -
  have "reachable demo_start demo1"
    by (rule reachable_event [OF reachable.start _ demo_step1]) (simp add: possible_def)
  then have "reachable demo_start demo2"
    by (rule reachable_event [OF _ _ demo_step2]) (simp add: possible_def demo1_def)
  then have "reachable demo_start demo3"
    by (rule reachable_event [OF _ _ demo_step3]) (simp add: possible_def)
  then show ?thesis
    by (rule reachable_event [OF _ _ demo_step4]) (simp add: possible_def demo3_def)
qed

lemma reachable_demo_room: "reachable demo_start demo_room"
  by (rule reachable_event [OF reachable_demo_idle _ demo_step5]) (simp add: possible_def demo_idle_def)

lemma reachable_demo_match: "reachable demo_start demo_match"
  by (rule reachable_event [OF reachable_demo_room _ demo_step6]) (simp add: possible_def demo_room_def)

lemmas reachable_demos = reachable_demo_idle reachable_demo_room reachable_demo_match

lemma INV_demos: "INV demo_start" "INV demo_idle" "INV demo_room" "INV demo_match"
  using reachable_INV [OF _ initial_demo delay_ok_demo] reachable_demos INV_initial [OF initial_demo]
  by blast+

section \<open>Sessions with a publisher, runs of the publisher, and a full CRC table\<close>

definition pub_demo :: publisher where
  "pub_demo = pub_init ''tcp'' ''rom'' 22 ''us'' ''Game'' ''Netplay''"

definition lobby_start :: server where
  "lobby_start = new_server 3 (Some pub_demo) 0 demo_net (\<lambda>_. 5)"

definition lobby_event :: "event \<Rightarrow> server \<Rightarrow> server" where
  "lobby_event ev s = snd (run_event ev s)"

definition lobby_one :: server where
  "lobby_one = lobby_event (EvReady 0 False (Some (RData [4, 1, 2, 65, 65])))
     (lobby_event (EvAccept (Conn (''a'', 1) True) 0) lobby_start)"

lemma lobby_demo:
  "initial lobby_start" "reachable lobby_start lobby_one"
  "sv_by_name lobby_one = [([65, 65], 0)]"
  "\<exists>p. sv_lobby lobby_one = Some p \<and> \<not> pb_stopping p"
proof -
  let ?s1 = "lobby_event (EvAccept (Conn (''a'', 1) True) 0) lobby_start"
  show "initial lobby_start"
    unfolding initial_def lobby_start_def
    by (intro exI conjI, rule refl, simp add: pub_demo_def pub_init_def)
  have e1: "run_event (EvAccept (Conn (''a'', 1) True) 0) lobby_start = (Inr (), ?s1)"
    by (simp add: lobby_event_def run lobby_start_def)
  have e2: "run_event (EvReady 0 False (Some (RData [4, 1, 2, 65, 65]))) ?s1 = (Inr (), lobby_one)"
    by (simp add: lobby_one_def lobby_event_def run lobby_start_def)
  have "reachable lobby_start ?s1"
    by (rule reachable_event [OF reachable.start _ e1]) (simp add: possible_def)
  then show "reachable lobby_start lobby_one"
    by (rule reachable_event [OF _ _ e2]) (simp add: possible_def lobby_event_def run lobby_start_def)
  show "sv_by_name lobby_one = [([65, 65], 0)]" "\<exists>p. sv_lobby lobby_one = Some p \<and> \<not> pb_stopping p"
    by (simp_all add: lobby_one_def lobby_event_def run lobby_start_def pub_update_def pub_demo_def pub_init_def)
qed

definition pub_posted :: publisher where
  "pub_posted =
     (post (pb_payload (pub_update 2 pub_demo)) PostOk (worker_check (pub_update 2 pub_demo)))\<lparr>pb_worker := WDebounce\<rparr>"

lemma worker_check_run:
  "pb_worker (worker_check (pub_update 2 pub_demo)) = WPost (pb_payload (pub_update 2 pub_demo))"
  by (simp add: worker_check_def worker_take_def Let_def pub_update_def pub_demo_def pub_init_def)

lemma pub_posted_run: "pub_run strict pub_demo pub_posted"
proof -
  have "pub_run strict pub_demo (pub_update 2 pub_demo)"
    by (rule pub_run.step [OF pub_run.start pub_step.update]) (simp add: pub_demo_def pub_init_def)
  then have "pub_run strict pub_demo (worker_check (pub_update 2 pub_demo))"
    by (rule pub_run.step [OF _ pub_step.worker [OF worker_step.enter]])
      (simp add: pub_update_def pub_demo_def pub_init_def)
  then show ?thesis
    using pub_run.step [OF _ pub_step.worker [OF worker_step.post [OF worker_check_run, of PostOk]]]
    by (simp add: pub_posted_def)
qed

definition pub_stopping :: publisher where
  "pub_stopping = worker_check (pub_shutdown_begin pub_demo)"

definition pub_done :: publisher where
  "pub_done = (post ((pb_payload pub_demo)\<lparr>pl_status := ''offline''\<rparr>) PostOk
     (pub_stopping\<lparr>pb_main := MPost ((pb_payload pub_demo)\<lparr>pl_status := ''offline''\<rparr>)\<rparr>))\<lparr>pb_main := MDone\<rparr>"

lemma pub_done_run: "pub_run True pub_demo pub_done"
proof -
  let ?pl = "(pb_payload pub_demo)\<lparr>pl_status := ''offline''\<rparr>"
  have "pub_run True pub_demo (pub_shutdown_begin pub_demo)"
    by (rule pub_run.step [OF pub_run.start pub_step.shutdown]) (simp add: pub_demo_def pub_init_def)
  then have "pub_run True pub_demo pub_stopping"
    unfolding pub_stopping_def
    by (rule pub_run.step [OF _ pub_step.worker [OF worker_step.enter]])
      (simp add: pub_shutdown_begin_def Let_def pub_demo_def pub_init_def)
  then have "pub_run True pub_demo (pub_stopping\<lparr>pb_main := MPost ?pl\<rparr>)"
    by (rule pub_run.step [OF _ pub_step.joined])
      (simp_all add: pub_stopping_def worker_check_def worker_take_def Let_def pub_shutdown_begin_def pub_demo_def pub_init_def)
  then show ?thesis
    unfolding pub_done_def by (rule pub_run.step [OF _ pub_step.last_post]) simp
qed

definition pub_late :: publisher where
  "pub_late =
     (let pl = pb_payload (pub_update 2 pub_demo);
          p1 = pub_shutdown_begin (worker_check (pub_update 2 pub_demo));
          p2 = p1\<lparr>pb_main := MPost (pl\<lparr>pl_status := ''offline''\<rparr>)\<rparr>;
          p3 = (post (pl\<lparr>pl_status := ''offline''\<rparr>) PostOk p2)\<lparr>pb_main := MDone\<rparr>
      in (post pl PostOk p3)\<lparr>pb_worker := WDebounce\<rparr>)"

definition full_table :: "(nat, crc_entry) pydict" where
  "full_table = map (\<lambda>k. (k, [(0, 7)])) [65000..<65064]"

lemma dkeys_set: "set (dkeys d) = fst ` set d"
  by (simp add: dkeys_def)

lemma full_table_keys: "dkeys full_table = [65000..<65064]"
  by (simp only: full_table_def dkeys_def list.map_comp) (simp only: comp_def fst_conv map_ident)

end
