(* ===== verification/Behaviour.thy ===== *)
theory Behaviour
  imports Runs
begin

text \<open>
  What the operations do to the clients' streams, rooms and names, on the paths where the sockets
  work: the lemmas behind the functional properties. A failing socket shows as a client that is
  dead afterwards, so the statements are about the clients that are still alive.
\<close>

lemmas act_run = bnd_run ret_def gets_def modify_def lift_def throw_def guarded_def

section \<open>Sending\<close>

text \<open>Nothing but the receiver's connection changes.\<close>

definition only_client :: "cid \<Rightarrow> server \<Rightarrow> server \<Rightarrow> bool" where
  "only_client c s t \<longleftrightarrow>
     (\<forall>d. d \<noteq> c \<longrightarrow> sv_client t d = sv_client s d) \<and>
     (\<forall>d. is_dead t d = is_dead s d) \<and> (\<forall>d. name_of t d = name_of s d) \<and>
     (\<forall>d. room_of t d = room_of s d) \<and>
     sv_room t = sv_room s \<and> sv_nroom t = sv_nroom s \<and> sv_nclient t = sv_nclient s \<and>
     sv_by_name t = sv_by_name s \<and> sv_log t = sv_log s \<and> sv_lobby t = sv_lobby s \<and>
     sv_delay t = sv_delay s \<and> sv_auto_go t = sv_auto_go s"

lemma only_client_stream: "only_client c s t \<Longrightarrow> d \<noteq> c \<Longrightarrow> stream t d = stream s d"
  by (simp add: only_client_def stream_def)

lemma only_client_members: "only_client c s t \<Longrightarrow> members t r = members s r"
  by (simp add: only_client_def members_def)

lemma flush_effect:
  assumes "flush drop_client c s = (r, t)" "\<not> is_dead t c"
  shows "only_client c s t \<and> stream t c = stream s c \<and> r = Inr ()"
proof -
  obtain fin k tx took where l:
    "flush_loop (sv_net s c) (cl_calls (sv_client s c)) (cl_tx (sv_client s c)) [] = (fin, k, tx, took)"
    by (metis prod_cases4)
  let ?u = "upd_client c (\<lambda>cl. cl\<lparr>cl_calls := k, cl_tx := tx, cl_sent := cl_sent cl @ took\<rparr>) s"
  show ?thesis
  proof (cases fin)
    case FlushDone
    with l assms(1) have "t = update_events c ?u" "r = Inr ()" by (simp_all add: flush_def modify_def)
    then show ?thesis
      using flush_loop_keeps [OF l]
      by (simp add: only_client_def update_events_def access_defs stream_def split: option.split)
  next
    case (FlushFail w)
    with l assms(1) have "drop_client c w ?u = (r, t)" by (simp add: flush_def)
    then have "is_dead t c" using drop_dead [of c w ?u] by simp
    with assms(2) show ?thesis by simp
  qed
qed

lemma send_effect:
  assumes "transmit c d s = (r, t)" "\<not> is_dead t c"
  shows "only_client c s t \<and> stream t c = stream s c @ d \<and> r = Inr ()"
proof -
  have live: "\<not> is_dead s c"
    using assms calm_dead keepsD [OF drops.send_calm, of s c d] by force
  show ?thesis
  proof (cases "MAX_TX_BACKLOG < length (cl_tx (sv_client s c)) + length d")
    case True
    with live assms(1) have "drop_client c WhyBacklog (count_backlog_drop s) = (r, t)"
      by (simp add: send_def)
    then have "is_dead t c" using drop_dead [of c WhyBacklog "count_backlog_drop s"] by simp
    with assms(2) show ?thesis by simp
  next
    case False
    with live assms(1) have "flush drop_client c (queue c d s) = (r, t)" by (simp add: send_def)
    note fl = flush_effect [OF this assms(2)]
    have "only_client c s (queue c d s)" "stream (queue c d s) c = stream s c @ d"
      by (simp_all add: only_client_def queue_def access_defs stream_def)
    with fl show ?thesis by (simp add: only_client_def)
  qed
qed

lemma send_frame_effect:
  assumes "bnd (lift (frame t p)) (transmit c) s = (r, u)" "\<not> is_dead u c" "length p \<le> 254"
  shows "only_client c s u \<and> stream u c = stream s c @ wire_of (t # p) \<and> r = Inr ()"
proof -
  have "transmit c (wire_of (t # p)) s = (r, u)"
    using assms(1) by (simp add: frame_wire_of [OF assms(3)])
  then show ?thesis using assms(2) by (rule send_effect)
qed

section \<open>Two seats\<close>

text \<open>A room somebody is in has exactly its two members.\<close>

lemma room_pair:
  assumes "INV s" "c < sv_nclient s" "room_of s c = Some r"
  obtains a b where "members s r = [a, b]" "a \<noteq> b" "c = a \<or> c = b"
    "room_of s a = Some r" "room_of s b = Some r" "a < sv_nclient s" "b < sv_nclient s"
proof -
  have c: "c \<in> set (members s r)" and fine: "room_fine s r" and two: "2 \<le> length (members s r)"
    using rooms_okD [OF INV_D(4) [OF assms(1)] assms(2,3)] by simp_all
  have "length (members s r) \<le> 2" using room_fineD(3) [OF fine] by (simp add: MAX_SEATS_def)
  with two have "length (members s r) = Suc (Suc 0)" by simp
  then obtain a b where ab: "members s r = [a, b]" by (auto simp: length_Suc_conv)
  show ?thesis
  proof (rule that [OF ab])
    show "a \<noteq> b" using room_fineD(2) [OF fine] ab by simp
    show "c = a \<or> c = b" using c ab by auto
    show "room_of s a = Some r" "room_of s b = Some r" "a < sv_nclient s" "b < sv_nclient s"
      using room_fineD(4) [OF fine] ab by simp_all
  qed
qed

text \<open>A loop over such a room.\<close>

lemma for_members_pair:
  assumes "members s r = [a, b]" "f 0 a s = (Inr (), t)" "members t r = [a, b]"
  shows "for_members r f s = f 1 b t"
  using assms
  by (auto simp: for_members_def bnd_run gets_def ret_def split: prod.splits sum.splits)

section \<open>Relaying\<close>

text \<open>What a CRC report leaves alone.\<close>

lemma log_crc_access:
  "is_dead (log_crc r p s) d = is_dead s d" "stream (log_crc r p s) d = stream s d"
  "room_of (log_crc r p s) d = room_of s d" "name_of (log_crc r p s) d = name_of s d"
  by (simp_all add: access_defs stream_def)

lemma crc_round_members: "rm_members (fst (crc_round n p rm)) = rm_members rm"
  by (simp add: crc_round_def Let_def split: prod.split)

lemma log_crc_members: "members (log_crc r p s) q = members s q"
  by (simp add: members_def crc_round_members)

definition crc_step :: "byte \<Rightarrow> rid \<Rightarrow> bytes \<Rightarrow> server \<Rightarrow> server" where
  "crc_step ftype r payload s =
     (if ftype = T_CRC \<and> length payload = 5 then log_crc r payload s else s)"

lemma crc_step_access:
  "is_dead (crc_step f r p s) d = is_dead s d" "stream (crc_step f r p s) d = stream s d"
  "members (crc_step f r p s) q = members s q"
  by (simp_all add: crc_step_def log_crc_access log_crc_members)

lemma relay_unfold:
  assumes "room_of s c = Some r" "rm_started (sv_room s r)" "length payload \<le> 254"
  shows "relay c ftype payload s =
    for_members r (\<lambda>_ m. guarded (m \<noteq> c) (transmit m (wire_of (ftype # payload)))) (crc_step ftype r payload s)"
  using assms
  by (simp add: relay_def crc_step_def frame_wire_of bnd_run [of "guarded _ _"] guarded_def modify_def ret_def)

lemma keeps_alive:
  assumes "keeps calm m" "m s = (r, t)" "\<not> is_dead t c"
  shows "\<not> is_dead s c"
  using assms calm_dead keepsD [OF assms(1), of s] by fastforce

lemma relay_effect:
  assumes inv: "INV s" and c: "c < sv_nclient s" "room_of s c = Some r" and st: "rm_started (sv_room s r)"
    and len: "length payload \<le> 199" and run: "relay c ftype payload s = (res, t)"
    and m: "m \<in> set (members s r)" "m \<noteq> c" "\<not> is_dead t m"
  shows "stream t m = stream s m @ wire_of (ftype # payload) \<and> (\<forall>d. d \<noteq> m \<longrightarrow> stream t d = stream s d)"
proof -
  obtain a b where ab: "members s r = [a, b]" "a \<noteq> b" "c = a \<or> c = b"
    using room_pair [OF inv c] by metis
  let ?d = "wire_of (ftype # payload)"
  let ?f = "\<lambda>(_ :: nat) m. guarded (m \<noteq> c) (transmit m ?d)"
  let ?s = "crc_step ftype r payload s"
  have go: "for_members r ?f ?s = (res, t)"
    using run relay_unfold [OF c(2) st] len by simp
  have mem: "members ?s r = [a, b]" using ab by (simp add: crc_step_access)
  have "\<exists>q. transmit m ?d ?s = (q, t)"
  proof (cases "c = a")
    case True
    then have "m = b" using m ab by auto
    have "?f 0 a ?s = (Inr (), ?s)" using True by (simp add: ret_def)
    then have "?f 1 b ?s = (res, t)"
      using for_members_pair [of ?s r a b ?f ?s] mem go by simp
    with True ab(2) \<open>m = b\<close> show ?thesis by simp
  next
    case False
    then have cb: "c = b" "m = a" using m ab by auto
    obtain q u where u: "transmit a ?d ?s = (q, u)" by fastforce
    have loop: "for_members r ?f ?s = (case q of Inl e \<Rightarrow> (Inl e, u) | Inr x \<Rightarrow> walk 1 r 1 ?f u)"
      using u mem False by (simp add: for_members_def bnd_run [of "transmit _ _"] split: sum.split)
    have "keeps calm (walk 1 r 1 ?f)"
      by (intro drops.walk_calm calm.kp_guarded drops.send_calm)
    then have "keeps calm (case q of Inl e \<Rightarrow> throw e | Inr x \<Rightarrow> walk 1 r 1 ?f)"
      by (cases q) (simp_all add: calm.kp_throw del: walk.simps)
    moreover have "(case q of Inl e \<Rightarrow> throw e | Inr x \<Rightarrow> walk 1 r 1 ?f) u = (res, t)"
      using loop go by (cases q) (simp_all add: throw_def)
    ultimately have "\<not> is_dead u a" using keeps_alive m(3) cb by blast
    note eff = send_effect [OF u this]
    have "members u r = [a, b]" using eff mem only_client_members [of a ?s u r] by simp
    then have "walk 1 r 1 ?f u = (Inr (), u)" using cb by (simp add: act_run)
    with loop go eff u cb show ?thesis by simp
  qed
  then obtain q where "transmit m ?d ?s = (q, t)" by blast
  note eff = send_effect [OF this m(3)]
  then show ?thesis using only_client_stream [of m ?s t] by (simp add: crc_step_access)
qed

section \<open>Leaving\<close>

text \<open>What the one who stays gets: PEER_LEFT with the leaver's seat and name, or an empty ROOM.\<close>

definition farewell :: "server \<Rightarrow> cid \<Rightarrow> rid \<Rightarrow> exn + bytes" where
  "farewell s c r =
     (if rm_started (sv_room s r)
      then (case list_index (members s r) c of Inl e \<Rightarrow> Inl e | Inr st \<Rightarrow> peer_left s c st)
      else frame T_ROOM (0 # replicate 32 0))"

lemma peer_left_cong: "name_of t c = name_of s c \<Longrightarrow> peer_left t c st = peer_left s c st"
  by (simp only: peer_left_def)

lemma dissolve_nobody: "dissolve drp r [] s = (Inr (), clear_members r (detach_members r s))"
  by (simp add: dissolve_def bnd_run modify_def ret_def)

lemma dissolve_one:
  assumes "dissolve drop_client r [m] s = (res, t)" "\<not> is_dead t m"
  shows "stream t m = stream s m @ wire_of (T_ROOM # 0 # replicate 32 0) \<and> res = Inr ()"
proof -
  let ?d = "detach_members r s"
  let ?w = "wire_of (T_ROOM # 0 # replicate 32 0)"
  obtain q u where u: "transmit m ?w ?d = (q, u)" by fastforce
  have run: "(res, t) = (case q of Inl e \<Rightarrow> (Inl e, u) | Inr x \<Rightarrow> (Inr (), clear_members r u))"
    using assms(1) u by (cases q) (auto simp: dissolve_def frame_wire_of act_run)
  then have "is_dead t m = is_dead u m" by (auto split: sum.splits)
  then have "\<not> is_dead u m" using assms(2) by simp
  from send_effect [OF u this] have "stream u m = stream ?d m @ ?w" "q = Inr ()" by simp_all
  with run show ?thesis by simp
qed

lemma farewell_framed:
  assumes "INV s" "c < sv_nclient s" "room_of s c = Some r"
  shows "\<exists>d. farewell s c r = Inr d \<and> framed d"
proof -
  have c: "c \<in> set (members s r)" and fine: "room_fine s r"
    using rooms_okD [OF INV_D(4) [OF assms(1)] assms(2,3)] by simp_all
  obtain st where st: "list_index (members s r) c = Inr st" "st < length (members s r)"
    using list_index_in [OF c] by blast
  then have small: "st < 256" using room_fineD(3) [OF fine] by (simp add: const_defs)
  obtain nm where nm: "name_of s c = Some nm" using room_fineD(4) [OF fine c] by blast
  have "valid_name nm" using names_ok_valid [OF INV_D(1) [OF assms(1)] assms(2) nm] .
  from peer_left_ok [OF this nm small] st framed_frame [of T_ROOM "0 # replicate 32 0"]
  show ?thesis by (auto simp: farewell_def frame_wire_of)
qed

lemma end_match_effect:
  assumes run: "end_match drop_client c r st s = (res, t)"
    and mem: "members s r = [m]" and pl: "peer_left s c st = Inr d" and live: "\<not> is_dead t m"
  shows "stream t m = stream s m @ d \<and> res = Inr ()"
proof -
  let ?s1 = "add_log (LMatchEnded (rm_crc_ok (sv_room s r)) (client_repr s c) st) s"
  let ?s2 = "clear_members r (detach_members r ?s1)"
  have mem1: "members ?s1 r = [m]" using mem by (simp add: members_def)
  have "peer_left ?s1 c st = peer_left s c st" by (rule peer_left_cong) (simp add: name_of_def)
  with pl have pl1: "peer_left ?s1 c st = Inr d" by simp
  obtain q u where u: "transmit m d ?s2 = (q, u)" by fastforce
  have go: "(res, t) = (case q of Inl e \<Rightarrow> (Inl e, u) | Inr x \<Rightarrow> (Inr (), add_log (LBackToLobby (client_repr u m)) u))"
    using run mem1 pl1 u
    by (cases q) (auto simp: end_match_def dissolve_nobody act_run)
  then have "is_dead t m = is_dead u m" by (auto simp: is_dead_def split: sum.splits)
  with live have "\<not> is_dead u m" by simp
  note eff = send_effect [OF u this]
  have "stream ?s2 m = stream s m" by (simp add: stream_def [of "add_log _ _"]) (simp add: stream_def)
  with eff go show ?thesis by (simp add: stream_def)
qed

lemma leave_forming_effect:
  assumes run: "leave_forming drop_client r st s = (res, t)"
    and mem: "members s r = [m]" and live: "\<not> is_dead t m"
  shows "stream t m = stream s m @ wire_of (T_ROOM # 0 # replicate 32 0) \<and> res = Inr ()"
proof (cases "st = 0")
  case True
  let ?s = "add_log (LDissolvedHostLeft (room_repr s r)) s"
  have mem1: "members ?s r = [m]" using mem by (simp add: members_def)
  then have "dissolve drop_client r [m] ?s = (res, t)"
    using run True by (simp add: leave_forming_def act_run)
  from dissolve_one [OF this live] show ?thesis by (simp add: stream_def)
next
  case False
  then have "dissolve drop_client r [m] s = (res, t)"
    using run mem by (simp add: leave_forming_def act_run)
  then show ?thesis using live by (rule dissolve_one)
qed

text \<open>The whole departure, for the two seats of this game.\<close>

lemma leave_room_effect:
  assumes inv: "INV s" and c: "c < sv_nclient s" "room_of s c = Some r"
    and m: "m \<in> set (members s r)" "m \<noteq> c"
    and run: "leave_room drop_client c r s = (res, t)" and live: "\<not> is_dead t m"
  shows "\<exists>d. farewell s c r = Inr d \<and> stream t m = stream s m @ d"
proof -
  obtain a b where ab: "members s r = [a, b]" "a \<noteq> b" "c = a \<or> c = b"
    using room_pair [OF inv c] by metis
  have cm: "c \<in> set (members s r)" using ab by auto
  obtain st where st: "list_index (members s r) c = Inr st" using list_index_in [OF cm] by blast
  let ?d = "depart c r s"
  have mem: "members ?d r = [m]" using ab m by auto
  have started: "rm_started (sv_room ?d r) = rm_started (sv_room s r)" by (simp add: depart_def upd_room_def)
  let ?m = "if rm_started (sv_room s r) then end_match drop_client c r st else leave_forming drop_client r st"
  obtain q u where u: "?m ?d = (q, u)" by fastforce
  have go: "(res, t) = (case q of Inl e \<Rightarrow> (Inl e, u) | Inr x \<Rightarrow> (Inr (), lobby_update u))"
    using run st u started
    by (cases q) (auto simp: leave_room_def depart_run [OF cm] bnd_run [of "if _ then _ else _"] modify_def)
  then have "is_dead t m = is_dead u m" by (auto split: sum.splits)
  with live have alive: "\<not> is_dead u m" by simp
  obtain d where d: "farewell s c r = Inr d" using farewell_framed [OF inv c] by blast
  have "stream u m = stream ?d m @ d \<and> q = Inr ()"
  proof (cases "rm_started (sv_room s r)")
    case True
    with d st have "peer_left ?d c st = Inr d"
      using peer_left_cong [of ?d c s st] by (simp add: farewell_def)
    with u True show ?thesis by (intro end_match_effect [OF _ mem _ alive]) simp_all
  next
    case False
    with d have "d = wire_of (T_ROOM # 0 # replicate 32 0)" by (simp add: farewell_def frame_wire_of)
    with leave_forming_effect [of r st ?d q u m] u False mem alive show ?thesis by simp
  qed
  with go d show ?thesis by simp
qed

lemma drop_unfold_live:
  assumes "\<not> is_dead s c"
  shows "drop_client c w s =
    (case room_of s c of
       None \<Rightarrow> (Inr (), forget_names c (mark_dead c w s))
     | Some r \<Rightarrow> leave_room drop_client c r (forget_names c (mark_dead c w s)))"
  using assms by (subst drop_unfold) (simp add: drop_body_def act_run split: option.split)

lemma drop_effect:
  assumes inv: "INV s" and c: "\<not> is_dead s c" "room_of s c = Some r"
    and m: "m \<in> set (members s r)" "m \<noteq> c"
    and run: "drop_client c w s = (res, t)" and live: "\<not> is_dead t m"
  shows "\<exists>d. farewell s c r = Inr d \<and> stream t m = stream s m @ d"
proof -
  let ?s = "forget_names c (mark_dead c w s)"
  have "INV ?s" using INV_forget_names [OF INV_mark_dead mark_dead_dead] INV_weaken [OF inv] c by blast
  moreover have "c < sv_nclient s" using c(1) by (simp add: is_dead_def)
  moreover have "leave_room drop_client c r ?s = (res, t)" using run c drop_unfold_live by simp
  ultimately have "\<exists>d. farewell ?s c r = Inr d \<and> stream t m = stream ?s m @ d"
    using c(2) m live by (intro leave_room_effect) simp_all
  moreover have "farewell ?s c r = farewell s c r"
    using peer_left_cong [of ?s c s] by (simp add: farewell_def split: sum.split)
  ultimately show ?thesis by simp
qed

text \<open>The room is gone for everybody.\<close>

lemma calm_members: "calm s t \<Longrightarrow> length (members t r) \<le> length (members s r)"
  by (simp add: calm_def)

lemma leave_room_empty:
  assumes inv: "INV s" and c: "c < sv_nclient s" "room_of s c = Some r"
    and m: "m \<in> set (members s r)" and run: "leave_room drop_client c r s = (res, t)"
  shows "room_of t m = None"
proof -
  obtain a b where ab: "members s r = [a, b]" "a \<noteq> b" "c = a \<or> c = b"
    using room_pair [OF inv c] by metis
  have cm: "c \<in> set (members s r)" using ab by auto
  have "triple (\<lambda>s. INV s \<and> c < sv_nclient s \<and> room_of s c = Some r) (leave_room drop_client c r)
      (\<lambda>_. INV) (\<lambda>_ _. False)"
    by (rule settles_all_levels, rule triple_weaken [OF safe_drops.leave_room_settles]) auto
  from triple_InrD [OF this] triple_InlD [OF this] inv c run have "INV t" by (cases res) blast+
  have "calm s t" using keepsD [OF drops.leave_room_calm, of s c r] run by simp
  show ?thesis
  proof (rule ccontr)
    assume "room_of t m \<noteq> None"
    moreover have "m < sv_nclient t \<and> room_of s m = Some r"
      using room_fineD(4) [of s r m] rooms_okD [OF INV_D(4) [OF inv] c] m \<open>calm s t\<close>
      by (simp add: calm_def)
    moreover from calculation have "room_of t m = Some r"
      using \<open>calm s t\<close> unfolding calm_def room_of_def by metis
    ultimately have "2 \<le> length (members t r)"
      using rooms_okD [OF INV_D(4) [OF \<open>INV t\<close>]] by blast
    moreover have "length (members t r) < 2"
    proof -
      obtain st where st: "list_index (members s r) c = Inr st" using list_index_in [OF cm] by blast
      have "keeps calm (\<lambda>s. bnd (gets (\<lambda>s. rm_started (sv_room s r))) (\<lambda>started.
          bnd (if started then end_match drop_client c r st else leave_forming drop_client r st)
          (\<lambda>_. modify lobby_update)) s)"
        by (intro calm.kp_bnd calm.kp_gets calm.kp_if drops.end_match_calm drops.leave_forming_calm drops.lobby_calm)
      from keepsD [OF this, of "depart c r s"] run st have "calm (depart c r s) t"
        by (simp add: leave_room_def depart_run [OF cm])
      then have "length (members t r) \<le> length (members (depart c r s) r)" by (rule calm_members)
      also have "\<dots> = 1" using ab by (auto simp: length_remove1)
      finally show ?thesis by simp
    qed
    ultimately show False by simp
  qed
qed

lemma drop_empty:
  assumes inv: "INV s" and c: "\<not> is_dead s c" "room_of s c = Some r"
    and m: "m \<in> set (members s r)" and run: "drop_client c w s = (res, t)"
  shows "room_of t m = None"
proof -
  let ?s = "forget_names c (mark_dead c w s)"
  have "INV ?s" using INV_forget_names [OF INV_mark_dead mark_dead_dead] INV_weaken [OF inv] c by blast
  moreover have "c < sv_nclient s" using c(1) by (simp add: is_dead_def)
  moreover have "leave_room drop_client c r ?s = (res, t)" using run c drop_unfold_live by simp
  ultimately show ?thesis using c(2) m by (intro leave_room_empty [of ?s c r m res]) simp_all
qed

section \<open>Joining\<close>

lemma pair_sends:
  assumes run: "for_members r (\<lambda>i m. transmit m (d i)) s = (res, t)"
    and mem: "members s r = [a, b]" "a \<noteq> b" and live: "\<not> is_dead t a" "\<not> is_dead t b"
  shows "res = Inr () \<and> stream t a = stream s a @ d 0 \<and> stream t b = stream s b @ d 1 \<and>
    sv_room t = sv_room s \<and> (\<forall>m. room_of t m = room_of s m) \<and> (\<forall>m. name_of t m = name_of s m) \<and>
    sv_by_name t = sv_by_name s"
proof -
  let ?f = "\<lambda>i m. transmit m (d i)"
  obtain q u where u: "?f 0 a s = (q, u)" by fastforce
  have loop: "for_members r ?f s = (case q of Inl e \<Rightarrow> (Inl e, u) | Inr x \<Rightarrow> walk 1 r 1 ?f u)"
    using u mem by (cases q) (simp_all add: for_members_def act_run)
  have "keeps calm (walk 1 r 1 ?f)" by (intro drops.walk_calm drops.send_calm)
  then have "keeps calm (case q of Inl e \<Rightarrow> throw e | Inr x \<Rightarrow> walk 1 r 1 ?f)"
    by (cases q) (simp_all add: calm.kp_throw del: walk.simps)
  moreover have "(case q of Inl e \<Rightarrow> throw e | Inr x \<Rightarrow> walk 1 r 1 ?f) u = (res, t)"
    using loop run by (cases q) (simp_all add: throw_def)
  ultimately have "\<not> is_dead u a" using keeps_alive live(1) by blast
  note first = send_effect [OF u this]
  have "members u r = [a, b]" using first mem only_client_members [of a s u r] by simp
  then have "for_members r ?f s = ?f 1 b u"
    using for_members_pair [of s r a b ?f u] first u mem(1) by simp
  with run have "transmit b (d 1) u = (res, t)" by simp
  note second = send_effect [OF this live(2)]
  have "stream t a = stream u a" using second mem(2) only_client_stream by blast
  moreover have "stream u b = stream s b" using first mem(2) only_client_stream by metis
  ultimately show ?thesis using first second by (simp add: only_client_def)
qed

lemma for_members_cong_frames:
  assumes "\<And>i. i < length (members s r) \<Longrightarrow> g i = Inr (d i)"
  shows "for_members r (\<lambda>i m. bnd (lift (g i)) (transmit m)) s = for_members r (\<lambda>i m. transmit m (d i)) s"
proof -
  have "walk n r j (\<lambda>i m. bnd (lift (g i)) (transmit m)) u = walk n r j (\<lambda>i m. transmit m (d i)) u"
    if "j + n \<le> length (members s r)" for n j u
    using that
  proof (induction n arbitrary: j u)
    case (Suc n)
    then have "g j = Inr (d j)" using assms by simp
    with Suc show ?case by (auto simp: act_run split: prod.split sum.split)
  qed simp
  then show ?thesis by (simp add: for_members_def)
qed

lemma room_broadcast_effect:
  assumes run: "room_broadcast drop_client r s = (res, t)" and p: "room_payload s r = Inr p" "length p \<le> 199"
    and mem: "members s r = [a, b]" "a \<noteq> b" and live: "\<not> is_dead t a" "\<not> is_dead t b"
  shows "res = Inr () \<and> stream t a = stream s a @ wire_of (T_ROOM # p) \<and>
    stream t b = stream s b @ wire_of (T_ROOM # p) \<and> sv_room t = sv_room s \<and>
    (\<forall>m. room_of t m = room_of s m) \<and> sv_by_name t = sv_by_name s"
proof -
  have "for_members r (\<lambda>i m. transmit m ((\<lambda>_. wire_of (T_ROOM # p)) i)) s = (res, t)"
    using run p for_members_cong_frames [of s r "\<lambda>_. frame T_ROOM p" "\<lambda>_. wire_of (T_ROOM # p)"]
    by (simp add: room_broadcast_def frame_wire_of)
  from pair_sends [OF this mem live] show ?thesis by simp
qed

lemma lobby_update_room [simp]: "room_of (lobby_update s) m = room_of s m"
  by (simp add: access_defs)

lemma start_room_effect:
  assumes inv: "INV s" and ann: "announceable r s" and d: "delay_ok s"
    and mem: "members s r = [a, b]" "a \<noteq> b"
    and run: "start_room r s = (res, t)" and live: "\<not> is_dead t a" "\<not> is_dead t b"
  shows "\<exists>common. start_common (begin_match r s) r = Inr common \<and>
    stream t a = stream s a @ wire_of (T_START # 0 # common) \<and>
    stream t b = stream s b @ wire_of (T_START # 1 # common) \<and>
    sv_room t r = sv_room (begin_match r s) r"
proof -
  let ?s = "begin_match r s"
  have "INV ?s" "announceable r ?s" "delay_ok ?s"
    using INV_begin_match [OF inv] ann d by (simp_all add: announceable_def delay_ok_def)
  from start_common_ok [OF this] seed_range
  obtain common where c: "start_common ?s r = Inr common" "length common = 36" by blast
  let ?g = "\<lambda>st m. bnd (lift (start_frame common st)) (transmit m)"
  obtain q u where u: "for_members r ?g ?s = (q, u)" by fastforce
  have go: "(res, t) = (case q of Inl e \<Rightarrow> (Inl e, u)
      | Inr x \<Rightarrow> (Inr (), lobby_update (add_log (LStarted (room_repr u r) (length (members u r))
          (rm_seed (sv_room u r))) u)))"
    using run c u
    by (cases q) (auto simp: start_room_def act_run simp del: begin_match_simps begin_match_access)
  then have alive: "\<not> is_dead u a" "\<not> is_dead u b"
    using live by (auto simp: is_dead_def split: sum.splits)
  have fr: "start_frame common i = Inr (wire_of (T_START # of_nat i # common))" if "i < length (members ?s r)" for i
    using that mem c(2) by (simp add: start_frame_def frame_wire_of)
  have "for_members r (\<lambda>i m. transmit m (wire_of (T_START # of_nat i # common))) ?s = (q, u)"
    using u for_members_cong_frames [of ?s r "start_frame common" "\<lambda>i. wire_of (T_START # of_nat i # common)"] fr
    by simp
  from pair_sends [OF this _ mem(2) alive] mem(1)
  have "q = Inr ()" "stream u a = stream s a @ wire_of (T_START # 0 # common)"
    "stream u b = stream s b @ wire_of (T_START # 1 # common)" "sv_room u = sv_room ?s"
    by simp_all
  with go c(1) show ?thesis by (simp add: stream_def)
qed

text \<open>A join that succeeds: with two seats the target is always alone, so a new room is made.\<close>

lemma may_join_solo:
  assumes "INV s" "may_join c t s"
  shows "room_of s t = None"
proof (rule ccontr)
  assume "room_of s t \<noteq> None"
  then obtain r where r: "room_of s t = Some r" by blast
  have "t < sv_nclient s" using assms(2) by (simp add: may_join_def)
  from rooms_okD [OF INV_D(4) [OF assms(1)] this r] assms(2) r
  show False by (simp add: may_join_def unjoinable_def MAX_SEATS_def)
qed

lemma join_room_effect:
  assumes inv: "INV s" and j: "may_join c t s" and auto: "sv_auto_go s = 0"
    and run: "join_room c t s = (res, u)" and live: "\<not> is_dead u t" "\<not> is_dead u c"
  shows "\<exists>p. room_payload (enter_room c (sv_nroom s) (make_room t s)) (sv_nroom s) = Inr p \<and>
    stream u t = stream s t @ wire_of (T_ROOM # p) \<and> stream u c = stream s c @ wire_of (T_ROOM # p) \<and>
    members u (sv_nroom s) = [t, c] \<and> \<not> rm_started (sv_room u (sv_nroom s)) \<and>
    room_of u t = Some (sv_nroom s) \<and> room_of u c = Some (sv_nroom s)"
proof -
  let ?r = "sv_nroom s"
  let ?s = "enter_room c ?r (make_room t s)"
  have solo: "room_of s t = None" using may_join_solo [OF inv j] .
  have tc: "t \<noteq> c" "t < sv_nclient s" "name_of s t \<noteq> None" "name_of s c \<noteq> None" "room_of s c = None" "c < sv_nclient s"
    using j by (simp_all add: may_join_def unjoinable_def)
  have "INV_room ?r (make_room t s)" using INV_make_room [OF inv tc(2,3) solo] .
  then have "INV ?s \<and> announceable ?r ?s"
    using tc by (intro INV_enter_room) (simp_all add: MAX_SEATS_def)
  then obtain p where p: "room_payload ?s ?r = Inr p" "length p = 33" using room_payload_ok by blast
  have mem: "members ?s ?r = [t, c]" by simp
  obtain q v where v: "room_broadcast drop_client ?r ?s = (q, v)" by fastforce
  have go: "(res, u) = (case q of Inl e \<Rightarrow> (Inl e, v) | Inr x \<Rightarrow> auto_start ?r (lobby_update v))"
    using run v solo
    by (cases q) (auto simp: join_room_def join_target_def act_run split: sum.splits prod.splits)
  have "keeps calm (room_broadcast drop_client ?r)" by (rule drops.room_broadcast_calm)
  then have "sv_auto_go v = sv_auto_go ?s" using v keepsD [of calm _ ?s] by (force simp: calm_def)
  moreover have "sv_auto_go ?s = 0"
    using auto by (simp add: enter_room_def make_room_def Let_def)
  ultimately have "auto_start ?r (lobby_update v) = (Inr (), lobby_update v)"
    by (simp add: auto_start_def ret_def)
  with go have go2: "(res, u) = (case q of Inl e \<Rightarrow> (Inl e, v) | Inr x \<Rightarrow> (Inr (), lobby_update v))"
    by (cases q) simp_all
  then have alive: "\<not> is_dead v t" "\<not> is_dead v c" using live by (auto split: sum.splits)
  from room_broadcast_effect [OF v p(1) _ mem tc(1) alive] p(2)
  have eff: "q = Inr ()" "stream v t = stream s t @ wire_of (T_ROOM # p)"
    "stream v c = stream s c @ wire_of (T_ROOM # p)" "sv_room v = sv_room ?s" "\<forall>m. room_of v m = room_of ?s m"
    by simp_all
  have "\<not> rm_started (sv_room ?s ?r)" by (simp add: enter_room_def make_room_def Let_def new_room_def)
  moreover have "members v ?r = [t, c]" using eff(4) mem by (simp add: members_def)
  ultimately show ?thesis using p(1) eff go2 by simp
qed

section \<open>HELLO\<close>

lemma on_hello_effect:
  assumes inv: "INV s" and c: "\<not> is_dead s c" and n: "hello_name payload = Inr n"
    and run: "on_hello c payload s = (res, t)" and live: "\<not> is_dead t c"
  shows "res = Inr () \<and> dget (sv_by_name t) n = Some c \<and> name_of t c = Some n \<and>
    (\<forall>d. d \<noteq> c \<and> name_of s d = Some n \<longrightarrow> is_dead t d)"
proof -
  let ?m = "case dget (sv_by_name s) n of None \<Rightarrow> ret ()
    | Some d \<Rightarrow> if d \<noteq> c then drop_client d WhyReplaced else ret ()"
  have "safe INV ?m"
    using drop_safe [OF calm_stable_True] by (auto intro: safe_ret split: option.split)
  then obtain u where u: "?m s = (Inr (), u)" "INV u" using inv by (auto elim!: safeE [of _ _ s])
  have "keeps calm ?m" by (auto intro: calm.kp_ret drops.drp_calm split: option.split)
  then have su: "calm s u" using keepsD [of calm ?m s] u by simp
  have gone: "is_dead u d" if "dget (sv_by_name s) n = Some d" "d \<noteq> c" for d
    using that u drop_dead [of d WhyReplaced s] by simp
  then have free: "name_free c n u" using inv su by (intro name_free_dropped) auto
  let ?v = "lobby_update (renamed c n u)"
  have "c < sv_nclient u" using c su by (simp add: calm_def is_dead_def)
  then have "INV ?v" using INV_renamed [OF u(2) _ hello_name_valid [OF n] free] by blast
  obtain q w where w: "on_list c ?v = (q, w)" by fastforce
  have res: "(res, t) = (case q of Inl e \<Rightarrow> (Inl e, w) | Inr x \<Rightarrow> (Inr (), w))"
    using run n u(1) w by (cases q) (auto simp: on_hello_def renamed_def act_run bnd_run [of ?m])
  then have wt: "w = t" by (cases q) auto
  then have "only_client c ?v t \<and> q = Inr ()"
  proof -
    obtain p where p: "lobby_payload ?v c = Inr p" "length p = 1 + 9 * length (list_others ?v c)"
      using lobby_payload_ok [OF \<open>INV ?v\<close>] by blast
    have "length (list_others ?v c) \<le> 8" by (simp add: list_others_def)
    with p have "length p \<le> 254" by simp
    moreover have "bnd (lift (frame T_LOBBY p)) (transmit c) ?v = (q, t)"
      using w p wt by (simp add: on_list_def)
    ultimately show ?thesis using send_frame_effect live by blast
  qed
  then have t: "sv_by_name t = sv_by_name ?v" "\<And>d. name_of t d = name_of ?v d" "\<And>d. is_dead t d = is_dead ?v d"
    "q = Inr ()"
    by (simp_all add: only_client_def)
  have "is_dead t d" if "d \<noteq> c" "name_of s d = Some n" for d
  proof -
    have "name_of u d = Some n" using su that by (simp add: calm_def name_of_def)
    then show ?thesis using free that t(3) by (auto simp: name_free_def)
  qed
  moreover have "dget (sv_by_name t) n = Some c"
    using t(1) by (simp add: dget_renamed del: renamed_simps(7))
  ultimately show ?thesis using t res by simp
qed

section \<open>The sweep\<close>

text \<open>Dropping somebody who has no room concerns nobody else.\<close>

lemma nameless_solo: "INV s \<Longrightarrow> c < sv_nclient s \<Longrightarrow> name_of s c = None \<Longrightarrow> room_of s c = None"
  by (metis INV_D(4) not_None_eq room_fineD(4) rooms_okD)

lemma drop_nameless:
  assumes "INV s" "\<not> is_dead s c" "name_of s c = None"
  shows "drop_client c w s = (Inr (), forget_names c (mark_dead c w s))"
  using assms nameless_solo [of s c] by (simp add: drop_unfold_live is_dead_def)

definition overdue :: "rat \<Rightarrow> server \<Rightarrow> cid \<Rightarrow> bool" where
  "overdue now s c \<longleftrightarrow> name_of s c = None \<and> HELLO_TIMEOUT < now - cl_connected_at (sv_client s c)"

lemma sweep_Cons:
  "sweep now (c # cs) s =
     (if overdue now s c
      then (case drop_client c WhyHelloTimeout (count_timeout s) of
              (Inl e, t) \<Rightarrow> (Inl e, t) | (Inr x, t) \<Rightarrow> sweep now cs t)
      else sweep now cs s)"
  by (auto simp: sweep_def overdue_def act_run split: prod.split sum.split)

lemma count_timeout_access [simp]:
  "is_dead (count_timeout s) d = is_dead s d" "name_of (count_timeout s) d = name_of s d"
  "sv_client (count_timeout s) = sv_client s" "sv_nclient (count_timeout s) = sv_nclient s"
  by (simp_all add: count_timeout_def access_defs)

lemma sweep_effect:
  "INV s \<Longrightarrow> distinct cs \<Longrightarrow> (\<And>c. c \<in> set cs \<Longrightarrow> \<not> is_dead s c) \<Longrightarrow>
     \<exists>t. sweep now cs s = (Inr (), t) \<and> INV t \<and>
       (\<forall>c. is_dead t c \<longleftrightarrow> is_dead s c \<or> (c \<in> set cs \<and> overdue now s c)) \<and>
       st_hello_timeouts (sv_stats t) = st_hello_timeouts (sv_stats s) + length (filter (overdue now s) cs)"
proof (induction cs arbitrary: s)
  case Nil
  then show ?case by (simp add: sweep_def ret_def)
next
  case (Cons c cs)
  show ?case
  proof (cases "overdue now s c")
    case False
    have "\<exists>t. sweep now cs s = (Inr (), t) \<and> INV t \<and>
       (\<forall>d. is_dead t d \<longleftrightarrow> is_dead s d \<or> (d \<in> set cs \<and> overdue now s d)) \<and>
       st_hello_timeouts (sv_stats t) = st_hello_timeouts (sv_stats s) + length (filter (overdue now s) cs)"
      using Cons.prems by (intro Cons.IH) auto
    with False show ?thesis by (auto simp: sweep_Cons)
  next
    case True
    let ?u = "forget_names c (mark_dead c WhyHelloTimeout (count_timeout s))"
    have live: "\<not> is_dead (count_timeout s) c" using Cons.prems by simp
    have drop: "drop_client c WhyHelloTimeout (count_timeout s) = (Inr (), ?u)"
      using Cons.prems(1) live True by (intro drop_nameless) (simp_all add: overdue_def)
    have "INV ?u"
      using INV_forget_names [OF INV_mark_dead mark_dead_dead] INV_weaken [of "{}" s "{c}"] Cons.prems(1) live
      by simp
    have dead: "is_dead ?u d \<longleftrightarrow> d = c \<or> is_dead s d" for d by (simp add: is_dead_mark_dead)
    have same: "overdue now ?u d = overdue now s d" for d
      by (simp add: overdue_def)
    have count: "st_hello_timeouts (sv_stats ?u) = Suc (st_hello_timeouts (sv_stats s))"
      by (simp add: forget_names_def Let_def mark_dead_def count_timeout_def)
    have "\<exists>t. sweep now cs ?u = (Inr (), t) \<and> INV t \<and>
       (\<forall>d. is_dead t d \<longleftrightarrow> is_dead ?u d \<or> (d \<in> set cs \<and> overdue now ?u d)) \<and>
       st_hello_timeouts (sv_stats t) = st_hello_timeouts (sv_stats ?u) + length (filter (overdue now ?u) cs)"
      using Cons.prems \<open>INV ?u\<close> by (intro Cons.IH) (auto simp: is_dead_mark_dead)
    then obtain t where t: "sweep now cs ?u = (Inr (), t)" "INV t"
      "\<forall>d. is_dead t d \<longleftrightarrow> is_dead ?u d \<or> (d \<in> set cs \<and> overdue now ?u d)"
      "st_hello_timeouts (sv_stats t) = st_hello_timeouts (sv_stats ?u) + length (filter (overdue now ?u) cs)"
      by blast
    show ?thesis
    proof (intro exI conjI allI)
      show "sweep now (c # cs) s = (Inr (), t)" using True drop t(1) by (simp add: sweep_Cons)
      show "INV t" by (rule t(2))
      show "is_dead t d \<longleftrightarrow> is_dead s d \<or> (d \<in> set (c # cs) \<and> overdue now s d)" for d
        using t(3) True unfolding dead same by auto
      show "st_hello_timeouts (sv_stats t) = st_hello_timeouts (sv_stats s) + length (filter (overdue now s) (c # cs))"
        using t(4) True unfolding same count by (simp add: same)
    qed
  qed
qed

section \<open>CRC rounds\<close>

lemma dset_absent: "dget d k = None \<Longrightarrow> dset d k v = d @ [(k, v)]"
  by (induction d) (auto split: if_splits)

lemma ddel_absent: "dget d k = None \<Longrightarrow> ddel d k = d"
  unfolding dget_None ddel_def by (force simp: filter_id_conv)

lemma ddel_append_new: "dget d k = None \<Longrightarrow> ddel (d @ [(k, v)]) k = d"
  using ddel_absent [of d k] by (simp add: ddel_def)

lemma dget_append_new: "dget d k = None \<Longrightarrow> dget (d @ [(k, v)]) k = Some v"
  by (induction d) (auto split: if_splits)

lemma dset_append_new: "dget d k = None \<Longrightarrow> dset (d @ [(k, v)]) k w = d @ [(k, w)]"
  by (induction d) (auto split: if_splits)

text \<open>The first report of a tick waits for the second.\<close>

lemma crc_first:
  assumes "dget (rm_crc rm) (crc_tick p) = None" "length (rm_crc rm) < 64"
  shows "crc_round 2 p rm =
    (rm\<lparr>rm_crc := rm_crc rm @ [(crc_tick p, [(unat (p ! 0), crc_value p)])]\<rparr>, [])"
  using assms by (simp add: crc_round_def crc_store_def dset_absent Let_def)

text \<open>The second report of the tick, from another seat, decides the round.\<close>

lemma crc_second:
  assumes old: "dget t (crc_tick q) = None" "length t < 64"
    and rm: "rm_crc rm = t @ [(crc_tick q, [(a, v)])]" and seat: "unat (q ! 0) \<noteq> a"
  shows "crc_round 2 q rm =
    (if v = crc_value q
     then (rm\<lparr>rm_crc := t, rm_crc_ok := Suc (rm_crc_ok rm)\<rparr>,
           if Suc (rm_crc_ok rm) mod 4 = 0 then [LCrcOk (crc_tick q) (Suc (rm_crc_ok rm))] else [])
     else (rm\<lparr>rm_crc := t\<rparr>, [LMismatch (crc_tick q) (sort_key fst [(a, v), (unat (q ! 0), crc_value q)])]))"
proof -
  have "dget (rm_crc rm) (crc_tick q) = Some [(a, v)]" using rm old by (simp add: dget_append_new)
  moreover have "dset [(a, v)] (unat (q ! 0)) (crc_value q) = [(a, v), (unat (q ! 0), crc_value q)]"
    using seat by simp
  moreover have "dset (rm_crc rm) (crc_tick q) w = t @ [(crc_tick q, w)]" for w
    using rm old by (simp add: dset_append_new)
  moreover have "ddel (t @ [(crc_tick q, w)]) (crc_tick q) = t" for w using old(1) by (rule ddel_append_new)
  ultimately show ?thesis
    using old(2) by (simp add: crc_round_def crc_store_def Let_def eq_commute [of v] card_insert_if)
qed

text \<open>A full table loses the smallest tick, which may be the one just reported.\<close>

lemma crc_full:
  assumes "dget crc (crc_tick p) = None" "length crc = 64" "\<forall>k \<in> set (dkeys crc). crc_tick p < k"
  shows "snd (crc_store p crc) = crc"
proof -
  let ?k = "crc_tick p"
  have keys: "dkeys (crc @ [(?k, e)]) = dkeys crc @ [?k]" for e by (simp add: dkeys_def)
  have "Min (set (dkeys crc @ [?k])) = ?k"
    using assms(3) by (intro Min_eqI) auto
  then show ?thesis
    using assms(1,2) by (simp add: crc_store_def Let_def dset_absent keys ddel_append_new)
qed

end
