(* ===== verification/Entry.thy ===== *)
theory Entry
  imports ServiceSafe
begin

text \<open>
  \<open>main\<close> and \<open>Server.run\<close> of \<open>server/intv_relay_server.py\<close>: the options with their defaults, the
  server they start, and a pass of the event loop with its two timers. A pass is shown to be a
  run of the step relation of \<open>Service\<close>, so that what holds of reachable states holds between
  passes.
\<close>

section \<open>main\<close>

record options =
  op_port :: int
  op_game_name :: string
  op_server_name :: string
  op_delay :: int
  op_auto_go :: int
  op_debug :: bool
  op_lobby_enabled :: bool
  op_lobby_url :: string
  op_lobby_serverurl :: string
  op_lobby_client_url :: string
  op_lobby_appkey :: int

definition default_options :: options where
  "default_options =
     \<lparr> op_port = 9114, op_game_name = ''NBA Basketball'', op_server_name = ''Basketball Netplay'',
       op_delay = DEFAULT_DELAY, op_auto_go = 0, op_debug = False, op_lobby_enabled = False,
       op_lobby_url = ''https://lobby.fujinet.online'',
       op_lobby_serverurl = ''TCP://fujinet.online:9114/'',
       op_lobby_client_url = ''TNFS://apps.irata.online/Intellivision/Games/NBABasketball.rom'',
       op_lobby_appkey = 22 \<rparr>"

text \<open>The publisher, with the first \<open>update(0)\<close> done; its region is left at the default.\<close>

definition main_lobby :: "options \<Rightarrow> publisher option" where
  "main_lobby args =
     (if op_lobby_enabled args
      then Some (pub_update 0
             (pub_init (op_lobby_serverurl args) (op_lobby_client_url args) (op_lobby_appkey args) ''us''
               (op_game_name args) (op_server_name args)))
      else None)"

definition main_server :: "options \<Rightarrow> (cid \<Rightarrow> nat \<Rightarrow> send_outcome) \<Rightarrow> (nat \<Rightarrow> nat) \<Rightarrow> server" where
  "main_server args net rand = new_server (op_delay args) (main_lobby args) (op_auto_go args) net rand"

section \<open>run\<close>

text \<open>An entry of \<open>sel.select\<close>: the listening socket, or a client with its mask.\<close>

datatype ready = Listening conn rat | Client cid bool "recv_outcome option"

definition serve_ready :: "ready \<Rightarrow> unit srv" where
  "serve_ready rd =
     (case rd of Listening conn now \<Rightarrow> accept conn now | Client c writable incoming \<Rightarrow> serve c writable incoming)"

text \<open>
  The timers of the loop, \<open>last_sweep\<close> and \<open>last_stats\<close>, and one pass at time \<open>now\<close>;
  \<open>order\<close> is the order in which \<open>list(self.clients)\<close> enumerates the set.
\<close>

record timers =
  tm_sweep :: rat
  tm_stats :: rat

definition start_timers :: "rat \<Rightarrow> timers" where
  "start_timers now = \<lparr> tm_sweep = now, tm_stats = now \<rparr>"

definition sweep_due :: "rat \<Rightarrow> timers \<Rightarrow> bool" where
  "sweep_due now tm \<longleftrightarrow> 1 \<le> now - tm_sweep tm"

definition stats_due :: "rat \<Rightarrow> timers \<Rightarrow> bool" where
  "stats_due now tm \<longleftrightarrow> STATS_INTERVAL \<le> now - tm_stats tm"

definition next_timers :: "rat \<Rightarrow> timers \<Rightarrow> timers" where
  "next_timers now tm =
     \<lparr> tm_sweep = (if sweep_due now tm then now else tm_sweep tm),
       tm_stats = (if stats_due now tm then now else tm_stats tm) \<rparr>"

definition loop_pass :: "ready list \<Rightarrow> rat \<Rightarrow> (server \<Rightarrow> cid list) \<Rightarrow> timers \<Rightarrow> timers srv" where
  "loop_pass batch now order tm =
     bnd (for_each batch serve_ready) (\<lambda>_.
     bnd (gets order) (\<lambda>cs.
     bnd (guarded (sweep_due now tm) (sweep now cs)) (\<lambda>_.
     bnd (guarded (stats_due now tm) (modify log_stats)) (\<lambda>_.
       ret (next_timers now tm)))))"

section \<open>Passes are runs of the step relation\<close>

lemma initial_main: "initial (main_server args net rand)"
  unfolding initial_def main_server_def
  by (intro exI conjI, rule refl) (simp add: main_lobby_def pub_init_def pub_update_def)

lemma main_server_delay [simp]: "sv_delay (main_server args net rand) = op_delay args"
  by (simp add: main_server_def new_server_def)

text \<open>
  The clients in the batch were registered before the pass; the listening socket yields usable
  connections; and \<open>list(self.clients)\<close> enumerates the set.
\<close>

definition known :: "nat \<Rightarrow> ready \<Rightarrow> bool" where
  "known n rd = (case rd of Listening conn now \<Rightarrow> True | Client c w r \<Rightarrow> c < n)"

definition usable :: "ready \<Rightarrow> bool" where
  "usable rd = (case rd of Listening conn now \<Rightarrow> (\<exists>a. conn = Conn a True) | Client c w r \<Rightarrow> True)"

definition enumerates :: "(server \<Rightarrow> cid list) \<Rightarrow> bool" where
  "enumerates order \<longleftrightarrow> (\<forall>s. distinct (sv_clients s) \<longrightarrow> distinct (order s) \<and> set (order s) = set (sv_clients s))"

lemma serve_ready_event:
  "\<exists>ev. serve_ready rd = run_event ev \<and> (known (sv_nclient s) rd \<longrightarrow> possible s ev)"
proof (cases rd)
  case (Listening conn now)
  then show ?thesis
    by (intro exI [of _ "EvAccept conn now"]) (simp add: serve_ready_def run_event_def possible_def)
next
  case (Client c w r)
  then show ?thesis
    by (intro exI [of _ "EvReady c w r"]) (simp add: serve_ready_def run_event_def possible_def known_def)
qed

lemma reachable_run_event:
  "reachable s0 s \<Longrightarrow> possible s ev \<Longrightarrow> run_event ev s = (Inr (), t) \<Longrightarrow> reachable s0 t"
  by (erule reachable.step) (rule relay_step.event)

lemma known_mono: "known n rd \<Longrightarrow> n \<le> k \<Longrightarrow> known k rd"
  by (cases rd) (simp_all add: known_def)

lemma nclient_mono: "reachable s t \<Longrightarrow> sv_nclient s \<le> sv_nclient t"
  using reachable_persists [of s t] by (simp add: persists_def)

lemma reachable_keeps: "reachable s t \<Longrightarrow> INV s \<Longrightarrow> delay_ok s \<Longrightarrow> INV t \<and> delay_ok t"
  by (induction rule: reachable.induct) (auto dest: relay_step_INV)

lemma batch_reachable:
  "for_each batch serve_ready s = (Inr (), t) \<Longrightarrow> list_all (known (sv_nclient s)) batch \<Longrightarrow> reachable s t"
proof (induction batch arbitrary: s)
  case Nil
  then show ?case by (simp add: ret_def reachable.start)
next
  case (Cons rd batch)
  obtain u where u: "serve_ready rd s = (Inr (), u)" "for_each batch serve_ready u = (Inr (), t)"
    using Cons.prems(1) by (auto simp: bnd_def split: prod.splits sum.splits)
  obtain ev where "serve_ready rd = run_event ev" "possible s ev"
    using serve_ready_event [of rd s] Cons.prems(2) by auto
  with u(1) have step: "reachable s u" by (simp add: reachable_run_event [OF reachable.start])
  have "list_all (known (sv_nclient u)) batch"
    using Cons.prems(2) known_mono nclient_mono [OF step] by (auto simp: list_all_iff)
  from reachable_trans [OF Cons.IH [OF u(2) this] step] show ?case .
qed

lemma guarded_reachable:
  assumes "guarded b m s = (Inr (), t)" "m = run_event ev" "b \<Longrightarrow> possible s ev"
  shows "reachable s t"
  using assms reachable_run_event [OF reachable.start, of s ev t]
  by (cases b) (auto simp: ret_def intro: reachable.start)

lemma pass_reachable:
  assumes pass: "loop_pass batch now order tm s = (Inr tm', t)"
    and inv: "INV s" "delay_ok s" and known: "list_all (known (sv_nclient s)) batch" and order: "enumerates order"
  shows "reachable s t \<and> INV t \<and> delay_ok t \<and> tm' = next_timers now tm"
proof -
  obtain u v where u: "for_each batch serve_ready s = (Inr (), u)"
    and v: "guarded (sweep_due now tm) (sweep now (order u)) u = (Inr (), v)"
    and t: "guarded (stats_due now tm) (modify log_stats) v = (Inr (), t)" and tm: "tm' = next_timers now tm"
    using pass by (auto simp: loop_pass_def bnd_def gets_def ret_def split: prod.splits sum.splits)
  have su: "reachable s u" by (rule batch_reachable [OF u known])
  then have "INV u" using reachable_keeps inv by blast
  then have "distinct (sv_clients u)" using INV_D(2) by (simp add: clients_ok_def)
  then have "possible u (EvSweep now (order u))" using order by (simp add: enumerates_def possible_def)
  then have uv: "reachable u v"
    by (intro guarded_reachable [OF v, of "EvSweep now (order u)"]) (simp_all add: run_event_def)
  have vt: "reachable v t"
    by (rule guarded_reachable [OF t, of EvStats]) (simp_all add: run_event_def possible_def)
  from reachable_trans [OF vt reachable_trans [OF uv su]] have "reachable s t" .
  with reachable_keeps inv tm show ?thesis by blast
qed

lemma accept_usable: "\<exists>t. accept (Conn a True) now s = (Inr (), t)"
  by (auto simp: accept_def bnd_def gets_def modify_def ret_def)

lemma serve_ready_returns:
  assumes "INV s" "delay_ok s" "known (sv_nclient s) rd" "usable rd"
  shows "\<exists>t. serve_ready rd s = (Inr (), t)"
proof (cases rd)
  case (Listening conn now)
  with assms(4) accept_usable show ?thesis by (auto simp: serve_ready_def usable_def)
next
  case (Client c w r)
  then have ev: "serve_ready rd = run_event (EvReady c w r)" "possible s (EvReady c w r)"
    using assms(3) by (simp_all add: serve_ready_def run_event_def possible_def known_def)
  with run_event_keeps [OF _ _ ev(2)] assms(1,2)
  show ?thesis by (auto split: prod.splits sum.splits)
qed

lemma batch_returns:
  "INV s \<Longrightarrow> delay_ok s \<Longrightarrow> list_all (known (sv_nclient s)) batch \<Longrightarrow> list_all usable batch \<Longrightarrow>
     \<exists>t. for_each batch serve_ready s = (Inr (), t)"
proof (induction batch arbitrary: s)
  case Nil
  then show ?case by (simp add: ret_def)
next
  case (Cons rd batch)
  obtain u where u: "serve_ready rd s = (Inr (), u)"
    using serve_ready_returns [of s rd] Cons.prems by auto
  then have "for_each [rd] serve_ready s = (Inr (), u)" by (simp add: bnd_def ret_def)
  then have step: "reachable s u" using Cons.prems(3) by (intro batch_reachable [of "[rd]"]) simp_all
  have "INV u \<and> delay_ok u" by (rule reachable_keeps [OF step Cons.prems(1,2)])
  moreover have "list_all (known (sv_nclient u)) batch"
    using Cons.prems(3) known_mono nclient_mono [OF step] by (auto simp: list_all_iff)
  ultimately obtain t where "for_each batch serve_ready u = (Inr (), t)" using Cons by auto
  with u show ?case by (simp add: bnd_def)
qed

lemma pass_returns:
  assumes "INV s" "delay_ok s" "list_all (known (sv_nclient s)) batch" "list_all usable batch" "enumerates order"
  shows "\<exists>t. loop_pass batch now order tm s = (Inr (next_timers now tm), t)"
proof -
  obtain u where u: "for_each batch serve_ready s = (Inr (), u)" using batch_returns assms(1-4) by blast
  have "INV u" using reachable_keeps [OF batch_reachable [OF u assms(3)] assms(1,2)] by simp
  then obtain x v where "guarded (sweep_due now tm) (sweep now (order u)) u = (Inr x, v)"
    using safeE [OF safe_guarded [OF sweep_safe]] by metis
  with u show ?thesis by (simp add: loop_pass_def bnd_def gets_def ret_def guarded_def modify_def)
qed

section \<open>Property\<close>

text \<open>C6: The loop goes on. In any state reached from the server that \<open>main\<close> starts with a delay that
  fits a byte, a pass over ready connections and a listening socket that yields usable ones
  returns without an exception, with its timers advanced, in a state that the step relation
  reaches too and that is consistent.\<close>

theorem loop_pass_total:
  assumes "reachable (main_server args net rand) s" "0 \<le> op_delay args" "op_delay args < 256"
    and "list_all (known (sv_nclient s)) batch" "list_all usable batch" "enumerates order"
  shows "\<exists>t. loop_pass batch now order tm s = (Inr (next_timers now tm), t) \<and>
    reachable (main_server args net rand) t \<and> INV t"
proof -
  have s: "INV s" "delay_ok s"
    using reachable_INV [OF assms(1) initial_main] assms(2,3) by (simp_all add: delay_ok_def)
  obtain t where t: "loop_pass batch now order tm s = (Inr (next_timers now tm), t)"
    using pass_returns [OF s assms(4-6)] by blast
  with pass_reachable [OF t s assms(4,6)] reachable_trans [OF _ assms(1)] show ?thesis by blast
qed

theorem loop_pass_total_witness:
  "\<exists>t. loop_pass [Listening (Conn (''10.0.0.1'', 4000) True) 5] 5 sv_clients (start_timers 0)
        (main_server default_options (\<lambda>_ _. SBlocks) (\<lambda>_. 0)) =
      (Inr \<lparr> tm_sweep = 5, tm_stats = 0 \<rparr>, t) \<and> INV t"
proof -
  let ?batch = "[Listening (Conn (''10.0.0.1'', 4000) True) 5]"
  have "0 \<le> op_delay default_options" "op_delay default_options < 256" "enumerates sv_clients"
    "list_all (known n) ?batch" "list_all usable ?batch" for n
    by (simp_all add: default_options_def DEFAULT_DELAY_def enumerates_def known_def usable_def)
  note total = loop_pass_total [OF reachable.start this(1,2,4,5,3), where net = "\<lambda>_ _. SBlocks"
      and rand = "\<lambda>_. 0" and now = 5 and tm = "start_timers 0"]
  have "next_timers 5 (start_timers 0) = \<lparr> tm_sweep = 5, tm_stats = 0 \<rparr>"
    by (simp add: next_timers_def sweep_due_def stats_due_def start_timers_def STATS_INTERVAL_def)
  with total show ?thesis by auto
qed

end
