(* ===== verification/Fragments.thy ===== *)
theory Fragments
  imports Runs
begin

text \<open>
  Reassembly and the handlers together. TCP may cut a client's bytes anywhere; this theory shows
  that \<open>Server.service\<close> does the same for every cut. The handlers never look at a receive
  buffer, so an action of theirs commutes with adding bytes to one (\<open>commutes\<close>); with the prefix
  laws of the reader that carries the loop over the buffer from the bytes of one \<open>recv\<close> to those
  of two, and by induction to any sequence of them.
\<close>

section \<open>Actions that commute with a change of the state\<close>

definition commutes :: "('s \<Rightarrow> 's) \<Rightarrow> ('s, 'a) act \<Rightarrow> bool" where
  "commutes f m \<longleftrightarrow> (\<forall>s. m (f s) = (fst (m s), f (snd (m s))))"

lemma commutesD: "commutes f m \<Longrightarrow> m s = (r, t) \<Longrightarrow> m (f s) = (r, f t)"
  by (simp add: commutes_def)

lemma com_ret: "commutes f (ret x)"
  by (simp add: commutes_def ret_def)

lemma com_throw: "commutes f (throw e)"
  by (simp add: commutes_def throw_def)

lemma com_lift: "commutes f (lift r)"
  by (simp add: commutes_def lift_def)

lemma com_gets: "(\<And>s. g (f s) = g s) \<Longrightarrow> commutes f (gets g)"
  by (simp add: commutes_def gets_def)

lemma com_modify: "(\<And>s. g (f s) = f (g s)) \<Longrightarrow> commutes f (modify g)"
  by (simp add: commutes_def modify_def)

lemma com_bnd: "commutes f m \<Longrightarrow> (\<And>x. commutes f (k x)) \<Longrightarrow> commutes f (bnd m k)"
  by (auto simp: commutes_def bnd_def split: prod.splits sum.splits)

lemma com_guarded: "commutes f m \<Longrightarrow> commutes f (guarded b m)"
  by (simp add: guarded_def com_ret)

lemma com_if: "commutes f m \<Longrightarrow> commutes f n \<Longrightarrow> commutes f (if b then m else n)"
  by simp

lemma com_option: "commutes f m \<Longrightarrow> (\<And>x. commutes f (k x)) \<Longrightarrow> commutes f (case a of None \<Rightarrow> m | Some x \<Rightarrow> k x)"
  by (simp split: option.split)

lemma com_seqs_Nil: "commutes f (seqs [])"
  by (simp add: com_ret)

lemma com_seqs_Cons: "commutes f m \<Longrightarrow> commutes f (seqs ms) \<Longrightarrow> commutes f (seqs (m # ms))"
  by (simp add: com_bnd)

lemma com_for_each: "(\<And>x. commutes f (k x)) \<Longrightarrow> commutes f (for_each xs k)"
  by (induction xs) (simp_all add: com_ret com_bnd)

lemma com_catch: "commutes f m \<Longrightarrow> (\<And>e. commutes f (h e)) \<Longrightarrow> commutes f (catch m h)"
  by (auto simp: commutes_def catch_def split: prod.splits sum.splits)

lemmas com_rules = com_ret com_throw com_lift com_bnd com_guarded com_if com_option
  com_seqs_Nil com_seqs_Cons com_for_each

section \<open>Adding bytes to a receive buffer\<close>

definition add_rx :: "cid \<Rightarrow> bytes \<Rightarrow> server \<Rightarrow> server" where
  "add_rx c b = upd_client c (\<lambda>cl. cl\<lparr>cl_rx := cl_rx cl @ b\<rparr>)"

lemma add_rx_simps [simp]:
  "sv_delay (add_rx c b s) = sv_delay s" "sv_auto_go (add_rx c b s) = sv_auto_go s"
  "sv_lobby (add_rx c b s) = sv_lobby s" "sv_by_name (add_rx c b s) = sv_by_name s"
  "sv_clients (add_rx c b s) = sv_clients s" "sv_sel (add_rx c b s) = sv_sel s"
  "sv_stats (add_rx c b s) = sv_stats s" "sv_log (add_rx c b s) = sv_log s"
  "sv_nclient (add_rx c b s) = sv_nclient s" "sv_room (add_rx c b s) = sv_room s"
  "sv_nroom (add_rx c b s) = sv_nroom s" "sv_net (add_rx c b s) = sv_net s"
  "sv_rand (add_rx c b s) = sv_rand s" "sv_draws (add_rx c b s) = sv_draws s"
  by (simp_all add: add_rx_def)

lemma add_rx_client [simp]:
  "cl_tx (sv_client (add_rx c b s) d) = cl_tx (sv_client s d)"
  "cl_name (sv_client (add_rx c b s) d) = cl_name (sv_client s d)"
  "cl_room (sv_client (add_rx c b s) d) = cl_room (sv_client s d)"
  "cl_dead (sv_client (add_rx c b s) d) = cl_dead (sv_client s d)"
  "cl_addr (sv_client (add_rx c b s) d) = cl_addr (sv_client s d)"
  "cl_calls (sv_client (add_rx c b s) d) = cl_calls (sv_client s d)"
  "cl_rx (sv_client (add_rx c b s) d) = cl_rx (sv_client s d) @ (if d = c then b else [])"
  by (simp_all add: add_rx_def)

lemma add_rx_reads [simp]:
  "is_dead (add_rx c b s) d = is_dead s d" "members (add_rx c b s) r = members s r"
  "name_of (add_rx c b s) d = name_of s d" "room_of (add_rx c b s) d = room_of s d"
  "client_repr (add_rx c b s) d = client_repr s d" "room_repr (add_rx c b s) r = room_repr s r"
  "roster (add_rx c b s) r = roster s r" "seat (add_rx c b s) d = seat s d"
  "nlive (add_rx c b s) = nlive s"
  by (simp_all add: access_defs client_repr_def room_repr_def roster_def seat_def nlive_def name_of_def [abs_def]
      split: option.split sum.split)

lemma add_rx_upd_client:
  "(\<And>cl. (g cl)\<lparr>cl_rx := cl_rx (g cl) @ b\<rparr> = g (cl\<lparr>cl_rx := cl_rx cl @ b\<rparr>)) \<Longrightarrow>
     upd_client d g (add_rx c b s) = add_rx c b (upd_client d g s)"
  by (cases "c = d") (simp_all add: add_rx_def upd_client_def fun_upd_twist)

lemma add_rx_upd_room: "upd_room r g (add_rx c b s) = add_rx c b (upd_room r g s)"
  by (simp add: add_rx_def upd_client_def upd_room_def)

lemma add_rx_add_log: "add_log e (add_rx c b s) = add_rx c b (add_log e s)"
  by (simp add: add_rx_def upd_client_def add_log_def)

lemma add_rx_fields:
  "(add_rx c b s)\<lparr>sv_lobby := l\<rparr> = add_rx c b (s\<lparr>sv_lobby := l\<rparr>)"
  "(add_rx c b s)\<lparr>sv_by_name := d\<rparr> = add_rx c b (s\<lparr>sv_by_name := d\<rparr>)"
  "(add_rx c b s)\<lparr>sv_clients := cs\<rparr> = add_rx c b (s\<lparr>sv_clients := cs\<rparr>)"
  "(add_rx c b s)\<lparr>sv_sel := f\<rparr> = add_rx c b (s\<lparr>sv_sel := f\<rparr>)"
  "(add_rx c b s)\<lparr>sv_stats := st\<rparr> = add_rx c b (s\<lparr>sv_stats := st\<rparr>)"
  "(add_rx c b s)\<lparr>sv_draws := n\<rparr> = add_rx c b (s\<lparr>sv_draws := n\<rparr>)"
  "(add_rx c b s)\<lparr>sv_nroom := n\<rparr> = add_rx c b (s\<lparr>sv_nroom := n\<rparr>)"
  "(add_rx c b s)\<lparr>sv_room := f'\<rparr> = add_rx c b (s\<lparr>sv_room := f'\<rparr>)"
  by (simp_all add: add_rx_def upd_client_def)

lemmas add_rx_moves = add_rx_upd_client add_rx_upd_room add_rx_add_log add_rx_fields

section \<open>The handlers do not look\<close>

lemma blind_log: "(\<And>c b s. g (add_rx c b s) = g s) \<Longrightarrow> commutes (add_rx c b) (modify (\<lambda>s. add_log (g s) s))"
  by (intro com_modify) (simp add: add_rx_add_log)

lemma blind_lobby: "commutes (add_rx c b) (modify lobby_update)"
  by (intro com_modify) (simp add: lobby_update_def add_rx_fields split: option.split)

lemma blind_walk: "(\<And>i m. commutes (add_rx c b) (f i m)) \<Longrightarrow> commutes (add_rx c b) (walk n r i f)"
  by (induction n arbitrary: i) (auto intro!: com_rules com_gets)

lemma blind_for_members: "(\<And>i m. commutes (add_rx c b) (f i m)) \<Longrightarrow> commutes (add_rx c b) (for_members r f)"
  unfolding for_members_def by (intro com_rules com_gets blind_walk) simp_all

lemma blind_detach: "detach_members r (add_rx c b s) = add_rx c b (detach_members r s)"
proof -
  have "fold (\<lambda>m. upd_client m (\<lambda>cl. cl\<lparr>cl_room := None\<rparr>)) ms (add_rx c b s) =
      add_rx c b (fold (\<lambda>m. upd_client m (\<lambda>cl. cl\<lparr>cl_room := None\<rparr>)) ms s)" for ms
    by (induction ms arbitrary: s) (simp_all add: add_rx_upd_client)
  then show ?thesis by (simp add: detach_members_def)
qed

locale blind_dropper =
  fixes drp :: "cid \<Rightarrow> why \<Rightarrow> unit srv" and c :: cid and b :: bytes
  assumes drp_blind: "commutes (add_rx c b) (drp d w)"
begin

lemma flush_blind: "commutes (add_rx c b) (flush drp d)"
proof -
  have "commutes (add_rx c b) (case x of (fin, k, tx, took) \<Rightarrow>
      bnd (modify (upd_client d (\<lambda>cl. cl\<lparr>cl_calls := k, cl_tx := tx, cl_sent := cl_sent cl @ took\<rparr>)))
        (\<lambda>_. case fin of FlushFail w \<Rightarrow> drp d w | FlushDone \<Rightarrow> modify (update_events d)))" for x
    by (auto intro!: com_bnd com_modify drp_blind
        simp: add_rx_upd_client update_events_def add_rx_fields split: flush_end.split prod.split option.split)
  then show ?thesis unfolding flush_def by (intro com_bnd com_gets) simp_all
qed

lemma send_blind: "commutes (add_rx c b) (send drp d data)"
  unfolding send_def
  by (intro com_rules com_gets com_modify flush_blind drp_blind)
    (simp_all add: queue_def add_rx_upd_client count_backlog_drop_def add_rx_fields)

lemma send_lift_blind: "commutes (add_rx c b) (bnd (lift x) (send drp d))"
  by (intro com_rules send_blind)

lemma room_broadcast_blind: "commutes (add_rx c b) (room_broadcast drp r)"
  unfolding room_broadcast_def
  by (intro com_rules com_gets blind_for_members send_blind) (simp add: room_payload_def split: sum.split)

lemma dissolve_blind: "commutes (add_rx c b) (dissolve drp r notify)"
  unfolding dissolve_def
  by (intro com_rules com_modify send_blind)
    (simp_all add: blind_detach clear_members_def add_rx_upd_room)

lemma end_match_blind: "commutes (add_rx c b) (end_match drp d r st)"
  unfolding end_match_def
  by (intro com_rules com_gets blind_log dissolve_blind send_blind) (simp_all add: peer_left_def split: sum.split)

lemma leave_forming_blind: "commutes (add_rx c b) (leave_forming drp r st)"
  unfolding leave_forming_def
  by (intro com_rules com_gets blind_log dissolve_blind room_broadcast_blind) simp_all

lemma leave_room_blind: "commutes (add_rx c b) (leave_room drp d r)"
proof -
  have "commutes (add_rx c b) (remove_member d r)"
    by (auto simp: commutes_def remove_member_def add_rx_upd_room split: sum.split)
  then show ?thesis
    unfolding leave_room_def
    by (intro com_rules com_gets com_modify end_match_blind leave_forming_blind blind_lobby)
      (simp_all add: add_rx_upd_client)
qed

lemma drop_body_blind: "commutes (add_rx c b) (drop_body drp d w)"
proof -
  have "mark_dead d w (add_rx c b s) = add_rx c b (mark_dead d w s)" for s
  proof -
    have "upd_client d (\<lambda>cl. cl\<lparr>cl_dead := True\<rparr>) (add_rx c b s) =
        add_rx c b (upd_client d (\<lambda>cl. cl\<lparr>cl_dead := True\<rparr>) s)"
      by (rule add_rx_upd_client) simp
    then show ?thesis by (simp add: mark_dead_def Let_def add_rx_add_log add_rx_fields)
  qed
  moreover have "forget_names d (add_rx c b s) = add_rx c b (forget_names d s)" for s
    by (simp add: forget_names_def Let_def add_rx_fields lobby_update_def split: option.split)
  ultimately show ?thesis
    unfolding drop_body_def
    by (intro com_rules com_gets com_modify leave_room_blind) simp_all
qed

end

lemma blind_drop_n: "commutes (add_rx c b) (drop_n n d w)"
proof (induction n arbitrary: d w)
  case (Suc n)
  then show ?case by (auto intro: blind_dropper.intro blind_dropper.drop_body_blind)
qed (simp add: com_ret)

interpretation blinds: blind_dropper drop_client c b for c b
proof
  show "commutes (add_rx c b) (drop_client d w)" for d w
    using blind_drop_n [of c b "nlive s" d w for s] by (simp add: commutes_def drop_client_def)
qed

lemmas blind_rules = com_rules com_gets com_modify blinds.drp_blind blinds.send_blind blind_lobby blind_for_members

lemma blind_on_list: "commutes (add_rx c b) (on_list d)"
proof -
  have "list_entries (add_rx c b s) cs = list_entries s cs" for s cs
    by (induction cs) (simp_all add: status_def split: sum.split option.split)
  then have "lobby_payload (add_rx c b s) d = lobby_payload s d" for s
    by (simp add: lobby_payload_def list_others_def Let_def split: sum.split)
  then show ?thesis unfolding on_list_def by (intro blind_rules)
qed

lemma blind_on_hello: "commutes (add_rx c b) (on_hello d payload)"
proof -
  have "drop_alias d n (add_rx c b s) = add_rx c b (drop_alias d n s)" for n s
    by (simp add: drop_alias_def Let_def add_rx_fields add_rx_add_log split: option.split)
  moreover have "set_name d n (add_rx c b s) = add_rx c b (set_name d n s)" for n s
  proof -
    have "upd_client d (\<lambda>cl. cl\<lparr>cl_name := Some n\<rparr>) (add_rx c b s) =
        add_rx c b (upd_client d (\<lambda>cl. cl\<lparr>cl_name := Some n\<rparr>) s)"
      by (rule add_rx_upd_client) simp
    then show ?thesis by (simp add: set_name_def Let_def add_rx_fields add_rx_add_log)
  qed
  ultimately show ?thesis
    unfolding on_hello_def by (intro blind_rules blind_on_list) simp_all
qed

lemma blind_start_room: "commutes (add_rx c b) (start_room r)"
proof -
  have "begin_match r (add_rx c b s) = add_rx c b (begin_match r s)" for s
    by (simp add: begin_match_def add_rx_upd_room add_rx_fields)
  moreover have "start_common (add_rx c b s) r = start_common s r" for s
    by (simp add: start_common_def split: sum.split)
  ultimately show ?thesis
    unfolding start_room_def by (intro blind_rules blind_log) simp_all
qed

lemma blind_on_go: "commutes (add_rx c b) (on_go d)"
  unfolding on_go_def by (intro blind_rules blind_start_room) simp_all

lemma blind_join_room: "commutes (add_rx c b) (join_room d t)"
proof -
  have "make_room t (add_rx c b s) = add_rx c b (make_room t s)" for s
    by (simp add: make_room_def Let_def add_rx_fields add_rx_upd_client)
  then have "commutes (add_rx c b) (join_target t)"
    unfolding join_target_def by (intro blind_rules) simp_all
  moreover have "enter_room d r (add_rx c b s) = add_rx c b (enter_room d r s)" for r s
    by (simp add: enter_room_def Let_def add_rx_upd_room add_rx_upd_client add_rx_add_log)
  ultimately show ?thesis
    unfolding join_room_def auto_start_def
    by (intro blind_rules blinds.room_broadcast_blind blind_start_room) simp_all
qed

lemma blind_on_join: "commutes (add_rx c b) (on_join d payload)"
  unfolding on_join_def
  by (intro blind_rules blind_on_list blind_join_room) (simp_all add: unjoinable_def split: option.split)

lemma blind_relay: "commutes (add_rx c b) (relay d ftype payload)"
proof -
  have "fold add_log ls (add_rx c b s) = add_rx c b (fold add_log ls s)" for ls s
    by (induction ls arbitrary: s) (simp_all add: add_rx_add_log)
  then have "log_crc r payload (add_rx c b s) = add_rx c b (log_crc r payload s)" for r s
    by (simp add: log_crc_def add_rx_upd_room split: prod.split)
  then show ?thesis unfolding relay_def by (intro blind_rules) simp_all
qed

lemma blind_handle: "commutes (add_rx c b) (handle d ftype payload)"
  unfolding handle_def
  by (intro blind_rules blind_relay blind_on_hello blind_on_list blind_on_join blind_on_go)

lemma blind_handle_frame: "commutes (add_rx c b) (handle_frame d body)"
  unfolding commutes_def
proof
  fix s
  obtain r t where h: "handle d (hd body) (tl body) s = (r, t)" by fastforce
  then have "handle d (hd body) (tl body) (add_rx c b s) = (r, add_rx c b t)"
    by (rule commutesD [OF blind_handle])
  moreover have "commutes (add_rx c b) (bnd (drop_client d w) (\<lambda>_. ret False))" for w
    by (intro blind_rules)
  ultimately show "handle_frame d body (add_rx c b s) =
      (fst (handle_frame d body s), add_rx c b (snd (handle_frame d body s)))"
    using h by (simp add: handle_frame_def commutes_def split: sum.split exn.split)
qed

section \<open>The loop over the buffer, on the bytes of two receptions\<close>

lemma pump_more:
  assumes "pump c s = (Inr (), u)" "\<not> is_dead s c"
  shows "pump c (add_rx c b s) = (if is_dead u c then (Inr (), add_rx c b u) else pump c (add_rx c b u))"
  using assms
proof (induction "length (cl_rx (sv_client s c))" arbitrary: s rule: less_induct)
  case less
  let ?rx = "cl_rx (sv_client s c)"
  show ?case
  proof (cases "scan_frame ?rx")
    case Wait
    with less.prems show ?thesis by (simp add: pump_unfold [of c s] ret_def)
  next
    case (Bad l)
    with less.prems have d: "drop_client c (WhyBadLength l) s = (Inr (), u)" by (simp add: pump_unfold [of c s])
    then have "is_dead u c" using drop_dead by (metis snd_conv)
    moreover have "scan_frame (?rx @ b) = Bad l" by (rule scan_frame_bad [OF Bad])
    ultimately show ?thesis
      using commutesD [OF blinds.drp_blind d] by (simp add: pump_unfold [of c "add_rx c b s"])
  next
    case (Got body rest)
    let ?s1 = "set_rx c rest s"
    have got: "scan_frame (?rx @ b) = Got body (rest @ b)" by (rule scan_frame_more [OF Got])
    have rx: "set_rx c (rest @ b) (add_rx c b s) = add_rx c b ?s1"
      by (simp add: set_rx_def add_rx_def upd_client_def)
    obtain go t where h: "handle_frame c body ?s1 = (Inr go, t)"
      and t: "(if go then pump c else ret ()) t = (Inr (), u)"
      using less.prems(1) Got by (auto simp: pump_unfold [of c s] bnd_def modify_def split: prod.splits sum.splits)
    have h': "handle_frame c body (add_rx c b ?s1) = (Inr go, add_rx c b t)"
      by (rule commutesD [OF blind_handle_frame h])
    have step: "pump c (add_rx c b s) = (if go then pump c else ret ()) (add_rx c b t)"
      using got rx h' by (simp add: pump_unfold [of c "add_rx c b s"] bnd_def modify_def)
    show ?thesis
    proof (cases go)
      case True
      have "cl_rx (sv_client t c) = rest" using handle_frame_rx [OF h, of c] by (simp add: set_rx_def)
      then have "length (cl_rx (sv_client t c)) < length ?rx" using scan_frame_shrink [OF Got] by simp
      from less.hyps [OF this] True t h step handle_frame_goes_on [OF h] show ?thesis by simp
    next
      case False
      with t h step handle_frame_goes_on [OF h] show ?thesis by (simp add: ret_def)
    qed
  qed
qed

lemma service_two:
  assumes "service c (RData x) s = (Inr (), u)" "\<not> is_dead s c" "x \<noteq> []" "y \<noteq> []"
  shows "service c (RData (x @ y)) s = (if is_dead u c then (Inr (), add_rx c y u) else service c (RData y) u)"
proof -
  let ?s1 = "set_rx c (cl_rx (sv_client s c) @ x) s"
  have p: "pump c ?s1 = (Inr (), u)" using assms(1,3) by (simp add: service_def)
  have "set_rx c (cl_rx (sv_client s c) @ x @ y) s = add_rx c y ?s1"
    by (simp add: set_rx_def add_rx_def upd_client_def)
  moreover have "set_rx c (cl_rx (sv_client u c) @ y) u = add_rx c y u"
    by (simp add: set_rx_def add_rx_def upd_client_def)
  ultimately show ?thesis
    using pump_more [OF p, of y] assms(2-4) by (simp add: service_def)
qed

section \<open>Any sequence of receptions\<close>

text \<open>The loop's body for one reception, and what a sequence of them does.\<close>

definition receive :: "cid \<Rightarrow> bytes \<Rightarrow> unit srv" where
  "receive c d = serve c False (Some (RData d))"

lemma bnd_ret_right: "bnd m ret = m"
  by (rule ext) (simp add: bnd_def ret_def split: prod.split sum.split)

lemma receive_live:
  assumes "serving c s" "\<not> is_dead s c"
  shows "receive c d s = service c (RData d) s"
  unfolding receive_def serve_def catch_safe [OF serve_body_safe assms(1)]
  using assms(2) by (simp add: bnd_assoc bnd_ret_right)

lemma receive_dead: "is_dead s c \<Longrightarrow> receive c d s = (Inr (), s)"
  by (simp add: receive_def serve_def catch_def bnd_assoc bnd_ret_right) (simp add: ret_def)

lemma receives_dead: "is_dead s c \<Longrightarrow> for_each ds (receive c) s = (Inr (), s)"
  by (induction ds) (simp_all add: ret_def bnd_def receive_dead)

text \<open>Equal but for bytes in a dead client's buffer, which nothing reads any more.\<close>

definition alike :: "cid \<Rightarrow> server \<Rightarrow> server \<Rightarrow> bool" where
  "alike c u v \<longleftrightarrow> v = u \<or> is_dead u c \<and> (\<exists>b. v = add_rx c b u)"

lemma receives:
  assumes "serving c s" "\<not> is_dead s c" "ds \<noteq> []" "[] \<notin> set ds"
  shows "\<exists>u v. for_each ds (receive c) s = (Inr (), u) \<and> receive c (concat ds) s = (Inr (), v) \<and> alike c u v"
  using assms
proof (induction ds arbitrary: s)
  case (Cons d ds)
  obtain u where u: "service c (RData d) s = (Inr (), u)" "serving c u"
    using safeE [OF service_safe Cons.prems(1), of "RData d"] by auto
  then have first: "receive c d s = (Inr (), u)" using receive_live [OF Cons.prems(1,2)] by simp
  show ?case
  proof (cases "ds = []")
    case True
    with first show ?thesis by (simp add: bnd_def ret_def alike_def)
  next
    case ds: False
    then have ne: "concat ds \<noteq> []" "d \<noteq> []" using Cons.prems(4) by (cases ds; auto)+
    have both: "receive c (concat (d # ds)) s =
        (if is_dead u c then (Inr (), add_rx c (concat ds) u) else service c (RData (concat ds)) u)"
      using service_two [OF u(1) Cons.prems(2) ne(2,1)] receive_live [OF Cons.prems(1,2)] by simp
    show ?thesis
    proof (cases "is_dead u c")
      case True
      with first both show ?thesis by (auto simp: bnd_def receives_dead alike_def)
    next
      case False
      with both have "receive c (concat (d # ds)) s = receive c (concat ds) u"
        using receive_live [OF u(2)] by simp
      with first Cons.IH [OF u(2) False ds] Cons.prems(4) show ?thesis by (simp add: bnd_def)
    qed
  qed
qed simp

section \<open>What a dead client's buffer does to the events of others: nothing\<close>

lemma blind_set_rx: "e \<noteq> c \<Longrightarrow> set_rx e rx (add_rx c b s) = add_rx c b (set_rx e rx s)"
  by (simp add: set_rx_def add_rx_def upd_client_def fun_upd_twist)

lemma blind_pump_n: "e \<noteq> c \<Longrightarrow> commutes (add_rx c b) (pump_n n e)"
proof (induction n)
  case (Suc n)
  have "commutes (add_rx c b) (case sc of Wait \<Rightarrow> ret () | Bad l \<Rightarrow> drop_client e (WhyBadLength l)
      | Got body rest \<Rightarrow> bnd (modify (set_rx e rest)) (\<lambda>_. bnd (handle_frame e body)
          (\<lambda>go_on. if go_on then pump_n n e else ret ())))" for sc
    using Suc by (cases sc) (auto intro!: blind_rules blind_handle_frame blind_set_rx)
  with Suc.prems show ?case unfolding pump_n.simps by (intro com_bnd com_gets) simp_all
qed (simp add: com_ret)

lemma blind_service: "e \<noteq> c \<Longrightarrow> commutes (add_rx c b) (service e r)"
proof -
  assume e: "e \<noteq> c"
  then have "commutes (add_rx c b) (pump e)"
    unfolding pump_def by (intro com_bnd com_gets blind_pump_n) simp_all
  moreover have "commutes (add_rx c b) (modify (\<lambda>s. set_rx e (cl_rx (sv_client s e) @ d) s))" for d
    using e by (intro com_modify) (simp add: blind_set_rx)
  ultimately show ?thesis
    unfolding service_def by (auto intro!: com_rules blinds.drp_blind split: recv_outcome.split)
qed

lemma blind_receive:
  assumes "is_dead s c"
  shows "receive e d (add_rx c b s) = (fst (receive e d s), add_rx c b (snd (receive e d s)))"
proof (cases "e = c")
  case True
  with assms show ?thesis by (simp add: receive_dead)
next
  case False
  have "commutes (add_rx c b) (flush drop_client e)" by (rule blinds.flush_blind)
  then have "commutes (add_rx c b) (receive e d)"
    unfolding receive_def serve_def option.case
    by (intro com_catch blind_rules blind_log blind_service [OF False]) simp_all
  then show ?thesis by (simp add: commutes_def)
qed

lemma blind_accept:
  assumes "c < sv_nclient s"
  shows "accept conn now (add_rx c b s) = (fst (accept conn now s), add_rx c b (snd (accept conn now s)))"
proof -
  have "add_client a now (add_rx c b s) = add_rx c b (add_client a now s)" for a
    using assms by (simp add: add_client_def Let_def add_rx_def upd_client_def add_log_def fun_upd_twist)
  moreover have "per_ip (add_rx c b s) a = per_ip s a" for a
    by (simp add: per_ip_def)
  ultimately show ?thesis
    by (simp add: accept_def count_rejection_def add_rx_fields add_rx_add_log modify_def throw_def bnd_def
        gets_def ret_def split: conn.split)
qed

section \<open>Property\<close>

text \<open>C9: however TCP cuts the bytes of a client, the relay does the same. In a reachable state,
  receiving the pieces one by one leaves the state that receiving them at once leaves, and raises
  nothing; only if the connection was dropped on the way may its own unread buffer differ.\<close>

theorem fragmentation:
  assumes "reachable s0 s" "initial s0" "0 \<le> sv_delay s0" "sv_delay s0 < 256"
    and "c \<in> set (sv_clients s)" "ds \<noteq> []" "[] \<notin> set ds"
  shows "\<exists>u v. for_each ds (receive c) s = (Inr (), u) \<and> receive c (concat ds) s = (Inr (), v) \<and> alike c u v"
proof (rule receives)
  have inv: "INV s" "delay_ok s" using reachable_INV [OF assms(1,2)] assms(3,4) by (simp_all add: delay_ok_def)
  then show "\<not> is_dead s c" using INV_D(2) assms(5) by (simp add: clients_ok_def)
  with inv show "serving c s" by (simp add: served_def is_dead_def)
qed (fact assms)+

theorem fragmentation_witness:
  "\<exists>u v. for_each [[1], [12, 1], [12]] (receive 0) demo_match = (Inr (), u) \<and>
     receive 0 [1, 12, 1, 12] demo_match = (Inr (), v) \<and> alike 0 u v"
proof -
  have "0 \<le> sv_delay demo_start" "sv_delay demo_start < 256"
    by (simp_all add: demo_start_def new_server_def)
  from fragmentation [OF reachable_demo_match initial_demo this, of 0 "[[1], [12, 1], [12]]"]
  show ?thesis by (simp add: demo_match_def)
qed

end
