(* ===== verification/Drained.thy ===== *)
theory Drained
  imports ServiceSafe
begin

text \<open>
  The relay over sockets that accept what they are given: whatever a call of \<open>send\<close> leaves over
  is taken by a later one of the same \<open>flush\<close>, so no byte stays queued. With \<open>handler\<close> this is a
  frame condition of every handler, and an invariant of the relay.
\<close>

section \<open>Accepting sockets\<close>

definition accepting :: "server \<Rightarrow> bool" where
  "accepting s \<longleftrightarrow> (\<forall>c k. \<exists>n>0. sv_net s c k = SSent n)"

definition drained :: "server \<Rightarrow> bool" where
  "drained s \<longleftrightarrow> (\<forall>c. cl_tx (sv_client s c) = [])"

lemma flush_loop_accepting:
  "(\<And>k. \<exists>n>0. sock k = SSent n) \<Longrightarrow> \<exists>k'. flush_loop sock k tx took = (FlushDone, k', [], took @ tx)"
proof (induction sock k tx took rule: flush_loop.induct)
  case (1 sock k tx took)
  obtain n where n: "sock k = SSent n" "0 < n" using "1.prems" by auto
  show ?case
  proof (cases "tx = []")
    case False
    with 1 n show ?thesis by (simp add: flush_loop.simps [of sock k tx])
  qed (simp add: flush_loop.simps)
qed

text \<open>A flush succeeds at once, and the selector need not watch for writing.\<close>

lemma flush_accepting:
  assumes "accepting s"
  shows "\<exists>k. flush drp c s =
    (Inr (), update_events c (upd_client c (\<lambda>cl. cl\<lparr>cl_calls := k, cl_tx := [],
       cl_sent := cl_sent cl @ cl_tx (sv_client s c)\<rparr>) s))"
proof -
  obtain k where "flush_loop (sv_net s c) (cl_calls (sv_client s c)) (cl_tx (sv_client s c)) [] =
      (FlushDone, k, [], cl_tx (sv_client s c))"
    using flush_loop_accepting [of "sv_net s c" "cl_calls (sv_client s c)" "cl_tx (sv_client s c)" "[]"] assms
    by (auto simp: accepting_def)
  then show ?thesis by (intro exI [of _ k]) (simp add: flush_def modify_def)
qed

section \<open>A frame condition\<close>

definition drains :: "server \<Rightarrow> server \<Rightarrow> bool" where
  "drains s t \<longleftrightarrow> sv_net t = sv_net s \<and> (accepting s \<and> drained s \<longrightarrow> drained t)"

interpretation drains: preorder_rel drains
  by unfold_locales (auto simp: drains_def accepting_def)

lemma drains_same:
  "sv_net t = sv_net s \<Longrightarrow> (\<And>c. cl_tx (sv_client s c) = [] \<Longrightarrow> cl_tx (sv_client t c) = []) \<Longrightarrow> drains s t"
  by (simp add: drains_def drained_def)

lemma update_events_simps [simp]:
  "sv_net (update_events c s) = sv_net s" "sv_client (update_events c s) = sv_client s"
  by (simp_all add: update_events_def split: option.split)

lemma lobby_update_net:
  "sv_net (lobby_update s) = sv_net s" "sv_client (lobby_update s) = sv_client s"
  by (simp_all add: lobby_update_def split: option.split)

lemma detach_members_tx:
  "sv_net (detach_members r s) = sv_net s"
  "cl_tx (sv_client (detach_members r s) d) = cl_tx (sv_client s d)"
proof -
  have "sv_net (fold (\<lambda>m. upd_client m (\<lambda>cl. cl\<lparr>cl_room := None\<rparr>)) ms s) = sv_net s \<and>
      cl_tx (sv_client (fold (\<lambda>m. upd_client m (\<lambda>cl. cl\<lparr>cl_room := None\<rparr>)) ms s) d) = cl_tx (sv_client s d)" for ms
    by (induction ms arbitrary: s) auto
  then show "sv_net (detach_members r s) = sv_net s"
    "cl_tx (sv_client (detach_members r s) d) = cl_tx (sv_client s d)"
    by (simp_all add: detach_members_def)
qed

lemma drains_flush:
  assumes "\<And>c w. keeps drains (drp c w)" "\<And>d. d \<noteq> c \<Longrightarrow> accepting s \<Longrightarrow> drained u \<Longrightarrow> cl_tx (sv_client s d) = []"
    "sv_net s = sv_net u"
  shows "drains u (snd (flush drp c s))"
proof (cases "accepting s")
  case True
  then obtain k where "flush drp c s =
    (Inr (), update_events c (upd_client c (\<lambda>cl. cl\<lparr>cl_calls := k, cl_tx := [],
       cl_sent := cl_sent cl @ cl_tx (sv_client s c)\<rparr>) s))"
    using flush_accepting by blast
  with True assms(2,3) show ?thesis by (auto simp: drains_def drained_def)
next
  case False
  obtain fin k tx took where l:
    "flush_loop (sv_net s c) (cl_calls (sv_client s c)) (cl_tx (sv_client s c)) [] = (fin, k, tx, took)"
    by (metis prod_cases4)
  have "sv_net (snd (flush drp c s)) = sv_net s"
    using assms(1) l by (cases fin) (auto simp: flush_def modify_def keeps_def drains_def)
  moreover have "\<not> accepting u" using False assms(3) by (simp add: accepting_def)
  ultimately show ?thesis using assms(3) by (simp add: drains_def)
qed

lemma drains_send:
  assumes "\<And>c w. keeps drains (drp c w)"
  shows "keeps drains (send drp c data)"
  unfolding keeps_def
proof
  fix s
  have "drains s (snd (flush drp c (queue c data s)))"
    by (rule drains_flush [OF assms]) (auto simp: queue_def drained_def)
  moreover have "drains s (count_backlog_drop s)"
    by (rule drains_same) (simp_all add: count_backlog_drop_def)
  then have "drains s (snd (drp c WhyBacklog (count_backlog_drop s)))"
    using assms drains.R_trans by (blast dest: keepsD)
  ultimately show "drains s (snd (send drp c data s))"
    by (simp add: send_def ret_def drains.R_refl)
qed

lemma drains_log: "drains s (add_log e s)"
  by (rule drains_same) simp_all

lemma drains_lobby: "drains s (lobby_update s)"
  by (rule drains_same) (simp_all add: lobby_update_net)

lemma drains_upd: "(\<And>cl. cl_tx (f cl) = cl_tx cl) \<Longrightarrow> drains s (upd_client c f s)"
  by (rule drains_same) auto

lemma drains_remove: "keeps drains (remove_member c r)"
  by (auto simp: keeps_def remove_member_def drains.R_refl intro!: drains_same split: sum.split)

lemma drains_mark_dead: "drains s (mark_dead c w s)"
  by (rule drains_same) (auto simp: mark_dead_def Let_def)

lemma drains_forget_names: "drains s (forget_names c s)"
  by (rule drains_same) (auto simp: forget_names_def Let_def lobby_update_net)

lemma drains_sender:
  assumes "\<And>c w. keeps drains (drp c w)"
  shows "sender drains drp"
proof unfold_locales
  show "drains s (detach_members r s)" for s r by (rule drains_same) (simp_all add: detach_members_tx)
  show "drains s (clear_members r s)" for s r by (rule drains_same) (simp_all add: clear_members_def)
  show "drains s (upd_client c (\<lambda>cl. cl\<lparr>cl_room := None\<rparr>) s)" for s c by (rule drains_upd) simp
qed (fact drains_send [OF assms] drains_log drains_lobby drains_remove drains_mark_dead drains_forget_names)+

lemma drains_drop_n: "keeps drains (drop_n n c w)"
proof (induction n arbitrary: c w)
  case (Suc n)
  then show ?case by (simp add: sender.kp_drop_body drains_sender)
qed (simp add: drains.kp_ret)

lemma drains_drop: "keeps drains (drop_client c w)"
  using drains_drop_n by (simp add: keeps_def drop_client_def)

interpretation drn: handler drains
proof (intro handler.intro talker.intro talker_axioms.intro handler_axioms.intro)
  show "sender drains drop_client" by (rule drains_sender) (rule drains_drop)
  show "keeps drains (drop_client c w)" for c w by (rule drains_drop)
  show "drains s (drop_alias c n s)" for s c n
    by (rule drains_same) (simp_all add: drop_alias_def Let_def split: option.split)
  show "drains s (set_name c n s)" for s c n
    by (rule drains_same) (auto simp: set_name_def Let_def)
  show "drains s (begin_match r s)" for s r
    by (rule drains_same) (simp_all add: begin_match_def)
  show "drains s (make_room t s)" for s t
    by (rule drains_same) (auto simp: make_room_def Let_def)
  show "drains s (enter_room c r s)" for s c r
    by (rule drains_same) (auto simp: enter_room_def Let_def)
  show "drains s (log_crc r p s)" for s r p
    by (rule drains_same) (simp_all add: log_crc_def fold_add_log split: prod.split)
qed

section \<open>An invariant\<close>

interpretation drn_loop: server_loop drains
proof unfold_locales
  show "keeps drains (flush drop_client c)" for c
    unfolding keeps_def by (auto intro: drains_flush [OF drains_drop] simp: drained_def)
  show "drains s (set_rx c rx s)" for s c rx unfolding set_rx_def by (rule drains_upd) simp
qed (fact drn.kp_handle drains_drop drains_log)+

lemmas drains_serve = drn_loop.kp_serve

lemma drains_accept: "keeps drains (accept conn now)"
proof -
  have "drains s (add_client a now s)" for a s
    by (rule drains_same) (auto simp: add_client_def Let_def new_client_def)
  moreover have "drains s (count_rejection s)" for s
    by (rule drains_same) (simp_all add: count_rejection_def)
  ultimately show ?thesis
    unfolding accept_def
    by (auto intro!: drains.kp_bnd drains.kp_gets drains.kp_throw drains.kp_ret keeps_modify drains_log
        split: conn.split)
qed

lemma drains_event: "keeps drains (run_event ev)"
proof -
  have "drains s (count_timeout s)" for s
    by (rule drains_same) (simp_all add: count_timeout_def)
  then have "keeps drains (sweep now order)" for now order
    unfolding sweep_def
    by (auto intro!: drains.kp_for_each drains.kp_bnd drains.kp_gets drains.kp_guarded drains.kp_ret
        keeps_modify drains_drop)
  moreover have "drains s (log_stats s)" for s
    by (rule drains_same) (simp_all add: log_stats_def Let_def)
  ultimately show ?thesis
    by (cases ev) (simp_all add: run_event_def drains_accept drains_serve keeps_modify)
qed

lemma drains_reachable: "reachable s t \<Longrightarrow> drains s t"
proof (induction rule: reachable.induct)
  case (step t u)
  have "drains t u"
    using step.hyps(2)
  proof (cases rule: relay_step.cases)
    case (event ev)
    then show ?thesis using keepsD [OF drains_event, of t ev] by simp
  next
    case (publisher p q)
    then show ?thesis by (intro drains_same) simp_all
  qed
  with step.IH show ?case by (rule drains.R_trans)
qed (rule drains.R_refl)

lemma initial_drained: "initial s \<Longrightarrow> drained s"
  by (auto simp: initial_def drained_def new_server_def new_client_def)

lemma drained_stream: "drained s \<Longrightarrow> stream s c = cl_sent (sv_client s c)"
  by (simp add: drained_def stream_def)

end
