(* ===== verification/Lobby.thy ===== *)
theory Lobby
  imports Frames PyDict
begin

text \<open>
  What the relay promises its players, without sockets, buffers, objects or logs: who is connected,
  who is registered under which name, who sits at a table with whom, and which message each
  command makes the relay send to whom. It is the specification that \<open>Refine\<close> shows
  \<open>server/intv_relay_server.py\<close> to implement over sockets that work.
\<close>

section \<open>The lobby\<close>

text \<open>
  The players are in the order in which they are listed. A table is the host, the guest, and
  whether their match has started; both ends know it. \<open>lb_draws\<close> counts the matches started,
  each of which took one seed from the random source.
\<close>

record lobby =
  lb_up :: "nat \<Rightarrow> bool"
  lb_players :: "(pystr \<times> nat) list"
  lb_table :: "nat \<Rightarrow> (nat \<times> nat \<times> bool) option"
  lb_draws :: nat

datatype message =
    MsgLobby "(pystr \<times> bool) list"
  | MsgRoom "pystr list"
  | MsgStart nat nat "pystr list"
  | MsgLeft nat pystr
  | MsgRelay byte bytes
  | MsgPong

datatype command =
    CmdHello pystr
  | CmdList
  | CmdJoin pystr
  | CmdGo
  | CmdBye
  | CmdPing
  | CmdRelay byte bytes
  | CmdBad

type_synonym outcome = "lobby \<times> (nat \<times> message) list"

section \<open>Its steps\<close>

definition nick :: "lobby \<Rightarrow> nat \<Rightarrow> pystr option" where
  "nick a c = map_of (map prod.swap (lb_players a)) c"

definition holder :: "lobby \<Rightarrow> pystr \<Rightarrow> nat option" where
  "holder a n = map_of (lb_players a) n"

text \<open>Whoever leaves takes the table along; the other end is told how it ended.\<close>

definition leave_lobby :: "nat \<Rightarrow> lobby \<Rightarrow> outcome" where
  "leave_lobby c a =
     (let a1 = a\<lparr>lb_up := (lb_up a)(c := False), lb_players := filter (\<lambda>p. snd p \<noteq> c) (lb_players a)\<rparr>
      in case lb_table a c of
           None \<Rightarrow> (a1, [])
         | Some (h, g, playing) \<Rightarrow>
             (a1\<lparr>lb_table := (lb_table a)(h := None, g := None)\<rparr>,
              [(if c = h then g else h,
                if playing then MsgLeft (if c = h then 0 else 1) (the (nick a c)) else MsgRoom [])]))"

definition others :: "lobby \<Rightarrow> nat \<Rightarrow> (pystr \<times> nat) list" where
  "others a c = take 8 (filter (\<lambda>p. snd p \<noteq> c) (lb_players a))"

definition listing :: "lobby \<Rightarrow> nat \<Rightarrow> message" where
  "listing a c = MsgLobby (map (\<lambda>(n, d). (n, lb_table a d \<noteq> None)) (others a c))"

text \<open>A name has one holder: the last to ask for it. Who keeps its name keeps its place.\<close>

definition register :: "nat \<Rightarrow> pystr \<Rightarrow> lobby \<Rightarrow> lobby" where
  "register c n a =
     a\<lparr>lb_players := (if holder a n = Some c then lb_players a
                     else filter (\<lambda>p. snd p \<noteq> c) (lb_players a) @ [(n, c)])\<rparr>"

definition hello_lobby :: "nat \<Rightarrow> pystr \<Rightarrow> lobby \<Rightarrow> outcome" where
  "hello_lobby c n a =
     (let (a1, out) = (case holder a n of
                         Some d \<Rightarrow> if d \<noteq> c then leave_lobby d a else (a, [])
                       | None \<Rightarrow> (a, []));
          a2 = register c n a1
      in (a2, out @ [(c, listing a2 c)]))"

definition start_lobby :: "(nat \<Rightarrow> nat) \<Rightarrow> nat \<Rightarrow> nat \<Rightarrow> lobby \<Rightarrow> outcome" where
  "start_lobby rand h g a =
     (let seed = 1 + rand (lb_draws a) mod 0xFFFF;
          names = [the (nick a h), the (nick a g)]
      in (a\<lparr>lb_table := (lb_table a)(h \<mapsto> (h, g, True), g \<mapsto> (h, g, True)), lb_draws := Suc (lb_draws a)\<rparr>,
          [(h, MsgStart 0 seed names), (g, MsgStart 1 seed names)]))"

definition join_lobby :: "(nat \<Rightarrow> nat) \<Rightarrow> bool \<Rightarrow> nat \<Rightarrow> pystr \<Rightarrow> lobby \<Rightarrow> outcome" where
  "join_lobby rand auto c n a =
     (if nick a c = None then leave_lobby c a
      else if lb_table a c \<noteq> None then (a, [])
      else case holder a n of
             None \<Rightarrow> (a, [(c, listing a c)])
           | Some t \<Rightarrow>
               if t = c \<or> lb_table a t \<noteq> None then (a, [(c, listing a c)])
               else
                 (let a1 = a\<lparr>lb_table := (lb_table a)(t \<mapsto> (t, c, False), c \<mapsto> (t, c, False))\<rparr>;
                      room = MsgRoom [the (nick a t), the (nick a c)];
                      (a2, out) = (if auto then start_lobby rand t c a1 else (a1, []))
                  in (a2, [(t, room), (c, room)] @ out)))"

definition go_lobby :: "(nat \<Rightarrow> nat) \<Rightarrow> nat \<Rightarrow> lobby \<Rightarrow> outcome" where
  "go_lobby rand c a =
     (case lb_table a c of
        Some (h, g, False) \<Rightarrow> if c = h then start_lobby rand h g a else (a, [])
      | _ \<Rightarrow> (a, []))"

definition relay_lobby :: "nat \<Rightarrow> message \<Rightarrow> lobby \<Rightarrow> outcome" where
  "relay_lobby c m a =
     (case lb_table a c of
        Some (h, g, True) \<Rightarrow> (a, [(if c = h then g else h, m)])
      | _ \<Rightarrow> (a, []))"

definition obey :: "(nat \<Rightarrow> nat) \<Rightarrow> bool \<Rightarrow> nat \<Rightarrow> command \<Rightarrow> lobby \<Rightarrow> outcome" where
  "obey rand auto c cmd a =
     (case cmd of
        CmdHello n \<Rightarrow> hello_lobby c n a
      | CmdList \<Rightarrow> (a, [(c, listing a c)])
      | CmdJoin n \<Rightarrow> join_lobby rand auto c n a
      | CmdGo \<Rightarrow> go_lobby rand c a
      | CmdBye \<Rightarrow> leave_lobby c a
      | CmdPing \<Rightarrow> (a, [(c, MsgPong)])
      | CmdRelay t p \<Rightarrow> relay_lobby c (MsgRelay t p) a
      | CmdBad \<Rightarrow> leave_lobby c a)"

section \<open>The messages on the wire\<close>

definition padded :: "pystr \<Rightarrow> bytes" where
  "padded n = map of_nat n @ replicate (8 - length n) 0"

definition seats :: "pystr list \<Rightarrow> bytes" where
  "seats ns = concat (map padded ns) @ replicate (8 * (4 - length ns)) 0"

definition entry :: "pystr \<times> bool \<Rightarrow> bytes" where
  "entry e = padded (fst e) @ [if snd e then 0x82 else 1]"

text \<open>A body without its length byte; \<open>delay\<close> is the input delay the relay hands out in START.\<close>

definition body_of :: "byte \<Rightarrow> message \<Rightarrow> bytes" where
  "body_of delay m =
     (case m of
        MsgLobby es \<Rightarrow> T_LOBBY # of_nat (length es) # concat (map entry es)
      | MsgRoom ns \<Rightarrow> T_ROOM # of_nat (length ns) # seats ns
      | MsgStart seat seed ns \<Rightarrow>
          [T_START, of_nat seat, of_nat (length ns), of_nat (seed mod 256), of_nat (seed div 256), delay] @ seats ns
      | MsgLeft seat n \<Rightarrow> T_PEER_LEFT # of_nat seat # padded n
      | MsgRelay t p \<Rightarrow> t # p
      | MsgPong \<Rightarrow> [T_PONG])"

definition post_to :: "byte \<Rightarrow> (nat \<times> message) list \<Rightarrow> nat \<Rightarrow> bytes" where
  "post_to delay out d = concat (map (\<lambda>(_, m). wire_of (body_of delay m)) (filter (\<lambda>p. fst p = d) out))"

lemma post_to_simps [simp]:
  "post_to delay [] d = []"
  "post_to delay ((c, m) # out) d = (if c = d then wire_of (body_of delay m) else []) @ post_to delay out d"
  by (simp_all add: post_to_def)

lemma post_to_append [simp]: "post_to delay (xs @ ys) d = post_to delay xs d @ post_to delay ys d"
  by (simp add: post_to_def)

section \<open>The commands on the wire\<close>

text \<open>Names come padded with zeros or blanks; \<open>JOIN\<close> takes any.\<close>

definition parse_hello :: "bytes \<Rightarrow> command" where
  "parse_hello p =
     (let n = rstrip_pad (decode_ascii (drop 1 p))
      in if 3 \<le> length p \<and> p ! 0 = PROTO_VER \<and> valid_name n then CmdHello n else CmdBad)"

definition parse :: "byte \<Rightarrow> bytes \<Rightarrow> command" where
  "parse t p =
     (if t \<in> set RELAY_TYPES then CmdRelay t p
      else if t = T_HELLO then parse_hello p
      else if t = T_LIST then CmdList
      else if t = T_JOIN then CmdJoin (rstrip_pad (decode_ascii p))
      else if t = T_GO then CmdGo
      else if t = T_BYE then CmdBye
      else if t = T_PING then CmdPing
      else CmdBad)"

section \<open>Its invariant\<close>

text \<open>
  Every registered player is connected, under one name held by nobody else; a table is known to
  exactly its two ends, who are registered players.
\<close>

definition lobby_fine :: "lobby \<Rightarrow> bool" where
  "lobby_fine a \<longleftrightarrow>
     distinct (map fst (lb_players a)) \<and> distinct (map snd (lb_players a)) \<and>
     (\<forall>(n, c) \<in> set (lb_players a). lb_up a c \<and> valid_name n) \<and>
     (\<forall>c h g b. lb_table a c = Some (h, g, b) \<longrightarrow>
        h \<noteq> g \<and> (c = h \<or> c = g) \<and> lb_table a h = Some (h, g, b) \<and> lb_table a g = Some (h, g, b) \<and>
        c \<in> snd ` set (lb_players a))"

text \<open>
  What holds of the relay even when its sockets fail: a dead connection may still be registered, and
  one that sits at a table need not be, but names, holders and tables are as they should be.
\<close>

definition lobby_sound :: "lobby \<Rightarrow> bool" where
  "lobby_sound a \<longleftrightarrow>
     distinct (map fst (lb_players a)) \<and> distinct (map snd (lb_players a)) \<and>
     (\<forall>(n, c) \<in> set (lb_players a). valid_name n) \<and>
     (\<forall>c h g b. lb_table a c = Some (h, g, b) \<longrightarrow>
        h \<noteq> g \<and> (c = h \<or> c = g) \<and> lb_table a h = Some (h, g, b) \<and> lb_table a g = Some (h, g, b) \<and>
        (lb_up a c \<longrightarrow> c \<in> snd ` set (lb_players a)))"

text \<open>Consistent is sound, and no dead connection registered or at a table.\<close>

lemma lobby_sound_fine:
  assumes "lobby_sound a" "\<And>n c. (n, c) \<in> set (lb_players a) \<Longrightarrow> lb_up a c" "\<And>c. lb_table a c \<noteq> None \<Longrightarrow> lb_up a c"
  shows "lobby_fine a"
proof -
  have "lb_up a c" if "lb_table a c = Some (h, g, b)" for c h g b using assms(3) [of c] that by simp
  with assms(1,2) show ?thesis unfolding lobby_sound_def lobby_fine_def by blast
qed

lemma nick_Some: "lobby_fine a \<Longrightarrow> nick a c = Some n \<longleftrightarrow> (n, c) \<in> set (lb_players a)"
proof -
  assume a: "lobby_fine a"
  have "distinct (map fst (map prod.swap (lb_players a)))"
    using a by (simp add: lobby_fine_def comp_def case_prod_beta)
  from map_of_eq_Some_iff [OF this, of c n] show ?thesis by (force simp: nick_def)
qed

lemma holder_Some: "lobby_fine a \<Longrightarrow> holder a n = Some c \<longleftrightarrow> (n, c) \<in> set (lb_players a)"
  by (simp add: holder_def lobby_fine_def)

lemma nick_None: "nick a c = None \<longleftrightarrow> c \<notin> snd ` set (lb_players a)"
  by (force simp: nick_def map_of_eq_None_iff)

lemma lobby_fineD:
  assumes "lobby_fine a"
  shows "distinct (map fst (lb_players a))" "distinct (map snd (lb_players a))"
    "\<And>n c. (n, c) \<in> set (lb_players a) \<Longrightarrow> lb_up a c \<and> valid_name n"
    "\<And>c h g b. lb_table a c = Some (h, g, b) \<Longrightarrow>
       h \<noteq> g \<and> (c = h \<or> c = g) \<and> lb_table a h = Some (h, g, b) \<and> lb_table a g = Some (h, g, b) \<and>
       c \<in> snd ` set (lb_players a)"
  using assms unfolding lobby_fine_def by blast+

lemma lobby_fineI:
  assumes "distinct (map fst (lb_players a))" "distinct (map snd (lb_players a))"
    "\<And>n c. (n, c) \<in> set (lb_players a) \<Longrightarrow> lb_up a c \<and> valid_name n"
    "\<And>c h g b. lb_table a c = Some (h, g, b) \<Longrightarrow>
       h \<noteq> g \<and> (c = h \<or> c = g) \<and> lb_table a h = Some (h, g, b) \<and> lb_table a g = Some (h, g, b) \<and>
       c \<in> snd ` set (lb_players a)"
  shows "lobby_fine a"
  using assms unfolding lobby_fine_def by blast

lemma distinct_map_filtered: "distinct (map f xs) \<Longrightarrow> distinct (map f (filter P xs))"
  by (simp add: distinct_map inj_on_def)

lemma leave_fields:
  "lb_up (fst (leave_lobby c a)) = (lb_up a)(c := False)"
  "lb_players (fst (leave_lobby c a)) = filter (\<lambda>p. snd p \<noteq> c) (lb_players a)"
  "lb_draws (fst (leave_lobby c a)) = lb_draws a"
  "lb_table (fst (leave_lobby c a)) =
     (case lb_table a c of None \<Rightarrow> lb_table a | Some (h, g, b) \<Rightarrow> (lb_table a)(h := None, g := None))"
  by (simp_all add: leave_lobby_def Let_def split: option.split prod.split)

lemma leave_fine:
  assumes fine: "lobby_fine a"
  shows "lobby_fine (fst (leave_lobby c a))"
proof (rule lobby_fineI)
  note parts = lobby_fineD [OF fine]
  show "distinct (map fst (lb_players (fst (leave_lobby c a))))" "distinct (map snd (lb_players (fst (leave_lobby c a))))"
    using parts(1,2) by (simp_all add: leave_fields distinct_map_filtered)
  show "lb_up (fst (leave_lobby c a)) d \<and> valid_name n" if "(n, d) \<in> set (lb_players (fst (leave_lobby c a)))" for n d
    using that parts(3) [of n d] by (simp add: leave_fields)
  fix d h g b assume t: "lb_table (fst (leave_lobby c a)) d = Some (h, g, b)"
  have old: "lb_table a d = Some (h, g, b)"
    using t by (auto simp: leave_fields split: option.splits if_splits)
  note d = parts(4) [OF old]
  have away: "lb_table (fst (leave_lobby c a)) x = lb_table a x" if "x = h \<or> x = g" for x
  proof (cases "lb_table a c")
    case (Some y)
    obtain h' g' b' where y: "y = (h', g', b')" by (rule prod_cases3)
    note c = parts(4) [OF Some [unfolded y]]
    have "x \<noteq> h' \<and> x \<noteq> g'"
    proof
      have "(h', g', b') \<noteq> (h, g, b)" using t d c Some y by (auto simp: leave_fields split: if_splits)
      then show "x \<noteq> h'" "x \<noteq> g'" using that c d by (metis option.inject)+
    qed
    then show ?thesis by (simp add: leave_fields Some y)
  qed (simp add: leave_fields)
  have "d \<noteq> c"
  proof
    assume "d = c"
    with old d t show False by (auto simp: leave_fields split: if_splits)
  qed
  then have "d \<in> snd ` set (filter (\<lambda>p. snd p \<noteq> c) (lb_players a))" using d by force
  with d away show "h \<noteq> g \<and> (d = h \<or> d = g) \<and> lb_table (fst (leave_lobby c a)) h = Some (h, g, b) \<and>
      lb_table (fst (leave_lobby c a)) g = Some (h, g, b) \<and> d \<in> snd ` set (lb_players (fst (leave_lobby c a)))"
    by (simp add: leave_fields(2))
qed

lemma register_fields [simp]:
  "lb_up (register c n a) = lb_up a" "lb_table (register c n a) = lb_table a"
  "lb_draws (register c n a) = lb_draws a"
  by (simp_all add: register_def)

lemma register_fine:
  assumes fine: "lobby_fine a" and c: "lb_up a c" "valid_name n" and free: "\<And>d. (n, d) \<in> set (lb_players a) \<Longrightarrow> d = c"
  shows "lobby_fine (register c n a)"
proof (cases "holder a n = Some c")
  case True
  then have "register c n a = a" by (simp add: register_def)
  with fine show ?thesis by simp
next
  case False
  note parts = lobby_fineD [OF fine]
  let ?ps = "filter (\<lambda>p. snd p \<noteq> c) (lb_players a) @ [(n, c)]"
  have ps: "lb_players (register c n a) = ?ps" using False by (simp add: register_def)
  have "n \<notin> fst ` set (filter (\<lambda>p. snd p \<noteq> c) (lb_players a))" using free by force
  then have "distinct (map fst ?ps)" "distinct (map snd ?ps)"
    using parts(1,2) by (auto simp: distinct_map_filtered)
  moreover have up: "lb_up a d \<and> valid_name m" if "(m, d) \<in> set ?ps" for m d using that parts(3) c by auto
  moreover have known: "d \<in> snd ` set ?ps" if "d \<in> snd ` set (lb_players a)" for d using that by force
  ultimately show ?thesis
  proof (intro lobby_fineI, unfold ps register_fields)
    show "h \<noteq> g \<and> (d = h \<or> d = g) \<and> lb_table a h = Some (h, g, b) \<and> lb_table a g = Some (h, g, b) \<and>
        d \<in> snd ` set ?ps" if "lb_table a d = Some (h, g, b)" for d h g b
      using parts(4) [OF that] known by blast
  qed
qed

lemma retable_fine:
  assumes fine: "lobby_fine a" and hg: "h \<noteq> g" "h \<in> snd ` set (lb_players a)" "g \<in> snd ` set (lb_players a)"
    and free: "\<And>x y. x = h \<or> x = g \<Longrightarrow> lb_table a x = Some y \<Longrightarrow> (fst y = h \<and> fst (snd y) = g)"
    and eq: "lb_table a' = (lb_table a)(h \<mapsto> (h, g, b), g \<mapsto> (h, g, b))" "lb_players a' = lb_players a" "lb_up a' = lb_up a"
  shows "lobby_fine a'"
proof (rule lobby_fineI)
  note parts = lobby_fineD [OF fine]
  show "distinct (map fst (lb_players a'))" "distinct (map snd (lb_players a'))" using parts(1,2) eq by simp_all
  show "lb_up a' c \<and> valid_name n" if "(n, c) \<in> set (lb_players a')" for n c using that parts(3) eq by simp
  fix c h' g' b' assume t: "lb_table a' c = Some (h', g', b')"
  show "h' \<noteq> g' \<and> (c = h' \<or> c = g') \<and> lb_table a' h' = Some (h', g', b') \<and> lb_table a' g' = Some (h', g', b') \<and>
      c \<in> snd ` set (lb_players a')"
  proof (cases "c = h \<or> c = g")
    case True
    with t eq hg show ?thesis by (auto split: if_splits)
  next
    case False
    with t eq have old: "lb_table a c = Some (h', g', b')" by simp
    note c = parts(4) [OF this]
    have "x \<noteq> h \<and> x \<noteq> g" if "x = h' \<or> x = g'" for x
      using that c free [of x "(h', g', b')"] False by auto
    with c eq show ?thesis by simp
  qed
qed

lemma start_fine:
  assumes "lobby_fine a" "lb_table a h = Some (h, g, b)"
  shows "lobby_fine (fst (start_lobby rand h g a))"
proof -
  note t = lobby_fineD(4) [OF assms]
  then have "g \<in> snd ` set (lb_players a)" using lobby_fineD(4) [OF assms(1), of g h g b] by blast
  moreover have "fst y = h \<and> fst (snd y) = g" if "x = h \<or> x = g" "lb_table a x = Some y" for x y
    using that t by auto
  ultimately show ?thesis
    using t by (intro retable_fine [OF assms(1), of h g _ True]) (simp_all add: start_lobby_def Let_def)
qed

lemma obey_fine:
  assumes fine: "lobby_fine a" and c: "lb_up a c" and hello: "\<And>n. cmd = CmdHello n \<Longrightarrow> valid_name n"
  shows "lobby_fine (fst (obey rand auto c cmd a))"
proof (cases cmd)
  case (CmdHello n)
  let ?o = "case holder a n of Some d \<Rightarrow> if d \<noteq> c then leave_lobby d a else (a, []) | None \<Rightarrow> (a, [])"
  have "lobby_fine (fst ?o)" using fine leave_fine by (auto split: option.split)
  moreover have "lb_up (fst ?o) c" using c by (auto simp: leave_fields split: option.split)
  moreover have "d = c" if "(n, d) \<in> set (lb_players (fst ?o))" for d
  proof -
    have "(n, d) \<in> set (lb_players a)"
      using that by (auto simp: leave_fields split: option.splits if_splits)
    then have "holder a n = Some d" using holder_Some [OF fine] by blast
    with that show ?thesis by (auto simp: leave_fields split: if_splits)
  qed
  ultimately have "lobby_fine (register c n (fst ?o))"
    using hello [OF CmdHello] by (intro register_fine)
  then show ?thesis by (simp add: CmdHello obey_def hello_lobby_def Let_def case_prod_beta)
next
  case (CmdJoin n)
  show ?thesis
  proof (cases "nick a c = None \<or> lb_table a c \<noteq> None")
    case False
    then have free: "lb_table a c = None" and "nick a c \<noteq> None"
      by (simp_all only: de_Morgan_disj not_not not_False_eq_True)
    then obtain m where m: "nick a c = Some m" by blast
    show ?thesis
    proof (cases "holder a n")
      case (Some t)
      show ?thesis
      proof (cases "t = c \<or> lb_table a t \<noteq> None")
        case False
        let ?a = "a\<lparr>lb_table := (lb_table a)(t \<mapsto> (t, c, False), c \<mapsto> (t, c, False))\<rparr>"
        have "(n, t) \<in> set (lb_players a)" "(m, c) \<in> set (lb_players a)"
          using Some m holder_Some [OF fine] nick_Some [OF fine] by blast+
        then have "t \<in> snd ` set (lb_players a)" "c \<in> snd ` set (lb_players a)" by force+
        then have a: "lobby_fine ?a"
          using False free by (intro retable_fine [OF fine, of t c ?a False]) auto
        moreover have "lobby_fine (fst (start_lobby rand t c ?a))"
          using False by (intro start_fine [OF a, of t c False]) simp
        ultimately show ?thesis
          using False Some m free
          by (simp add: CmdJoin obey_def join_lobby_def Let_def split: prod.split) (metis fst_conv)
      qed (use CmdJoin m free Some fine in \<open>auto simp: obey_def join_lobby_def\<close>)
    qed (use CmdJoin m free fine in \<open>auto simp: obey_def join_lobby_def\<close>)
  qed (use CmdJoin fine leave_fine in \<open>auto simp: obey_def join_lobby_def\<close>)
next
  case CmdGo
  show ?thesis
  proof (cases "lb_table a c")
    case (Some x)
    obtain h g b where x: "x = (h, g, b)" by (rule prod_cases3)
    have "lb_table a h = Some x" using lobby_fineD(4) [OF fine Some [unfolded x]] x by simp
    then have "lobby_fine (fst (start_lobby rand h g a))" using start_fine [OF fine] x by blast
    then show ?thesis using CmdGo Some x fine by (simp add: obey_def go_lobby_def split: bool.split)
  qed (simp add: CmdGo obey_def go_lobby_def fine)
next
  case (CmdRelay t p)
  then show ?thesis using fine by (simp add: obey_def relay_lobby_def split: option.split prod.split bool.split)
qed (use fine leave_fine in \<open>simp_all add: obey_def\<close>)

section \<open>Its runs\<close>

text \<open>
  A connection is made, obeys a command, or ends without one (the peer vanished, or was too slow
  to register). The messages are collected in the order in which they are sent.
\<close>

inductive lobby_run :: "(nat \<Rightarrow> nat) \<Rightarrow> bool \<Rightarrow> lobby \<Rightarrow> (nat \<times> message) list \<Rightarrow> lobby \<Rightarrow> bool"
  for rand auto a where
  stays: "lobby_run rand auto a [] a"
| connects: "lobby_run rand auto a out b \<Longrightarrow> \<not> lb_up b c \<Longrightarrow>
    lobby_run rand auto a out (b\<lparr>lb_up := (lb_up b)(c := True)\<rparr>)"
| obeys: "lobby_run rand auto a out b \<Longrightarrow> lb_up b c \<Longrightarrow>
    lobby_run rand auto a (out @ snd (obey rand auto c (parse t p) b)) (fst (obey rand auto c (parse t p) b))"
| leaves: "lobby_run rand auto a out b \<Longrightarrow> lb_up b c \<Longrightarrow>
    lobby_run rand auto a (out @ snd (leave_lobby c b)) (fst (leave_lobby c b))"

lemma lobby_run_trans:
  "lobby_run rand auto b out' c \<Longrightarrow> lobby_run rand auto a out b \<Longrightarrow> lobby_run rand auto a (out @ out') c"
proof (induction rule: lobby_run.induct)
  case stays
  then show ?case by simp
next
  case (connects out' b' c)
  from lobby_run.connects [OF connects.IH [OF connects.prems] connects.hyps(2)] show ?case by simp
next
  case (obeys out' b' c t p)
  from lobby_run.obeys [OF obeys.IH [OF obeys.prems] obeys.hyps(2)] show ?case by simp
next
  case (leaves out' b' c)
  from lobby_run.leaves [OF leaves.IH [OF leaves.prems] leaves.hyps(2)] show ?case by simp
qed

lemma parse_valid: "parse t p = CmdHello n \<Longrightarrow> valid_name n"
  by (auto simp: parse_def parse_hello_def Let_def split: if_splits)

lemma lobby_run_fine: "lobby_run rand auto a out b \<Longrightarrow> lobby_fine a \<Longrightarrow> lobby_fine b"
proof (induction rule: lobby_run.induct)
  case (connects out b c)
  let ?b = "b\<lparr>lb_up := (lb_up b)(c := True)\<rparr>"
  note parts = lobby_fineD [OF connects.IH [OF connects.prems]]
  have same: "lb_players ?b = lb_players b" "lb_table ?b = lb_table b" by simp_all
  show ?case
  proof (rule lobby_fineI, unfold same)
    show "lb_up ?b d \<and> valid_name n" if "(n, d) \<in> set (lb_players b)" for n d
      using parts(3) [OF that] by simp
  qed (fact parts(1), fact parts(2), erule parts(4))
next
  case (obeys out b c t p)
  then show ?case using parse_valid by (intro obey_fine) blast+
next
  case (leaves out b c)
  then show ?case using leave_fine by blast
qed

definition empty_lobby :: lobby where
  "empty_lobby = \<lparr> lb_up = (\<lambda>_. False), lb_players = [], lb_table = (\<lambda>_. None), lb_draws = 0 \<rparr>"

lemma empty_fine: "lobby_fine empty_lobby"
  by (simp add: lobby_fine_def empty_lobby_def)

end
