(* ===== verification/Abstraction.thy ===== *)
theory Abstraction
  imports Lobby Drained Behaviour
begin

text \<open>
  The abstraction function \<open>lobby_of\<close> from the relay's state to \<open>Lobby\<close>, what it makes of
  sending over sockets that take what they are given, and the refinement of \<open>Server.drop\<close>:
  whoever is dropped leaves the lobby as \<open>leave_lobby\<close> says.
\<close>

section \<open>The abstraction\<close>

definition table_of :: "server \<Rightarrow> cid \<Rightarrow> (cid \<times> cid \<times> bool) option" where
  "table_of s c =
     (if c < sv_nclient s
      then (case room_of s c of
              None \<Rightarrow> None
            | Some r \<Rightarrow> (case members s r of [h, g] \<Rightarrow> Some (h, g, rm_started (sv_room s r)) | _ \<Rightarrow> None))
      else None)"

definition lobby_of :: "server \<Rightarrow> lobby" where
  "lobby_of s =
     \<lparr> lb_up = (\<lambda>c. \<not> is_dead s c), lb_players = sv_by_name s, lb_table = table_of s,
       lb_draws = sv_draws s \<rparr>"

text \<open>
  A consistent relay whose sockets work and have taken everything, and which knows no dead client:
  \<open>zombie_name\<close> shows how failing sockets leave one behind.
\<close>

definition tidy :: "server \<Rightarrow> bool" where
  "tidy s \<longleftrightarrow>
     INV s \<and> delay_ok s \<and> accepting s \<and> drained s \<and>
     (\<forall>(n, c) \<in> set (sv_by_name s). \<not> is_dead s c) \<and>
     (\<forall>c < sv_nclient s. is_dead s c \<longrightarrow> room_of s c = None) \<and>
     (\<forall>c. sv_nclient s \<le> c \<longrightarrow> stream s c = [])"

definition posted :: "server \<Rightarrow> (cid \<Rightarrow> bytes) \<Rightarrow> server \<Rightarrow> bool" where
  "posted s f t \<longleftrightarrow> (\<forall>d. stream t d = stream s d @ f d)"

text \<open>Two states that differ in what was sent and logged, and in the counts and the publisher.\<close>

definition undisturbed :: "server \<Rightarrow> server \<Rightarrow> bool" where
  "undisturbed s t \<longleftrightarrow>
     (\<forall>d. is_dead t d = is_dead s d) \<and> (\<forall>d. name_of t d = name_of s d) \<and> (\<forall>d. room_of t d = room_of s d) \<and>
     sv_room t = sv_room s \<and> sv_nroom t = sv_nroom s \<and> sv_nclient t = sv_nclient s \<and>
     sv_by_name t = sv_by_name s \<and> sv_delay t = sv_delay s \<and> sv_auto_go t = sv_auto_go s \<and>
     sv_draws t = sv_draws s \<and> sv_rand t = sv_rand s \<and> sv_net t = sv_net s \<and>
     (accepting s \<and> drained s \<longrightarrow> drained t)"

lemma undisturbed_trans: "undisturbed s t \<Longrightarrow> undisturbed t u \<Longrightarrow> undisturbed s u"
  by (simp add: undisturbed_def accepting_def)

lemma posted_trans: "posted s f t \<Longrightarrow> posted t g u \<Longrightarrow> posted s (\<lambda>d. f d @ g d) u"
  by (simp add: posted_def)

lemma undisturbed_members: "undisturbed s t \<Longrightarrow> members t r = members s r"
  by (simp add: undisturbed_def members_def)

lemma table_cong:
  "sv_nclient t = sv_nclient s \<Longrightarrow> room_of t d = room_of s d \<Longrightarrow> (\<And>r. members t r = members s r) \<Longrightarrow>
     (\<And>r. rm_started (sv_room t r) = rm_started (sv_room s r)) \<Longrightarrow> table_of t d = table_of s d"
  by (simp only: table_of_def)

lemma undisturbed_lobby_of: "undisturbed s t \<Longrightarrow> lobby_of t = lobby_of s"
proof -
  assume a: "undisturbed s t"
  then have "table_of t c = table_of s c" for c
    using undisturbed_members [OF a] by (intro table_cong) (simp_all add: undisturbed_def)
  with a show ?thesis by (simp add: undisturbed_def lobby_of_def fun_eq_iff)
qed

lemma add_log_access [simp]:
  "is_dead (add_log e s) d = is_dead s d" "name_of (add_log e s) d = name_of s d"
  "room_of (add_log e s) d = room_of s d" "members (add_log e s) r = members s r"
  "stream (add_log e s) d = stream s d"
  by (simp_all add: access_defs stream_def)

lemma undisturbed_log: "undisturbed s (add_log e s)"
  by (simp add: undisturbed_def drained_def)

lemma undisturbed_lobby: "undisturbed s (lobby_update s)"
  by (simp add: undisturbed_def drained_def)

lemma posted_log: "posted s (\<lambda>_. []) (add_log e s)"
  by (simp add: posted_def)

lemma posted_lobby: "posted s (\<lambda>_. []) (lobby_update s)"
  by (simp add: posted_def)

section \<open>Sending over sockets that work\<close>

lemma transmit_accepted:
  assumes "accepting s" "drained s" "\<not> is_dead s c" "length d \<le> MAX_TX_BACKLOG"
  shows "\<exists>t. transmit c d s = (Inr (), t) \<and> undisturbed s t \<and> posted s (\<lambda>x. if x = c then d else []) t"
proof -
  have q: "accepting (queue c d s)" using assms(1) by (simp add: accepting_def queue_def)
  from flush_accepting [OF this] obtain k where k: "flush drop_client c (queue c d s) =
    (Inr (), update_events c (upd_client c (\<lambda>cl. cl\<lparr>cl_calls := k, cl_tx := [],
       cl_sent := cl_sent cl @ cl_tx (sv_client (queue c d s) c)\<rparr>) (queue c d s)))"
    by blast
  let ?t = "update_events c (upd_client c (\<lambda>cl. cl\<lparr>cl_calls := k, cl_tx := [],
       cl_sent := cl_sent cl @ cl_tx (sv_client (queue c d s) c)\<rparr>) (queue c d s))"
  have "transmit c d s = (Inr (), ?t)" using assms k by (simp add: send_def drained_def)
  moreover have "undisturbed s ?t"
    by (simp add: undisturbed_def update_events_def queue_def access_defs drained_def split: option.split)
  moreover have "posted s (\<lambda>x. if x = c then d else []) ?t"
    using assms(2) by (simp add: posted_def stream_def queue_def drained_def)
  ultimately show ?thesis by blast
qed

lemma pair_accepted:
  assumes ok: "accepting s" "drained s" and mem: "members s r = [a, b]" "a \<noteq> b"
    and live: "\<not> is_dead s a" "\<not> is_dead s b" and len: "\<And>i. i < 2 \<Longrightarrow> length (d i) \<le> MAX_TX_BACKLOG"
  shows "\<exists>t. for_members r (\<lambda>i m. transmit m (d i)) s = (Inr (), t) \<and> undisturbed s t \<and>
    posted s (\<lambda>x. if x = a then d 0 else if x = b then d 1 else []) t"
proof -
  obtain u where u: "transmit a (d 0) s = (Inr (), u)" "undisturbed s u"
    "posted s (\<lambda>x. if x = a then d 0 else []) u"
    using transmit_accepted [OF ok live(1)] len by (metis zero_less_numeral)
  have "accepting u" "drained u" "\<not> is_dead u b"
    using u(2) ok live by (simp_all add: undisturbed_def accepting_def)
  then obtain t where t: "transmit b (d 1) u = (Inr (), t)" "undisturbed u t"
    "posted u (\<lambda>x. if x = b then d 1 else []) t"
    using transmit_accepted [of u b "d 1"] len by auto
  have "for_members r (\<lambda>i m. transmit m (d i)) s = (Inr (), t)"
    using for_members_pair [of s r a b "\<lambda>i m. transmit m (d i)" u] mem(1) u t undisturbed_members [OF u(2)] by simp
  moreover have "undisturbed s t" using u(2) t(2) by (rule undisturbed_trans)
  moreover have "posted s (\<lambda>x. if x = a then d 0 else if x = b then d 1 else []) t"
    using posted_trans [OF u(3) t(3)] mem(2) by (auto simp: posted_def)
  ultimately show ?thesis by blast
qed

section \<open>Reading the abstraction\<close>

lemma tidyD:
  assumes "tidy s"
  shows "INV s" "delay_ok s" "accepting s" "drained s"
    "\<And>n c. (n, c) \<in> set (sv_by_name s) \<Longrightarrow> \<not> is_dead s c"
    "\<And>c r. c < sv_nclient s \<Longrightarrow> room_of s c = Some r \<Longrightarrow> \<not> is_dead s c"
    "\<And>c. sv_nclient s \<le> c \<Longrightarrow> stream s c = []"
  using assms by (auto simp: tidy_def)

lemma table_pair:
  assumes "INV s" "c < sv_nclient s" "room_of s c = Some r"
  obtains h g where "table_of s c = Some (h, g, rm_started (sv_room s r))" "members s r = [h, g]"
    "h \<noteq> g" "c = h \<or> c = g" "room_of s h = Some r" "room_of s g = Some r"
    "h < sv_nclient s" "g < sv_nclient s" "name_of s h \<noteq> None" "name_of s g \<noteq> None"
proof -
  obtain h g where m: "members s r = [h, g]" "h \<noteq> g" "c = h \<or> c = g"
    "room_of s h = Some r" "room_of s g = Some r" "h < sv_nclient s" "g < sv_nclient s"
    using room_pair [OF assms] by metis
  have "name_of s h \<noteq> None" "name_of s g \<noteq> None"
    using rooms_okD [OF INV_D(4) [OF assms(1)] assms(2,3)] room_fineD(4) [of s r] m(1) by auto
  with m show ?thesis by (intro that [of h g]) (simp_all add: table_of_def assms)
qed

lemma table_None: "INV s \<Longrightarrow> c < sv_nclient s \<Longrightarrow> table_of s c = None \<longleftrightarrow> room_of s c = None"
  by (cases "room_of s c") (auto simp: table_of_def elim: table_pair)

lemma table_Some:
  assumes "INV s" "table_of s c = Some (h, g, b)"
  obtains r where "room_of s c = Some r" "members s r = [h, g]" "b = rm_started (sv_room s r)"
    "h \<noteq> g" "c = h \<or> c = g" "room_of s h = Some r" "room_of s g = Some r"
    "c < sv_nclient s" "h < sv_nclient s" "g < sv_nclient s" "name_of s h \<noteq> None" "name_of s g \<noteq> None"
proof -
  have c: "c < sv_nclient s" using assms(2) by (simp add: table_of_def split: if_splits)
  with assms obtain r where r: "room_of s c = Some r" by (cases "room_of s c") (auto simp: table_of_def)
  from table_pair [OF assms(1) c r] show ?thesis
    using assms(2) that [OF r] c by (metis Pair_inject option.inject)
qed

lemma lobby_of_simps [simp]:
  "lb_up (lobby_of s) c \<longleftrightarrow> \<not> is_dead s c" "lb_players (lobby_of s) = sv_by_name s"
  "lb_table (lobby_of s) = table_of s" "lb_draws (lobby_of s) = sv_draws s"
  by (simp_all add: lobby_of_def)

lemma registered: "INV s \<Longrightarrow> c \<in> snd ` set (sv_by_name s) \<Longrightarrow> name_of s c \<noteq> None"
  using names_ok_entry [OF INV_D(1)] by fastforce

lemma named_registered:
  "INV s \<Longrightarrow> \<not> is_dead s c \<Longrightarrow> name_of s c = Some n \<Longrightarrow> (n, c) \<in> set (sv_by_name s)"
  using names_ok_live [OF INV_D(1)] .

lemma INV_sound:
  assumes inv: "INV s"
  shows "lobby_sound (lobby_of s)"
proof -
  note names = INV_D(1) [OF inv]
  have "inj_on snd (set (sv_by_name s))"
  proof (rule inj_onI)
    fix x y assume "x \<in> set (sv_by_name s)" "y \<in> set (sv_by_name s)" "snd x = snd y"
    then have "name_of s (snd x) = Some (fst x)" "name_of s (snd x) = Some (fst y)" "snd x = snd y"
      using names_ok_entry [OF names] by (metis prod.collapse)+
    then show "x = y" by (simp add: prod_eq_iff)
  qed
  moreover have "distinct (map fst (sv_by_name s))" using names_ok_wf [OF names] by (simp add: dwf_def dkeys_def)
  ultimately have "distinct (map fst (sv_by_name s)) \<and> distinct (map snd (sv_by_name s))"
    by (simp add: distinct_map)
  moreover have "valid_name n" if "(n, c) \<in> set (sv_by_name s)" for n c
    using names_ok_entry [OF names that] names_ok_valid [OF names] by blast
  moreover have "h \<noteq> g \<and> (c = h \<or> c = g) \<and> table_of s h = Some (h, g, b) \<and> table_of s g = Some (h, g, b) \<and>
      (\<not> is_dead s c \<longrightarrow> c \<in> snd ` set (sv_by_name s))" if c: "table_of s c = Some (h, g, b)" for c h g b
  proof -
    from c obtain r where r: "room_of s c = Some r" "members s r = [h, g]" "b = rm_started (sv_room s r)"
      "h \<noteq> g" "c = h \<or> c = g" "room_of s h = Some r" "room_of s g = Some r"
      "c < sv_nclient s" "h < sv_nclient s" "g < sv_nclient s" "name_of s h \<noteq> None" "name_of s g \<noteq> None"
      by (rule table_Some [OF inv])
    then have "name_of s c \<noteq> None" by auto
    then have "\<not> is_dead s c \<longrightarrow> c \<in> snd ` set (sv_by_name s)" using named_registered [OF inv] by force
    moreover have "table_of s h = Some (h, g, b)" "table_of s g = Some (h, g, b)"
      using r by (simp_all add: table_of_def)
    ultimately show ?thesis using r by blast
  qed
  ultimately show ?thesis unfolding lobby_sound_def lobby_of_simps by blast
qed

lemma tidy_fine:
  assumes "tidy s"
  shows "lobby_fine (lobby_of s)"
proof (rule lobby_sound_fine [OF INV_sound [OF tidyD(1) [OF assms]]])
  show "lb_up (lobby_of s) c" if "(n, c) \<in> set (lb_players (lobby_of s))" for n c
    using tidyD(5) [OF assms, of n c] that by simp
  show "lb_up (lobby_of s) c" if "lb_table (lobby_of s) c \<noteq> None" for c
    using tidyD(6) [OF assms, of c] that by (auto simp: table_of_def split: if_splits option.splits)
qed

text \<open>A state whose abstraction is consistent is tidy if the rest is.\<close>

lemma tidyI:
  assumes "INV s" "delay_ok s" "accepting s" "drained s" "lobby_fine (lobby_of s)"
    "\<And>c. sv_nclient s \<le> c \<Longrightarrow> stream s c = []"
  shows "tidy s"
proof -
  have "room_of s c = None" if c: "c < sv_nclient s" "is_dead s c" for c
  proof (rule ccontr)
    assume "room_of s c \<noteq> None"
    then have "table_of s c \<noteq> None" using table_None [OF assms(1) c(1)] by simp
    then obtain x where "table_of s c = Some x" by blast
    then have "table_of s c = Some (fst x, fst (snd x), snd (snd x))" by simp
    then have "c \<in> snd ` set (sv_by_name s)" using assms(5) unfolding lobby_fine_def lobby_of_simps by blast
    then obtain n where "(n, c) \<in> set (lb_players (lobby_of s))" by auto
    from lobby_fineD(3) [OF assms(5) this] c(2) show False by simp
  qed
  moreover have "\<not> is_dead s c" if "(n, c) \<in> set (sv_by_name s)" for n c
    using lobby_fineD(3) [OF assms(5)] that by (simp add: lobby_of_def)
  ultimately show ?thesis using assms(1-4,6) unfolding tidy_def by blast
qed

lemma nick_lobby:
  assumes "tidy s" "c < sv_nclient s" "\<not> is_dead s c"
  shows "nick (lobby_of s) c = name_of s c"
proof (cases "name_of s c")
  case None
  then have "c \<notin> snd ` set (sv_by_name s)" using registered [OF tidyD(1) [OF assms(1)]] by blast
  with None show ?thesis using nick_None by simp
next
  case (Some n)
  then have "(n, c) \<in> set (sv_by_name s)" using named_registered [OF tidyD(1) [OF assms(1)] assms(3)] by blast
  with Some show ?thesis using nick_Some [OF tidy_fine [OF assms(1)], of c n] by simp
qed

section \<open>Leaving\<close>

lemma fold_ddel_filter: "fold (\<lambda>n d. ddel d n) ns d = filter (\<lambda>p. fst p \<notin> set ns) d"
  by (induction ns arbitrary: d) (auto simp: ddel_def intro!: filter_cong)

lemma forget_names_exact:
  assumes "names_ok s"
  shows "sv_by_name (forget_names c s) = filter (\<lambda>p. snd p \<noteq> c) (sv_by_name s)"
proof -
  let ?stale = "map fst (filter (\<lambda>(n, x). x = c) (sv_by_name s))"
  have "sv_by_name (forget_names c s) = fold (\<lambda>n d. ddel d n) ?stale (sv_by_name s)"
    by (simp add: forget_names_def Let_def)
  also have "\<dots> = filter (\<lambda>p. fst p \<notin> set ?stale) (sv_by_name s)"
    by (rule fold_ddel_filter)
  also have "\<dots> = filter (\<lambda>p. snd p \<noteq> c) (sv_by_name s)"
  proof (rule filter_cong [OF refl])
    fix p assume p: "p \<in> set (sv_by_name s)"
    have "snd p = c" if "fst p \<in> set ?stale"
    proof -
      from that obtain d where "(fst p, d) \<in> set (sv_by_name s)" "d = c" by auto
      then have "dget (sv_by_name s) (fst p) = Some c" "dget (sv_by_name s) (fst p) = Some (snd p)"
        using p dget_in [OF names_ok_wf [OF assms]] by (metis prod.collapse)+
      then show ?thesis by simp
    qed
    moreover have "fst p \<in> set ?stale" if "snd p = c" using p that by force
    ultimately show "fst p \<notin> set ?stale \<longleftrightarrow> snd p \<noteq> c" by blast
  qed
  finally show ?thesis .
qed

lemma room_ends:
  "INV s \<Longrightarrow> d < sv_nclient s \<Longrightarrow> room_of s d = Some r \<Longrightarrow> members s r = [h, g] \<Longrightarrow> d = h \<or> d = g"
  using rooms_okD [OF INV_D(4)] by fastforce

text \<open>What is left when \<open>c\<close> has gone and the room, if any, is empty.\<close>

lemma lobby_left:
  assumes inv: "INV s" and c: "\<not> is_dead s c" and calm: "calm s t"
    and dead: "\<And>d. is_dead t d = (d = c \<or> is_dead s d)"
    and names: "sv_by_name t = filter (\<lambda>p. snd p \<noteq> c) (sv_by_name s)"
    and rooms: "\<And>d. room_of t d =
      (case room_of s c of None \<Rightarrow> room_of s d | Some r \<Rightarrow> if d \<in> set (members s r) then None else room_of s d)"
    and mems: "\<And>q. room_of s c \<noteq> Some q \<Longrightarrow> members t q = members s q"
  shows "lobby_of t = fst (leave_lobby c (lobby_of s))"
proof -
  have n: "sv_nclient t = sv_nclient s" "sv_draws t = sv_draws s"
    "\<And>q. rm_started (sv_room t q) = rm_started (sv_room s q)"
    using calm by (simp_all add: calm_def)
  have c': "c < sv_nclient s" using c by (simp add: is_dead_def)
  have same: "table_of t d = table_of s d"
    if "room_of t d = room_of s d" "d < sv_nclient s \<longrightarrow> room_of s d = None \<or> room_of s d \<noteq> room_of s c" for d
    using that mems n by (auto simp: table_of_def split: option.split list.split)
  have "lb_table (fst (leave_lobby c (lobby_of s))) = table_of t"
  proof (cases "room_of s c")
    case None
    then have "table_of s c = None" using table_None [OF inv c'] by simp
    moreover have "table_of t d = table_of s d" for d by (rule same) (use None rooms in auto)
    ultimately show ?thesis by (simp add: leave_fields fun_eq_iff)
  next
    case (Some r)
    from table_pair [OF inv c' Some] obtain h g where t: "table_of s c = Some (h, g, rm_started (sv_room s r))"
      "members s r = [h, g]" "h \<noteq> g" "c = h \<or> c = g" by metis
    have "table_of t d = (if d = h \<or> d = g then None else table_of s d)" for d
    proof (cases "d = h \<or> d = g")
      case True
      then have "room_of t d = None" using rooms [of d] Some t(2) by auto
      with True show ?thesis by (simp add: table_of_def)
    next
      case False
      then have "table_of t d = table_of s d"
        using rooms [of d] Some t(2) room_ends [OF inv _ _ t(2), of d] by (intro same) auto
      with False show ?thesis by simp
    qed
    with t show ?thesis by (auto simp: leave_fields fun_eq_iff)
  qed
  moreover have "lb_up (lobby_of t) = lb_up (fst (leave_lobby c (lobby_of s)))"
    using dead by (simp add: leave_fields fun_eq_iff)
  ultimately show ?thesis
    using names n by (intro lobby.equality) (simp_all add: leave_fields)
qed

text \<open>The room's last member goes solo and the room is empty.\<close>

definition emptied :: "rid \<Rightarrow> cid \<Rightarrow> server \<Rightarrow> server \<Rightarrow> bool" where
  "emptied r m s t \<longleftrightarrow>
     (\<forall>d. is_dead t d = is_dead s d) \<and> sv_by_name t = sv_by_name s \<and>
     (\<forall>d. room_of t d = (if d = m then None else room_of s d)) \<and>
     (\<forall>q. members t q = (if q = r then [] else members s q))"

lemma working:
  "accepting (detach_members r s) = accepting s" "drained (detach_members r s) = drained s"
  "accepting (clear_members r s) = accepting s" "drained (clear_members r s) = drained s"
  "accepting (add_log e s) = accepting s" "drained (add_log e s) = drained s"
  "accepting (depart c r s) = accepting s" "drained (depart c r s) = drained s"
  "accepting (forget_names c s) = accepting s" "drained (forget_names c s) = drained s"
  "accepting (mark_dead c w s) = accepting s" "drained (mark_dead c w s) = drained s"
  using calm_detach [of s r] calm_clear [of s r] calm_log [of s e] calm_depart [of s c r]
    calm_forget_names [of s c] calm_mark_dead [of s c w]
  by (auto simp: calm_def accepting_def drained_def mark_dead_def Let_def)

lemma end_match_accepted:
  assumes ok: "accepting s" "drained s" and mem: "members s r = [m]" and live: "\<not> is_dead s m"
    and pl: "peer_left s c st = Inr d" "length d \<le> MAX_TX_BACKLOG"
  shows "\<exists>t. end_match drop_client c r st s = (Inr (), t) \<and> emptied r m s t \<and>
    posted s (\<lambda>x. if x = m then d else []) t"
proof -
  let ?s1 = "add_log (LMatchEnded (rm_crc_ok (sv_room s r)) (client_repr s c) st) s"
  let ?s2 = "clear_members r (detach_members r ?s1)"
  have mem1: "members ?s1 r = [m]" using mem by simp
  have "peer_left ?s1 c st = peer_left s c st" by (rule peer_left_cong) simp
  with pl have pl1: "peer_left ?s1 c st = Inr d" by simp
  have "\<not> is_dead ?s2 m" using live by simp
  from transmit_accepted [OF _ _ this pl(2)] ok obtain u where u: "transmit m d ?s2 = (Inr (), u)"
    "undisturbed ?s2 u" "posted ?s2 (\<lambda>x. if x = m then d else []) u"
    by (auto simp: working)
  let ?t = "add_log (LBackToLobby (client_repr u m)) u"
  have "end_match drop_client c r st s = (Inr (), ?t)"
    using mem1 pl1 u(1) by (simp add: end_match_def dissolve_nobody act_run)
  moreover have "emptied r m s ?t"
    using u(2) mem undisturbed_members [OF u(2)] by (simp add: emptied_def undisturbed_def)
  moreover have "posted s (\<lambda>x. if x = m then d else []) ?t"
    using u(3) by (simp add: posted_def)
  ultimately show ?thesis by blast
qed

lemma dissolve_accepted:
  assumes ok: "accepting s" "drained s" and mem: "members s r = [m]" and live: "\<not> is_dead s m"
  shows "\<exists>t. dissolve drop_client r [m] s = (Inr (), t) \<and> emptied r m s t \<and>
    posted s (\<lambda>x. if x = m then wire_of (T_ROOM # 0 # replicate 32 0) else []) t"
proof -
  let ?d = "detach_members r s"
  let ?w = "wire_of (T_ROOM # 0 # replicate 32 0)"
  have "length ?w \<le> MAX_TX_BACKLOG" "\<not> is_dead ?d m" using live by (simp_all add: wire_of_def MAX_TX_BACKLOG_def)
  from transmit_accepted [OF _ _ this(2,1)] ok obtain u where u: "transmit m ?w ?d = (Inr (), u)"
    "undisturbed ?d u" "posted ?d (\<lambda>x. if x = m then ?w else []) u"
    by (auto simp: working)
  have "dissolve drop_client r [m] s = (Inr (), clear_members r u)"
    using u(1) by (simp add: dissolve_def frame_wire_of act_run)
  moreover have "emptied r m s (clear_members r u)"
    using u(2) mem undisturbed_members [OF u(2)] by (simp add: emptied_def undisturbed_def)
  moreover have "posted s (\<lambda>x. if x = m then ?w else []) (clear_members r u)"
    using u(3) by (simp add: posted_def)
  ultimately show ?thesis by blast
qed

lemma leave_forming_accepted:
  assumes ok: "accepting s" "drained s" and mem: "members s r = [m]" and live: "\<not> is_dead s m"
  shows "\<exists>t. leave_forming drop_client r st s = (Inr (), t) \<and> emptied r m s t \<and>
    posted s (\<lambda>x. if x = m then wire_of (T_ROOM # 0 # replicate 32 0) else []) t"
proof (cases "st = 0")
  case True
  let ?s = "add_log (LDissolvedHostLeft (room_repr s r)) s"
  have "members ?s r = [m]" "\<not> is_dead ?s m" using mem live by simp_all
  with dissolve_accepted [of ?s r m] ok obtain t where t: "dissolve drop_client r [m] ?s = (Inr (), t)"
    "emptied r m ?s t" "posted ?s (\<lambda>x. if x = m then wire_of (T_ROOM # 0 # replicate 32 0) else []) t"
    by (auto simp: working)
  moreover have "leave_forming drop_client r st s = dissolve drop_client r [m] ?s"
    using True mem by (simp add: leave_forming_def act_run)
  ultimately show ?thesis by (auto simp: emptied_def posted_def)
next
  case False
  then have "leave_forming drop_client r st s = dissolve drop_client r [m] s"
    using mem by (simp add: leave_forming_def act_run)
  with dissolve_accepted [OF assms] show ?thesis by simp
qed

lemma body_room_Nil: "body_of delay (MsgRoom []) = T_ROOM # 0 # replicate 32 0"
  by (simp add: body_of_def seats_def)

lemma pad_name_padded: "valid_name n \<Longrightarrow> pad_name (Some n) = Inr (padded n)"
  by (simp add: pad_name_valid padded_def)

lemma length_padded: "valid_name n \<Longrightarrow> length (padded n) = 8"
  by (simp add: padded_def valid_name_def)

lemma peer_left_wire:
  assumes "name_of s c = Some n" "valid_name n" "st < 256"
  shows "peer_left s c st = Inr (wire_of (body_of delay (MsgLeft st n)))"
  using assms by (simp add: peer_left_def pad_name_padded length_padded frame_wire_of body_of_def)

text \<open>The room part of \<open>drop\<close>.\<close>

lemma leave_room_accepted:
  assumes ok: "accepting s" "drained s" and mem: "members s r = [h, g]" "h \<noteq> g" "c = h \<or> c = g"
    and m: "m = (if c = h then g else h)" "\<not> is_dead s m" "c \<noteq> m" and n: "name_of s c = Some n" "valid_name n"
  shows "\<exists>t. leave_room drop_client c r s = (Inr (), t) \<and>
    (\<forall>d. is_dead t d = is_dead s d) \<and> sv_by_name t = sv_by_name s \<and>
    (\<forall>d. room_of t d = (if d = h \<or> d = g then None else room_of s d)) \<and>
    (\<forall>q. q \<noteq> r \<longrightarrow> members t q = members s q) \<and>
    posted s (post_to delay [(m, if rm_started (sv_room s r) then MsgLeft (if c = h then 0 else 1) n else MsgRoom [])]) t"
proof -
  define st :: nat where "st = (if c = h then 0 else 1)"
  let ?s = "depart c r s"
  let ?m = "if rm_started (sv_room s r) then end_match drop_client c r st else leave_forming drop_client r st"
  let ?msg = "if rm_started (sv_room s r) then MsgLeft st n else MsgRoom []"
  have cm: "c \<in> set (members s r)" using mem by auto
  have mem2: "members ?s r = [m]" "\<not> is_dead ?s m" using mem m by auto
  have ok2: "accepting ?s" "drained ?s" using ok by (simp_all add: working)
  have pl: "peer_left ?s c st = Inr (wire_of (body_of delay (MsgLeft st n)))"
    using n by (intro peer_left_wire) (simp_all add: st_def)
  have len: "length (wire_of (body_of delay (MsgLeft st n))) \<le> MAX_TX_BACKLOG"
    using n by (simp add: wire_of_def body_of_def length_padded MAX_TX_BACKLOG_def)
  have "\<exists>u. ?m ?s = (Inr (), u) \<and> emptied r m ?s u \<and>
      posted ?s (\<lambda>x. if x = m then wire_of (body_of delay ?msg) else []) u"
    using end_match_accepted [OF ok2 mem2 pl len]
      leave_forming_accepted [OF ok2 mem2, of st, folded body_room_Nil [of delay]]
    by (cases "rm_started (sv_room s r)") simp_all
  then obtain u where u: "?m ?s = (Inr (), u)" "emptied r m ?s u"
      "posted ?s (\<lambda>x. if x = m then wire_of (body_of delay ?msg) else []) u"
    by blast
  have "list_index (members s r) c = Inr st" using mem by (auto simp: st_def)
  moreover have "rm_started (sv_room ?s r) = rm_started (sv_room s r)" by (simp add: depart_def upd_room_def)
  ultimately have "leave_room drop_client c r s = (Inr (), lobby_update u)"
    using u(1) by (simp add: leave_room_def depart_run [OF cm] bnd_run [of "if _ then _ else _"] modify_def)
  moreover have "posted s (post_to delay [(m, ?msg)]) (lobby_update u)"
    using u(3) by (auto simp: posted_def)
  note this [unfolded st_def]
  moreover have "room_of u d = (if d = h \<or> d = g then None else room_of s d)" for d
    using u(2) mem(2,3) m(1) by (auto simp: emptied_def)
  moreover have "is_dead u d = is_dead s d" "sv_by_name u = sv_by_name s" "q \<noteq> r \<Longrightarrow> members u q = members s q" for d q
    using u(2) by (simp_all add: emptied_def)
  ultimately show ?thesis
    by (intro exI [of _ "lobby_update u"]) (simp del: post_to_simps)
qed

lemma leave_accepted:
  assumes t: "tidy s" and c: "\<not> is_dead s c"
  shows "\<exists>t. drop_client c w s = (Inr (), t) \<and> tidy t \<and>
    lobby_of t = fst (leave_lobby c (lobby_of s)) \<and>
    posted s (post_to delay (snd (leave_lobby c (lobby_of s)))) t"
proof -
  note inv = tidyD(1) [OF t]
  have c': "c < sv_nclient s" using c by (simp add: is_dead_def)
  let ?s = "forget_names c (mark_dead c w s)"
  have names: "sv_by_name ?s = filter (\<lambda>p. snd p \<noteq> c) (sv_by_name s)"
  proof -
    have "names_ok (mark_dead c w s)" by (rule INV_D(1) [OF INV_mark_dead [OF INV_weaken [OF inv] c]]) simp
    from forget_names_exact [OF this] show ?thesis by (simp add: mark_dead_def Let_def)
  qed
  have "\<exists>u. drop_client c w s = (Inr (), u) \<and> (\<forall>d. is_dead u d = (d = c \<or> is_dead s d)) \<and>
      sv_by_name u = filter (\<lambda>p. snd p \<noteq> c) (sv_by_name s) \<and>
      (\<forall>d. room_of u d =
        (case room_of s c of None \<Rightarrow> room_of s d | Some r \<Rightarrow> if d \<in> set (members s r) then None else room_of s d)) \<and>
      (\<forall>q. room_of s c \<noteq> Some q \<longrightarrow> members u q = members s q) \<and>
      posted s (post_to delay (snd (leave_lobby c (lobby_of s)))) u"
  proof (cases "room_of s c")
    case None
    then have "table_of s c = None" using table_None [OF inv c'] by simp
    then have "posted s (post_to delay (snd (leave_lobby c (lobby_of s)))) ?s"
      by (simp add: leave_lobby_def posted_def)
    with None c names show ?thesis
      by (intro exI [of _ ?s]) (simp add: drop_unfold_live is_dead_mark_dead)
  next
    case (Some r)
    obtain h g where tb: "table_of s c = Some (h, g, rm_started (sv_room s r))" "members s r = [h, g]"
      "h \<noteq> g" "c = h \<or> c = g" "room_of s h = Some r" "room_of s g = Some r"
      "h < sv_nclient s" "g < sv_nclient s" "name_of s h \<noteq> None" "name_of s g \<noteq> None"
      by (rule table_pair [OF inv c' Some])
    define m where "m = (if c = h then g else h)"
    have m: "c \<noteq> m" "\<not> is_dead s m" using tb tidyD(6) [OF t] by (auto simp: m_def)
    obtain n where n: "name_of s c = Some n" using tb by auto
    then have v: "valid_name n" using names_ok_valid [OF INV_D(1) [OF inv] c'] by blast
    have live: "\<not> is_dead ?s m" using m by (simp add: is_dead_mark_dead)
    have "\<exists>u. leave_room drop_client c r ?s = (Inr (), u) \<and>
      (\<forall>d. is_dead u d = is_dead ?s d) \<and> sv_by_name u = sv_by_name ?s \<and>
      (\<forall>d. room_of u d = (if d = h \<or> d = g then None else room_of ?s d)) \<and>
      (\<forall>q. q \<noteq> r \<longrightarrow> members u q = members ?s q) \<and>
      posted ?s (post_to delay [(m, if rm_started (sv_room ?s r) then MsgLeft (if c = h then 0 else 1) n else MsgRoom [])]) u"
      using tb tidyD(3,4) [OF t] n v m(1)
      by (intro leave_room_accepted [OF _ _ _ tb(3,4) m_def live m(1)]) (simp_all add: working)
    then obtain u where u: "leave_room drop_client c r ?s = (Inr (), u)"
      "\<forall>d. is_dead u d = is_dead ?s d" "sv_by_name u = sv_by_name ?s"
      "\<forall>d. room_of u d = (if d = h \<or> d = g then None else room_of ?s d)"
      "\<forall>q. q \<noteq> r \<longrightarrow> members u q = members ?s q"
      "posted ?s (post_to delay [(m, if rm_started (sv_room ?s r) then MsgLeft (if c = h then 0 else 1) n else MsgRoom [])]) u"
      by blast
    have st: "rm_started (sv_room ?s r) = rm_started (sv_room s r)" by (simp add: mark_dead_def Let_def)
    have "snd (leave_lobby c (lobby_of s)) =
        [(m, if rm_started (sv_room s r) then MsgLeft (if c = h then 0 else 1) n else MsgRoom [])]"
      using tb(1) nick_lobby [OF t c' c] n by (simp add: leave_lobby_def m_def)
    with u(6) st have "posted s (post_to delay (snd (leave_lobby c (lobby_of s)))) u"
      by (simp add: posted_def)
    with u names Some tb(2) c show ?thesis
      by (intro exI [of _ u]) (simp add: drop_unfold_live is_dead_mark_dead)
  qed
  then obtain u where u: "drop_client c w s = (Inr (), u)" "\<forall>d. is_dead u d = (d = c \<or> is_dead s d)"
      "sv_by_name u = filter (\<lambda>p. snd p \<noteq> c) (sv_by_name s)"
      "\<forall>d. room_of u d =
        (case room_of s c of None \<Rightarrow> room_of s d | Some r \<Rightarrow> if d \<in> set (members s r) then None else room_of s d)"
      "\<forall>q. room_of s c \<noteq> Some q \<longrightarrow> members u q = members s q"
      "posted s (post_to delay (snd (leave_lobby c (lobby_of s)))) u"
    by blast
  have calm: "calm s u" using keepsD [OF drops.drp_calm, of s c w] u(1) by simp
  have l: "lobby_of u = fst (leave_lobby c (lobby_of s))"
    using u by (intro lobby_left [OF inv c calm]) blast+
  have "INV u" using safeD [OF drop_safe [OF calm_stable_True, of c w], of s] inv u(1) by simp
  moreover have "drains s u" using keepsD [OF drains_drop, of s c w] u(1) by simp
  moreover have "stream u d = []" if "sv_nclient u \<le> d" for d
  proof -
    have "sv_nclient s \<le> d" using that calm by (simp add: calm_def)
    then show ?thesis using calm_stream_dead [OF calm] tidyD(7) [OF t] by (simp add: is_dead_def)
  qed
  ultimately have "tidy u"
    using calm tidyD(2-4) [OF t] leave_fine [OF tidy_fine [OF t], of c] l
    by (intro tidyI) (simp_all add: drains_def delay_ok_def calm_def accepting_def)
  with u l show ?thesis by blast
qed

end
