(* ===== verification/Refine.thy ===== *)
theory Refine
  imports Abstraction
begin

text \<open>
  The refinement of the handlers: over sockets that take what they are given, a frame takes the
  abstract lobby where the specification says, and every client's stream grows by exactly the
  messages the specification sends it.
\<close>

section \<open>Listing\<close>

lemma status_table:
  assumes "INV s" "d < sv_nclient s"
  shows "status s d = (if table_of s d = None then 1 else 0x82)"
proof (cases "room_of s d")
  case None
  then show ?thesis using table_None [OF assms] by (simp add: status_def)
next
  case (Some r)
  from table_pair [OF assms Some] obtain h g where "table_of s d = Some (h, g, rm_started (sv_room s r))"
    "members s r = [h, g]" by metis
  moreover have "(128 :: nat) OR Suc (Suc 0) = 130" by (simp add: numeral_2_eq_2 [symmetric])
  ultimately show ?thesis using Some by (simp add: status_def MAX_SEATS_def)
qed

lemma list_entries_wire:
  assumes inv: "INV s"
  shows "set ps \<subseteq> set (sv_by_name s) \<Longrightarrow>
    list_entries s (map snd ps) = Inr (concat (map entry (map (\<lambda>(n, d). (n, table_of s d \<noteq> None)) ps)))"
proof (induction ps)
  case (Cons p ps)
  obtain n d where p: "p = (n, d)" by fastforce
  then have d: "d < sv_nclient s" "name_of s d = Some n"
    using names_ok_entry [OF INV_D(1) [OF inv], of n d] Cons.prems by auto
  moreover have "valid_name n" using names_ok_valid [OF INV_D(1) [OF inv] d] .
  moreover have "mk_byte (int (status s d)) = Inr (if table_of s d = None then 1 else 0x82)"
    using status_table [OF inv d(1)] by simp
  ultimately show ?case
    using Cons p by (cases "table_of s d") (auto simp: pad_name_padded entry_def)
qed simp

lemma list_others_lobby:
  assumes inv: "INV s"
  shows "list_others s c = map snd (others (lobby_of s) c)"
proof -
  have "filter (\<lambda>d. d \<noteq> c \<and> name_of s d \<noteq> None \<and> name_of s d \<noteq> Some []) (map snd ps) =
      map snd (filter (\<lambda>p. snd p \<noteq> c) ps)" if "set ps \<subseteq> set (sv_by_name s)" for ps
    using that
  proof (induction ps)
    case (Cons p ps)
    then have "(fst p, snd p) \<in> set (sv_by_name s)" by simp
    then have "snd p < sv_nclient s" "name_of s (snd p) = Some (fst p)"
      using names_ok_entry [OF INV_D(1) [OF inv]] by blast+
    moreover from this have "valid_name (fst p)" using names_ok_valid [OF INV_D(1) [OF inv]] by blast
    then have "fst p \<noteq> []" by (auto simp: valid_name_def)
    ultimately show ?case using Cons by simp
  qed simp
  then show ?thesis by (simp add: list_others_def others_def take_map)
qed

lemma lobby_payload_wire:
  assumes inv: "INV s"
  shows "frame T_LOBBY (case lobby_payload s c of Inr p \<Rightarrow> p) = Inr (wire_of (body_of delay (listing (lobby_of s) c))) \<and>
    (\<exists>p. lobby_payload s c = Inr p)"
proof -
  let ?ps = "others (lobby_of s) c"
  have "set ?ps \<subseteq> set (sv_by_name s)" by (auto simp: others_def dest: in_set_takeD)
  from list_entries_wire [OF inv this]
  have e: "list_entries s (list_others s c) =
      Inr (concat (map entry (map (\<lambda>(n, d). (n, table_of s d \<noteq> None)) ?ps)))"
    by (simp add: list_others_lobby [OF inv])
  have len: "length (list_others s c) \<le> 8" by (simp add: list_others_def)
  have same: "length ?ps = length (list_others s c)" by (simp add: list_others_lobby [OF inv])
  have p: "lobby_payload s c = Inr (of_nat (length ?ps) #
      concat (map entry (map (\<lambda>(n, d). (n, table_of s d \<noteq> None)) ?ps)))"
    using e len by (simp add: lobby_payload_def Let_def same del: map_map)
  obtain q where q: "lobby_payload s c = Inr q" "length q = 1 + 9 * length (list_others s c)"
    using lobby_payload_ok [OF inv] by blast
  with len have "length q \<le> 254" by simp
  with p q show ?thesis by (simp add: frame_wire_of body_of_def listing_def del: map_map)
qed

lemma on_list_accepted:
  assumes t: "tidy s" and c: "\<not> is_dead s c"
  shows "\<exists>t. on_list c s = (Inr (), t) \<and> undisturbed s t \<and>
    posted s (post_to delay [(c, listing (lobby_of s) c)]) t"
proof -
  let ?w = "wire_of (body_of delay (listing (lobby_of s) c))"
  obtain p where p: "lobby_payload s c = Inr p" "frame T_LOBBY p = Inr ?w"
    using lobby_payload_wire [OF tidyD(1) [OF t], of c delay] by auto
  have "length ?w \<le> MAX_TX_BACKLOG"
    using frame_Inr [OF p(2)] by (simp add: wire_of_def MAX_TX_BACKLOG_def)
  from transmit_accepted [OF tidyD(3,4) [OF t] c this] obtain t where
    "transmit c ?w s = (Inr (), t)" "undisturbed s t" "posted s (\<lambda>x. if x = c then ?w else []) t"
    by blast
  then show ?thesis
    using p by (intro exI [of _ t]) (auto simp: on_list_def posted_def)
qed

section \<open>Registering\<close>

lemma dset_same: "dget d k = Some v \<Longrightarrow> dset d k v = d"
  by (induction d) (auto split: if_splits)

lemma dget_holder: "dget d k = map_of d k"
  by (induction d) auto

lemma registered_players:
  assumes t: "tidy s" and c: "\<not> is_dead s c" and free: "\<And>d. dget (sv_by_name s) n = Some d \<Longrightarrow> d = c"
  shows "sv_by_name (renamed c n s) = lb_players (register c n (lobby_of s))"
proof (cases "dget (sv_by_name s) n = Some c")
  case True
  then have "name_of s c = Some n"
    using names_ok_entry [OF INV_D(1) [OF tidyD(1) [OF t]]] dget_Some_in by metis
  then have "sv_by_name (drop_alias c n s) = sv_by_name s" by (simp add: drop_alias_by_name)
  with True show ?thesis by (simp add: dset_same register_def holder_def dget_holder [symmetric])
next
  case False
  note names = INV_D(1) [OF tidyD(1) [OF t]]
  have "sv_by_name (drop_alias c n s) = filter (\<lambda>p. snd p \<noteq> c) (sv_by_name s)"
  proof (cases "name_of s c")
    case None
    then have "snd p \<noteq> c" if "p \<in> set (sv_by_name s)" for p
      using that names_ok_entry [OF names, of "fst p" "snd p"] by auto
    then have "filter (\<lambda>p. snd p \<noteq> c) (sv_by_name s) = sv_by_name s" by simp
    with None show ?thesis by (simp add: drop_alias_by_name)
  next
    case (Some old)
    have entry: "(old, c) \<in> set (sv_by_name s)" using names_ok_live [OF names c Some] .
    then have get: "dget (sv_by_name s) old = Some c" using dget_in [OF names_ok_wf [OF names]] by blast
    with False have "old \<noteq> n" by auto
    moreover have "ddel (sv_by_name s) old = filter (\<lambda>p. snd p \<noteq> c) (sv_by_name s)"
      unfolding ddel_def case_prod_beta
    proof (rule filter_cong [OF refl])
      fix p assume p: "p \<in> set (sv_by_name s)"
      have "snd p = c" if "fst p = old"
        using that p get dget_in [OF names_ok_wf [OF names], of "fst p" "snd p"]
        by (metis option.inject prod.collapse)
      moreover have "fst p = old" if "snd p = c"
        using that p Some names_ok_entry [OF names, of "fst p" "snd p"]
        by (metis option.inject prod.collapse)
      ultimately show "(fst p \<noteq> old) = (snd p \<noteq> c)" by blast
    qed
    ultimately show ?thesis using Some get by (simp add: drop_alias_by_name)
  qed
  moreover have "dget (sv_by_name s) n = None" using False free by (cases "dget (sv_by_name s) n") auto
  then have "dget (filter (\<lambda>p. snd p \<noteq> c) (sv_by_name s)) n = None"
    unfolding dget_None by auto
  ultimately show ?thesis
    using False by (simp add: dset_absent register_def holder_def dget_holder [symmetric])
qed

lemma lobby_of_renamed:
  assumes "tidy s" "\<not> is_dead s c" "\<And>d. dget (sv_by_name s) n = Some d \<Longrightarrow> d = c"
  shows "lobby_of (lobby_update (renamed c n s)) = register c n (lobby_of s)"
proof -
  have "table_of (lobby_update (renamed c n s)) d = table_of s d" for d
    by (rule table_cong) simp_all
  moreover have "sv_draws (renamed c n s) = sv_draws s"
    by (simp add: renamed_def set_name_def drop_alias_def Let_def split: option.split)
  ultimately show ?thesis
    using registered_players [OF assms] by (intro lobby.equality) (simp_all add: fun_eq_iff)
qed

lemma on_hello_accepted:
  assumes t: "tidy s" and c: "\<not> is_dead s c" and n: "hello_name payload = Inr n"
  shows "\<exists>t. on_hello c payload s = (Inr (), t) \<and> lobby_of t = fst (hello_lobby c n (lobby_of s)) \<and>
    posted s (post_to delay (snd (hello_lobby c n (lobby_of s)))) t \<and>
    (holder (lobby_of s) n = None \<longrightarrow> undisturbed (lobby_update (renamed c n s)) t)"
proof -
  let ?m = "case dget (sv_by_name s) n of None \<Rightarrow> ret ()
    | Some d \<Rightarrow> if d \<noteq> c then drop_client d WhyReplaced else ret ()"
  let ?o = "case holder (lobby_of s) n of Some d \<Rightarrow> if d \<noteq> c then leave_lobby d (lobby_of s) else (lobby_of s, [])
    | None \<Rightarrow> (lobby_of s, [])"
  have hold: "holder (lobby_of s) n = dget (sv_by_name s) n" by (simp add: holder_def dget_holder)
  have "\<exists>u. ?m s = (Inr (), u) \<and> tidy u \<and> lobby_of u = fst ?o \<and> posted s (post_to delay (snd ?o)) u"
  proof (cases "\<exists>d. dget (sv_by_name s) n = Some d \<and> d \<noteq> c")
    case True
    then obtain d where d: "dget (sv_by_name s) n = Some d" "d \<noteq> c" by blast
    then have "\<not> is_dead s d" using tidyD(5) [OF t] dget_Some_in by fast
    from leave_accepted [OF t this, of WhyReplaced delay] d hold show ?thesis by simp
  next
    case False
    then show ?thesis using t hold by (auto simp: ret_def posted_def split: option.split)
  qed
  then obtain u where u: "?m s = (Inr (), u)" "tidy u" "lobby_of u = fst ?o" "posted s (post_to delay (snd ?o)) u"
    by blast
  have up: "lb_up (lobby_of u) c" using u(3) c hold by (auto simp: leave_fields split: option.split)
  then have cu: "\<not> is_dead u c" by simp
  have free: "d = c" if d: "dget (sv_by_name u) n = Some d" for d
  proof -
    have "(n, d) \<in> set (lb_players (fst ?o))" using d u(3) dget_Some_in [of "sv_by_name u" n d]
      by (metis lobby_of_simps(2))
    then show ?thesis
      using hold dget_in [OF names_ok_wf [OF INV_D(1) [OF tidyD(1) [OF t]]], of n d]
      by (auto simp: leave_fields split: option.splits if_splits)
  qed
  let ?v = "lobby_update (renamed c n u)"
  have lv: "lobby_of ?v = register c n (fst ?o)" using lobby_of_renamed [OF u(2) cu free] u(3) by simp
  have "name_free c n u"
    using name_free_dropped [OF tidyD(1) [OF u(2)] calm_refl] free by blast
  then have "INV ?v"
    using INV_renamed [OF tidyD(1) [OF u(2)] _ hello_name_valid [OF n]] cu by (simp add: is_dead_def)
  moreover have "lobby_fine (lobby_of ?v)"
  proof -
    have "d = c" if "(n, d) \<in> set (lb_players (lobby_of u))" for d
      using that free dget_in [OF names_ok_wf [OF INV_D(1) [OF tidyD(1) [OF u(2)]]]] by simp
    from register_fine [OF tidy_fine [OF u(2)] up hello_name_valid [OF n] this] show ?thesis using lv u(3) by simp
  qed
  moreover have "drained ?v" "delay_ok ?v" "accepting ?v"
    using tidyD(2-4) [OF u(2)]
    by (simp_all add: drained_def delay_ok_def accepting_def renamed_def set_name_def drop_alias_def Let_def
        split: option.split)
  moreover have "stream ?v d = []" if "sv_nclient ?v \<le> d" for d using tidyD(7) [OF u(2)] that by simp
  ultimately have v: "tidy ?v" by (intro tidyI)
  have "\<not> is_dead ?v c" using cu by simp
  from on_list_accepted [OF v this] obtain t where w: "on_list c ?v = (Inr (), t)" "undisturbed ?v t"
    "posted ?v (post_to delay [(c, listing (lobby_of ?v) c)]) t" by blast
  have "on_hello c payload s = (Inr (), t)"
    using n u(1) w(1) by (simp add: on_hello_def renamed_def act_run bnd_run [of ?m])
  moreover have "hello_lobby c n (lobby_of s) =
      (register c n (fst ?o), snd ?o @ [(c, listing (register c n (fst ?o)) c)])"
    by (simp add: hello_lobby_def Let_def case_prod_beta)
  moreover have "posted u (\<lambda>_. []) ?v" by (simp add: posted_def)
  moreover have "u = s" if "holder (lobby_of s) n = None" using that hold u(1) by (simp add: ret_def)
  ultimately show ?thesis
    using posted_trans [OF posted_trans [OF u(4) \<open>posted u (\<lambda>_. []) ?v\<close>] w(3)] undisturbed_lobby_of [OF w(2)] lv w(2)
    by (auto simp: posted_def)
qed

section \<open>Starting\<close>

lemma seats_wire:
  assumes "members s r = [h, g]" "name_of s h = Some m" "name_of s g = Some n" "valid_name m" "valid_name n"
  shows "roster s r = Inr (seats [m, n])" "length (seats [m, n]) = 32"
  using assms
  by (simp_all add: roster_def pad_name_padded seats_def ROSTER_SLOTS_def length_padded numeral_2_eq_2 [symmetric])

lemma start_frame_wire:
  assumes mem: "members s r = [h, g]" and n: "name_of s h = Some m" "name_of s g = Some n" "valid_name m" "valid_name n"
    and d: "delay_ok s" and seed: "rm_seed (sv_room s r) \<le> 0xFFFF"
  shows "\<exists>common. start_common s r = Inr common \<and> (\<forall>st < 256. start_frame common st =
    Inr (wire_of (body_of (word_of_int (sv_delay s)) (MsgStart st (rm_seed (sv_room s r)) [m, n]))))"
proof -
  let ?seed = "rm_seed (sv_room s r)"
  have hi: "drop_bit 8 ?seed < 256" "drop_bit 8 ?seed = ?seed div 256"
    using seed by (simp_all add: drop_bit_eq_div)
  have lo: "?seed AND 0xFF = ?seed mod 256"
    using take_bit_eq_mask [of 8 ?seed] by (simp add: mask_eq_exp_minus_1 take_bit_eq_mod)
  have "start_common s r = Inr ([2, of_nat (?seed mod 256), of_nat (?seed div 256), word_of_int (sv_delay s)] @ seats [m, n])"
    using hi lo d seats_wire [OF mem n] mem
    by (simp add: start_common_def delay_ok_def del: of_nat_mod of_nat_div)
  moreover have "length (seats [m, n]) \<le> 32" using seats_wire [OF mem n] by simp
  ultimately show ?thesis by (simp add: start_frame_def frame_wire_of body_of_def del: of_nat_mod of_nat_div)
qed

lemma start_run:
  assumes inv: "INV s" and ok: "accepting s" "drained s" "delay_ok s"
    and c: "c < sv_nclient s" "room_of s c = Some r" and mem: "members s r = [h, g]"
    and live: "\<not> is_dead s h" "\<not> is_dead s g" and xy: "name_of s h = Some x" "name_of s g = Some y"
    and seed: "seed = 1 + sv_rand s (sv_draws s) mod 0xFFFF"
  shows "\<exists>u. start_room r s = (Inr (), lobby_update (add_log (LStarted (room_repr u r) (length (members u r))
      (rm_seed (sv_room u r))) u)) \<and> undisturbed (begin_match r s) u \<and>
    posted (begin_match r s) (\<lambda>d. if d = h then wire_of (body_of (word_of_int (sv_delay s)) (MsgStart 0 seed [x, y]))
      else if d = g then wire_of (body_of (word_of_int (sv_delay s)) (MsgStart 1 seed [x, y])) else []) u"
proof -
  let ?s = "begin_match r s"
  let ?delay = "word_of_int (sv_delay s) :: byte"
  from table_pair [OF inv c] mem have hg: "h \<noteq> g" "h < sv_nclient s" "g < sv_nclient s"
    by (metis list.inject)+
  then have v: "valid_name x" "valid_name y" using names_ok_valid [OF INV_D(1) [OF inv]] xy by blast+
  have seed': "rm_seed (sv_room ?s r) = seed" "seed \<le> 0xFFFF" by (simp_all add: seed)
  let ?w = "\<lambda>i. wire_of (body_of ?delay (MsgStart i seed [x, y]))"
  have "members ?s r = [h, g]" "delay_ok ?s" "sv_delay ?s = sv_delay s" using mem ok(3) by (simp_all add: delay_ok_def)
  with start_frame_wire [of ?s r h g x y] xy v seed'
  obtain common where com: "start_common ?s r = Inr common" "\<forall>i < 256. start_frame common i = Inr (?w i)"
    by auto
  have "length (?w i) \<le> MAX_TX_BACKLOG" for i
    using seats_wire(2) [OF mem xy v] by (simp add: wire_of_def body_of_def MAX_TX_BACKLOG_def)
  moreover have "accepting ?s" "drained ?s" using ok by (simp_all add: accepting_def drained_def)
  ultimately obtain u where u: "for_members r (\<lambda>i m. transmit m (?w i)) ?s = (Inr (), u)" "undisturbed ?s u"
    "posted ?s (\<lambda>d. if d = h then ?w 0 else if d = g then ?w 1 else []) u"
    using pair_accepted [of ?s r h g ?w] mem hg(1) live by auto
  have "for_members r (\<lambda>i m. bnd (lift (start_frame common i)) (transmit m)) ?s = (Inr (), u)"
    using for_members_cong_frames [of ?s r "start_frame common" ?w] com(2) mem u(1) by simp
  then have "start_room r s = (Inr (), lobby_update (add_log (LStarted (room_repr u r) (length (members u r))
      (rm_seed (sv_room u r))) u))"
    using com(1) by (simp add: start_room_def act_run del: begin_match_simps begin_match_access)
  with u(2,3) show ?thesis by blast
qed

lemma start_accepted:
  assumes inv: "INV s" and ok: "accepting s" "drained s" "delay_ok s"
    and c: "c < sv_nclient s" "room_of s c = Some r" and mem: "members s r = [h, g]"
    and live: "\<not> is_dead s h" "\<not> is_dead s g" and n: "nick (lobby_of s) h = name_of s h" "nick (lobby_of s) g = name_of s g"
  shows "\<exists>t. start_room r s = (Inr (), t) \<and> lobby_of t = fst (start_lobby (sv_rand s) h g (lobby_of s)) \<and>
    posted s (post_to (word_of_int (sv_delay s)) (snd (start_lobby (sv_rand s) h g (lobby_of s)))) t"
proof -
  let ?s = "begin_match r s"
  let ?delay = "word_of_int (sv_delay s) :: byte"
  from table_pair [OF inv c] mem have hg: "h \<noteq> g" "room_of s h = Some r" "room_of s g = Some r"
    "h < sv_nclient s" "g < sv_nclient s" "name_of s h \<noteq> None" "name_of s g \<noteq> None"
    by (metis list.inject)+
  then obtain x y where xy: "name_of s h = Some x" "name_of s g = Some y" by blast
  define seed where "seed = 1 + sv_rand s (sv_draws s) mod 0xFFFF"
  let ?w = "\<lambda>i. wire_of (body_of ?delay (MsgStart i seed [x, y]))"
  from start_run [OF inv ok c mem live xy seed_def] obtain u where u:
    "start_room r s = (Inr (), lobby_update (add_log (LStarted (room_repr u r) (length (members u r))
      (rm_seed (sv_room u r))) u))" (is "_ = (_, ?t)")
    "undisturbed ?s u" "posted ?s (\<lambda>d. if d = h then ?w 0 else if d = g then ?w 1 else []) u" by blast
  have "table_of u d = (if d = h \<or> d = g then Some (h, g, True) else table_of s d)" for d
  proof -
    have "table_of u d = table_of ?s d" using undisturbed_lobby_of [OF u(2)] by (simp add: lobby_of_def)
    moreover have "table_of ?s d = Some (h, g, True)" if "d = h \<or> d = g"
      using that hg mem by (auto simp: table_of_def)
    moreover have "table_of ?s d = table_of s d" if "d \<noteq> h" "d \<noteq> g"
    proof (cases "d < sv_nclient s \<and> room_of s d = Some r")
      case True
      with room_ends [OF inv _ _ mem] that show ?thesis by blast
    qed (auto simp: table_of_def split: option.split list.split)
    ultimately show ?thesis by auto
  qed
  then have "table_of ?t = (table_of s)(h \<mapsto> (h, g, True), g \<mapsto> (h, g, True))"
    using table_cong [of ?t u] by (auto simp: fun_eq_iff)
  moreover have "sv_draws u = Suc (sv_draws s)" using u(2) by (simp add: undisturbed_def begin_match_def)
  ultimately have "lobby_of ?t = fst (start_lobby (sv_rand s) h g (lobby_of s))"
    using u(2) by (intro lobby.equality) (simp_all add: start_lobby_def Let_def undisturbed_def fun_eq_iff)
  moreover have "posted s (post_to ?delay (snd (start_lobby (sv_rand s) h g (lobby_of s)))) ?t"
  proof -
    have "snd (start_lobby (sv_rand s) h g (lobby_of s)) = [(h, MsgStart 0 seed [x, y]), (g, MsgStart 1 seed [x, y])]"
      using n xy by (simp add: start_lobby_def Let_def seed_def)
    with u(3) hg(1) show ?thesis by (auto simp: posted_def)
  qed
  ultimately show ?thesis using u(1) by blast
qed

section \<open>Joining\<close>

lemma nick_cong: "lb_players a = lb_players b \<Longrightarrow> nick a c = nick b c"
  by (simp add: nick_def)

text \<open>The new room, before anybody is told.\<close>

lemma joined_lobby:
  assumes inv: "INV s" and tc: "t \<noteq> c" "t < sv_nclient s" "c < sv_nclient s" "room_of s t = None" "room_of s c = None"
  shows "lobby_of (enter_room c (sv_nroom s) (make_room t s)) =
    (lobby_of s)\<lparr>lb_table := (table_of s)(t \<mapsto> (t, c, False), c \<mapsto> (t, c, False))\<rparr>"
proof -
  let ?s = "enter_room c (sv_nroom s) (make_room t s)"
  have rooms: "rm_started (sv_room ?s q) = (if q = sv_nroom s then False else rm_started (sv_room s q))" for q
    by (simp add: enter_room_def make_room_def Let_def new_room_def)
  have fresh: "q \<noteq> sv_nroom s" if "d < sv_nclient s" "room_of s d = Some q" for d q
    using rooms_okD [OF INV_D(4) [OF inv] that] room_fineD(1) by blast
  have "table_of ?s d = (if d = t \<or> d = c then Some (t, c, False) else table_of s d)" for d
    using tc rooms fresh [of d] by (auto simp: table_of_def split: option.split list.split)
  moreover have "sv_draws ?s = sv_draws s" by (simp add: enter_room_def make_room_def Let_def)
  ultimately show ?thesis by (intro lobby.equality) (simp_all add: fun_eq_iff)
qed

lemma join_room_accepted:
  assumes t: "tidy s" and live: "\<not> is_dead s t" "\<not> is_dead s c" and tc: "t \<noteq> c" "room_of s t = None" "room_of s c = None"
    and n: "name_of s t = Some x" "name_of s c = Some y" and reg: "holder (lobby_of s) z = Some t"
    and auto: "auto = (sv_auto_go s \<noteq> 0 \<and> sv_auto_go s \<le> 2)"
  shows "\<exists>u. join_room c t s = (Inr (), u) \<and> lobby_of u = fst (join_lobby (sv_rand s) auto c z (lobby_of s)) \<and>
    posted s (post_to (word_of_int (sv_delay s)) (snd (join_lobby (sv_rand s) auto c z (lobby_of s)))) u"
proof -
  let ?r = "sv_nroom s"
  let ?s = "enter_room c ?r (make_room t s)"
  let ?delay = "word_of_int (sv_delay s) :: byte"
  let ?w = "wire_of (body_of ?delay (MsgRoom [x, y]))"
  note inv = tidyD(1) [OF t]
  have lt: "t < sv_nclient s" "c < sv_nclient s" using live by (simp_all add: is_dead_def)
  have v: "valid_name x" "valid_name y" using names_ok_valid [OF INV_D(1) [OF inv]] lt n by blast+
  have nicks: "nick (lobby_of s) t = Some x" "nick (lobby_of s) c = Some y"
    using nick_lobby [OF t] lt live n by simp_all
  have "INV_room ?r (make_room t s)" using n tc lt by (intro INV_make_room [OF inv]) simp_all
  then have "INV ?s \<and> announceable ?r ?s" using tc lt n by (intro INV_enter_room) (simp_all add: MAX_SEATS_def)
  then have inv2: "INV ?s" "announceable ?r ?s" by blast+
  have mem: "members ?s ?r = [t, c]" by simp
  have same: "sv_net ?s = sv_net s" "sv_auto_go ?s = sv_auto_go s" "sv_rand ?s = sv_rand s" "sv_delay ?s = sv_delay s"
    by (simp_all add: enter_room_def make_room_def Let_def)
  have ok: "accepting ?s" "drained ?s" using tidyD(3,4) [OF t] same by (simp_all add: accepting_def drained_def)
  have n2: "name_of ?s t = Some x" "name_of ?s c = Some y" using n by simp_all
  have pay: "room_payload ?s ?r = Inr (2 # seats [x, y])"
    using seats_wire(1) [OF mem n2 v] mem by (simp add: room_payload_def)
  have len: "length (seats [x, y]) = 32" by (rule seats_wire(2) [OF mem n2 v])
  have "\<not> is_dead ?s t" "\<not> is_dead ?s c" "length ?w \<le> MAX_TX_BACKLOG"
    using live len by (simp_all add: wire_of_def body_of_def MAX_TX_BACKLOG_def)
  with pair_accepted [OF ok mem tc(1), of "\<lambda>_. ?w"] obtain u where
    u: "for_members ?r (\<lambda>i m. transmit m ?w) ?s = (Inr (), u)" "undisturbed ?s u"
      "posted ?s (\<lambda>d. if d = t then ?w else if d = c then ?w else []) u"
    by auto
  have "frame T_ROOM (2 # seats [x, y]) = Inr ?w" using len by (simp add: frame_wire_of body_of_def)
  then have bc: "room_broadcast drop_client ?r ?s = (Inr (), u)"
    using u(1) pay for_members_cong_frames [of ?s ?r "\<lambda>_. frame T_ROOM (2 # seats [x, y])" "\<lambda>_. ?w"]
    by (simp add: room_broadcast_def)
  let ?u = "lobby_update u"
  have join: "join_room c t s = auto_start ?r ?u"
    using tc(2) bc by (simp add: join_room_def join_target_def act_run split: prod.split sum.split)
  let ?a = "(lobby_of s)\<lparr>lb_table := (table_of s)(t \<mapsto> (t, c, False), c \<mapsto> (t, c, False))\<rparr>"
  have "undisturbed u ?u" by (rule undisturbed_lobby)
  then have a: "undisturbed ?s ?u" by (rule undisturbed_trans [OF u(2)])
  have lu: "lobby_of ?u = ?a" using undisturbed_lobby_of [OF a] joined_lobby [OF inv tc(1) lt tc(2,3)] by simp
  have post: "posted s (post_to ?delay [(t, MsgRoom [x, y]), (c, MsgRoom [x, y])]) ?u"
    using u(3) tc(1) by (auto simp: posted_def)
  have "table_of s c = None" "table_of s t = None" using table_None [OF inv] lt tc by simp_all
  then have spec: "join_lobby (sv_rand s) auto c z (lobby_of s) =
      (let (a2, out) = (if auto then start_lobby (sv_rand s) t c ?a else (?a, []))
       in (a2, [(t, MsgRoom [x, y]), (c, MsgRoom [x, y])] @ out))"
    using nicks reg tc(1) by (simp add: join_lobby_def Let_def)
  have mems: "members ?u ?r = [t, c]" using undisturbed_members [OF a] mem by simp
  have go: "auto_start ?r ?u = (if auto then start_room ?r ?u else (Inr (), ?u))"
    using mems a same auto by (simp add: auto_start_def undisturbed_def ret_def numeral_2_eq_2 [symmetric])
  show ?thesis
  proof (cases auto)
    case False
    then show ?thesis using join go lu post spec by simp
  next
    case True
    have "INV u"
      using triple_InrD [OF broadcast_safe [OF calm_stable_True] _ bc] inv2 by blast
    then have inv3: "INV ?u" using INV_D by (intro INV_lobby_update) blast+
    have ok3: "accepting ?u" "drained ?u" "delay_ok ?u"
      using a ok tidyD(2) [OF t] same by (simp_all add: undisturbed_def accepting_def delay_ok_def)
    have live3: "\<not> is_dead ?u t" "\<not> is_dead ?u c" using a live by (simp_all add: undisturbed_def)
    have tu: "t < sv_nclient ?u" "room_of ?u t = Some ?r" using a lt tc(1) by (simp_all add: undisturbed_def)
    have eq: "sv_rand ?u = sv_rand s" "sv_delay ?u = sv_delay s" using a same by (simp_all add: undisturbed_def)
    have nicks3: "nick (lobby_of ?u) d = name_of ?u d" if "d = t \<or> d = c" for d
    proof -
      have "nick (lobby_of ?u) d = nick (lobby_of s) d" by (rule nick_cong) (simp add: lu)
      then show ?thesis using that nicks n a by (auto simp: undisturbed_def)
    qed
    from start_accepted [OF inv3 ok3 tu mems live3 nicks3 nicks3, unfolded eq lu]
    obtain w where w: "start_room ?r ?u = (Inr (), w)"
      "lobby_of w = fst (start_lobby (sv_rand s) t c ?a)"
      "posted ?u (post_to ?delay (snd (start_lobby (sv_rand s) t c ?a))) w"
      by blast
    have "posted s (\<lambda>d. post_to ?delay [(t, MsgRoom [x, y]), (c, MsgRoom [x, y])] d @
        post_to ?delay (snd (start_lobby (sv_rand s) t c ?a)) d) w"
      by (rule posted_trans [OF post w(3)])
    then have "posted s (post_to ?delay (snd (join_lobby (sv_rand s) auto c z (lobby_of s)))) w"
      unfolding spec using True by (simp add: posted_def case_prod_beta)
    moreover have "fst (join_lobby (sv_rand s) auto c z (lobby_of s)) = fst (start_lobby (sv_rand s) t c ?a)"
      unfolding spec using True by (simp add: case_prod_beta)
    ultimately show ?thesis using w(1,2) True join go by simp
  qed
qed

section \<open>Relaying\<close>

lemma crc_step_keeps:
  "lobby_of (crc_step f r p s) = lobby_of s" "accepting (crc_step f r p s) = accepting s"
  "drained (crc_step f r p s) = drained s" "posted s (\<lambda>_. []) (crc_step f r p s)"
proof -
  have l: "sv_draws (log_crc r p s) = sv_draws s" "sv_net (log_crc r p s) = sv_net s"
    by (simp_all add: log_crc_def fold_add_log split: prod.split)
  have started: "rm_started (sv_room (log_crc r p s) q) = rm_started (sv_room s q)" for q
    by (simp add: crc_round_started)
  have "table_of (log_crc r p s) d = table_of s d" for d
    by (rule table_cong) (simp_all add: log_crc_access log_crc_members started del: log_crc_simps(9))
  then have "lobby_of (log_crc r p s) = lobby_of s"
    by (intro lobby.equality) (simp_all add: fun_eq_iff log_crc_access l)
  then show "lobby_of (crc_step f r p s) = lobby_of s" by (simp add: crc_step_def)
  show "accepting (crc_step f r p s) = accepting s" "drained (crc_step f r p s) = drained s"
    by (simp_all add: crc_step_def accepting_def drained_def l)
  show "posted s (\<lambda>_. []) (crc_step f r p s)" by (simp add: posted_def crc_step_access)
qed

lemma relay_accepted:
  assumes t: "tidy s" and c: "\<not> is_dead s c" and len: "length payload \<le> 199"
  shows "\<exists>t. relay c ftype payload s = (Inr (), t) \<and>
    lobby_of t = fst (relay_lobby c (MsgRelay ftype payload) (lobby_of s)) \<and>
    posted s (post_to delay (snd (relay_lobby c (MsgRelay ftype payload) (lobby_of s)))) t \<and>
    (case room_of s c of
       None \<Rightarrow> t = s
     | Some r \<Rightarrow> if rm_started (sv_room s r) then undisturbed (crc_step ftype r payload s) t else t = s)"
proof -
  note inv = tidyD(1) [OF t]
  have lt: "c < sv_nclient s" using c by (simp add: is_dead_def)
  show ?thesis
  proof (cases "room_of s c")
    case None
    then have "table_of s c = None" using table_None [OF inv lt] by simp
    with None show ?thesis by (simp add: relay_def relay_lobby_def ret_def posted_def)
  next
    case (Some r)
    obtain h g where tb: "table_of s c = Some (h, g, rm_started (sv_room s r))" "members s r = [h, g]"
      "h \<noteq> g" "c = h \<or> c = g" "room_of s h = Some r" "room_of s g = Some r"
      "h < sv_nclient s" "g < sv_nclient s" "name_of s h \<noteq> None" "name_of s g \<noteq> None"
      by (rule table_pair [OF inv lt Some])
    show ?thesis
    proof (cases "rm_started (sv_room s r)")
      case False
      then show ?thesis using Some tb(1) by (simp add: relay_def relay_lobby_def ret_def posted_def)
    next
      case True
      let ?s = "crc_step ftype r payload s"
      let ?w = "wire_of (body_of delay (MsgRelay ftype payload))"
      define m where "m = (if c = h then g else h)"
      have "\<not> is_dead ?s m" using tidyD(6) [OF t] tb by (simp add: m_def crc_step_access)
      moreover have "accepting ?s" "drained ?s" using tidyD(3,4) [OF t] by (simp_all add: crc_step_keeps)
      moreover have "length ?w \<le> MAX_TX_BACKLOG"
        using len by (simp add: wire_of_def body_of_def MAX_TX_BACKLOG_def)
      ultimately obtain u where u: "transmit m ?w ?s = (Inr (), u)" "undisturbed ?s u"
        "posted ?s (\<lambda>d. if d = m then ?w else []) u"
        using transmit_accepted by blast
      let ?f = "\<lambda>(_ :: nat) x. guarded (x \<noteq> c) (transmit x ?w)"
      have mem: "members ?s r = [h, g]" "members u r = [h, g]"
        using tb(2) undisturbed_members [OF u(2)] by (simp_all add: crc_step_access)
      have "for_members r ?f ?s = (Inr (), u)"
      proof (cases "c = h")
        case True
        then have "?f 0 h ?s = (Inr (), ?s)" by (simp add: ret_def)
        with for_members_pair [of ?s r h g ?f ?s] mem(1) show ?thesis
          using True tb(3) u(1) by (simp add: m_def)
      next
        case False
        then have "?f 0 h ?s = (Inr (), u)" using u(1) by (simp add: m_def eq_commute [of h])
        with for_members_pair [of ?s r h g ?f u] mem show ?thesis
          using False tb(4) by (simp add: ret_def)
      qed
      then have "relay c ftype payload s = (Inr (), u)"
        using relay_unfold [OF Some True] len by (simp add: body_of_def)
      moreover have "relay_lobby c (MsgRelay ftype payload) (lobby_of s) =
          (lobby_of s, [(m, MsgRelay ftype payload)])"
        using tb(1) True by (simp add: relay_lobby_def m_def)
      moreover have "lobby_of u = lobby_of s" using undisturbed_lobby_of [OF u(2)] by (simp add: crc_step_keeps)
      moreover have "posted s (\<lambda>d. [] @ (if d = m then ?w else [])) u"
        by (rule posted_trans [OF crc_step_keeps(4) u(3)])
      ultimately show ?thesis using u(2) Some True by (auto simp: posted_def)
    qed
  qed
qed

section \<open>Every command\<close>

definition autostart :: "server \<Rightarrow> bool" where
  "autostart s \<longleftrightarrow> sv_auto_go s \<noteq> 0 \<and> sv_auto_go s \<le> 2"

text \<open>What the specification says about a frame of \<open>c\<close>.\<close>

definition expected :: "server \<Rightarrow> cid \<Rightarrow> byte \<Rightarrow> bytes \<Rightarrow> outcome" where
  "expected s c ftype payload = obey (sv_rand s) (autostart s) c (parse ftype payload) (lobby_of s)"

text \<open>\<open>m\<close> ends without an exception in a state that shows the outcome \<open>out\<close>.\<close>

definition yields :: "'a srv \<Rightarrow> server \<Rightarrow> outcome \<Rightarrow> bool" where
  "yields m s out \<longleftrightarrow>
     (\<exists>x t. m s = (Inr x, t) \<and> lobby_of t = fst out \<and>
        posted s (post_to (word_of_int (sv_delay s)) (snd out)) t)"

lemma yieldsI:
  "m s = (Inr x, t) \<Longrightarrow> lobby_of t = fst out \<Longrightarrow> posted s (post_to (word_of_int (sv_delay s)) (snd out)) t \<Longrightarrow>
     yields m s out"
  by (auto simp: yields_def)

lemma yields_nothing:
  assumes "m s = (Inr x, s)"
  shows "yields m s (lobby_of s, [])"
proof -
  have "posted s (post_to delay []) s" for delay by (simp add: posted_def)
  with assms show ?thesis unfolding yields_def by fastforce
qed

lemma yields_list:
  assumes t: "tidy s" and c: "\<not> is_dead s c"
  shows "yields (on_list c) s (lobby_of s, [(c, listing (lobby_of s) c)])"
proof -
  from on_list_accepted [OF assms] obtain t where "on_list c s = (Inr (), t)" "undisturbed s t"
    "posted s (post_to (word_of_int (sv_delay s)) [(c, listing (lobby_of s) c)]) t" by blast
  then show ?thesis using undisturbed_lobby_of by (intro yieldsI) simp_all
qed

lemma yields_go:
  assumes t: "tidy s" and c: "\<not> is_dead s c"
  shows "yields (on_go c) s (go_lobby (sv_rand s) c (lobby_of s))"
proof -
  note inv = tidyD(1) [OF t]
  have lt: "c < sv_nclient s" using c by (simp add: is_dead_def)
  show ?thesis
  proof (cases "room_of s c")
    case None
    then have "go_lobby (sv_rand s) c (lobby_of s) = (lobby_of s, [])"
      using table_None [OF inv lt] by (simp add: go_lobby_def)
    with None yields_nothing [of "on_go c" s "()"] show ?thesis by (simp add: on_go_def ret_def)
  next
    case (Some r)
    obtain h g where tb: "table_of s c = Some (h, g, rm_started (sv_room s r))" "members s r = [h, g]"
      "h \<noteq> g" "c = h \<or> c = g" "room_of s h = Some r" "room_of s g = Some r"
      "h < sv_nclient s" "g < sv_nclient s" "name_of s h \<noteq> None" "name_of s g \<noteq> None"
      by (rule table_pair [OF inv lt Some])
    have seat: "seat s c = Inr (Some (if c = h then 0 else 1))" using Some tb(2-4) by (auto simp: seat_def)
    show ?thesis
    proof (cases "rm_started (sv_room s r) \<or> c \<noteq> h")
      case True
      then have "go_lobby (sv_rand s) c (lobby_of s) = (lobby_of s, [])"
        using tb(1) by (auto simp: go_lobby_def split: bool.split)
      moreover have "on_go c s = (Inr (), s)"
        using True Some seat by (auto simp: on_go_def ret_def lift_def act_run)
      ultimately show ?thesis using yields_nothing [of "on_go c"] by simp
    next
      case False
      then have "on_go c s = start_room r s"
        using Some seat tb(2) by (simp add: on_go_def MAX_SEATS_def)
      moreover have "go_lobby (sv_rand s) c (lobby_of s) = start_lobby (sv_rand s) h g (lobby_of s)"
        using tb(1) False by (simp add: go_lobby_def)
      moreover have "\<not> is_dead s h" "\<not> is_dead s g" using tidyD(6) [OF t] tb by blast+
      then have "\<exists>t. start_room r s = (Inr (), t) \<and> lobby_of t = fst (start_lobby (sv_rand s) h g (lobby_of s)) \<and>
          posted s (post_to (word_of_int (sv_delay s)) (snd (start_lobby (sv_rand s) h g (lobby_of s)))) t"
        using tb nick_lobby [OF t] tidyD(2-4) [OF t] by (intro start_accepted [OF inv _ _ _ lt Some]) simp_all
      ultimately show ?thesis by (auto simp: yields_def)
    qed
  qed
qed

lemma yields_join:
  assumes t: "tidy s" and c: "\<not> is_dead s c" and named: "name_of s c \<noteq> None"
  shows "yields (on_join c payload) s
    (join_lobby (sv_rand s) (autostart s) c (rstrip_pad (decode_ascii payload)) (lobby_of s))"
proof -
  let ?z = "rstrip_pad (decode_ascii payload)"
  let ?o = "join_lobby (sv_rand s) (autostart s) c ?z (lobby_of s)"
  note inv = tidyD(1) [OF t]
  have lt: "c < sv_nclient s" using c by (simp add: is_dead_def)
  obtain y where y: "name_of s c = Some y" using named by blast
  have nick: "nick (lobby_of s) c = Some y" using nick_lobby [OF t lt c] y by simp
  have hold: "holder (lobby_of s) ?z = dget (sv_by_name s) ?z" by (simp add: holder_def dget_holder)
  show ?thesis
  proof (cases "room_of s c")
    case (Some r)
    then have "table_of s c \<noteq> None" using table_None [OF inv lt] by simp
    then have "?o = (lobby_of s, [])" unfolding join_lobby_def nick lobby_of_simps by simp
    moreover have "on_join c payload s = (Inr (), s)" using Some y by (simp add: on_join_def ret_def)
    ultimately show ?thesis using yields_nothing [of "on_join c payload"] by simp
  next
    case None
    then have free: "table_of s c = None" using table_None [OF inv lt] by simp
    have refused: ?thesis
      if "unjoinable s c (dget (sv_by_name s) ?z)" "?o = (lobby_of s, [(c, listing (lobby_of s) c)])"
    proof -
      have "on_join c payload s = on_list c s" using None y that(1) by (simp add: on_join_def)
      with yields_list [OF t c] that(2) show ?thesis by (simp add: yields_def)
    qed
    show ?thesis
    proof (cases "dget (sv_by_name s) ?z")
      case None
      then show ?thesis using nick free hold by (intro refused) (simp_all add: unjoinable_def join_lobby_def)
    next
      case (Some p)
      then have entry: "(?z, p) \<in> set (sv_by_name s)" by (rule dget_Some_in)
      have p: "\<not> is_dead s p" "p < sv_nclient s" "name_of s p = Some ?z"
        using tidyD(5) [OF t entry] names_ok_entry [OF INV_D(1) [OF inv] entry] by blast+
      show ?thesis
      proof (cases "p = c \<or> room_of s p \<noteq> None")
        case True
        have "unjoinable s c (Some p)"
        proof (cases "room_of s p")
          case None
          with True show ?thesis by (simp add: unjoinable_def)
        next
          case (Some r)
          from rooms_okD [OF INV_D(4) [OF inv] p(2) Some] have "MAX_SEATS \<le> length (members s r)"
            by (simp add: MAX_SEATS_def)
          with Some show ?thesis by (simp add: unjoinable_def)
        qed
        moreover have "p = c \<or> table_of s p \<noteq> None" using True unfolding table_None [OF inv p(2)] .
        then have "?o = (lobby_of s, [(c, listing (lobby_of s) c)])"
          unfolding join_lobby_def nick lobby_of_simps free hold Some by simp
        ultimately show ?thesis using Some by (intro refused) simp_all
      next
        case False
        then have solo: "p \<noteq> c" "room_of s p = None" by blast+
        have "on_join c payload s = join_room c p s"
          using \<open>room_of s c = None\<close> y Some solo p(3) by (simp add: on_join_def unjoinable_def)
        moreover have "\<exists>u. join_room c p s = (Inr (), u) \<and> lobby_of u = fst ?o \<and>
            posted s (post_to (word_of_int (sv_delay s)) (snd ?o)) u"
          by (rule join_room_accepted [OF t p(1) c solo \<open>room_of s c = None\<close> p(3) y _ autostart_def])
            (simp add: hold Some)
        ultimately have "\<exists>x u. on_join c payload s = (Inr x, u) \<and> lobby_of u = fst ?o \<and>
            posted s (post_to (word_of_int (sv_delay s)) (snd ?o)) u" by metis
        then show ?thesis unfolding yields_def .
      qed
    qed
  qed
qed

text \<open>A frame the specification calls bad is refused before anything happens.\<close>

lemma handle_yields:
  assumes t: "tidy s" and c: "\<not> is_dead s c" and len: "length payload \<le> 199"
  shows "yields (handle c ftype payload) s (expected s c ftype payload) \<or>
    (\<exists>p. handle c ftype payload s = (Inl (ProtocolError p), s)) \<and>
      expected s c ftype payload = leave_lobby c (lobby_of s)"
proof -
  have lt: "c < sv_nclient s" using c by (simp add: is_dead_def)
  note kinds = const_defs RELAY_TYPES_def
  have exp: "expected s c ftype payload = obey (sv_rand s) (autostart s) c (parse ftype payload) (lobby_of s)"
    by (rule expected_def)
  consider (relay) "ftype \<in> set RELAY_TYPES" | (hello) "ftype = T_HELLO" | (lists) "ftype = T_LIST"
    | (join) "ftype = T_JOIN" | (go) "ftype = T_GO" | (bye) "ftype = T_BYE" | (ping) "ftype = T_PING"
    | (bad) "ftype \<notin> set RELAY_TYPES" "ftype \<noteq> T_HELLO" "ftype \<noteq> T_LIST" "ftype \<noteq> T_JOIN" "ftype \<noteq> T_GO"
        "ftype \<noteq> T_BYE" "ftype \<noteq> T_PING"
    by blast
  then show ?thesis
  proof cases
    case relay
    then have "handle c ftype payload = relay c ftype payload" "parse ftype payload = CmdRelay ftype payload"
      by (simp_all add: handle_def parse_def)
    moreover from relay_accepted [OF t c len, of ftype "word_of_int (sv_delay s)"] obtain u where
      "relay c ftype payload s = (Inr (), u)"
      "lobby_of u = fst (relay_lobby c (MsgRelay ftype payload) (lobby_of s))"
      "posted s (post_to (word_of_int (sv_delay s)) (snd (relay_lobby c (MsgRelay ftype payload) (lobby_of s)))) u"
      by blast
    ultimately show ?thesis using yieldsI exp by (simp add: obey_def)
  next
    case hello
    then have h: "handle c ftype payload = on_hello c payload" "parse ftype payload = parse_hello payload"
      by (simp_all add: handle_def parse_def kinds)
    show ?thesis
    proof (cases "hello_name payload")
      case (Inl e)
      then obtain q where "e = ProtocolError q" using hello_name_error by blast
      then have "on_hello c payload s = (Inl (ProtocolError q), s)" using Inl by (simp add: on_hello_def)
      moreover have "parse_hello payload = CmdBad"
        using Inl by (auto simp: parse_hello_def hello_name_def Let_def split: if_splits)
      ultimately show ?thesis using h exp by (simp add: obey_def)
    next
      case (Inr n)
      then have "parse_hello payload = CmdHello n"
        by (auto simp: parse_hello_def hello_name_def Let_def split: if_splits)
      moreover from on_hello_accepted [OF t c Inr, of "word_of_int (sv_delay s)"] obtain u where
        "on_hello c payload s = (Inr (), u)" "lobby_of u = fst (hello_lobby c n (lobby_of s))"
        "posted s (post_to (word_of_int (sv_delay s)) (snd (hello_lobby c n (lobby_of s)))) u" by blast
      ultimately show ?thesis using h exp yieldsI by (simp add: obey_def)
    qed
  next
    case lists
    then have "handle c ftype payload = on_list c" "parse ftype payload = CmdList"
      by (simp_all add: handle_def parse_def kinds)
    then show ?thesis using yields_list [OF t c] exp by (simp add: obey_def)
  next
    case join
    then have h: "handle c ftype payload = on_join c payload"
      "parse ftype payload = CmdJoin (rstrip_pad (decode_ascii payload))"
      by (simp_all add: handle_def parse_def kinds)
    show ?thesis
    proof (cases "name_of s c = None")
      case True
      then have "on_join c payload s = (Inl (ProtocolError JoinBeforeHello), s)"
        by (simp add: on_join_def throw_def)
      moreover have "nick (lobby_of s) c = None" using nick_lobby [OF t lt c] True by simp
      ultimately show ?thesis using h exp by (simp add: obey_def join_lobby_def)
    next
      case False
      then show ?thesis using yields_join [OF t c] h exp by (simp add: obey_def)
    qed
  next
    case go
    then have "handle c ftype payload = on_go c" "parse ftype payload = CmdGo"
      by (simp_all add: handle_def parse_def kinds)
    then show ?thesis using yields_go [OF t c] exp by (simp add: obey_def)
  next
    case bye
    then have "handle c ftype payload = drop_client c WhyBye" "parse ftype payload = CmdBye"
      by (simp_all add: handle_def parse_def kinds)
    moreover from leave_accepted [OF t c, of WhyBye "word_of_int (sv_delay s)"] obtain u where
      "drop_client c WhyBye s = (Inr (), u)" "lobby_of u = fst (leave_lobby c (lobby_of s))"
      "posted s (post_to (word_of_int (sv_delay s)) (snd (leave_lobby c (lobby_of s)))) u" by blast
    ultimately show ?thesis using yieldsI exp by (simp add: obey_def)
  next
    case ping
    let ?w = "wire_of [T_PONG]"
    have h: "handle c ftype payload = bnd (lift (frame T_PONG [])) (transmit c)" "parse ftype payload = CmdPing"
      using ping by (simp_all add: handle_def parse_def kinds)
    have "length ?w \<le> MAX_TX_BACKLOG" by (simp add: wire_of_def MAX_TX_BACKLOG_def)
    from transmit_accepted [OF tidyD(3,4) [OF t] c this] obtain u where u: "transmit c ?w s = (Inr (), u)"
      "undisturbed s u" "posted s (\<lambda>x. if x = c then ?w else []) u" by blast
    have "handle c ftype payload s = (Inr (), u)" using h u(1) by (simp add: frame_wire_of)
    moreover have "posted s (post_to (word_of_int (sv_delay s)) [(c, MsgPong)]) u"
      using u(3) by (auto simp: posted_def body_of_def)
    ultimately have "yields (handle c ftype payload) s (lobby_of s, [(c, MsgPong)])"
      using undisturbed_lobby_of [OF u(2)] by (intro yieldsI) simp_all
    then show ?thesis using h exp by (simp add: obey_def)
  next
    case bad
    then have "handle c ftype payload s = (Inl (ProtocolError (UnknownType ftype)), s)" "parse ftype payload = CmdBad"
      by (simp_all add: handle_def parse_def throw_def)
    then show ?thesis using exp by (simp add: obey_def)
  qed
qed

section \<open>A whole frame\<close>

lemma handle_tidy:
  assumes t: "tidy s" and c: "\<not> is_dead s c" and len: "length payload \<le> 199"
    and run: "handle c ftype payload s = (Inr (), u)" and l: "lobby_of u = fst (expected s c ftype payload)"
  shows "tidy u"
proof (rule tidyI)
  have pre: "INV s \<and> c < sv_nclient s \<and> delay_ok s" using tidyD(1,2) [OF t] c by (simp add: is_dead_def)
  show "INV u" using triple_InrD [OF handle_answers [OF len] pre run] .
  have "evolves s u" using keepsD [OF ev_handle, of s c ftype payload] run by simp
  then show "delay_ok u" "accepting u"
    using tidyD(2,3) [OF t] by (simp_all add: evolves_def delay_ok_def accepting_def)
  show "stream u d = []" if "sv_nclient u \<le> d" for d
  proof -
    have "sv_nclient s \<le> d" using that \<open>evolves s u\<close> by (simp add: evolves_def)
    then show ?thesis
      using evolves_stream_dead [OF \<open>evolves s u\<close>] tidyD(7) [OF t] by (simp add: is_dead_def)
  qed
  show "drained u"
    using keepsD [OF drn.kp_handle, of s c ftype payload] run tidyD(3,4) [OF t] by (simp add: drains_def)
  show "lobby_fine (lobby_of u)"
    unfolding l expected_def using parse_valid c by (intro obey_fine [OF tidy_fine [OF t]]) simp_all
qed

lemma handle_frame_accepted:
  assumes t: "tidy s" and c: "\<not> is_dead s c" and len: "length body \<le> 200"
  shows "\<exists>u. handle_frame c body s = (Inr (lb_up (fst (expected s c (hd body) (tl body))) c), u) \<and> tidy u \<and>
    lobby_of u = fst (expected s c (hd body) (tl body)) \<and>
    posted s (post_to (word_of_int (sv_delay s)) (snd (expected s c (hd body) (tl body)))) u"
proof -
  let ?o = "expected s c (hd body) (tl body)"
  have len': "length (tl body) \<le> 199" using len by simp
  show ?thesis
  proof (cases "yields (handle c (hd body) (tl body)) s ?o")
    case True
    then obtain u where u: "handle c (hd body) (tl body) s = (Inr (), u)" "lobby_of u = fst ?o"
      "posted s (post_to (word_of_int (sv_delay s)) (snd ?o)) u"
      by (auto simp: yields_def)
    have "lb_up (fst ?o) c = (\<not> is_dead u c)" by (simp add: u(2) [symmetric])
    with u handle_tidy [OF t c len' u(1,2)] show ?thesis by (simp add: handle_frame_def)
  next
    case False
    with handle_yields [OF t c len'] obtain p where p: "handle c (hd body) (tl body) s = (Inl (ProtocolError p), s)"
      "?o = leave_lobby c (lobby_of s)" by blast
    from leave_accepted [OF t c, of "WhyProtocol p" "word_of_int (sv_delay s)"] obtain u where
      u: "drop_client c (WhyProtocol p) s = (Inr (), u)" "tidy u" "lobby_of u = fst ?o"
      "posted s (post_to (word_of_int (sv_delay s)) (snd ?o)) u"
      unfolding p(2) by blast
    have "lb_up (fst ?o) c = False" by (simp add: p(2) leave_fields)
    with u p(1) show ?thesis by (simp add: handle_frame_def act_run)
  qed
qed

end
