(* ===== verification/Simulation.thy ===== *)
theory Simulation
  imports Refine
begin

text \<open>
  The event loop over the specification: every event of \<open>Server.run\<close>, whatever the peers send and
  however their bytes are cut, is a run of \<open>Lobby\<close>, and the streams are its messages.
\<close>

section \<open>Following a run\<close>

definition follows :: "server \<Rightarrow> server \<Rightarrow> bool" where
  "follows s t \<longleftrightarrow>
     tidy t \<and> sv_rand t = sv_rand s \<and> sv_auto_go t = sv_auto_go s \<and> sv_delay t = sv_delay s \<and>
     (\<exists>out. lobby_run (sv_rand s) (autostart s) (lobby_of s) out (lobby_of t) \<and>
        posted s (post_to (word_of_int (sv_delay s)) out) t)"

lemma follows_tidy: "follows s t \<Longrightarrow> tidy t"
  by (simp add: follows_def)

lemma follows_refl: "tidy s \<Longrightarrow> follows s s"
  unfolding follows_def by (auto intro!: exI [of _ "[]"] lobby_run.stays simp: posted_def)

lemma follows_trans:
  assumes "follows s t" "follows t u"
  shows "follows s u"
proof -
  let ?d = "word_of_int (sv_delay s)"
  obtain o1 where o1: "lobby_run (sv_rand s) (autostart s) (lobby_of s) o1 (lobby_of t)" "posted s (post_to ?d o1) t"
    using assms(1) unfolding follows_def by blast
  have same: "autostart t = autostart s" "sv_rand t = sv_rand s" "sv_delay t = sv_delay s"
    using assms(1) by (simp_all add: follows_def autostart_def)
  then obtain o2 where o2: "lobby_run (sv_rand s) (autostart s) (lobby_of t) o2 (lobby_of u)" "posted t (post_to ?d o2) u"
    using assms(2) unfolding follows_def by auto
  have "lobby_run (sv_rand s) (autostart s) (lobby_of s) (o1 @ o2) (lobby_of u)"
    using lobby_run_trans [OF o2(1) o1(1)] .
  moreover have "posted s (post_to ?d (o1 @ o2)) u" using o1(2) o2(2) by (simp add: posted_def)
  ultimately show ?thesis using assms unfolding follows_def by auto
qed

text \<open>\<open>m\<close> ends normally, in a state that follows.\<close>

definition simulates :: "'a srv \<Rightarrow> server \<Rightarrow> bool" where
  "simulates m s \<longleftrightarrow> (\<exists>x t. m s = (Inr x, t) \<and> follows s t)"

lemma simulatesI: "m s = (Inr x, t) \<Longrightarrow> follows s t \<Longrightarrow> simulates m s"
  by (auto simp: simulates_def)

lemma simulatesE:
  assumes "simulates m s"
  obtains x t where "m s = (Inr x, t)" "follows s t"
  using assms by (auto simp: simulates_def)

lemma sim_ret: "tidy s \<Longrightarrow> simulates (ret x) s"
  by (rule simulatesI [of _ _ x s]) (simp_all add: ret_def follows_refl)

lemma sim_bnd:
  assumes "simulates m s" "\<And>x t. m s = (Inr x, t) \<Longrightarrow> follows s t \<Longrightarrow> simulates (f x) t"
  shows "simulates (bnd m f) s"
proof -
  obtain x t where m: "m s = (Inr x, t)" "follows s t" using assms(1) by (rule simulatesE)
  with assms(2) obtain y u where "f x t = (Inr y, u)" "follows t u" by (blast elim: simulatesE)
  with m follows_trans show ?thesis by (intro simulatesI [of _ _ y u]) (auto simp: bnd_run)
qed

lemma sim_modify: "follows s (f s) \<Longrightarrow> simulates (modify f) s"
  by (rule simulatesI) (simp_all add: modify_def)

lemma sim_gets: "simulates (f (g s)) s \<Longrightarrow> simulates (bnd (gets g) f) s"
  by (simp add: simulates_def)

lemma sim_guarded: "tidy s \<Longrightarrow> (b \<Longrightarrow> simulates m s) \<Longrightarrow> simulates (guarded b m) s"
  using sim_ret [of s "()"] by (cases b) simp_all

lemma follows_undisturbed:
  assumes "tidy s" "undisturbed s t" "INV t" "posted s (\<lambda>_. []) t"
  shows "follows s t"
proof -
  have l: "lobby_of t = lobby_of s" using undisturbed_lobby_of [OF assms(2)] .
  have "tidy t"
    using assms tidyD(2-4,7) [OF assms(1)] tidy_fine [OF assms(1)] l
    by (intro tidyI) (simp_all add: undisturbed_def delay_ok_def accepting_def posted_def)
  moreover have "lobby_run (sv_rand s) (autostart s) (lobby_of s) [] (lobby_of t)" unfolding l by (rule lobby_run.stays)
  moreover have "posted s (post_to (word_of_int (sv_delay s)) []) t" using assms(4) by (simp add: posted_def)
  ultimately show ?thesis using assms(2) unfolding follows_def undisturbed_def by blast
qed

lemma follows_step:
  assumes "tidy s" "tidy t" "lobby_of t = b" "posted s (post_to (word_of_int (sv_delay s)) out) t" "evolves s t"
    "lobby_run (sv_rand s) (autostart s) (lobby_of s) out b"
  shows "follows s t"
  using assms unfolding follows_def evolves_def by blast

section \<open>The operations\<close>

lemma sim_drop:
  assumes t: "tidy s"
  shows "simulates (drop_client c w) s"
proof (cases "is_dead s c")
  case True
  then have "drop_client c w s = (Inr (), s)" by (subst drop_unfold) (simp add: drop_body_def ret_def)
  then show ?thesis using follows_refl [OF t] by (rule simulatesI)
next
  case False
  obtain u where u: "drop_client c w s = (Inr (), u)" "tidy u" "lobby_of u = fst (leave_lobby c (lobby_of s))"
    "posted s (post_to (word_of_int (sv_delay s)) (snd (leave_lobby c (lobby_of s)))) u"
    using leave_accepted [OF t False, of w "word_of_int (sv_delay s)"] by blast
  have "lobby_run (sv_rand s) (autostart s) (lobby_of s) ([] @ snd (leave_lobby c (lobby_of s))) (fst (leave_lobby c (lobby_of s)))"
    using False by (intro lobby_run.leaves lobby_run.stays) simp
  moreover have "evolves s u" using keepsD [OF ev_drop, of s c w] u(1) by simp
  ultimately have "follows s u" using follows_step [OF t u(2,3,4)] by simp
  with u(1) show ?thesis by (rule simulatesI)
qed

lemma sim_frame:
  assumes t: "tidy s" and c: "\<not> is_dead s c" and len: "length body \<le> 200"
  shows "simulates (handle_frame c body) s"
proof -
  let ?o = "expected s c (hd body) (tl body)"
  obtain x u where u: "handle_frame c body s = (Inr x, u)" "tidy u" "lobby_of u = fst ?o"
    "posted s (post_to (word_of_int (sv_delay s)) (snd ?o)) u"
    using handle_frame_accepted [OF assms] by blast
  have "lobby_run (sv_rand s) (autostart s) (lobby_of s) ([] @ snd ?o) (fst ?o)"
    unfolding expected_def using c by (intro lobby_run.obeys lobby_run.stays) simp
  moreover have "evolves s u" using keepsD [OF ev_handle_frame, of s c body] u(1) by simp
  ultimately have "follows s u" using follows_step [OF t u(2,3,4)] by simp
  with u(1) show ?thesis by (rule simulatesI)
qed

lemma follows_set_rx:
  assumes "tidy s"
  shows "follows s (set_rx c rx s)"
proof (rule follows_undisturbed [OF assms])
  show "INV (set_rx c rx s)" using tidyD(1) [OF assms] by simp
qed (simp_all add: undisturbed_def set_rx_def access_defs drained_def posted_def stream_def)

lemma sim_pump_n: "tidy s \<Longrightarrow> \<not> is_dead s c \<Longrightarrow> simulates (pump_n n c) s"
proof (induction n arbitrary: s)
  case (Suc n)
  show ?case
  proof (cases "scan_frame (cl_rx (sv_client s c))")
    case Wait
    then show ?thesis using sim_ret [OF Suc.prems(1), of "()"] by (simp add: simulates_def)
  next
    case (Bad l)
    then show ?thesis using sim_drop [OF Suc.prems(1)] by (simp add: simulates_def)
  next
    case (Got body rest)
    let ?s = "set_rx c rest s"
    have f: "follows s ?s" using follows_set_rx [OF Suc.prems(1)] .
    have c: "\<not> is_dead ?s c" using Suc.prems(2) by (simp add: set_rx_def access_defs)
    have len: "length body \<le> 200" using scan_frame_Got [OF Got] by (simp add: readable_def)
    have "simulates (bnd (handle_frame c body) (\<lambda>go. if go then pump_n n c else ret ())) ?s"
    proof (rule sim_bnd [OF sim_frame [OF follows_tidy [OF f] c len]])
      fix go u assume u: "handle_frame c body ?s = (Inr go, u)" "follows ?s u"
      then have "go = (\<not> is_dead u c)" using handle_frame_goes_on by blast
      then show "simulates (if go then pump_n n c else ret ()) u"
        using Suc.IH [OF follows_tidy [OF u(2)]] sim_ret [OF follows_tidy [OF u(2)], of "()"] by simp
    qed
    then obtain x u where "bnd (handle_frame c body) (\<lambda>go. if go then pump_n n c else ret ()) ?s = (Inr x, u)" "follows ?s u"
      by (rule simulatesE)
    with Got f follows_trans show ?thesis by (intro simulatesI [of _ _ x u]) auto
  qed
qed (simp add: sim_ret)

lemma sim_pump: "tidy s \<Longrightarrow> \<not> is_dead s c \<Longrightarrow> simulates (pump c) s"
  unfolding pump_def by (intro sim_gets sim_pump_n)

section \<open>The events\<close>

lemma sim_service:
  assumes t: "tidy s" and c: "\<not> is_dead s c"
  shows "simulates (service c r) s"
proof (cases r)
  case (RData data)
  let ?s = "set_rx c (cl_rx (sv_client s c) @ data) s"
  have f: "follows s ?s" using follows_set_rx [OF t] .
  have "\<not> is_dead ?s c" using c by (simp add: set_rx_def access_defs)
  from sim_pump [OF follows_tidy [OF f] this] obtain x u where u: "pump c ?s = (Inr x, u)" "follows ?s u"
    by (rule simulatesE)
  show ?thesis
  proof (cases "data = []")
    case True
    with RData sim_drop [OF t] show ?thesis by (simp add: service_def)
  next
    case False
    with RData u f follows_trans show ?thesis by (intro simulatesI [of _ _ x u]) (auto simp: service_def)
  qed
qed (use sim_drop [OF t] sim_ret [OF t, of "()"] in \<open>simp_all add: service_def\<close>)

text \<open>With everything sent, writability means nothing.\<close>

lemma sim_flush:
  assumes t: "tidy s" and c: "\<not> is_dead s c"
  shows "simulates (flush drop_client c) s"
proof (rule simulatesI)
  have none: "cl_tx (sv_client s c) = []" using tidyD(4) [OF t] by (simp add: drained_def)
  have same: "upd_client c (\<lambda>cl. cl\<lparr>cl_calls := cl_calls (sv_client s c), cl_tx := [], cl_sent := cl_sent cl @ []\<rparr>) s = s"
    using none by (cases "sv_client s c") (simp add: upd_client_def fun_upd_idem)
  have "sv_sel s c = Some False"
    using INV_D(3) [OF tidyD(1) [OF t]] c none by (cases "sv_sel s c") (auto simp: queues_ok_def)
  then have "update_events c s = s" using none by (simp add: update_events_def fun_upd_idem)
  then show "flush drop_client c s = (Inr (), s)"
    using none same by (simp add: flush_def flush_loop.simps modify_def)
qed (rule follows_refl [OF t])

lemma sim_serve:
  assumes t: "tidy s"
  shows "simulates (serve c w r) s"
proof -
  let ?a = "bnd (gets (\<lambda>s. is_dead s c)) (\<lambda>dead. guarded (w \<and> \<not> dead) (flush drop_client c))"
  let ?b = "bnd (gets (\<lambda>s. is_dead s c)) (\<lambda>dead.
    case r of None \<Rightarrow> ret () | Some r \<Rightarrow> guarded (\<not> dead) (service c r))"
  have "simulates ?a s"
    using t sim_flush by (intro sim_gets sim_guarded) blast+
  moreover have "simulates ?b u" if "follows s u" for u
    using follows_tidy [OF that] by (intro sim_gets) (auto intro: sim_ret sim_guarded sim_service split: option.split)
  ultimately have "simulates (bnd ?a (\<lambda>_. ?b)) s" by (rule sim_bnd)
  then obtain x u where u: "bnd ?a (\<lambda>_. ?b) s = (Inr x, u)" "follows s u" by (rule simulatesE)
  then have "seqs [?a, ?b] s = (Inr (), u)"
    by (auto simp: bnd_run [of ?a] bnd_run [of ?b] ret_def split: prod.splits sum.splits)
  with u(2) show ?thesis by (intro simulatesI [of _ _ "()" u]) (simp_all add: serve_def catch_def)
qed

lemma sim_sweep: "tidy s \<Longrightarrow> simulates (sweep now order) s"
proof (induction order arbitrary: s)
  case Nil
  then show ?case using sim_ret [of s "()"] by (simp add: sweep_def simulates_def ret_def)
next
  case (Cons c cs)
  show ?case
  proof (cases "overdue now s c")
    case False
    with Cons show ?thesis by (simp add: simulates_def sweep_Cons)
  next
    case True
    have "undisturbed s (count_timeout s)"
      by (simp add: undisturbed_def count_timeout_def access_defs drained_def)
    moreover have "INV (count_timeout s)"
      using tidyD(1) [OF Cons.prems] INV_same_view [of "count_timeout s" s]
      by (simp add: same_view_def count_timeout_def)
    ultimately have f: "follows s (count_timeout s)"
      using Cons.prems by (intro follows_undisturbed) (simp_all add: posted_def stream_def)
    obtain x u where u: "drop_client c WhyHelloTimeout (count_timeout s) = (Inr x, u)" "follows (count_timeout s) u"
      using sim_drop [OF follows_tidy [OF f]] by (rule simulatesE)
    from Cons.IH [OF follows_tidy [OF u(2)]] obtain y v where v: "sweep now cs u = (Inr y, v)" "follows u v"
      by (rule simulatesE)
    have "follows s v" using f u(2) v(2) follows_trans by blast
    with True u(1) v(1) show ?thesis by (intro simulatesI [of _ _ y v]) (simp_all add: sweep_Cons)
  qed
qed

lemma lobby_add_client:
  "lobby_of (add_client a now s) = (lobby_of s)\<lparr>lb_up := (lb_up (lobby_of s))(sv_nclient s := True)\<rparr>"
proof -
  let ?c = "sv_nclient s"
  let ?t = "add_client a now s"
  have "table_of ?t d = table_of s d" for d
  proof (cases "d = ?c")
    case False
    then have "d < sv_nclient ?t \<longleftrightarrow> d < sv_nclient s" by auto
    with False show ?thesis unfolding table_of_def add_client_access add_client_simps(2) by (simp only: if_False)
  qed (simp add: table_of_def)
  moreover have "sv_draws ?t = sv_draws s" by (simp add: add_client_def Let_def)
  ultimately show ?thesis by (intro lobby.equality) (auto simp: fun_eq_iff is_dead_add_client)
qed

lemma follows_add_client:
  assumes t: "tidy s" and room: "length (sv_clients s) < MAX_CLIENTS" "per_ip s a < MAX_CONNECTIONS_PER_IP"
  shows "follows s (add_client a now s)"
proof -
  let ?c = "sv_nclient s"
  let ?t = "add_client a now s"
  note inv = tidyD(1) [OF t]
  note l = lobby_add_client [of a now s]
  have same: "sv_net ?t = sv_net s" "sv_rand ?t = sv_rand s" "sv_auto_go ?t = sv_auto_go s"
    by (simp_all add: add_client_def Let_def)
  have "lobby_run (sv_rand s) (autostart s) (lobby_of s) [] (lobby_of ?t)"
    unfolding l by (intro lobby_run.connects lobby_run.stays) (simp add: is_dead_def)
  moreover from this have "lobby_fine (lobby_of ?t)" using lobby_run_fine tidy_fine [OF t] by blast
  then have "tidy ?t"
    using tidyD(2-4,7) [OF t] INV_add_client [OF inv room] same
    by (intro tidyI) (simp_all add: delay_ok_def accepting_def drained_def new_client_def)
  moreover have "posted s (post_to (word_of_int (sv_delay s)) []) ?t"
    using tidyD(7) [OF t, of ?c] by (simp add: posted_def)
  ultimately show ?thesis using same unfolding follows_def by (auto intro: exI [of _ "[]"])
qed

lemma follows_accept:
  assumes t: "tidy s" and run: "accept conn now s = (Inr x, u)"
  shows "follows s u"
proof -
  have rej: "follows s (add_log e (count_rejection s))" for e
  proof (rule follows_undisturbed [OF t])
    have "INV (count_rejection s)"
      using tidyD(1) [OF t] INV_same_view [of "count_rejection s" s] by (simp add: same_view_def count_rejection_def)
    then show "INV (add_log e (count_rejection s))" by simp
  qed (simp_all add: undisturbed_def count_rejection_def access_defs drained_def posted_def stream_def)
  show ?thesis
    using run rej follows_add_client [OF t]
    by (auto simp: accept_def act_run not_le split: conn.splits if_splits)
qed

lemma follows_event:
  assumes t: "tidy s" and run: "run_event ev s = (Inr (), u)"
  shows "follows s u"
proof -
  have sim: "follows s u" if "simulates m s" "m s = (Inr (), u)" for m :: "unit srv"
    using that by (auto simp: simulates_def)
  show ?thesis
  proof (cases ev)
    case (EvAccept conn now)
    with run follows_accept [OF t] show ?thesis by (simp add: run_event_def)
  next
    case (EvReady c w r)
    with run show ?thesis by (intro sim [OF sim_serve [OF t]]) (simp add: run_event_def)
  next
    case (EvSweep now order)
    with run show ?thesis by (intro sim [OF sim_sweep [OF t]]) (simp add: run_event_def)
  next
    case EvStats
    have "undisturbed s (log_stats s)"
      by (simp add: undisturbed_def log_stats_def Let_def access_defs drained_def)
    moreover have "INV (log_stats s)"
      using tidyD(1) [OF t] INV_same_view [of "log_stats s" s] by (simp add: same_view_def log_stats_def Let_def)
    moreover have "posted s (\<lambda>_. []) (log_stats s)" by (simp add: posted_def log_stats_def Let_def stream_def)
    ultimately have "follows s (log_stats s)" by (rule follows_undisturbed [OF t])
    then show ?thesis using EvStats run by (simp add: run_event_def modify_def)
  qed
qed

lemma follows_relay_step:
  assumes "relay_step s t" "tidy s"
  shows "follows s t"
  using assms(1)
proof cases
  case (event ev)
  with follows_event [OF assms(2)] show ?thesis by blast
next
  case (publisher p q)
  have "INV t" using INV_publisher [OF tidyD(1) [OF assms(2)] publisher(2,3)] publisher(1) by simp
  then show ?thesis
    unfolding publisher(1)
    by (intro follows_undisturbed [OF assms(2)]) (simp_all add: undisturbed_def access_defs drained_def posted_def stream_def)
qed

lemma follows_reachable: "reachable s t \<Longrightarrow> tidy s \<Longrightarrow> follows s t"
proof (induction rule: reachable.induct)
  case (step t u)
  then show ?case using follows_relay_step follows_tidy follows_trans by blast
qed (rule follows_refl)

lemma tidy_initial:
  assumes "initial s" "delay_ok s" "accepting s"
  shows "tidy s" "lobby_of s = empty_lobby" "stream s c = []"
proof -
  obtain delay lobby auto_go net rand where s: "s = new_server delay lobby auto_go net rand"
    using assms(1) unfolding initial_def by blast
  show l: "lobby_of s = empty_lobby"
    by (rule lobby.equality) (simp_all add: s empty_lobby_def fun_eq_iff table_of_def new_server_def is_dead_def)
  have e: "stream s c = []" for c by (simp add: s new_server_def new_client_def stream_def)
  then show "stream s c = []" .
  show "tidy s"
    using INV_initial [OF assms(1)] initial_drained [OF assms(1)] assms(2,3) e by (intro tidyI) (simp_all add: l empty_fine)
qed

section \<open>Properties\<close>

lemma reachable_tidy:
  assumes "reachable s0 s" "initial s0" "0 \<le> sv_delay s0" "sv_delay s0 < 256" "accepting s0"
  shows "tidy s" "follows s0 s"
proof -
  have "tidy s0" using assms(2-5) by (intro tidy_initial) (simp_all add: delay_ok_def)
  with assms(1) show "follows s0 s" by (rule follows_reachable)
  then show "tidy s" by (rule follows_tidy)
qed

text \<open>C3: the relay implements its specification. While the sockets take what they are given, handling
  any frame of any connection takes the abstract lobby where the specification says, appends to
  every connection's stream exactly the messages the specification addresses to it, raises
  nothing, and goes on with the sender's buffer exactly if the specification keeps the sender
  connected.\<close>

theorem frame_refines:
  assumes "reachable s0 s" "initial s0" "0 \<le> sv_delay s0" "sv_delay s0 < 256" "accepting s0"
    and "c \<in> set (sv_clients s)" "readable body"
  shows "\<exists>t. handle_frame c body s = (Inr (lb_up (fst (expected s c (hd body) (tl body))) c), t) \<and>
    lobby_of t = fst (expected s c (hd body) (tl body)) \<and>
    (\<forall>d. stream t d = stream s d @
      post_to (word_of_int (sv_delay s)) (snd (expected s c (hd body) (tl body))) d)"
proof -
  have t: "tidy s" using reachable_tidy [OF assms(1-5)] by blast
  moreover have "\<not> is_dead s c" using INV_D(2) [OF tidyD(1) [OF t]] assms(6) by (simp add: clients_ok_def)
  ultimately show ?thesis
    using handle_frame_accepted [of s c body] assms(7) unfolding posted_def readable_def by blast
qed

text \<open>C2: every run of the relay is a run of the specification. Whatever the peers send and however it
  is cut, whoever connects, vanishes or is too slow, and however the publisher's thread
  interleaves: the abstract state of the relay is reached by connections that are made, obey
  commands and end, and the bytes every peer was sent are exactly the messages of that run.\<close>

theorem run_refines:
  assumes "reachable s0 s" "initial s0" "0 \<le> sv_delay s0" "sv_delay s0 < 256" "accepting s0"
  shows "\<exists>out. lobby_run (sv_rand s0) (autostart s0) empty_lobby out (lobby_of s) \<and>
    (\<forall>c. stream s c = post_to (word_of_int (sv_delay s0)) out c)"
proof -
  have d: "delay_ok s0" using assms(3,4) by (simp add: delay_ok_def)
  note start = tidy_initial [OF assms(2) d assms(5)]
  from reachable_tidy(2) [OF assms] show ?thesis
    unfolding follows_def posted_def start(2) by (auto simp: start(3))
qed

text \<open>C4: the shape of the abstract state. In every reachable state, whatever the sockets do, no two
  players hold one name and none holds two, every name is valid, and a table is known to exactly its
  two ends, which are registered if they are connected (\<open>lobby_sound\<close>). If the sockets take what they are
  given, registered players and those at a table are all connected as well (\<open>lobby_fine\<close>; when sockets
  fail that can be false), and every run of the specification from there on keeps it so.\<close>

theorem lobby_consistent:
  assumes "reachable s0 s" "initial s0" "0 \<le> sv_delay s0" "sv_delay s0 < 256"
  shows "lobby_sound (lobby_of s) \<and>
    (accepting s0 \<longrightarrow> lobby_fine (lobby_of s) \<and>
       (\<forall>rand auto out b. lobby_run rand auto (lobby_of s) out b \<longrightarrow> lobby_fine b))"
proof -
  have "INV s" using reachable_INV [OF assms(1,2)] assms(3,4) by (simp add: delay_ok_def)
  moreover have "lobby_fine (lobby_of s)" if "accepting s0"
    using tidy_fine [OF reachable_tidy(1) [OF assms that]] .
  ultimately show ?thesis using INV_sound lobby_run_fine by blast
qed

section \<open>Witnesses\<close>

definition fair_start :: server where
  "fair_start = new_server 3 None 0 (\<lambda>_ _. SSent 4096) (\<lambda>_. 5)"

definition fair1 :: server where
  "fair1 = snd (run_event (EvAccept (Conn (''a'', 1) True) 0) fair_start)"

definition fair2 :: server where
  "fair2 = snd (run_event (EvReady 0 False (Some (RData [4, 1, 2, 65, 65]))) fair1)"

lemma fair1_run: "run_event (EvAccept (Conn (''a'', 1) True) 0) fair_start = (Inr (), fair1)"
  by (simp add: fair1_def run fair_start_def)

lemma fair2_run: "run_event (EvReady 0 False (Some (RData [4, 1, 2, 65, 65]))) fair1 = (Inr (), fair2)"
  by (simp add: fair2_def fair1_def run fair_start_def)

lemma fair_reachable: "reachable fair_start fair1" "reachable fair_start fair2"
proof -
  show 1: "reachable fair_start fair1"
    by (rule reachable_event [OF reachable.start _ fair1_run]) (simp add: possible_def)
  show "reachable fair_start fair2"
    by (rule reachable_event [OF 1 _ fair2_run]) (simp add: possible_def fair1_def run fair_start_def)
qed

lemma fair_initial:
  "initial fair_start" "0 \<le> sv_delay fair_start" "sv_delay fair_start < 256" "accepting fair_start"
  by (auto simp: initial_def fair_start_def new_server_def accepting_def)

lemma fair2_values: "sv_clients fair2 = [0]" "sv_by_name fair2 = [([65, 65], 0)]"
  "stream fair2 0 = [2, 3, 0]"
  by (simp_all add: fair2_def fair1_def run fair_start_def stream_def)

theorem frame_refines_witness:
  "\<exists>t. handle_frame 0 [12] fair2 = (Inr (lb_up (fst (expected fair2 0 12 [])) 0), t) \<and>
    lobby_of t = fst (expected fair2 0 12 [])"
  using frame_refines [OF fair_reachable(2) fair_initial, of 0 "[12]"]
  by (auto simp: fair2_values readable_def)

theorem run_refines_witness:
  "\<exists>out. lobby_run (sv_rand fair_start) (autostart fair_start) empty_lobby out (lobby_of fair2) \<and>
    [2, 3, 0] = post_to (word_of_int (sv_delay fair_start)) out 0"
  using run_refines [OF fair_reachable(2) fair_initial] fair2_values(3) by metis

theorem lobby_consistent_witness: "lobby_sound (lobby_of fair2) \<and> lobby_fine (lobby_of fair2)"
  using lobby_consistent [OF fair_reachable(2) fair_initial(1-3)] fair_initial(4) by blast

end
