(* ===== verification/Clients.thy ===== *)
theory Clients
  imports Runs
begin

text \<open>
  The console's side of the wire, as the test clients of \<open>tools/bbnet_client_sim.py\<close> (class
  \<open>Cli\<close> and its helpers) and \<open>tools/ghost_peer.py\<close> have it: writing frames and name fields,
  reading frames out of what \<open>recv\<close> delivers, and reading the relay's payloads. The reader is
  another instance of \<open>framing\<close>; the relay's streams and lobby lists are shown to be what the
  clients take them for.
\<close>

section \<open>Strings on the wire\<close>

text \<open>\<open>str.encode()\<close> and \<open>bytes.decode()\<close>: strict UTF-8.\<close>

definition utf8_char :: "nat \<Rightarrow> exn + bytes" where
  "utf8_char n =
     (if n < 0x80 then Inr [of_nat n]
      else if n < 0x800 then Inr [of_nat (0xC0 + n div 64), of_nat (0x80 + n mod 64)]
      else if 0xD800 \<le> n \<and> n < 0xE000 then Inl UnicodeEncodeError
      else if n < 0x10000 then
        Inr [of_nat (0xE0 + n div 4096), of_nat (0x80 + n div 64 mod 64), of_nat (0x80 + n mod 64)]
      else
        Inr [of_nat (0xF0 + n div 262144), of_nat (0x80 + n div 4096 mod 64),
             of_nat (0x80 + n div 64 mod 64), of_nat (0x80 + n mod 64)])"

fun utf8 :: "pystr \<Rightarrow> exn + bytes" where
  "utf8 [] = Inr []"
| "utf8 (n # ns) =
     (case utf8_char n of
        Inl e \<Rightarrow> Inl e
      | Inr b \<Rightarrow> (case utf8 ns of Inl e \<Rightarrow> Inl e | Inr bs \<Rightarrow> Inr (b @ bs)))"

text \<open>The first character of a byte string and the bytes behind it; 0x80 to 0xBF continue one.\<close>

definition cont :: "byte \<Rightarrow> bool" where
  "cont b \<longleftrightarrow> 0x80 \<le> unat b \<and> unat b < 0xC0"

definition low6 :: "byte \<Rightarrow> nat" where
  "low6 b = unat b mod 64"

definition utf8_head :: "byte \<Rightarrow> bytes \<Rightarrow> (nat \<times> bytes) option" where
  "utf8_head b bs =
     (let n = unat b
      in if n < 0x80 then Some (n, bs)
         else if n < 0xC2 then None
         else (case bs of [] \<Rightarrow> None | b1 # r1 \<Rightarrow>
           if \<not> cont b1 then None
           else if n < 0xE0 then Some (64 * (n mod 32) + low6 b1, r1)
           else (case r1 of [] \<Rightarrow> None | b2 # r2 \<Rightarrow>
             if \<not> cont b2 then None
             else if n < 0xF0 then
               (let u = 4096 * (n mod 16) + 64 * low6 b1 + low6 b2
                in if u < 0x800 \<or> 0xD800 \<le> u \<and> u < 0xE000 then None else Some (u, r2))
             else (case r2 of [] \<Rightarrow> None | b3 # r3 \<Rightarrow>
               let u = 262144 * (n mod 8) + 4096 * low6 b1 + 64 * low6 b2 + low6 b3
               in if \<not> cont b3 \<or> 0xF8 \<le> n \<or> u < 0x10000 \<or> 0x110000 \<le> u then None else Some (u, r3)))))"

lemma utf8_head_shrink: "utf8_head b bs = Some (u, r) \<Longrightarrow> length r \<le> length bs"
  by (auto simp: utf8_head_def Let_def split: if_splits list.splits)

function utf8_decode :: "bytes \<Rightarrow> exn + pystr" where
  "utf8_decode [] = Inr []"
| "utf8_decode (b # bs) =
     (case utf8_head b bs of
        None \<Rightarrow> Inl UnicodeDecodeError
      | Some (u, r) \<Rightarrow> (case utf8_decode r of Inl e \<Rightarrow> Inl e | Inr us \<Rightarrow> Inr (u # us)))"
  by pat_completeness auto
termination
  by (relation "measure length") (auto dest: utf8_head_shrink)

definition rstrip_nul :: "bytes \<Rightarrow> bytes" where
  "rstrip_nul b = rev (dropWhile (\<lambda>x. x = 0) (rev b))"

section \<open>bbnet_client_sim.py: writing\<close>

definition cs_frame :: "byte \<Rightarrow> bytes \<Rightarrow> exn + bytes" where
  "cs_frame t payload =
     (let body = t # payload
      in case mk_byte (int (length body)) of Inl e \<Rightarrow> Inl e | Inr l \<Rightarrow> Inr (l # body))"

definition cs_pad :: "pystr \<Rightarrow> exn + bytes" where
  "cs_pad name = (case utf8 name of Inl e \<Rightarrow> Inl e | Inr b \<Rightarrow> Inr (ljust 8 (take 8 b)))"

text \<open>The frame a client opens with; \<open>ver\<close> is 2 by default.\<close>

definition cs_hello :: "pystr \<Rightarrow> int \<Rightarrow> exn + bytes" where
  "cs_hello name ver =
     (case mk_byte ver of Inl e \<Rightarrow> Inl e | Inr v \<Rightarrow>
     (case utf8 name of Inl e \<Rightarrow> Inl e | Inr b \<Rightarrow> cs_frame T_HELLO (v # b)))"

text \<open>The status byte of a room of \<open>n\<close>, in a game of \<open>seats\<close>.\<close>

definition st_byte :: "nat \<Rightarrow> nat \<Rightarrow> nat" where
  "st_byte seats n = (if seats \<le> n then 0x80 OR n else n)"

section \<open>bbnet_client_sim.py: reading\<close>

text \<open>The test at the head of the reading loops: the first frame of the buffer, if it is all there.\<close>

definition peer_scan :: "bytes \<Rightarrow> scan" where
  "peer_scan buf =
     (case buf of
        [] \<Rightarrow> Wait
      | l # _ \<Rightarrow>
          if unat l + 1 \<le> length buf then Got (take (unat l) (drop 1 buf)) (drop (unat l + 1) buf) else Wait)"

text \<open>
  \<open>recv_frame\<close>: the type and payload of the next frame, the buffer, and what \<open>recv\<close> has still
  to deliver. A reception is \<open>None\<close> when it times out and empty at the end of the stream; with
  nothing left to come it times out. The buffer has advanced when \<open>body[0]\<close> raises.
\<close>

fun recv_frame :: "bytes \<Rightarrow> bytes option list \<Rightarrow> (exn + byte \<times> bytes) \<times> bytes \<times> bytes option list" where
  "recv_frame buf [] =
     (case peer_scan buf of
        Got body rest \<Rightarrow> (if body = [] then Inl IndexError else Inr (hd body, tl body), rest, [])
      | _ \<Rightarrow> (Inl TimeoutError, buf, []))"
| "recv_frame buf (ch # chs) =
     (case peer_scan buf of
        Got body rest \<Rightarrow> (if body = [] then Inl IndexError else Inr (hd body, tl body), rest, ch # chs)
      | _ \<Rightarrow>
          (case ch of
             None \<Rightarrow> (Inl TimeoutError, buf, chs)
           | Some d \<Rightarrow> if d = [] then (Inl EOFError, buf, chs) else recv_frame (buf @ d) chs))"

definition expect :: "byte \<Rightarrow> bytes \<Rightarrow> bytes option list \<Rightarrow> (exn + bytes) \<times> bytes \<times> bytes option list" where
  "expect ftype buf chs =
     (case recv_frame buf chs of
        (Inl e, buf', chs') \<Rightarrow> (Inl e, buf', chs')
      | (Inr (t, p), buf', chs') \<Rightarrow> (if t = ftype then Inr p else Inl AssertionError, buf', chs'))"

text \<open>\<open>e[:8].rstrip(b"\0").decode()\<close>, and the status of the first entry with the name.\<close>

definition name_field :: "bytes \<Rightarrow> exn + pystr" where
  "name_field e = utf8_decode (rstrip_nul (take 8 e))"

fun status_from :: "bytes \<Rightarrow> pystr \<Rightarrow> nat \<Rightarrow> nat \<Rightarrow> exn + byte option" where
  "status_from payload name i 0 = Inr None"
| "status_from payload name i (Suc n) =
     (let e = take 9 (drop (1 + 9 * i) payload)
      in case name_field e of
           Inl x \<Rightarrow> Inl x
         | Inr m \<Rightarrow>
             if m = name then (if length e \<le> 8 then Inl IndexError else Inr (Some (e ! 8)))
             else status_from payload name (Suc i) n)"

definition lobby_status :: "bytes \<Rightarrow> pystr \<Rightarrow> exn + byte option" where
  "lobby_status payload name =
     (if payload = [] then Inl IndexError else status_from payload name 0 (unat (payload ! 0)))"

fun names_from :: "bytes \<Rightarrow> nat \<Rightarrow> nat \<Rightarrow> exn + pystr list" where
  "names_from raw i 0 = Inr []"
| "names_from raw i (Suc n) =
     (case name_field (drop (i * 8) raw) of
        Inl e \<Rightarrow> Inl e
      | Inr m \<Rightarrow> (case names_from raw (Suc i) n of Inl e \<Rightarrow> Inl e | Inr ms \<Rightarrow> Inr (m # ms)))"

definition roster_names :: "bytes \<Rightarrow> exn + pystr list" where
  "roster_names raw = names_from raw 0 4"

text \<open>\<open>n\<close> calls of \<open>recv_frame\<close> in a row.\<close>

fun recv_n :: "nat \<Rightarrow> bytes \<Rightarrow> bytes option list \<Rightarrow> exn + (byte \<times> bytes) list" where
  "recv_n 0 buf chs = Inr []"
| "recv_n (Suc n) buf chs =
     (case recv_frame buf chs of
        (Inl e, _, _) \<Rightarrow> Inl e
      | (Inr tp, buf', chs') \<Rightarrow> (case recv_n n buf' chs' of Inl e \<Rightarrow> Inl e | Inr tps \<Rightarrow> Inr (tp # tps)))"

definition to_come :: "bytes option list \<Rightarrow> nat" where
  "to_come chs = sum_list (map (\<lambda>ch. case ch of None \<Rightarrow> 0 | Some d \<Rightarrow> length d) chs)"

lemma recv_frame_shrink:
  "recv_frame buf chs = (Inr (t, p), buf', chs') \<Longrightarrow> length buf' + to_come chs' < length buf + to_come chs"
  by (induction buf chs rule: recv_frame.induct)
    (auto simp: peer_scan_def to_come_def split: scan.splits list.splits if_splits option.splits)

text \<open>
  \<open>drain_lobby\<close>: the last LOBBY payload queued, if any; a frame of another type is put back.
\<close>

function drain_lobby ::
  "bytes option \<Rightarrow> bytes \<Rightarrow> bytes option list \<Rightarrow> (exn + bytes option) \<times> bytes \<times> bytes option list" where
  "drain_lobby seen buf chs =
     (case recv_frame buf chs of
        (Inl e, buf', chs') \<Rightarrow> (if e = TimeoutError then Inr seen else Inl e, buf', chs')
      | (Inr (t, p), buf', chs') \<Rightarrow>
          if t = T_LOBBY then drain_lobby (Some p) buf' chs'
          else (case cs_frame t p of
                  Inl e \<Rightarrow> (Inl e, buf', chs')
                | Inr f \<Rightarrow> (Inr seen, f @ buf', chs')))"
  by pat_completeness auto
termination
  by (relation "measure (\<lambda>(seen, buf, chs). length buf + to_come chs)") (auto dest!: recv_frame_shrink [OF sym])

declare drain_lobby.simps [simp del]

section \<open>The reader is an instance of the framing contract\<close>

lemma unat_of_length: "length m \<le> 255 \<Longrightarrow> unat (of_nat (length m) :: byte) = length m"
  by simp

lemma peer_scan_enc: "length m \<le> 255 \<Longrightarrow> peer_scan (wire_of m @ rest) = Got m rest"
  using unat_of_length [of m] by (simp add: peer_scan_def wire_of_def del: of_nat_Suc)

interpretation peer_rx: framing wire_of "\<lambda>m. length m \<le> 255" peer_scan
proof unfold_locales
  show "peer_scan [] = Wait" by (simp add: peer_scan_def)
  show "peer_scan (wire_of m @ rest) = Got m rest" if "length m \<le> 255" for m rest
    using that by (rule peer_scan_enc)
qed (auto simp: peer_scan_def split: list.splits if_splits)

lemma peer_scan_short: "length b < length (wire_of m) \<Longrightarrow> length m \<le> 255 \<Longrightarrow> b @ c = wire_of m @ rest \<Longrightarrow> peer_scan b = Wait"
  using unat_of_length [of m] by (cases b) (auto simp: peer_scan_def wire_of_def)

text \<open>However the bytes arrive, \<open>recv_frame\<close> returns the next frame written, and leaves the rest.\<close>

lemma recv_frame_next:
  assumes "length m \<le> 254" "[] \<notin> set ds" "buf @ concat ds = wire_of (t # m) @ rest"
  shows "\<exists>buf' ds'. recv_frame buf (map Some ds) = (Inr (t, m), buf', map Some ds') \<and>
    buf' @ concat ds' = rest \<and> [] \<notin> set ds'"
  using assms(2,3)
proof (induction ds arbitrary: buf)
  case Nil
  then have "peer_scan buf = Got (t # m) rest" using assms(1) peer_scan_enc [of "t # m" rest] by simp
  then show ?case by (intro exI [of _ rest] exI [of _ "[]"]) simp
next
  case (Cons d ds)
  show ?case
  proof (cases "length buf < length (wire_of (t # m))")
    case True
    then have "peer_scan buf = Wait"
      using Cons.prems(2) assms(1) by (intro peer_scan_short [of buf "t # m" "concat (d # ds)" rest]) simp_all
    moreover obtain buf' ds' where "recv_frame (buf @ d) (map Some ds) = (Inr (t, m), buf', map Some ds')"
      "buf' @ concat ds' = rest" "[] \<notin> set ds'"
      using Cons.IH [of "buf @ d"] Cons.prems by auto
    ultimately show ?thesis using Cons.prems(1) by auto
  next
    case False
    let ?w = "wire_of (t # m)" and ?r = "drop (length (wire_of (t # m))) buf"
    have "take (length ?w) (buf @ concat (d # ds)) = ?w" unfolding Cons.prems(2) by simp
    with False have "take (length ?w) buf = ?w" by simp
    then have r: "buf = ?w @ ?r" by (metis append_take_drop_id)
    have "?w @ (?r @ concat (d # ds)) = ?w @ rest"
      using Cons.prems(2) r by (metis append_assoc)
    then have rest: "?r @ concat (d # ds) = rest" by (simp only: same_append_eq)
    have "peer_scan buf = Got (t # m) ?r" by (subst r) (simp add: peer_scan_enc assms(1))
    with rest Cons.prems(1) show ?thesis
      by (intro exI [of _ ?r] exI [of _ "d # ds"]) simp
  qed
qed

section \<open>Name fields\<close>

lemma utf8_decode_ascii: "list_all (\<lambda>n. n < 128) ns \<Longrightarrow> utf8_decode (map of_nat ns) = Inr ns"
  by (induction ns) (simp_all add: utf8_head_def Let_def)

lemma utf8_ascii: "list_all (\<lambda>n. n < 128) ns \<Longrightarrow> utf8 ns = Inr (map of_nat ns)"
  by (induction ns) (simp_all add: utf8_char_def)

lemma valid_name_ascii: "valid_name n \<Longrightarrow> list_all (\<lambda>c. c < 128) n"
  using valid_name_chars by (fastforce simp: list_all_iff)

text \<open>On names both sides pad alike, and the field reads back as the name.\<close>

lemma cs_pad_name: "valid_name n \<Longrightarrow> cs_pad n = pad_name (Some n)"
  using valid_name_ascii [of n] by (simp add: cs_pad_def utf8_ascii pad_name_def encode_ascii_def)

lemma dropWhile_eq_self: "(\<And>x. x \<in> set xs \<Longrightarrow> \<not> P x) \<Longrightarrow> dropWhile P xs = xs"
  by (cases xs) simp_all

lemma rstrip_nul_pad: "0 \<notin> set b \<Longrightarrow> rstrip_nul (b @ replicate k 0) = b"
proof -
  assume b: "0 \<notin> set b"
  have "dropWhile (\<lambda>x. x = 0) (replicate k (0::byte) @ rev b) = dropWhile (\<lambda>x. x = 0) (rev b)"
    by (rule dropWhile_append2) simp
  also have "\<dots> = rev b" using b by (intro dropWhile_eq_self) auto
  finally show ?thesis by (simp add: rstrip_nul_def)
qed

lemma name_field_pad:
  assumes "valid_name n" "pad_name (Some n) = Inr b"
  shows "name_field (b @ rest) = Inr n"
proof -
  have b: "b = map of_nat n @ replicate (8 - length n) 0" "length b = 8"
    using assms pad_name_valid pad_name_length by auto
  have "(of_nat c :: byte) \<noteq> 0" if "c \<in> set n" for c
    using valid_name_chars [OF assms(1) that] of_nat_byte_inject [of c 0] by simp
  then have "rstrip_nul b = map of_nat n" unfolding b(1) by (intro rstrip_nul_pad) auto
  then show ?thesis
    using b(2) utf8_decode_ascii [OF valid_name_ascii [OF assms(1)]] by (simp add: name_field_def)
qed

section \<open>Reading the relay's lobby list\<close>

definition entries_are :: "server \<Rightarrow> cid list \<Rightarrow> bytes \<Rightarrow> bool" where
  "entries_are s cs b \<longleftrightarrow> length b = 9 * length cs \<and>
     (\<forall>i < length cs. \<exists>n. name_of s (cs ! i) = Some n \<and> valid_name n \<and>
        name_field (drop (9 * i) b) = Inr n \<and> b ! (9 * i + 8) = of_nat (status s (cs ! i)))"

lemma entries_areD:
  "entries_are s cs b \<Longrightarrow> i < length cs \<Longrightarrow> \<exists>n. name_of s (cs ! i) = Some n \<and> valid_name n \<and>
     name_field (drop (9 * i) b) = Inr n \<and> b ! (9 * i + 8) = of_nat (status s (cs ! i))"
  by (simp add: entries_are_def)

lemma entries_are_Cons:
  assumes "name_of s c = Some n" "valid_name n" "pad_name (Some n) = Inr nm" "entries_are s cs b"
  shows "entries_are s (c # cs) (nm @ of_nat (status s c) # b)"
  unfolding entries_are_def
proof (intro conjI allI impI)
  have len: "length nm = 8" using assms(3) pad_name_length by blast
  then show "length (nm @ of_nat (status s c) # b) = 9 * length (c # cs)"
    using assms(4) by (simp add: entries_are_def)
  fix i assume i: "i < length (c # cs)"
  show "\<exists>n. name_of s ((c # cs) ! i) = Some n \<and> valid_name n \<and>
      name_field (drop (9 * i) (nm @ of_nat (status s c) # b)) = Inr n \<and>
      (nm @ of_nat (status s c) # b) ! (9 * i + 8) = of_nat (status s ((c # cs) ! i))"
  proof (cases i)
    case 0
    with assms len name_field_pad [OF assms(2,3)] show ?thesis by (simp add: nth_append)
  next
    case (Suc j)
    with entries_areD [OF assms(4), of j] i len show ?thesis by (simp add: nth_append algebra_simps)
  qed
qed

lemma list_entries_are:
  assumes "list_entries s cs = Inr b" "\<And>c. c \<in> set cs \<Longrightarrow> \<exists>n. name_of s c = Some n \<and> valid_name n"
  shows "entries_are s cs b"
  using assms
proof (induction cs arbitrary: b)
  case (Cons c cs)
  obtain n where n: "name_of s c = Some n" "valid_name n" using Cons.prems(2) [of c] by auto
  then obtain nm where nm: "pad_name (Some n) = Inr nm" by (simp add: pad_name_valid)
  with Cons.prems(1) n obtain st bs where "mk_byte (int (status s c)) = Inr st" "list_entries s cs = Inr bs"
    and b: "b = nm @ st # bs"
    by (auto split: sum.splits)
  then have "st = of_nat (status s c)" by (auto simp: mk_byte_def split: if_splits)
  with entries_are_Cons [OF n nm] Cons b \<open>list_entries s cs = Inr bs\<close> show ?case by auto
qed (simp add: entries_are_def)

text \<open>The first entry from \<open>i\<close> on with the name, as the loop finds it.\<close>

lemma status_from_entries:
  assumes "entries_are s cs b" "i + k = length cs"
  shows "status_from (l # b) name i k =
    Inr (map_option (\<lambda>c. of_nat (status s c)) (find (\<lambda>c. name_of s c = Some name) (drop i cs)))"
  using assms(2)
proof (induction k arbitrary: i)
  case (Suc k)
  let ?e = "take 9 (drop (1 + 9 * i) (l # b))"
  obtain n where n: "name_of s (cs ! i) = Some n" "name_field (drop (9 * i) b) = Inr n"
    "b ! (9 * i + 8) = of_nat (status s (cs ! i))"
    using entries_areD [OF assms(1), of i] Suc.prems by auto
  have len: "length b = 9 * length cs" using assms(1) by (simp add: entries_are_def)
  have "take 8 ?e = take 8 (drop (9 * i) b)" by (simp add: min_def)
  with n(2) have field: "name_field ?e = Inr n" by (simp add: name_field_def)
  have e8: "length ?e = 9" "?e ! 8 = of_nat (status s (cs ! i))" using len Suc.prems n(3) by simp_all
  have "drop i cs = cs ! i # drop (Suc i) cs" using Suc.prems by (intro Cons_nth_drop_Suc [symmetric]) simp
  with field e8 n(1) Suc.IH [of "Suc i"] Suc.prems show ?case by (simp del: drop_Suc_Cons)
qed simp

lemma list_others_valid:
  assumes "INV s" "d \<in> set (list_others s c)"
  shows "\<exists>n. name_of s d = Some n \<and> valid_name n"
proof -
  obtain m where "(m, d) \<in> set (sv_by_name s)"
    using assms(2) by (auto simp: list_others_def dest!: in_set_takeD)
  then show ?thesis
    using assms(1) names_ok_entry names_ok_valid INV_D(1) by blast
qed

lemma lobby_status_list:
  assumes "INV s" "lobby_payload s c = Inr p"
  shows "lobby_status p name =
    Inr (map_option (\<lambda>d. of_nat (status s d)) (find (\<lambda>d. name_of s d = Some name) (list_others s c)))"
proof -
  let ?os = "list_others s c"
  obtain l b where p: "p = l # b" "mk_byte (int (length ?os)) = Inr l" "list_entries s ?os = Inr b"
    using assms(2) by (auto simp: lobby_payload_def Let_def split: sum.splits)
  have "unat l = length ?os" using p(2) by (auto simp: mk_byte_def split: if_splits)
  moreover have "entries_are s ?os b"
    using list_entries_are [OF p(3)] list_others_valid [OF assms(1)] by blast
  ultimately show ?thesis
    using status_from_entries [of s ?os b 0 "length ?os" l name] p(1) by (simp add: lobby_status_def)
qed

section \<open>Reading a stream\<close>

lemma recv_n_stream:
  assumes "list_all readable ms" "[] \<notin> set ds" "buf @ concat ds = concat (map wire_of ms)"
  shows "recv_n (length ms) buf (map Some ds) = Inr (map (\<lambda>m. (hd m, tl m)) ms)"
  using assms
proof (induction ms arbitrary: buf ds)
  case (Cons m ms)
  then obtain t p where m: "m = t # p" "length p \<le> 254" by (cases m) (auto simp: readable_def)
  then have "buf @ concat ds = wire_of (t # p) @ concat (map wire_of ms)" using Cons.prems(3) by simp
  from recv_frame_next [OF m(2) Cons.prems(2) this]
  obtain buf' ds' where "recv_frame buf (map Some ds) = (Inr (t, p), buf', map Some ds')"
    "buf' @ concat ds' = concat (map wire_of ms)" "[] \<notin> set ds'" by blast
  with Cons m show ?case by simp
qed simp

lemma cs_frame_wire: "length p \<le> 254 \<Longrightarrow> cs_frame t p = Inr (wire_of (t # p))"
  by (simp add: cs_frame_def wire_of_def)

text \<open>The lobby frames at the head of what is to come are read, the next frame stays.\<close>

lemma drain_lobby_reads:
  assumes "\<And>p. p \<in> set ps \<Longrightarrow> length p \<le> 254" "length q \<le> 254" "t \<noteq> T_LOBBY" "[] \<notin> set ds"
    and "buf @ concat ds = concat (map (\<lambda>p. wire_of (T_LOBBY # p)) ps) @ wire_of (t # q) @ rest"
  shows "\<exists>buf' ds'. drain_lobby pre buf (map Some ds) =
      (Inr (if ps = [] then pre else Some (last ps)), buf', map Some ds') \<and>
    buf' @ concat ds' = wire_of (t # q) @ rest"
  using assms(1,4,5)
proof (induction ps arbitrary: pre buf ds)
  case Nil
  from Nil.prems(3) have "buf @ concat ds = wire_of (t # q) @ rest" by simp
  from recv_frame_next [OF assms(2) Nil.prems(2) this] cs_frame_wire [OF assms(2)] assms(3)
  show ?case by (auto simp: drain_lobby.simps [of pre])
next
  case (Cons p ps)
  have p: "length p \<le> 254" using Cons.prems(1) by simp
  have "buf @ concat ds = wire_of (T_LOBBY # p) @
      (concat (map (\<lambda>p. wire_of (T_LOBBY # p)) ps) @ wire_of (t # q) @ rest)"
    using Cons.prems(3) by simp
  from recv_frame_next [OF p Cons.prems(2) this]
  obtain buf' ds' where first: "recv_frame buf (map Some ds) = (Inr (T_LOBBY, p), buf', map Some ds')"
    and rest: "buf' @ concat ds' = concat (map (\<lambda>p. wire_of (T_LOBBY # p)) ps) @ wire_of (t # q) @ rest"
    "[] \<notin> set ds'" by blast
  have "drain_lobby pre buf (map Some ds) = drain_lobby (Some p) buf' (map Some ds')"
    using first by (simp add: drain_lobby.simps [of pre])
  with Cons.IH [OF _ rest(2,1), of "Some p"] Cons.prems(1) show ?case
    by (cases "ps = []") auto
qed

section \<open>Reading a roster\<close>

lemma names_from_pads:
  assumes "pad_names ns = Inr b" "\<And>n. n \<in> set ns \<Longrightarrow> \<exists>m. n = Some m \<and> valid_name m"
    "length pre = 8 * i"
  shows "names_from (pre @ b @ replicate (8 * k) 0) i (length ns + k) = Inr (map the ns @ replicate k [])"
  using assms
proof (induction ns arbitrary: b pre i)
  case Nil
  have "names_from (pre @ replicate (8 * k) 0) i k = Inr (replicate k [])" if "length pre = 8 * i" for pre i
    using that
  proof (induction k arbitrary: pre i)
    case (Suc k)
    have "rstrip_nul (replicate 8 0) = []" using rstrip_nul_pad [of "[]" 8] by simp
    then have "name_field (drop (i * 8) (pre @ replicate (8 * Suc k) 0)) = Inr []"
      using Suc.prems by (simp add: name_field_def min_def mult.commute)
    moreover have "pre @ replicate (8 * Suc k) 0 = (pre @ replicate 8 0) @ replicate (8 * k) 0"
      by (simp add: replicate_add [symmetric])
    ultimately show ?case using Suc.IH [of "pre @ replicate 8 0" "Suc i"] Suc.prems by simp
  qed simp
  with Nil show ?case by simp
next
  case (Cons n ns)
  obtain m where m: "n = Some m" "valid_name m" using Cons.prems(2) [of n] by auto
  then obtain nm where nm: "pad_name (Some m) = Inr nm" by (simp add: pad_name_valid)
  with Cons.prems(1) m obtain bs where b: "pad_names ns = Inr bs" "b = nm @ bs" by (auto split: sum.splits)
  have "length nm = 8" using nm pad_name_length by blast
  then have "names_from (pre @ b @ replicate (8 * k) 0) (Suc i) (length ns + k) = Inr (map the ns @ replicate k [])"
    using Cons.IH [OF b(1), of "pre @ nm" "Suc i"] Cons.prems b(2) by simp
  moreover have "name_field (drop (i * 8) (pre @ b @ replicate (8 * k) 0)) = Inr m"
    using name_field_pad [OF m(2) nm, of "bs @ replicate (8 * k) 0"] Cons.prems(3) b(2) by (simp add: mult.commute)
  ultimately show ?case using m(1) by simp
qed

lemma roster_names_roster:
  assumes "roster s r = Inr b" "length (members s r) \<le> ROSTER_SLOTS"
    "\<And>m. m \<in> set (members s r) \<Longrightarrow> \<exists>n. name_of s m = Some n \<and> valid_name n"
  shows "roster_names b =
    Inr (map (\<lambda>m. the (name_of s m)) (members s r) @ replicate (ROSTER_SLOTS - length (members s r)) [])"
proof -
  obtain pads where pads: "pad_names (map (name_of s) (members s r)) = Inr pads"
    and b: "b = pads @ replicate (8 * (ROSTER_SLOTS - length (members s r))) 0"
    using assms(1) by (auto simp: roster_def split: sum.splits)
  have "names_from ([] @ b) 0 (length (map (name_of s) (members s r)) + (ROSTER_SLOTS - length (members s r))) =
      Inr (map the (map (name_of s) (members s r)) @ replicate (ROSTER_SLOTS - length (members s r)) [])"
    unfolding b using assms(3) by (intro names_from_pads [OF pads]) auto
  moreover have "length (map (name_of s) (members s r)) + (ROSTER_SLOTS - length (members s r)) = 4"
    using assms(2) by (simp add: ROSTER_SLOTS_def)
  ultimately show ?thesis by (simp add: roster_names_def comp_def)
qed

section \<open>Properties\<close>

text \<open>C17: a console that reads the relay's stream frame by frame, however its bytes arrive, gets
  exactly the frames the relay wrote to it, each of a length the relay itself accepts, and nothing
  is left over.\<close>

theorem client_reads_stream:
  assumes "reachable s0 s" "initial s0" "0 \<le> sv_delay s0" "sv_delay s0 < 256"
    and "[] \<notin> set ds" "concat ds = stream s c"
  shows "\<exists>ms. list_all readable ms \<and> stream s c = concat (map wire_of ms) \<and>
    recv_n (length ms) [] (map Some ds) = Inr (map (\<lambda>m. (hd m, tl m)) ms)"
proof -
  have "INV s" using reachable_INV [OF assms(1,2)] assms(3,4) by (simp add: delay_ok_def)
  then obtain ms where ms: "list_all readable ms" "stream s c = concat (map wire_of ms)"
    using INV_D(7) unfolding streams_ok_def framed_def by blast
  with recv_n_stream [OF ms(1) assms(5), of "[]"] assms(6) show ?thesis by (intro exI [of _ ms]) simp
qed

theorem client_reads_stream_witness:
  "\<exists>ms. list_all readable ms \<and> recv_n (length ms) [] (map Some (map (\<lambda>x. [x]) (stream demo_match 1))) =
     Inr (map (\<lambda>m. (hd m, tl m)) ms)"
proof -
  have "0 \<le> sv_delay demo_start" "sv_delay demo_start < 256"
    by (simp_all add: demo_start_def new_server_def)
  from client_reads_stream [OF reachable_demo_match initial_demo this, of "map (\<lambda>x. [x]) (stream demo_match 1)" 1]
  show ?thesis by (simp add: image_iff) blast
qed

text \<open>C18: the lobby list, from the relay to the console's view of it. In a reachable state the payload
  for a client can be built, and the test client finds in it the status the relay gave to whoever
  holds a name, for the players listed, and nothing for any other name.\<close>

theorem lobby_view:
  assumes "reachable s0 s" "initial s0" "0 \<le> sv_delay s0" "sv_delay s0 < 256"
  shows "\<exists>p. lobby_payload s c = Inr p \<and> lobby_status p name =
    Inr (case dget (sv_by_name s) name of
           None \<Rightarrow> None
         | Some d \<Rightarrow> if d \<in> set (list_others s c) then Some (of_nat (status s d)) else None)"
proof -
  have inv: "INV s" using reachable_INV [OF assms(1,2)] assms(3,4) by (simp add: delay_ok_def)
  obtain p where p: "lobby_payload s c = Inr p" using lobby_payload_ok [OF inv] by blast
  have entry: "(name, d) \<in> set (sv_by_name s)" if a: "d \<in> set (list_others s c)" "name_of s d = Some name" for d
  proof -
    obtain m where "(m, d) \<in> set (sv_by_name s)" using a(1) by (auto simp: list_others_def dest!: in_set_takeD)
    then show ?thesis using names_ok_entry [OF INV_D(1) [OF inv]] a(2) by force
  qed
  have get: "dget (sv_by_name s) name = Some d \<longleftrightarrow> (name, d) \<in> set (sv_by_name s)" for d
    using dget_in [OF names_ok_wf [OF INV_D(1) [OF inv]]] dget_Some_in by metis
  have "find (\<lambda>d. name_of s d = Some name) (list_others s c) =
      (case dget (sv_by_name s) name of None \<Rightarrow> None | Some d \<Rightarrow> if d \<in> set (list_others s c) then Some d else None)"
  proof (cases "find (\<lambda>d. name_of s d = Some name) (list_others s c)")
    case None
    then have "d \<notin> set (list_others s c)" if "dget (sv_by_name s) name = Some d" for d
      using that names_ok_entry [OF INV_D(1) [OF inv]] unfolding get find_None_iff by blast
    with None show ?thesis by (simp split: option.split)
  next
    case (Some d)
    then have "d \<in> set (list_others s c)" "name_of s d = Some name"
      by (auto simp: find_Some_iff)
    with entry [OF this] Some show ?thesis unfolding get [symmetric] by simp
  qed
  with lobby_status_list [OF inv p, of name] p show ?thesis by (simp split: option.split)
qed

theorem lobby_view_witness:
  "\<exists>p. lobby_payload demo_match 0 = Inr p \<and> lobby_status p [66, 66] = Inr (Some 130) \<and> lobby_status p [67, 67] = Inr None"
proof -
  have d: "0 \<le> sv_delay demo_start" "sv_delay demo_start < 256"
    by (simp_all add: demo_start_def new_server_def)
  note view = lobby_view [OF reachable_demo_match initial_demo d, of 0]
  have "dget (sv_by_name demo_match) [66, 66] = Some 1" "dget (sv_by_name demo_match) [67, 67] = None"
    "1 \<in> set (list_others demo_match 0)"
    by (simp_all add: demo_match_def run)
  moreover have "(128 :: nat) OR 2 = 130" by simp
  then have "status demo_match 1 = 130" by (simp add: demo_match_def run numeral_2_eq_2)
  ultimately show ?thesis using view [of "[66, 66]"] view [of "[67, 67]"] by auto
qed

end
