(* ===== verification/RomImages.thy ===== *)
theory RomImages
  imports Prelude PyDict
begin

text \<open>
  The ROM build tools: the patch map \<open>tools/patches.py\<close>, the source dump \<open>tools/dump_rom.py\<close>, the
  check of a patched build \<open>tools/check_patch.py\<close> and the memory-map check
  \<open>tools/check_7000.py\<close>. A ROM file is a list of bytes, an image a list of 16-bit words, a
  patch map a dict from word address to an as1600 expression; the assembler itself is not part
  of the repository and appears as a parameter of the theorems. Printed text is a sequence of
  code points; what a tool prints is modelled by the values it prints.
\<close>

unbundle bit_operations_syntax

section \<open>Words and hexadecimal numbers\<close>

text \<open>\<open>(d[i] << 8) | d[i + 1]\<close> for the even \<open>i\<close>; an odd byte at the end is not read.\<close>

fun words :: "bytes \<Rightarrow> nat list" where
  "words (hi # lo # d) = (push_bit 8 (unat hi) OR unat lo) # words d"
| "words d = []"

definition hex_digit :: "nat \<Rightarrow> nat" where
  "hex_digit n = (if n < 10 then 48 + n else 55 + n)"

fun hex_digits :: "nat \<Rightarrow> pystr" where
  "hex_digits n = (if n < 16 then [hex_digit n] else hex_digits (n div 16) @ [hex_digit (n mod 16)])"

declare hex_digits.simps [simp del]

text \<open>The format \<open>{n:04X}\<close>.\<close>

definition hex4 :: "nat \<Rightarrow> pystr" where
  "hex4 n = replicate (4 - length (hex_digits n)) 48 @ hex_digits n"

text \<open>\<open>int(s, 16)\<close> on hexadecimal digits.\<close>

definition hex_value :: "nat \<Rightarrow> nat option" where
  "hex_value c =
     (if 48 \<le> c \<and> c \<le> 57 then Some (c - 48)
      else if 65 \<le> c \<and> c \<le> 70 then Some (c - 55)
      else if 97 \<le> c \<and> c \<le> 102 then Some (c - 87)
      else None)"

definition unhex :: "pystr \<Rightarrow> nat" where
  "unhex s = foldl (\<lambda>n c. 16 * n + the (hex_value c)) 0 s"

text \<open>\<open>[0-9A-F]\<close>.\<close>

definition upper_hex :: "nat \<Rightarrow> bool" where
  "upper_hex c \<longleftrightarrow> (48 \<le> c \<and> c \<le> 57) \<or> (65 \<le> c \<and> c \<le> 70)"

definition dollar :: "nat \<Rightarrow> pystr" where
  "dollar n = 36 # hex4 n"

section \<open>tools/patches.py\<close>

definition patches :: "(nat, pystr) pydict" where
  "patches =
    [(0x5002, lit ''NEW_TIMER_TBL AND $FF''),
     (0x5003, lit ''NEW_TIMER_TBL SHR 8''),
     (0x5004, lit ''NET_START AND $FF''),
     (0x5005, lit ''NET_START SHR 8''),
     (0x5314, lit ''((NB_RAND1 SHR 10) SHL 2) OR $0100''),
     (0x5315, lit ''NB_RAND1 AND $3FF''),
     (0x56D4, lit ''((NB_RAND1 SHR 10) SHL 2) OR $0100''),
     (0x56D5, lit ''NB_RAND1 AND $3FF''),
     (0x5A27, lit ''((NB_RAND1 SHR 10) SHL 2) OR $0100''),
     (0x5A28, lit ''NB_RAND1 AND $3FF''),
     (0x52E0, lit ''((NB_RAND2 SHR 10) SHL 2) OR $0100''),
     (0x52E1, lit ''NB_RAND2 AND $3FF''),
     (0x5B9A, lit ''((NB_RAND2 SHR 10) SHL 2) OR $0100''),
     (0x5B9B, lit ''NB_RAND2 AND $3FF''),
     (0x5BA2, lit ''((NB_RAND2 SHR 10) SHL 2) OR $0100''),
     (0x5BA3, lit ''NB_RAND2 AND $3FF''),
     (0x5BD6, lit ''((NB_RAND2 SHR 10) SHL 2) OR $0100''),
     (0x5BD7, lit ''NB_RAND2 AND $3FF''),
     (0x5BFD, lit ''((NB_RAND2 SHR 10) SHL 2) OR $0100''),
     (0x5BFE, lit ''NB_RAND2 AND $3FF''),
     (0x544D, lit ''SHADOW_CTRL''),
     (0x507D, lit ''($507C - NB_SLOT5) AND $FFFF''),
     (0x5083, lit ''($5082 - NB_SLOT5) AND $FFFF''),
     (0x508A, lit ''($5089 - NB_SLOT2) AND $FFFF''),
     (0x5091, lit ''($5090 - NB_SLOT3) AND $FFFF''),
     (0x5098, lit ''($5097 - NB_SLOT2) AND $FFFF''),
     (0x509E, lit ''($509D - NB_SLOT3) AND $FFFF''),
     (0x5861, lit ''((NB_SFX_SKIP SHR 10) SHL 2) OR $0100''),
     (0x5862, lit ''NB_SFX_SKIP AND $3FF''),
     (0x5258, lit ''((NB_SFX_SKIP SHR 10) SHL 2) OR $0100''),
     (0x5259, lit ''NB_SFX_SKIP AND $3FF''),
     (0x5265, lit ''((NB_SFX_SKIP SHR 10) SHL 2) OR $0100''),
     (0x5266, lit ''NB_SFX_SKIP AND $3FF''),
     (0x58E7, lit ''((NB_SFX_SKIP SHR 10) SHL 2) OR $0100''),
     (0x58E8, lit ''NB_SFX_SKIP AND $3FF''),
     (0x5BAA, lit ''((NB_SFX_SKIP SHR 10) SHL 2) OR $0100''),
     (0x5BAB, lit ''NB_SFX_SKIP AND $3FF''),
     (0x5C4C, lit ''((NB_SFX_SKIP SHR 10) SHL 2) OR $0100''),
     (0x5C4D, lit ''NB_SFX_SKIP AND $3FF'')]"

section \<open>tools/dump_rom.py\<close>

text \<open>
  The lines written: the ORG line, a row of plain words with the address of its first word, and a
  patched word with its address and its original value.
\<close>

datatype asm_line = Org nat | Decle "pystr list" nat | Patch pystr nat nat

fun join :: "pystr \<Rightarrow> pystr list \<Rightarrow> pystr" where
  "join sep [] = []"
| "join sep [x] = x"
| "join sep (x # y # r) = x @ sep @ join sep (y # r)"

definition asm_text :: "asm_line \<Rightarrow> pystr" where
  "asm_text l =
     (case l of
        Org base \<Rightarrow> lit ''        ORG     '' @ dollar base @ [10]
      | Decle row a \<Rightarrow>
          lit ''        DECLE   '' @ join (lit '', '') row @ [9] @ lit ''; '' @ dollar a @ [10]
      | Patch e a w \<Rightarrow>
          lit ''        DECLE   '' @ e @ [9] @ lit ''; '' @ dollar a @ lit '' PATCH (orig '' @ dollar w @ lit '')'' @ [10])"

text \<open>The loop over the words; \<open>row\<close> holds the plain words not yet written.\<close>

definition flush_row :: "pystr list \<Rightarrow> nat \<Rightarrow> asm_line list" where
  "flush_row row addr = (if row = [] then [] else [Decle row (addr - length row)])"

fun dump_rows :: "(nat, pystr) pydict \<Rightarrow> nat \<Rightarrow> nat list \<Rightarrow> pystr list \<Rightarrow> asm_line list" where
  "dump_rows ps addr [] row = flush_row row addr"
| "dump_rows ps addr (w # ws) row =
     (case dget ps addr of
        Some e \<Rightarrow> flush_row row addr @ Patch e addr w # dump_rows ps (Suc addr) ws []
      | None \<Rightarrow>
          (let row' = row @ [dollar w]
           in if length row' = 8 then Decle row' (addr - 7) # dump_rows ps (Suc addr) ws []
              else dump_rows ps (Suc addr) ws row'))"

text \<open>\<open>words[:stop - base]\<close> under the range check.\<close>

definition stop_words :: "nat \<Rightarrow> nat option \<Rightarrow> nat list \<Rightarrow> exn + nat list" where
  "stop_words base stop ws =
     (case stop of
        None \<Rightarrow> Inr ws
      | Some a \<Rightarrow>
          if base \<le> a \<and> a \<le> base + length ws then Inr (take (a - base) ws) else Inl AssertionError)"

definition dump_rom :: "nat \<Rightarrow> nat option \<Rightarrow> (nat, pystr) pydict \<Rightarrow> bytes \<Rightarrow> exn + asm_line list" where
  "dump_rom base stop ps rom =
     (if length rom mod 2 \<noteq> 0 then Inl AssertionError
      else (case stop_words base stop (words rom) of
              Inl e \<Rightarrow> Inl e
            | Inr ws \<Rightarrow>
                if \<exists>a \<in> set (dkeys ps). \<not> (base \<le> a \<and> a < base + length ws) then Inl AssertionError
                else Inr (Org base # dump_rows ps base ws [])))"

section \<open>tools/check_patch.py\<close>

definition BASE :: nat where "BASE = 0x5000"

text \<open>\<open>words(path, count)\<close>: reading past the end of the file raises IndexError.\<close>

definition cp_words :: "bytes \<Rightarrow> int option \<Rightarrow> exn + nat list" where
  "cp_words d count =
     (let n = (case count of None \<Rightarrow> int (length d div 2) | Some k \<Rightarrow> k)
      in if 2 * n \<le> int (length d) then Inr (take (nat n) (words d)) else Inl IndexError)"

text \<open>The differing words outside the patch map, and the patched addresses with an unchanged word.\<close>

fun cp_scan ::
  "(nat, pystr) pydict \<Rightarrow> nat \<Rightarrow> (nat \<times> nat) list \<Rightarrow> (nat \<times> nat \<times> nat) list \<times> nat list" where
  "cp_scan ps addr [] = ([], [])"
| "cp_scan ps addr ((a, b) # r) =
     (let (bad, unpatched) = cp_scan ps (Suc addr) r
      in if dget ps addr \<noteq> None
         then (if a = b then (bad, addr # unpatched) else (bad, unpatched))
         else (if a \<noteq> b then ((addr, a, b) # bad, unpatched) else (bad, unpatched)))"

text \<open>
  The report: the undeclared differences, the notes, and when there is no undeclared difference
  the two numbers of the OK line (otherwise the tool exits with status 1).
\<close>

record cp_report =
  cp_bad :: "(nat \<times> nat \<times> nat) list"
  cp_unpatched :: "nat list"
  cp_ok :: "(int \<times> int) option"

definition check_patch ::
  "bytes \<Rightarrow> bytes \<Rightarrow> (nat, pystr) pydict \<Rightarrow> int option \<Rightarrow> exn + cp_report" where
  "check_patch orig_file hook_file ps count =
     (case cp_words orig_file count of
        Inl e \<Rightarrow> Inl e
      | Inr orig \<Rightarrow>
          (case cp_words hook_file (Some (int (length orig))) of
             Inl e \<Rightarrow> Inl e
           | Inr hooked \<Rightarrow>
               (let (bad, unpatched) = cp_scan ps BASE (zip orig hooked)
                in Inr \<lparr> cp_bad = bad, cp_unpatched = unpatched,
                         cp_ok = (if bad = [] then Some (int (length ps), int (length ps) - int (length unpatched))
                                  else None) \<rparr>)))"

section \<open>tools/check_7000.py\<close>

text \<open>The white space of \<open>str.strip\<close> and of \<open>\s\<close>.\<close>

definition py_space :: "nat \<Rightarrow> bool" where
  "py_space c \<longleftrightarrow>
     (9 \<le> c \<and> c \<le> 13) \<or> (28 \<le> c \<and> c \<le> 32) \<or> c = 0x85 \<or> c = 0xA0 \<or> c = 0x1680 \<or>
     (0x2000 \<le> c \<and> c \<le> 0x200A) \<or> c = 0x2028 \<or> c = 0x2029 \<or> c = 0x202F \<or> c = 0x205F \<or> c = 0x3000"

definition lstrip :: "pystr \<Rightarrow> pystr" where
  "lstrip s = dropWhile py_space s"

definition strip :: "pystr \<Rightarrow> pystr" where
  "strip s = rev (lstrip (rev (lstrip s)))"

text \<open>\<open>line.split(";", 1)[0]\<close>.\<close>

definition no_comment :: "pystr \<Rightarrow> pystr" where
  "no_comment s = takeWhile (\<lambda>c. c \<noteq> 59) s"

text \<open>\<open>lower\<close> on the letters A to Z, which are the only ones that lower to a letter of "mapping".\<close>

definition lower :: "pystr \<Rightarrow> pystr" where
  "lower s = map (\<lambda>c. if 65 \<le> c \<and> c \<le> 90 then c + 32 else c) s"

text \<open>
  \<open>MAP_RE\<close>. After a run of white space or of hex digits the expression demands a character that is
  neither, so taking the longest run loses no match.
\<close>

definition eat :: "nat \<Rightarrow> pystr \<Rightarrow> pystr option" where
  "eat c s = (case s of [] \<Rightarrow> None | d # r \<Rightarrow> if d = c then Some r else None)"

definition eat_hex :: "pystr \<Rightarrow> (nat \<times> pystr) option" where
  "eat_hex s =
     (let ds = takeWhile (\<lambda>c. hex_value c \<noteq> None) s
      in if ds = [] then None else Some (unhex ds, drop (length ds) s))"

definition eat_address :: "pystr \<Rightarrow> (nat \<times> pystr) option" where
  "eat_address s = Option.bind (eat 36 (lstrip s)) eat_hex"

definition map_re :: "pystr \<Rightarrow> (nat \<times> nat \<times> nat) option" where
  "map_re line =
     Option.bind (eat_address line) (\<lambda>(lo, r1).
     Option.bind (eat 45 (lstrip r1)) (\<lambda>r2.
     Option.bind (eat_address r2) (\<lambda>(hi, r3).
     Option.bind (eat 61 (lstrip r3)) (\<lambda>r4.
     Option.bind (eat_address r4) (\<lambda>(dest, r5).
       if lstrip r5 = [] then Some (lo, hi, dest) else None)))))"

text \<open>A segment reported: its destination range and its source range.\<close>

type_synonym segment = "int \<times> int \<times> int \<times> int"

definition covers_7000 :: "nat \<times> nat \<times> nat \<Rightarrow> segment option" where
  "covers_7000 g =
     (case g of (src_lo, src_hi, dest_lo) \<Rightarrow>
        (let len = int src_hi - int src_lo + 1; dest_hi = int dest_lo + len - 1
         in if int dest_lo \<le> 0x7000 \<and> 0x7000 \<le> dest_hi
            then Some (int dest_lo, dest_hi, int src_lo, int src_hi) else None))"

fun check_lines :: "bool \<Rightarrow> pystr list \<Rightarrow> segment list" where
  "check_lines in_mapping [] = []"
| "check_lines in_mapping (l # ls) =
     (let line = no_comment l; stripped = strip line
      in if take 1 stripped = [91] then check_lines (lower stripped = lit ''[mapping]'') ls
         else if \<not> in_mapping \<or> stripped = [] then check_lines in_mapping ls
         else (case Option.bind (map_re line) covers_7000 of
                 None \<Rightarrow> check_lines in_mapping ls
               | Some p \<Rightarrow> p # check_lines in_mapping ls))"

definition check_7000 :: "pystr list \<Rightarrow> segment list" where
  "check_7000 ls = check_lines False ls"

section \<open>Hexadecimal round trip\<close>

lemma unhex_snoc: "unhex (s @ [c]) = 16 * unhex s + the (hex_value c)"
  by (simp add: unhex_def)

lemma hex_value_digit: "d < 16 \<Longrightarrow> hex_value (hex_digit d) = Some d"
  by (auto simp: hex_value_def hex_digit_def)

lemma hex_digits_hex: "c \<in> set (hex_digits n) \<Longrightarrow> hex_value c \<noteq> None"
proof (induction n rule: hex_digits.induct)
  case (1 n)
  then show ?case
    by (subst (asm) (2) hex_digits.simps) (auto simp: hex_value_digit split: if_splits)
qed

lemma hex_digits_not_Nil [simp]: "hex_digits n \<noteq> []"
  by (subst hex_digits.simps) simp

lemma unhex_hex_digits: "unhex (hex_digits n) = n"
proof (induction n rule: hex_digits.induct)
  case (1 n)
  have small: "unhex [hex_digit d] = d" if "d < 16" for d
    using that by (simp add: unhex_def hex_value_digit)
  show ?case
  proof (cases "n < 16")
    case True
    then show ?thesis by (subst hex_digits.simps) (simp add: small)
  next
    case False
    with 1 show ?thesis
      by (subst hex_digits.simps) (simp add: unhex_snoc hex_value_digit)
  qed
qed

lemma unhex_zeros: "unhex (replicate k 48 @ s) = unhex s"
  by (induction k) (simp_all add: unhex_def hex_value_def)

lemma unhex_hex4 [simp]: "unhex (hex4 n) = n"
  by (simp add: hex4_def unhex_zeros unhex_hex_digits)

lemma hex4_hex: "c \<in> set (hex4 n) \<Longrightarrow> hex_value c \<noteq> None"
proof -
  have "hex_value 48 = Some 0" by (simp add: hex_value_def)
  moreover assume "c \<in> set (hex4 n)"
  then have "c = 48 \<or> c \<in> set (hex_digits n)" by (auto simp: hex4_def)
  ultimately show ?thesis using hex_digits_hex by auto
qed

lemma hex4_not_Nil [simp]: "hex4 n \<noteq> []"
  by (simp add: hex4_def)

lemma hex_digits_short: "n < 16 ^ k \<Longrightarrow> 0 < k \<Longrightarrow> length (hex_digits n) \<le> k"
proof (induction k arbitrary: n)
  case (Suc k)
  show ?case
  proof (cases "n < 16")
    case True
    then show ?thesis by (subst hex_digits.simps) simp
  next
    case False
    then have "0 < k" using Suc.prems by (cases k) auto
    moreover have "n div 16 < 16 ^ k" using Suc.prems by (simp add: less_mult_imp_div_less mult.commute)
    ultimately have "length (hex_digits (n div 16)) \<le> k" using Suc.IH by blast
    with False show ?thesis by (subst hex_digits.simps) simp
  qed
qed simp

lemma hex4_length: "n < 65536 \<Longrightarrow> length (hex4 n) = 4"
  using hex_digits_short [of n 4] by (simp add: hex4_def)

lemma upper_digit: "d < 16 \<Longrightarrow> upper_hex (hex_digit d)"
  by (auto simp: upper_hex_def hex_digit_def)

lemma hex_digits_upper: "list_all upper_hex (hex_digits n)"
proof (induction n rule: hex_digits.induct)
  case (1 n)
  then show ?case by (subst hex_digits.simps) (auto simp: upper_digit)
qed

lemma hex4_upper: "list_all upper_hex (hex4 n)"
  using hex_digits_upper [of n] by (auto simp: hex4_def upper_hex_def list_all_iff)

section \<open>What a dump contains\<close>

text \<open>The address and the operand of every word a line assembles.\<close>

definition line_cells :: "asm_line \<Rightarrow> (nat \<times> pystr) list" where
  "line_cells l = (case l of Org b \<Rightarrow> [] | Decle row a \<Rightarrow> enumerate a row | Patch e a w \<Rightarrow> [(a, e)])"

definition cells :: "asm_line list \<Rightarrow> (nat \<times> pystr) list" where
  "cells ls = concat (map line_cells ls)"

definition operand :: "(nat, pystr) pydict \<Rightarrow> nat \<Rightarrow> nat \<Rightarrow> pystr" where
  "operand ps a w = (case dget ps a of Some e \<Rightarrow> e | None \<Rightarrow> dollar w)"

lemma cells_simps [simp]:
  "cells [] = []" "cells (l # ls) = line_cells l @ cells ls" "cells (ls @ ms) = cells ls @ cells ms"
  by (simp_all add: cells_def)

lemma cells_flush_row: "cells (flush_row row addr) = enumerate (addr - length row) row"
  by (simp add: flush_row_def line_cells_def)

lemma dump_rows_cells:
  "length row \<le> addr \<Longrightarrow> length row < 8 \<Longrightarrow>
     cells (dump_rows ps addr ws row) =
       enumerate (addr - length row) row @ map (\<lambda>(a, w). (a, operand ps a w)) (enumerate addr ws)"
proof (induction ws arbitrary: addr row)
  case Nil
  then show ?case by (simp add: cells_flush_row)
next
  case (Cons w ws)
  have snoc: "enumerate (Suc addr - Suc (length row)) (row @ [dollar w])
      = enumerate (addr - length row) row @ [(addr, dollar w)]"
    using Cons.prems by (simp add: enumerate_append_eq)
  show ?case
  proof (cases "dget ps addr")
    case (Some e)
    with Cons.IH [of "[]" "Suc addr"] show ?thesis
      by (simp add: cells_flush_row line_cells_def operand_def)
  next
    case None
    show ?thesis
    proof (cases "length row = 7")
      case True
      with None Cons.IH [of "[]" "Suc addr"] snoc show ?thesis
        by (simp add: Let_def line_cells_def operand_def)
    next
      case False
      with Cons.prems None Cons.IH [of "row @ [dollar w]" "Suc addr"] snoc show ?thesis
        by (simp add: Let_def operand_def)
    qed
  qed
qed

text \<open>Rows are never empty and never longer than eight words.\<close>

definition row_fine :: "asm_line \<Rightarrow> bool" where
  "row_fine l = (case l of Decle row a \<Rightarrow> row \<noteq> [] \<and> length row \<le> 8 | _ \<Rightarrow> True)"

lemma dump_rows_fine: "length row < 8 \<Longrightarrow> list_all row_fine (dump_rows ps addr ws row)"
  by (induction ws arbitrary: addr row)
    (simp_all add: flush_row_def row_fine_def Let_def split: option.split)

lemma dump_rom_cells:
  assumes "dump_rom base stop ps rom = Inr ls"
  obtains ws where "stop_words base stop (words rom) = Inr ws"
    "cells ls = map (\<lambda>(a, w). (a, operand ps a w)) (enumerate base ws)"
    "\<forall>a \<in> set (dkeys ps). base \<le> a \<and> a < base + length ws" "list_all row_fine ls"
proof -
  obtain ws where ws: "stop_words base stop (words rom) = Inr ws"
    using assms by (auto simp: dump_rom_def split: if_splits sum.splits)
  with assms have ls: "ls = Org base # dump_rows ps base ws []"
    "\<forall>a \<in> set (dkeys ps). base \<le> a \<and> a < base + length ws"
    by (auto simp: dump_rom_def split: if_splits)
  show ?thesis
  proof (rule that [OF ws])
    show "cells ls = map (\<lambda>(a, w). (a, operand ps a w)) (enumerate base ws)"
      by (simp add: ls dump_rows_cells line_cells_def)
    show "list_all row_fine ls" by (simp add: ls dump_rows_fine row_fine_def)
  qed (rule ls(2))
qed

section \<open>What check_patch compares\<close>

definition undeclared :: "(nat, pystr) pydict \<Rightarrow> nat \<Rightarrow> (nat \<times> nat) list \<Rightarrow> (nat \<times> nat \<times> nat) list" where
  "undeclared ps addr zs = filter (\<lambda>(a, x, y). dget ps a = None \<and> x \<noteq> y) (enumerate addr zs)"

definition unchanged :: "(nat, pystr) pydict \<Rightarrow> nat \<Rightarrow> (nat \<times> nat) list \<Rightarrow> nat list" where
  "unchanged ps addr zs = map fst (filter (\<lambda>(a, x, y). dget ps a \<noteq> None \<and> x = y) (enumerate addr zs))"

lemma cp_scan_spec: "cp_scan ps addr zs = (undeclared ps addr zs, unchanged ps addr zs)"
  by (induction zs arbitrary: addr) (auto simp: Let_def undeclared_def unchanged_def)

lemma length_words: "length (words d) = length d div 2"
  by (induction d rule: words.induct) simp_all

lemma enumerate_zip_all:
  assumes "length xs = length ys"
  shows "filter P (enumerate b (zip xs ys)) = [] \<longleftrightarrow> (\<forall>i < length xs. \<not> P (b + i, xs ! i, ys ! i))"
proof -
  have "set (enumerate b (zip xs ys)) = (\<lambda>i. (b + i, xs ! i, ys ! i)) ` {..<length xs}"
  proof -
    have "enumerate b (zip xs ys) = map (\<lambda>i. (b + i, xs ! i, ys ! i)) [0..<length xs]"
      using assms by (intro nth_equalityI) (simp_all add: nth_enumerate_eq)
    then show ?thesis by (auto simp: lessThan_atLeast0)
  qed
  then show ?thesis by (auto simp: filter_empty_conv)
qed

lemma undeclared_Nil:
  "length xs = length ys \<Longrightarrow>
     undeclared ps b (zip xs ys) = [] \<longleftrightarrow> (\<forall>i < length xs. dget ps (b + i) = None \<longrightarrow> ys ! i = xs ! i)"
  unfolding undeclared_def by (subst enumerate_zip_all) auto

section \<open>Reading a memory map\<close>

text \<open>A line of the mapping section as the assembler writes it.\<close>

definition map_line :: "nat \<Rightarrow> nat \<Rightarrow> nat \<Rightarrow> pystr" where
  "map_line lo hi dest = dollar lo @ lit '' - '' @ dollar hi @ lit '' = '' @ dollar dest @ [10]"

lemma hex_not: "hex_value c \<noteq> None \<Longrightarrow> c \<noteq> 59 \<and> c \<noteq> 91 \<and> \<not> py_space c \<and> c \<noteq> 36"
  by (auto simp: hex_value_def py_space_def split: if_splits)

lemma eat_hex_hex4:
  assumes "r = [] \<or> hex_value (hd r) = None"
  shows "eat_hex (hex4 n @ r) = Some (n, r)"
proof -
  have all: "takeWhile (\<lambda>c. hex_value c \<noteq> None) (hex4 n) = hex4 n"
    using hex4_hex [of _ n] by (simp only: takeWhile_eq_all_conv) blast
  have "takeWhile (\<lambda>c. hex_value c \<noteq> None) (hex4 n @ r) = hex4 n"
    using assms all hex4_hex [of _ n] by (cases r) (simp_all add: takeWhile_append)
  then show ?thesis by (simp add: eat_hex_def)
qed

lemma lstrip_dollar [simp]: "lstrip (dollar n @ r) = dollar n @ r"
  by (simp add: lstrip_def dollar_def py_space_def)

lemma eat_address_dollar [simp]:
  "r = [] \<or> hex_value (hd r) = None \<Longrightarrow> eat_address (dollar n @ r) = Some (n, r)"
  by (simp add: eat_address_def) (simp add: eat_def dollar_def eat_hex_hex4)

lemma eat_address_space [simp]: "eat_address (32 # s) = eat_address s"
  by (simp add: eat_address_def lstrip_def py_space_def)

lemma map_re_line: "map_re (map_line lo hi dest) = Some (lo, hi, dest)"
  by (simp add: map_re_def map_line_def lit_def hex_value_def lstrip_def py_space_def eat_def)

lemma takeWhile_map_line: "no_comment (map_line lo hi dest) = map_line lo hi dest"
proof -
  have "c \<noteq> 59" if "c \<in> set (map_line lo hi dest)" for c
    using that hex_not [OF hex4_hex] by (auto simp: map_line_def dollar_def lit_def)
  then show ?thesis by (simp only: no_comment_def takeWhile_eq_all_conv) blast
qed

lemma lstrip_snoc: "\<not> py_space c \<Longrightarrow> \<exists>t. lstrip (s @ [c]) = t @ [c]"
  by (induction s) (auto simp: lstrip_def)

lemma strip_map_line: "\<exists>r. strip (map_line lo hi dest) = 36 # r"
proof -
  obtain t where t: "map_line lo hi dest = 36 # t" by (simp add: map_line_def dollar_def)
  then have "lstrip (map_line lo hi dest) = 36 # t" by (simp add: lstrip_def py_space_def)
  moreover obtain u where "lstrip (rev t @ [36]) = u @ [36]"
    using lstrip_snoc [of 36 "rev t"] by (auto simp: py_space_def)
  ultimately show ?thesis by (simp add: strip_def)
qed

lemma check_lines_map:
  "check_lines True (map (\<lambda>(lo, hi, dest). map_line lo hi dest) segs) = List.map_filter covers_7000 segs"
proof (induction segs)
  case (Cons g segs)
  obtain lo hi dest where g: "g = (lo, hi, dest)" by (cases g)
  obtain r where "strip (map_line lo hi dest) = 36 # r" using strip_map_line by blast
  with Cons g show ?case
    by (simp add: takeWhile_map_line map_re_line map_filter_simps split: option.split)
qed (simp add: map_filter_simps)

section \<open>Properties\<close>

text \<open>The dump covers every word of the (possibly truncated) image exactly once and in order:
  taking its lines apart gives, for each address from the base on, the declared expression where
  the patch map has one and the original word in hexadecimal elsewhere. No declared patch lies
  outside the image, and no row is empty or longer than eight words.\<close>

theorem dump_covers:
  assumes "dump_rom base stop ps rom = Inr ls"
  shows "\<exists>ws. stop_words base stop (words rom) = Inr ws \<and>
    cells ls = map (\<lambda>(a, w). (a, operand ps a w)) (enumerate base ws) \<and>
    (\<forall>a \<in> set (dkeys ps). base \<le> a \<and> a < base + length ws) \<and> list_all row_fine ls"
  using dump_rom_cells [OF assms] by metis

theorem dump_covers_witness:
  "\<exists>ls. dump_rom 0x5000 None [(0x5001, lit ''X'')] [0x12, 0xAB, 0, 4] = Inr ls \<and>
     cells ls = [(0x5000, lit ''$12AB''), (0x5001, lit ''X'')]"
proof -
  let ?r = "dump_rom 0x5000 None [(0x5001, lit ''X'')] [0x12, 0xAB, 0, 4]"
  have w: "words [0x12, 0xAB, 0, 4] = [0x12AB, 4]" by simp
  have "\<exists>ls. ?r = Inr ls" by (simp add: dump_rom_def stop_words_def dkeys_def)
  then obtain ls where ls: "?r = Inr ls" by blast
  have "dollar 0x12AB = lit ''$12AB''"
    by (simp add: dollar_def hex4_def hex_digits.simps hex_digit_def lit_def)
  with dump_covers [OF ls] ls w show ?thesis by (auto simp: stop_words_def operand_def)
qed

text \<open>A dump without patches carries the original ROM: reading every operand back as a
  hexadecimal number gives the words of the file (the \<open>make verify-org\<close> guard).\<close>

lemma dump_verify_org:
  assumes "dump_rom base None [] rom = Inr ls"
  shows "map (\<lambda>(a, e). unhex (tl e)) (cells ls) = words rom"
proof -
  have "cells ls = map (\<lambda>(a, w). (a, dollar w)) (enumerate base (words rom))"
    using dump_rom_cells [OF assms] by (auto simp: stop_words_def operand_def)
  then have "map (\<lambda>(a, e). unhex (tl e)) (cells ls) = map snd (enumerate base (words rom))"
    by (simp add: dollar_def comp_def case_prod_unfold)
  then show ?thesis by simp
qed

text \<open>C37: the patch check accepts a build exactly when every compared word that is not declared in the
  patch map equals the original word.\<close>

theorem check_patch_verdict:
  assumes "check_patch orig hook ps count = Inr rep"
  shows "\<exists>ws hs. cp_words orig count = Inr ws \<and> cp_words hook (Some (int (length ws))) = Inr hs \<and>
    length hs = length ws \<and>
    (cp_ok rep \<noteq> None \<longleftrightarrow> (\<forall>i < length ws. dget ps (BASE + i) = None \<longrightarrow> hs ! i = ws ! i))"
proof -
  obtain ws hs where ws: "cp_words orig count = Inr ws" "cp_words hook (Some (int (length ws))) = Inr hs"
    using assms by (auto simp: check_patch_def split: sum.splits)
  then have "length hs = length ws"
    by (auto simp: cp_words_def Let_def length_words split: if_splits option.splits)
  moreover have "cp_ok rep \<noteq> None \<longleftrightarrow> undeclared ps BASE (zip ws hs) = []"
    using assms ws by (auto simp: check_patch_def cp_scan_spec split: if_splits)
  ultimately show ?thesis using ws undeclared_Nil [of ws hs] by auto
qed

theorem check_patch_verdict_witness:
  "\<exists>rep. check_patch [0, 4, 1, 2] [0, 4, 9, 9] [(0x5001, lit ''X'')] None = Inr rep \<and> cp_ok rep \<noteq> None"
proof -
  let ?r = "check_patch [0, 4, 1, 2] [0, 4, 9, 9] [(0x5001, lit ''X'')] None"
  have "\<exists>rep. ?r = Inr rep"
    by (simp add: check_patch_def cp_words_def split: prod.split)
  then obtain rep where r: "?r = Inr rep" by blast
  have "cp_words [0, 4, 1, 2] None = Inr [4, 0x102]" "cp_words [0, 4, 9, 9] (Some 2) = Inr [4, 0x909]"
    by (simp_all add: cp_words_def)
  with check_patch_verdict [OF r] r show ?thesis by (auto simp: BASE_def less_Suc_eq)
qed

text \<open>C38: the two tools fit together. Whatever the assembler \<open>asm\<close> makes of an expression, as long as
  it reads \<open>$XXXX\<close> as that number, the image it assembles from the patched dump passes the
  patch check against the original, compared over the dumped words.\<close>

theorem patched_build_checks:
  assumes "dump_rom BASE stop ps rom = Inr ls"
    and "\<forall>n. asm (dollar n) = n"
    and "words hook = map (asm \<circ> snd) (cells ls) @ rest"
  shows "\<exists>rep. check_patch rom hook ps (Some (int (length (cells ls)))) = Inr rep \<and> cp_ok rep \<noteq> None"
proof -
  obtain ws where ws: "stop_words BASE stop (words rom) = Inr ws"
    "cells ls = map (\<lambda>(a, w). (a, operand ps a w)) (enumerate BASE ws)"
    using dump_rom_cells [OF assms(1)] by metis
  have len: "length (cells ls) = length ws" by (simp add: ws(2))
  have n: "length ws \<le> length rom div 2" and take: "take (length ws) (words rom) = ws"
    using ws(1) length_words [of rom] by (auto simp: stop_words_def split: option.splits if_splits)
  have "length ws \<le> length hook div 2"
    using assms(3) length_words [of hook] len by simp
  moreover have "take (length ws) (words hook) = map (asm \<circ> snd) (cells ls)"
    using assms(3) len by simp
  ultimately have read: "cp_words rom (Some (int (length ws))) = Inr ws"
    "cp_words hook (Some (int (length ws))) = Inr (map (asm \<circ> snd) (cells ls))"
    using n take by (simp_all add: cp_words_def Let_def)
  have same: "asm (snd (cells ls ! i)) = ws ! i" if "i < length ws" "dget ps (BASE + i) = None" for i
    using that assms(2) by (simp add: ws(2) nth_enumerate_eq operand_def)
  have "undeclared ps BASE (zip ws (map (asm \<circ> snd) (cells ls))) = []"
    using len same by (subst undeclared_Nil) auto
  then show ?thesis using read len by (simp add: check_patch_def cp_scan_spec)
qed

theorem patched_build_checks_witness:
  "\<exists>rep. check_patch [0, 4, 1, 2] [0, 4, 0, 7, 5, 5] [(0x5001, [])] (Some 2) = Inr rep \<and> cp_ok rep \<noteq> None"
proof -
  let ?asm = "\<lambda>e. case e of [] \<Rightarrow> 7 | _ # h \<Rightarrow> unhex h"
  have "\<exists>ls. dump_rom BASE None [(0x5001, [])] [0, 4, 1, 2] = Inr ls"
    by (simp add: dump_rom_def stop_words_def dkeys_def BASE_def)
  then obtain ls where ls: "dump_rom BASE None [(0x5001, [])] [0, 4, 1, 2] = Inr ls" by blast
  have c: "cells ls = [(0x5000, dollar 4), (0x5001, [])]"
    using dump_rom_cells [OF ls] by (auto simp: stop_words_def operand_def BASE_def)
  have "words [0, 4, 0, 7, 5, 5] = map (?asm \<circ> snd) (cells ls) @ [0x505]"
    by (simp add: c dollar_def)
  from patched_build_checks [OF ls _ this] c show ?thesis by (simp add: dollar_def)
qed

text \<open>On a memory map as the assembler writes it, the check reports exactly the segments whose
  destination range contains $7000, also those that only reach into it.\<close>

theorem check_7000_exact:
  "check_7000 (lit ''[mapping]'' # map (\<lambda>(lo, hi, dest). map_line lo hi dest) segs) =
     map (\<lambda>(lo, hi, dest). (int dest, int dest + int hi - int lo, int lo, int hi))
       (filter (\<lambda>(lo, hi, dest). dest \<le> 0x7000 \<and> 0x7000 + lo \<le> dest + hi) segs)"
proof -
  have head: "no_comment (lit ''[mapping]'') = lit ''[mapping]''" "strip (lit ''[mapping]'') = lit ''[mapping]''"
    "lower (lit ''[mapping]'') = lit ''[mapping]''" "take (Suc 0) (lit ''[mapping]'') = [91]"
    by (simp_all add: no_comment_def lit_def strip_def lstrip_def lower_def py_space_def)
  have "check_7000 (lit ''[mapping]'' # map (\<lambda>(lo, hi, dest). map_line lo hi dest) segs) =
      List.map_filter covers_7000 segs"
    by (simp add: check_7000_def head check_lines_map Let_def)
  also have "\<dots> = map (\<lambda>(lo, hi, dest). (int dest, int dest + int hi - int lo, int lo, int hi))
       (filter (\<lambda>(lo, hi, dest). dest \<le> 0x7000 \<and> 0x7000 + lo \<le> dest + hi) segs)"
  proof (induction segs)
    case (Cons g segs)
    obtain lo hi dest where g: "g = (lo, hi, dest)" by (cases g)
    have "int dest + (int hi - int lo + 1) - 1 = int dest + int hi - int lo" by simp
    with g Cons show ?case by (simp add: map_filter_simps covers_7000_def Let_def)
  qed (simp add: map_filter_simps)
  finally show ?thesis .
qed

end
