(* ===== verification/Differential.thy ===== *)
theory Differential
  imports Clients Fragments Drained Entry RomImages
begin

text \<open>
  \<open>tools/server_diff.py\<close>: the harness that drives a relay through scripted scenarios and records
  what every client receives and what the relay logs. Its scripts are lists of commands, run here
  against the model of the Python relay; the relay handles what is sent as soon as it is sent.
  The verdict on two records (\<open>compare\<close>) and the normalisation of log lines are functions.
\<close>

section \<open>Frames and rendering\<close>

definition sd_frame :: "byte \<Rightarrow> bytes \<Rightarrow> exn + bytes" where
  "sd_frame ftype payload =
     (case mk_byte (int (length payload + 1)) of Inl e \<Rightarrow> Inl e | Inr l \<Rightarrow> Inr ([l, ftype] @ payload))"

definition sd_pad :: "pystr \<Rightarrow> exn + bytes" where
  "sd_pad name = (case utf8 name of Inl e \<Rightarrow> Inl e | Inr b \<Rightarrow> Inr (ljust 8 (take 8 b)))"

definition TNAME :: "(byte, pystr) pydict" where
  "TNAME =
    [(T_HELLO, lit ''HELLO''), (T_LIST, lit ''LIST''), (T_LOBBY, lit ''LOBBY''), (T_JOIN, lit ''JOIN''),
     (T_START, lit ''START''), (T_INPUT, lit ''INPUT''), (T_CRC, lit ''CRC''), (T_STATE, lit ''STATE''),
     (T_RESYNC, lit ''RESYNC''), (T_BYE, lit ''BYE''), (T_PEER_LEFT, lit ''PEER_LEFT''),
     (T_PING, lit ''PING''), (T_PONG, lit ''PONG''), (T_ROOM, lit ''ROOM''), (T_GO, lit ''GO'')]"

text \<open>\<open>bytes.hex()\<close> and the format \<open>${t:02X}\<close>.\<close>

definition low_digit :: "nat \<Rightarrow> nat" where
  "low_digit n = (if n < 10 then 48 + n else 87 + n)"

definition hex_of :: "bytes \<Rightarrow> pystr" where
  "hex_of b = concat (map (\<lambda>x. [low_digit (unat x div 16), low_digit (unat x mod 16)]) b)"

definition type_name :: "byte \<Rightarrow> pystr" where
  "type_name t =
     (case dget TNAME t of
        Some n \<Rightarrow> n
      | None \<Rightarrow> [36, hex_digit (unat t div 16), hex_digit (unat t mod 16)])"

definition mask_seed :: "nat \<Rightarrow> bytes \<Rightarrow> bytes" where
  "mask_seed proto p =
     (let lo = (if proto = 1 then 1 else 2) in take lo p @ [0xAA, 0xAA] @ drop (lo + 2) p)"

definition render :: "nat \<Rightarrow> bytes \<Rightarrow> exn + pystr" where
  "render proto body =
     (if body = [] then Inl IndexError
      else
        (let t = hd body; p = tl body
         in if t = T_START \<and> 4 \<le> length p
            then Inr (lit ''START '' @ hex_of (mask_seed proto p) @ lit '' (seed masked)'')
            else Inr (type_name t @ lit '' '' @ hex_of p)))"

section \<open>Clients and transcript\<close>

text \<open>
  A client of the harness: its label, the bytes received and not yet recorded, whether its socket
  is closed, whether the end of the stream was seen; the relay's connection it talks to (none when
  it was rejected) and the number of the relay's bytes it has taken.
\<close>

record hclient =
  hc_label :: pystr
  hc_buf :: bytes
  hc_closed :: bool
  hc_eof :: bool
  hc_conn :: "cid option"
  hc_read :: nat

text \<open>One constructor for each form of line in the transcript.\<close>

datatype entry = GotFrame pystr pystr pystr | GotPartial pystr pystr pystr | GotEof pystr pystr

record ctx =
  cx_server :: server
  cx_port :: "nat \<Rightarrow> nat"
  cx_clients :: "hclient list"
  cx_transcript :: "entry list"
  cx_step :: nat

section \<open>Recording\<close>

fun render_all :: "nat \<Rightarrow> bytes list \<Rightarrow> exn + pystr list" where
  "render_all proto [] = Inr []"
| "render_all proto (m # ms) =
     (case render proto m of
        Inl e \<Rightarrow> Inl e
      | Inr t \<Rightarrow> (case render_all proto ms of Inl e \<Rightarrow> Inl e | Inr ts \<Rightarrow> Inr (t # ts)))"

definition unread :: "bytes list \<times> (byte + bytes) \<Rightarrow> bytes" where
  "unread x = (case snd x of Inl l \<Rightarrow> [l] | Inr b \<Rightarrow> b)"

text \<open>The second half of \<open>sync\<close>, for one client.\<close>

definition record_client :: "nat \<Rightarrow> pystr \<Rightarrow> hclient \<Rightarrow> exn + entry list" where
  "record_client proto tag h =
     (let got = drain peer_scan (hc_buf h)
      in case render_all proto (fst got) of
           Inl e \<Rightarrow> Inl e
         | Inr ts \<Rightarrow>
             Inr (map (GotFrame tag (hc_label h)) ts @
                  (if unread got \<noteq> [] then [GotPartial tag (hc_label h) (hex_of (unread got))] else []) @
                  (if hc_eof h then [GotEof tag (hc_label h)] else [])))"

fun record_all :: "nat \<Rightarrow> pystr \<Rightarrow> hclient list \<Rightarrow> exn + entry list" where
  "record_all proto tag [] = Inr []"
| "record_all proto tag (h # hs) =
     (case record_client proto tag h of
        Inl e \<Rightarrow> Inl e
      | Inr es \<Rightarrow> (case record_all proto tag hs of Inl e \<Rightarrow> Inl e | Inr es' \<Rightarrow> Inr (es @ es')))"

text \<open>The first half: everything the relay's sockets took has arrived when the line is quiet.\<close>

definition arrive :: "server \<Rightarrow> hclient \<Rightarrow> hclient" where
  "arrive s h =
     (if hc_closed h then h
      else
        (case hc_conn h of
           None \<Rightarrow> h\<lparr>hc_eof := True, hc_closed := True\<rparr>
         | Some c \<Rightarrow>
             (let sent = cl_sent (sv_client s c);
                  h1 = h\<lparr>hc_buf := hc_buf h @ drop (hc_read h) sent, hc_read := length sent\<rparr>
              in if is_dead s c then h1\<lparr>hc_eof := True, hc_closed := True\<rparr> else h1)))"

definition forget :: "hclient \<Rightarrow> hclient" where
  "forget h = h\<lparr>hc_buf := [], hc_eof := False\<rparr>"

text \<open>The format \<open>{n:02d}\<close>.\<close>

fun dec_digits :: "nat \<Rightarrow> pystr" where
  "dec_digits n = (if n < 10 then [48 + n] else dec_digits (n div 10) @ [48 + n mod 10])"

declare dec_digits.simps [simp del]

text \<open>The number such digits stand for.\<close>

definition digits_value :: "pystr \<Rightarrow> nat" where
  "digits_value ds = foldl (\<lambda>a d. 10 * a + (d - 48)) 0 ds"

lemma digits_value_dec: "digits_value (dec_digits n) = n"
proof (induction n rule: dec_digits.induct)
  case (1 n)
  then show ?case by (subst dec_digits.simps) (auto simp: digits_value_def)
qed

definition dec2 :: "nat \<Rightarrow> pystr" where
  "dec2 n = replicate (2 - length (dec_digits n)) 48 @ dec_digits n"

definition sync :: "nat \<Rightarrow> pystr \<Rightarrow> (ctx, unit) act" where
  "sync proto step x =
     (let n = Suc (cx_step x);
          tag = dec2 n @ lit '' '' @ step;
          hs = map (arrive (cx_server x)) (cx_clients x)
      in case record_all proto tag hs of
           Inl e \<Rightarrow> (Inl e, x\<lparr>cx_step := n, cx_clients := hs\<rparr>)
         | Inr es \<Rightarrow>
             (Inr (), x\<lparr>cx_step := n, cx_clients := map forget hs, cx_transcript := cx_transcript x @ es\<rparr>))"

section \<open>Scripting\<close>

text \<open>An event of the relay, and one for the connection of a client.\<close>

definition on_server :: "unit srv \<Rightarrow> (ctx, unit) act" where
  "on_server m x = (case m (cx_server x) of (r, s) \<Rightarrow> (r, x\<lparr>cx_server := s\<rparr>))"

definition hears :: "bytes \<Rightarrow> hclient \<Rightarrow> (ctx, unit) act" where
  "hears d h = (case hc_conn h of None \<Rightarrow> ret () | Some c \<Rightarrow> on_server (receive c d))"

text \<open>\<open>connect\<close>: the relay accepts the connection, or closes it at once.\<close>

definition add_hclient :: "pystr \<Rightarrow> nat \<Rightarrow> ctx \<Rightarrow> ctx" where
  "add_hclient label n x =
     x\<lparr>cx_clients := cx_clients x @
        [\<lparr> hc_label = label, hc_buf = [], hc_closed = False, hc_eof = False,
           hc_conn = (if n < sv_nclient (cx_server x) then Some n else None), hc_read = 0 \<rparr>]\<rparr>"

definition connect :: "pystr \<Rightarrow> (ctx, unit) act" where
  "connect label =
     bnd (gets (\<lambda>x. (sv_nclient (cx_server x), cx_port x (length (cx_clients x))))) (\<lambda>(n, port).
     bnd (on_server (accept (Conn (''127.0.0.1'', port) True) 0)) (\<lambda>_.
       modify (add_hclient label n)))"

definition hclient_of :: "pystr \<Rightarrow> ctx \<Rightarrow> exn + hclient" where
  "hclient_of label x =
     (case find (\<lambda>h. hc_label h = label) (cx_clients x) of None \<Rightarrow> Inl KeyError | Some h \<Rightarrow> Inr h)"

definition send_bytes :: "pystr \<Rightarrow> bytes \<Rightarrow> (ctx, unit) act" where
  "send_bytes label d =
     bnd (gets (hclient_of label)) (\<lambda>r. bnd (lift r) (\<lambda>h. guarded (\<not> hc_closed h \<and> d \<noteq> []) (hears d h)))"

definition set_closed :: "pystr \<Rightarrow> ctx \<Rightarrow> ctx" where
  "set_closed label x =
     x\<lparr>cx_clients := map (\<lambda>h. if hc_label h = label then h\<lparr>hc_closed := True\<rparr> else h) (cx_clients x)\<rparr>"

definition close :: "pystr \<Rightarrow> (ctx, unit) act" where
  "close label =
     bnd (gets (hclient_of label)) (\<lambda>r. bnd (lift r) (\<lambda>h.
       guarded (\<not> hc_closed h) (bnd (modify (set_closed label)) (\<lambda>_. hears [] h))))"

text \<open>
  The commands of a scenario; a client is named by its label, and the bytes to send are an
  expression that may raise. Pauses are left out: nothing happens in them.
\<close>

datatype cmd = Connect pystr | Send pystr "exn + bytes" | Close pystr | Sync pystr

fun run_cmd :: "nat \<Rightarrow> cmd \<Rightarrow> (ctx, unit) act" where
  "run_cmd proto (Connect l) = connect l"
| "run_cmd proto (Send l d) = bnd (lift d) (send_bytes l)"
| "run_cmd proto (Close l) = close l"
| "run_cmd proto (Sync t) = sync proto t"

definition run_script :: "nat \<Rightarrow> cmd list \<Rightarrow> (ctx, unit) act" where
  "run_script proto cmds = for_each cmds (run_cmd proto)"

definition new_ctx :: "server \<Rightarrow> (nat \<Rightarrow> nat) \<Rightarrow> ctx" where
  "new_ctx s port = \<lparr> cx_server = s, cx_port = port, cx_clients = [], cx_transcript = [], cx_step = 0 \<rparr>"

section \<open>Recording whole frames\<close>

lemma parsed_suffix:
  "concat (map wire_of ms) @ y = concat (map wire_of ks) \<Longrightarrow> list_all readable ms \<Longrightarrow> list_all readable ks \<Longrightarrow>
     framed y"
proof (induction ms arbitrary: ks)
  case Nil
  then show ?case by (auto simp: framed_def)
next
  case (Cons m ms)
  show ?case
  proof (cases ks)
    case Nil
    with Cons.prems show ?thesis by (simp add: wire_of_def)
  next
    case k: (Cons k ks')
    with Cons.prems have r: "readable m" "readable k" by simp_all
    have "wire_of m @ (concat (map wire_of ms) @ y) = wire_of k @ concat (map wire_of ks')"
      using Cons.prems(1) k by simp
    with scan_frame_enc [OF r(1)] scan_frame_enc [OF r(2)]
    have "concat (map wire_of ms) @ y = concat (map wire_of ks')" by (metis scan.inject(2))
    with Cons.IH [of ks'] Cons.prems(2,3) k show ?thesis by simp
  qed
qed

lemma framed_suffix: "framed (x @ y) \<Longrightarrow> framed x \<Longrightarrow> framed y"
  unfolding framed_def [of x] framed_def [of "x @ y"] using parsed_suffix by blast

lemma drain_framed:
  assumes "list_all readable ms"
  shows "drain peer_scan (concat (map wire_of ms)) = (ms, Inr [])"
proof -
  have "list_all (\<lambda>m. length m \<le> 255) ms" using assms by (auto simp: list_all_iff readable_def)
  moreover have "drain peer_scan [] = ([], Inr [])" by (simp add: drain_def)
  ultimately show ?thesis using peer_rx.drain_encs [of ms "[]"] by simp
qed

definition no_partial :: "entry list \<Rightarrow> bool" where
  "no_partial es \<longleftrightarrow> list_all (\<lambda>e. \<forall>t l b. e \<noteq> GotPartial t l b) es"

lemma no_partial_append: "no_partial (es @ fs) \<longleftrightarrow> no_partial es \<and> no_partial fs"
  by (simp add: no_partial_def)

lemma render_all_readable: "list_all readable ms \<Longrightarrow> \<exists>ts. render_all proto ms = Inr ts"
proof (induction ms)
  case (Cons m ms)
  then have "m \<noteq> []" by (auto simp: readable_def)
  then have "\<exists>t. render proto m = Inr t" by (auto simp: render_def Let_def)
  then obtain t where "render proto m = Inr t" ..
  with Cons show ?case by auto
qed simp

lemma record_client_framed:
  assumes "framed (hc_buf h)"
  shows "\<exists>es. record_client proto tag h = Inr es \<and> no_partial es"
proof -
  obtain ms where ms: "list_all readable ms" "hc_buf h = concat (map wire_of ms)"
    using assms unfolding framed_def by blast
  then obtain ts where "render_all proto ms = Inr ts" using render_all_readable by blast
  with drain_framed [OF ms(1)] ms(2) show ?thesis
    by (auto simp: record_client_def unread_def Let_def no_partial_def list_all_iff)
qed

lemma record_all_framed:
  "(\<And>h. h \<in> set hs \<Longrightarrow> framed (hc_buf h)) \<Longrightarrow> \<exists>es. record_all proto tag hs = Inr es \<and> no_partial es"
proof (induction hs)
  case (Cons h hs)
  obtain es where "record_client proto tag h = Inr es" "no_partial es"
    using record_client_framed Cons.prems by force
  moreover obtain fs where "record_all proto tag hs = Inr fs" "no_partial fs" using Cons by auto
  ultimately show ?case by (simp add: no_partial_append)
qed (simp add: no_partial_def)

section \<open>The relay's side of a command\<close>

lemma receive_ready: "receive c d = serve_ready (Client c False (Some (RData d)))"
  by (simp add: receive_def serve_ready_def)

lemma receive_reachable:
  assumes "INV s" "delay_ok s" "c < sv_nclient s"
  shows "\<exists>t. receive c d s = (Inr (), t) \<and> reachable s t"
proof -
  let ?rd = "Client c False (Some (RData d))"
  have k: "known (sv_nclient s) ?rd" using assms(3) by (simp add: known_def)
  obtain t where t: "serve_ready ?rd s = (Inr (), t)"
    using serve_ready_returns [OF assms(1,2) k] by (auto simp: usable_def)
  moreover obtain ev where "serve_ready ?rd = run_event ev" "possible s ev"
    using serve_ready_event [of ?rd s] k by auto
  ultimately show ?thesis
    using reachable_run_event [OF reachable.start] by (simp add: receive_ready)
qed

lemma accept_reachable:
  "\<exists>t. accept (Conn a True) now s = (Inr (), t) \<and> reachable s t"
proof -
  obtain t where t: "accept (Conn a True) now s = (Inr (), t)" using accept_usable by blast
  have "reachable s t"
    by (rule reachable_run_event [OF reachable.start, of s "EvAccept (Conn a True) now"])
      (simp_all add: t run_event_def possible_def)
  with t show ?thesis by blast
qed

section \<open>The invariant of a script's run\<close>

definition hclient_ok :: "server \<Rightarrow> hclient \<Rightarrow> bool" where
  "hclient_ok s h \<longleftrightarrow> hc_buf h = [] \<and>
     (\<forall>c. hc_conn h = Some c \<longrightarrow> c < sv_nclient s \<and> hc_read h \<le> length (stream s c) \<and>
        framed (take (hc_read h) (stream s c)))"

definition ctx_ok :: "server \<Rightarrow> ctx \<Rightarrow> bool" where
  "ctx_ok s0 x \<longleftrightarrow> reachable s0 (cx_server x) \<and> no_partial (cx_transcript x) \<and>
     (\<forall>h \<in> set (cx_clients x). hclient_ok (cx_server x) h)"

definition usable_start :: "server \<Rightarrow> bool" where
  "usable_start s0 \<longleftrightarrow> initial s0 \<and> delay_ok s0 \<and> accepting s0"

lemma start_reachable:
  assumes "usable_start s0" "reachable s0 s"
  shows "INV s" "delay_ok s" "drained s"
proof -
  show "INV s" "delay_ok s"
    using assms reachable_INV by (auto simp: usable_start_def)
  show "drained s"
    using assms drains_reachable [of s0 s] initial_drained by (simp add: usable_start_def drains_def)
qed

lemma hclient_ok_later: "reachable s t \<Longrightarrow> hclient_ok s h \<Longrightarrow> hclient_ok t h"
  unfolding hclient_ok_def
proof (intro conjI allI impI; (elim conjE)?)
  fix c assume r: "reachable s t" and "hc_conn h = Some c"
    and ok: "\<forall>c. hc_conn h = Some c \<longrightarrow> c < sv_nclient s \<and> hc_read h \<le> length (stream s c) \<and>
      framed (take (hc_read h) (stream s c))"
  then have c: "c < sv_nclient s" "hc_read h \<le> length (stream s c)" "framed (take (hc_read h) (stream s c))"
    by simp_all
  have p: "persists s t" by (rule reachable_persists [OF r])
  with c(1) obtain ext where e: "stream t c = stream s c @ ext"
    by (auto simp: persists_def client_persists_def)
  show "c < sv_nclient t" using p c(1) by (simp add: persists_def)
  show "hc_read h \<le> length (stream t c)" "framed (take (hc_read h) (stream t c))"
    using c(2,3) e by simp_all
qed simp

lemma ctx_ok_server:
  "ctx_ok s0 x \<Longrightarrow> reachable (cx_server x) t \<Longrightarrow> ctx_ok s0 (x\<lparr>cx_server := t\<rparr>)"
  using hclient_ok_later reachable_trans by (fastforce simp: ctx_ok_def)

lemma arrive_ok:
  assumes "INV s" "drained s" "hclient_ok s h"
  shows "framed (hc_buf (arrive s h)) \<and> hclient_ok s (forget (arrive s h))"
proof (cases "hc_closed h \<or> hc_conn h = None")
  case True
  with assms(3) show ?thesis by (auto simp: arrive_def forget_def hclient_ok_def split: option.split)
next
  case False
  then obtain c where c: "hc_conn h = Some c" by auto
  have all: "framed (stream s c)" using INV_D(7) [OF assms(1)] by (simp add: streams_ok_def)
  have sent: "cl_sent (sv_client s c) = stream s c" by (simp add: drained_stream [OF assms(2)])
  have "framed (drop (hc_read h) (stream s c))"
    using assms(3) c all framed_suffix [of "take (hc_read h) (stream s c)" "drop (hc_read h) (stream s c)"]
    by (simp add: hclient_ok_def)
  with False c assms(3) all sent show ?thesis
    by (simp add: arrive_def forget_def hclient_ok_def Let_def)
qed

lemma sync_ok:
  assumes "usable_start s0" "ctx_ok s0 x"
  shows "\<exists>y. sync proto step x = (Inr (), y) \<and> ctx_ok s0 y \<and> map hc_label (cx_clients y) = map hc_label (cx_clients x)"
proof -
  let ?s = "cx_server x" and ?hs = "map (arrive (cx_server x)) (cx_clients x)"
  have r: "reachable s0 ?s" using assms(2) by (simp add: ctx_ok_def)
  note s = start_reachable [OF assms(1) r]
  have ok: "framed (hc_buf (arrive ?s h)) \<and> hclient_ok ?s (forget (arrive ?s h))" if "h \<in> set (cx_clients x)" for h
    using arrive_ok [OF s(1,3)] assms(2) that by (simp add: ctx_ok_def)
  then have "\<And>h. h \<in> set ?hs \<Longrightarrow> framed (hc_buf h)" by auto
  then obtain es where "record_all proto (dec2 (Suc (cx_step x)) @ lit '' '' @ step) ?hs = Inr es" "no_partial es"
    using record_all_framed by blast
  moreover have "hc_label (forget (arrive ?s h)) = hc_label h" for h
    by (simp add: forget_def arrive_def Let_def split: option.split)
  ultimately show ?thesis
    using assms(2) ok by (auto simp: sync_def Let_def ctx_ok_def no_partial_append)
qed

lemma hears_ok:
  assumes "usable_start s0" "ctx_ok s0 x" "hclient_ok (cx_server x) h"
  shows "\<exists>t. hears d h x = (Inr (), x\<lparr>cx_server := t\<rparr>) \<and> reachable (cx_server x) t"
proof (cases "hc_conn h")
  case None
  then show ?thesis
    by (intro exI [of _ "cx_server x"]) (simp add: hears_def ret_def reachable.start)
next
  case (Some c)
  have r: "reachable s0 (cx_server x)" using assms(2) by (simp add: ctx_ok_def)
  have "c < sv_nclient (cx_server x)" using assms(3) Some by (simp add: hclient_ok_def)
  from receive_reachable [OF start_reachable(1,2) [OF assms(1) r] this, of d] Some show ?thesis
    by (auto simp: hears_def on_server_def)
qed

lemma hclient_of_label:
  "l \<in> set (map hc_label (cx_clients x)) \<Longrightarrow> \<exists>h \<in> set (cx_clients x). hclient_of l x = Inr h"
  by (force simp: hclient_of_def find_None_iff find_Some_iff split: option.split)

lemma send_ok:
  assumes "usable_start s0" "ctx_ok s0 x" "l \<in> set (map hc_label (cx_clients x))"
  shows "\<exists>t. send_bytes l d x = (Inr (), x\<lparr>cx_server := t\<rparr>) \<and> reachable (cx_server x) t"
proof -
  obtain h where h: "h \<in> set (cx_clients x)" "hclient_of l x = Inr h"
    using hclient_of_label [OF assms(3)] by blast
  then have "hclient_ok (cx_server x) h" using assms(2) by (simp add: ctx_ok_def)
  from hears_ok [OF assms(1,2) this, of d] h(2) show ?thesis
    by (cases "\<not> hc_closed h \<and> d \<noteq> []")
      (auto simp: send_bytes_def ret_def intro!: exI [of _ "cx_server x"] reachable.start)
qed

lemma close_ok:
  assumes "usable_start s0" "ctx_ok s0 x" "l \<in> set (map hc_label (cx_clients x))"
  shows "\<exists>y. close l x = (Inr (), y) \<and> ctx_ok s0 y \<and> map hc_label (cx_clients y) = map hc_label (cx_clients x)"
proof -
  obtain h where h: "h \<in> set (cx_clients x)" "hclient_of l x = Inr h"
    using hclient_of_label [OF assms(3)] by blast
  show ?thesis
  proof (cases "hc_closed h")
    case True
    with h(2) assms(2) show ?thesis by (simp add: close_def ret_def)
  next
    case False
    let ?y = "set_closed l x"
    have labels: "map hc_label (cx_clients ?y) = map hc_label (cx_clients x)"
      by (simp add: set_closed_def)
    have y: "ctx_ok s0 ?y" "hclient_ok (cx_server ?y) h"
      using assms(2) h(1) by (auto simp: ctx_ok_def set_closed_def hclient_ok_def)
    from hears_ok [OF assms(1) y, of "[]"] obtain t where
      "hears [] h ?y = (Inr (), ?y\<lparr>cx_server := t\<rparr>)" "reachable (cx_server ?y) t" by blast
    with False h(2) labels ctx_ok_server [OF y(1)] show ?thesis by (simp add: close_def)
  qed
qed

lemma connect_ok:
  assumes "ctx_ok s0 x"
  shows "\<exists>y. connect l x = (Inr (), y) \<and> ctx_ok s0 y \<and> map hc_label (cx_clients y) = map hc_label (cx_clients x) @ [l]"
proof -
  let ?a = "(''127.0.0.1'', cx_port x (length (cx_clients x)))"
  obtain t where t: "accept (Conn ?a True) 0 (cx_server x) = (Inr (), t)" "reachable (cx_server x) t"
    using accept_reachable by blast
  let ?n = "sv_nclient (cx_server x)" and ?y = "x\<lparr>cx_server := t\<rparr>"
  have y: "ctx_ok s0 ?y" by (rule ctx_ok_server [OF assms t(2)])
  then have "ctx_ok s0 (add_hclient l ?n ?y)"
    by (auto simp: ctx_ok_def add_hclient_def hclient_ok_def)
  moreover have "connect l x = (Inr (), add_hclient l ?n ?y)"
    using t(1) by (simp add: connect_def on_server_def bnd_def modify_def gets_def)
  ultimately show ?thesis by (simp add: add_hclient_def)
qed

text \<open>A script names only clients it has connected, each by a label of its own, and its frames are short.\<close>

fun well_scripted :: "pystr list \<Rightarrow> cmd list \<Rightarrow> bool" where
  "well_scripted ls [] = True"
| "well_scripted ls (Connect l # cs) = (l \<notin> set ls \<and> well_scripted (ls @ [l]) cs)"
| "well_scripted ls (Send l d # cs) = (l \<in> set ls \<and> (case d of Inl e \<Rightarrow> False | Inr b \<Rightarrow> True) \<and> well_scripted ls cs)"
| "well_scripted ls (Close l # cs) = (l \<in> set ls \<and> well_scripted ls cs)"
| "well_scripted ls (Sync t # cs) = well_scripted ls cs"

lemma run_cmd_ok:
  assumes "usable_start s0" "ctx_ok s0 x" "well_scripted (map hc_label (cx_clients x)) (c # cs)"
  shows "\<exists>y. run_cmd proto c x = (Inr (), y) \<and> ctx_ok s0 y \<and> well_scripted (map hc_label (cx_clients y)) cs"
proof (cases c)
  case (Connect l)
  with connect_ok [OF assms(2), of l] assms(3) show ?thesis by auto
next
  case (Send l d)
  then obtain b where "d = Inr b" "l \<in> set (map hc_label (cx_clients x))"
    using assms(3) by (cases d) auto
  with send_ok [OF assms(1,2), of l b] Send assms(2,3) ctx_ok_server show ?thesis by fastforce
next
  case (Close l)
  with close_ok [OF assms(1,2), of l] assms(3) show ?thesis by auto
next
  case (Sync t)
  with sync_ok [OF assms(1,2), of proto t] assms(3) show ?thesis by auto
qed

lemma run_script_ok:
  assumes "usable_start s0" "ctx_ok s0 x" "well_scripted (map hc_label (cx_clients x)) (cs @ ds)"
  shows "\<exists>y. run_script proto cs x = (Inr (), y) \<and> ctx_ok s0 y \<and> well_scripted (map hc_label (cx_clients y)) ds"
  using assms(2,3) unfolding run_script_def
proof (induction cs arbitrary: x)
  case Nil
  then show ?case by (simp add: ret_def)
next
  case (Cons c cs)
  obtain y where "run_cmd proto c x = (Inr (), y)" "ctx_ok s0 y"
    "well_scripted (map hc_label (cx_clients y)) (cs @ ds)"
    using run_cmd_ok [OF assms(1) Cons.prems(1), of c "cs @ ds" proto] Cons.prems(2) by auto
  with Cons.IH [of y] show ?case by (simp add: bnd_def)
qed

section \<open>Where a message is cut makes no difference\<close>

text \<open>Two contexts whose relays differ in the buffer of a dead client only.\<close>

definition twin :: "ctx \<Rightarrow> ctx \<Rightarrow> bool" where
  "twin x y \<longleftrightarrow> y = x \<or>
     (\<exists>c b. is_dead (cx_server x) c \<and> c < sv_nclient (cx_server x) \<and> y = x\<lparr>cx_server := add_rx c b (cx_server x)\<rparr>)"

text \<open>An action of the script that such contexts go through alike.\<close>

definition twins :: "(ctx, unit) act \<Rightarrow> bool" where
  "twins m \<longleftrightarrow> (\<forall>x y z. twin x y \<and> m x = (Inr (), z) \<longrightarrow> (\<exists>w. m y = (Inr (), w) \<and> twin z w))"

lemma twinsI:
  assumes "\<And>x c b z. is_dead (cx_server x) c \<Longrightarrow> c < sv_nclient (cx_server x) \<Longrightarrow> m x = (Inr (), z) \<Longrightarrow>
    m (x\<lparr>cx_server := add_rx c b (cx_server x)\<rparr>) = (Inr (), z\<lparr>cx_server := add_rx c b (cx_server z)\<rparr>) \<and>
    is_dead (cx_server z) c \<and> c < sv_nclient (cx_server z)"
  shows "twins m"
  unfolding twins_def twin_def using assms by blast

lemma persists_dead: "persists s t \<Longrightarrow> is_dead s c \<Longrightarrow> c < sv_nclient s \<Longrightarrow> is_dead t c \<and> c < sv_nclient t"
  by (auto simp: persists_def client_persists_def intro: less_le_trans)

lemma twins_on_server:
  assumes "\<And>s c b. is_dead s c \<Longrightarrow> c < sv_nclient s \<Longrightarrow> m (add_rx c b s) = (fst (m s), add_rx c b (snd (m s)))"
    and "keeps persists m"
  shows "twins (on_server m)"
proof (rule twinsI)
  fix x c b z assume c: "is_dead (cx_server x) c" "c < sv_nclient (cx_server x)" and "on_server m x = (Inr (), z)"
  then obtain t where t: "m (cx_server x) = (Inr (), t)" "z = x\<lparr>cx_server := t\<rparr>"
    by (auto simp: on_server_def split: prod.splits)
  have "persists (cx_server x) t" using keepsD [OF assms(2), of "cx_server x"] t(1) by simp
  from persists_dead [OF this c] t assms(1) [OF c]
  show "on_server m (x\<lparr>cx_server := add_rx c b (cx_server x)\<rparr>) =
      (Inr (), z\<lparr>cx_server := add_rx c b (cx_server z)\<rparr>) \<and> is_dead (cx_server z) c \<and> c < sv_nclient (cx_server z)"
    by (simp add: on_server_def)
qed

lemma twins_receive: "twins (on_server (receive e d))"
  using blind_receive ps_serve by (intro twins_on_server) (auto simp: receive_def [abs_def])

lemma twins_accept: "twins (on_server (accept conn now))"
  using blind_accept ps_accept by (intro twins_on_server) auto

lemma twins_ret: "twins (ret ())"
  by (auto simp: twins_def ret_def)

lemma twins_hears: "twins (hears d h)"
  unfolding hears_def by (auto intro: twins_ret twins_receive split: option.split)

lemma twins_bnd: "twins m \<Longrightarrow> (\<And>u. twins (k u)) \<Longrightarrow> twins (bnd m k)"
  unfolding twins_def bnd_def by (fastforce split: prod.splits sum.splits)

lemma twins_gets:
  assumes "\<And>v. twins (k v)" "\<And>x c b. g (x\<lparr>cx_server := add_rx c b (cx_server x)\<rparr>) = g x"
  shows "twins (bnd (gets g) k)"
  unfolding twins_def
proof (intro allI impI)
  fix x y z assume a: "twin x y \<and> bnd (gets g) k x = (Inr (), z)"
  then have "g y = g x" using assms(2) by (auto simp: twin_def)
  with a assms(1) [of "g x"] show "\<exists>w. bnd (gets g) k y = (Inr (), w) \<and> twin z w"
    by (simp add: twins_def)
qed

lemma twins_modify:
  assumes "\<And>x. cx_server (f x) = cx_server x" 
    "\<And>x c b. f (x\<lparr>cx_server := add_rx c b (cx_server x)\<rparr>) = (f x)\<lparr>cx_server := add_rx c b (cx_server x)\<rparr>"
  shows "twins (modify f)"
proof (rule twinsI)
  fix x c b z assume "is_dead (cx_server x) c" "c < sv_nclient (cx_server x)" "modify f x = (Inr (), z)"
  then show "modify f (x\<lparr>cx_server := add_rx c b (cx_server x)\<rparr>) = (Inr (), z\<lparr>cx_server := add_rx c b (cx_server z)\<rparr>) \<and>
      is_dead (cx_server z) c \<and> c < sv_nclient (cx_server z)"
    using assms by (auto simp: modify_def)
qed

lemma twins_lift: "(\<And>v. twins (k v)) \<Longrightarrow> twins (bnd (lift r) k)"
  by (cases r) (simp_all add: twins_def)

lemma twins_guarded: "twins m \<Longrightarrow> twins (guarded b m)"
  by (simp add: guarded_def twins_ret)

lemma twins_cmd: "twins (run_cmd proto c)"
proof -
  have of_label: "hclient_of l (x\<lparr>cx_server := s\<rparr>) = hclient_of l x" for l x s
    by (simp add: hclient_of_def)
  have "twins (connect l)" for l
  proof -
    have "twins (modify (add_hclient l n))" for n
      by (rule twins_modify) (auto simp: add_hclient_def)
    then show ?thesis
      unfolding connect_def by (intro twins_gets) (auto intro!: twins_bnd twins_accept)
  qed
  moreover have send: "twins (send_bytes l d)" for l d
    unfolding send_bytes_def
    by (intro twins_gets twins_lift twins_guarded twins_hears) (rule of_label)
  moreover have "twins (close l)" for l
  proof -
    have "twins (modify (set_closed l))" by (rule twins_modify) (simp_all add: set_closed_def)
    then show ?thesis
      unfolding close_def
      by (intro twins_gets twins_lift twins_guarded twins_bnd twins_hears) (simp_all add: of_label)
  qed
  moreover have "twins (sync proto t)" for t
  proof (rule twinsI)
    fix x c b z assume c: "is_dead (cx_server x) c" "c < sv_nclient (cx_server x)" and z: "sync proto t x = (Inr (), z)"
    have "cl_sent (sv_client (add_rx c b s) d) = cl_sent (sv_client s d)" for s d
      by (simp add: add_rx_def)
    then have "arrive (add_rx c b s) = arrive s" for s
      by (simp add: arrive_def fun_eq_iff cong: option.case_cong)
    with z c show "sync proto t (x\<lparr>cx_server := add_rx c b (cx_server x)\<rparr>) =
        (Inr (), z\<lparr>cx_server := add_rx c b (cx_server z)\<rparr>) \<and> is_dead (cx_server z) c \<and> c < sv_nclient (cx_server z)"
      by (auto simp: sync_def Let_def split: sum.splits)
  qed
  ultimately show ?thesis by (cases c) (auto intro!: twins_lift)
qed

lemma twins_script: "twins (run_script proto cs)"
  unfolding run_script_def
proof (induction cs)
  case Nil
  show ?case by (simp add: twins_ret)
next
  case (Cons c cs)
  then show ?case by (simp add: twins_bnd twins_cmd)
qed

lemma run_script_append: "run_script proto (cs @ ds) = bnd (run_script proto cs) (\<lambda>_. run_script proto ds)"
  unfolding run_script_def by (induction cs) (simp_all add: bnd_assoc)

text \<open>Sending the pieces leaves what sending the whole leaves.\<close>

lemma send_pieces:
  assumes "hclient_of l x = Inr h" "[] \<notin> set ds"
  shows "run_script proto (map (\<lambda>d. Send l (Inr d)) ds) x =
    (if hc_closed h then (Inr (), x)
     else case hc_conn h of None \<Rightarrow> (Inr (), x) | Some c \<Rightarrow> on_server (for_each ds (receive c)) x)"
  using assms
proof (induction ds arbitrary: x)
  case Nil
  then show ?case by (simp add: run_script_def ret_def on_server_def split: option.split)
next
  case (Cons d ds)
  show ?case
  proof (cases "hc_closed h \<or> hc_conn h = None")
    case True
    then have "send_bytes l d x = (Inr (), x)"
      using Cons.prems(1) by (auto simp: send_bytes_def hears_def ret_def guarded_def)
    with Cons.IH [OF Cons.prems(1)] Cons.prems(2) True show ?thesis
      by (auto simp: run_script_def bnd_def)
  next
    case False
    then obtain c where c: "hc_conn h = Some c" by auto
    have s: "send_bytes l d x = on_server (receive c d) x"
      using Cons.prems False c by (auto simp: send_bytes_def hears_def guarded_def)
    obtain r t where r: "receive c d (cx_server x) = (r, t)" by fastforce
    have "hclient_of l (x\<lparr>cx_server := t\<rparr>) = Inr h" using Cons.prems(1) by (simp add: hclient_of_def)
    from Cons.IH [OF this] Cons.prems(2) False c r s show ?thesis
      by (simp add: run_script_def bnd_def on_server_def split: sum.split prod.split)
  qed
qed

lemma send_cut:
  assumes "usable_start s0" "ctx_ok s0 x" "l \<in> set (map hc_label (cx_clients x))" "ds \<noteq> []" "[] \<notin> set ds"
  shows "\<exists>y z. run_script proto (map (\<lambda>d. Send l (Inr d)) ds) x = (Inr (), y) \<and>
    send_bytes l (concat ds) x = (Inr (), z) \<and> twin y z"
proof -
  obtain h where h: "h \<in> set (cx_clients x)" "hclient_of l x = Inr h"
    using hclient_of_label [OF assms(3)] by blast
  note pieces = send_pieces [OF h(2) assms(5)]
  have ne: "concat ds \<noteq> []" using assms(4,5) by (cases ds) auto
  show ?thesis
  proof (cases "hc_closed h \<or> hc_conn h = None")
    case True
    with pieces h(2) show ?thesis by (auto simp: send_bytes_def hears_def ret_def twin_def guarded_def)
  next
    case False
    then obtain c where c: "hc_conn h = Some c" by auto
    let ?s = "cx_server x"
    have n: "c < sv_nclient ?s" using assms(2) h(1) c by (simp add: ctx_ok_def hclient_ok_def)
    have r: "reachable s0 ?s" using assms(2) by (simp add: ctx_ok_def)
    note s = start_reachable [OF assms(1) r]
    have send: "send_bytes l (concat ds) x = on_server (receive c (concat ds)) x"
      using h(2) False c ne by (simp add: send_bytes_def hears_def)
    show ?thesis
    proof (cases "is_dead ?s c")
      case True
      with send pieces False c show ?thesis by (simp add: on_server_def receives_dead receive_dead twin_def)
    next
      case live: False
      have "serving c ?s" using s(1,2) n by (simp add: served_def)
      from receives [OF this live assms(4,5)] obtain u v where uv:
        "for_each ds (receive c) ?s = (Inr (), u)" "receive c (concat ds) ?s = (Inr (), v)" "alike c u v" by blast
      have "keeps persists (for_each ds (receive c))"
        using ps_serve by (auto intro!: persists.kp_for_each simp: receive_def [abs_def])
      from keepsD [OF this, of ?s] uv(1) n have "c < sv_nclient u" by (simp add: persists_def)
      then have "twin (x\<lparr>cx_server := u\<rparr>) (x\<lparr>cx_server := v\<rparr>)" using uv(3) by (auto simp: alike_def twin_def)
      with send pieces False c uv(1,2) show ?thesis by (simp add: on_server_def)
    qed
  qed
qed

lemma twin_transcript: "twin x y \<Longrightarrow> cx_transcript y = cx_transcript x \<and> sv_log (cx_server y) = sv_log (cx_server x)"
  by (auto simp: twin_def)

section \<open>Properties\<close>

lemma new_ctx_ok: "ctx_ok s0 (new_ctx s0 port)"
  by (simp add: ctx_ok_def new_ctx_def no_partial_def reachable.start)

text \<open>The server of \<open>main\<close> over sockets that take what they are given.\<close>

lemma usable_main: "usable_start (main_server default_options (\<lambda>_ _. SSent 4096) rand)"
proof -
  have "accepting (main_server default_options (\<lambda>_ _. SSent 4096) rand)"
    by (simp add: accepting_def main_server_def new_server_def)
  moreover have "op_delay default_options = 3" by (simp add: default_options_def DEFAULT_DELAY_def)
  ultimately show ?thesis by (simp add: usable_start_def initial_main delay_ok_def)
qed

lemma well_scripted_pieces:
  "l \<in> set ls \<Longrightarrow> well_scripted ls (map (\<lambda>d. Send l (Inr d)) ds @ cs) = well_scripted ls cs"
  by (induction ds) simp_all

text \<open>Every script that names its clients properly runs to its end against the relay over
  accepting sockets, without an exception, and records whole frames only: no line of the
  transcript is a PARTIAL one.\<close>

theorem scripts_record_frames:
  assumes "usable_start s0" "well_scripted [] cs"
  shows "\<exists>x. run_script 2 cs (new_ctx s0 port) = (Inr (), x) \<and> no_partial (cx_transcript x) \<and>
    reachable s0 (cx_server x)"
  using run_script_ok [OF assms(1) new_ctx_ok, of port cs "[]" 2] assms(2)
  by (auto simp: new_ctx_def ctx_ok_def)

theorem scripts_record_frames_witness:
  "\<exists>x. run_script 2 [Connect (lit ''A''), Send (lit ''A'') (Inr [4, 1, 2, 65, 66]), Sync (lit ''hello''), Close (lit ''A'')]
      (new_ctx (main_server default_options (\<lambda>_ _. SSent 4096) (\<lambda>_. 7)) (\<lambda>n. 50000 + n)) = (Inr (), x) \<and>
    no_partial (cx_transcript x)"
proof -
  have "well_scripted [] [Connect (lit ''A''), Send (lit ''A'') (Inr [4, 1, 2, 65, 66]), Sync (lit ''hello''), Close (lit ''A'')]"
    by simp
  from scripts_record_frames [OF usable_main this] show ?thesis by blast
qed

text \<open>C23: cutting what a client sends into pieces, at any place of any script, changes nothing that
  the harness compares: the transcript and the relay's log are the same.\<close>

theorem scripts_blind_to_cuts:
  assumes "usable_start s0" "well_scripted [] (cs @ Send l (Inr (concat ds)) # cs')" "ds \<noteq> []" "[] \<notin> set ds"
  shows "\<exists>x y. run_script 2 (cs @ Send l (Inr (concat ds)) # cs') (new_ctx s0 port) = (Inr (), x) \<and>
    run_script 2 (cs @ map (\<lambda>d. Send l (Inr d)) ds @ cs') (new_ctx s0 port) = (Inr (), y) \<and>
    cx_transcript y = cx_transcript x \<and> sv_log (cx_server y) = sv_log (cx_server x)"
proof -
  let ?c0 = "new_ctx s0 port" and ?send = "Send l (Inr (concat ds))" and ?pieces = "map (\<lambda>d. Send l (Inr d)) ds"
  have "well_scripted (map hc_label (cx_clients ?c0)) (cs @ ?send # cs')"
    using assms(2) by (simp add: new_ctx_def)
  from run_script_ok [OF assms(1) new_ctx_ok this, of 2] obtain x0 where x0:
    "run_script 2 cs ?c0 = (Inr (), x0)" "ctx_ok s0 x0" "well_scripted (map hc_label (cx_clients x0)) (?send # cs')"
    by blast
  then have l: "l \<in> set (map hc_label (cx_clients x0))" by simp
  from send_cut [OF assms(1) x0(2) l assms(3,4), of 2] obtain y z where yz:
    "run_script 2 ?pieces x0 = (Inr (), y)" "send_bytes l (concat ds) x0 = (Inr (), z)" "twin y z" by blast
  have "well_scripted (map hc_label (cx_clients x0)) (?pieces @ cs')"
    using x0(3) l by (simp add: well_scripted_pieces)
  from run_script_ok [OF assms(1) x0(2), of "?pieces @ cs'" "[]" 2] this obtain w where
    "run_script 2 (?pieces @ cs') x0 = (Inr (), w)" by auto
  then have w: "run_script 2 cs' y = (Inr (), w)" using yz(1) by (simp add: run_script_append bnd_def)
  then obtain t where t: "run_script 2 cs' z = (Inr (), t)" "twin w t"
    using yz(3) twins_script [of 2 cs'] unfolding twins_def by blast
  have "run_script 2 (?send # cs') x0 = (Inr (), t)" using t(1) yz(2) by (simp add: run_script_def bnd_def)
  with w yz x0(1) twin_transcript [OF t(2)] show ?thesis
    by (intro exI [of _ t] exI [of _ w]) (simp add: run_script_append bnd_def)
qed

theorem scripts_blind_to_cuts_witness:
  "\<exists>x y. run_script 2 ([Connect (lit ''A'')] @ Send (lit ''A'') (Inr [1, 12]) # [Sync (lit ''PING'')])
      (new_ctx (main_server default_options (\<lambda>_ _. SSent 4096) (\<lambda>_. 7)) (\<lambda>n. n)) = (Inr (), x) \<and>
    run_script 2 ([Connect (lit ''A'')] @ [Send (lit ''A'') (Inr [1]), Send (lit ''A'') (Inr [12])] @ [Sync (lit ''PING'')])
      (new_ctx (main_server default_options (\<lambda>_ _. SSent 4096) (\<lambda>_. 7)) (\<lambda>n. n)) = (Inr (), y) \<and>
    cx_transcript y = cx_transcript x"
proof -
  have "well_scripted [] ([Connect (lit ''A'')] @ Send (lit ''A'') (Inr (concat [[1], [12]])) # [Sync (lit ''PING'')])"
    by simp
  from scripts_blind_to_cuts [OF usable_main this]
  show ?thesis by (simp add: Let_def) blast
qed

end
