(* ===== verification/Scenarios.thy ===== *)
theory Scenarios
  imports Differential
begin

text \<open>
  The scenarios of \<open>tools/server_diff.py\<close> as scripts, for both protocols. Clients are named by their
  labels; the pauses between writes are left out. The protocol 1 scenarios are written for the relay
  of another repository; here they are run against this one, as with \<open>--proto 1 --python-server\<close> and
  the path of this relay.
\<close>

section \<open>Scripting helpers\<close>

definition encoded :: "string \<Rightarrow> exn + bytes" where
  "encoded name = utf8 (lit name)"

text \<open>\<open>x + y\<close> and \<open>x[i:j]\<close> on expressions that may raise.\<close>

definition cat :: "exn + bytes \<Rightarrow> exn + bytes \<Rightarrow> exn + bytes" where
  "cat x y = (case x of Inl e \<Rightarrow> Inl e | Inr b \<Rightarrow> (case y of Inl e \<Rightarrow> Inl e | Inr d \<Rightarrow> Inr (b @ d)))"

definition slice :: "nat \<Rightarrow> nat \<Rightarrow> exn + bytes \<Rightarrow> exn + bytes" where
  "slice i j x = (case x of Inl e \<Rightarrow> Inl e | Inr b \<Rightarrow> Inr (take (j - i) (drop i b)))"

definition framed_by :: "byte \<Rightarrow> exn + bytes \<Rightarrow> exn + bytes" where
  "framed_by t p = (case p of Inl e \<Rightarrow> Inl e | Inr b \<Rightarrow> sd_frame t b)"

definition says :: "string \<Rightarrow> byte \<Rightarrow> bytes \<Rightarrow> cmd" where
  "says label t payload = Send (lit label) (sd_frame t payload)"

definition says_hello :: "string \<Rightarrow> byte \<Rightarrow> string \<Rightarrow> cmd" where
  "says_hello label ver name = Send (lit label) (framed_by T_HELLO (cat (Inr [ver]) (encoded name)))"

definition joins :: "string \<Rightarrow> string \<Rightarrow> cmd" where
  "joins label name = Send (lit label) (framed_by T_JOIN (sd_pad (lit name)))"

definition synced :: "string \<Rightarrow> cmd" where
  "synced step = Sync (lit step)"

definition closes :: "string \<Rightarrow> cmd" where
  "closes label = Close (lit label)"

text \<open>\<open>x.hello(label)\<close>, with the version byte \<open>PROTO\<close> or another.\<close>

definition hello_as :: "byte \<Rightarrow> string \<Rightarrow> cmd list" where
  "hello_as ver label = [Connect (lit label), says_hello label ver label, Sync (lit ''hello '' @ lit label)]"

definition hello :: "string \<Rightarrow> cmd list" where
  "hello label = hello_as 2 label"

section \<open>The scenarios of protocol 2\<close>

definition s1_roster_order :: "cmd list" where
  "s1_roster_order =
     hello ''ALICE'' @ hello ''BOB'' @ hello ''CAROL'' @ hello ''DAVE'' @
     [Connect (lit ''OLDGUY''), says_hello ''OLDGUY'' 1 ''OLDGUY'', synced ''v1 hello refused''] @
     map (\<lambda>l. says l T_LIST []) [''ALICE'', ''BOB'', ''CAROL'', ''DAVE''] @ [synced ''LIST from each''] @
     [says_hello ''CAROL'' 2 ''CAROL2'', synced ''CAROL renames to CAROL2''] @
     hello ''EVE'' @ [says_hello ''EVE'' 2 ''BOB'', synced ''EVE steals the name BOB''] @
     map (\<lambda>l. says l T_LIST []) [''ALICE'', ''DAVE'', ''EVE''] @ [synced ''LIST after the churn''] @
     [closes ''ALICE'', synced ''ALICE disconnects''] @
     map (\<lambda>l. says l T_LIST []) [''DAVE'', ''EVE''] @ [synced ''LIST after a drop'']"

definition s2_rooms :: "nat \<Rightarrow> cmd list" where
  "s2_rooms seats =
     hello ''ALICE'' @ hello ''BOB'' @ hello ''CAROL'' @
     [joins ''BOB'' ''ALICE'', synced ''BOB joins ALICE'',
      says ''CAROL'' T_LIST [], synced ''status: forming room''] @
     (if 3 \<le> seats
      then [joins ''CAROL'' ''BOB'', synced ''CAROL joins the guest BOB (redirect)'']
      else [joins ''CAROL'' ''ALICE'', synced ''CAROL joins a full room (refused -> LOBBY)'']) @
     [joins ''BOB'' ''ALICE'', synced ''in-room JOIN is silent'',
      joins ''CAROL'' ''NOBODY'', synced ''JOIN unknown name -> LOBBY'',
      joins ''ALICE'' ''ALICE'', synced ''self-join from an in-room client''] @
     hello ''DAVE'' @
     [joins ''DAVE'' ''DAVE'', synced ''DAVE self-join -> LOBBY'',
      Send (lit ''DAVE'') (framed_by T_JOIN (encoded ''THISNAMEISWAYTOOLONG'')), synced ''JOIN an over-long name -> LOBBY'']"

definition s3_go_start :: "cmd list" where
  "s3_go_start =
     hello ''ALICE'' @ hello ''BOB'' @
     [says ''ALICE'' T_GO [], synced ''GO with no room (ignored)'',
      joins ''BOB'' ''ALICE'', synced ''BOB joins ALICE'',
      says ''BOB'' T_GO [], synced ''guest GO (ignored)'',
      says ''ALICE'' T_GO [], synced ''host GO -> START'',
      says ''ALICE'' T_GO [], synced ''second GO on a started room (ignored)''] @
     hello ''CAROL'' @
     [joins ''CAROL'' ''ALICE'', synced ''join a started room -> LOBBY'',
      says ''ALICE'' T_PING [], synced ''PING -> PONG'']"

definition s4_relay_crc :: "cmd list" where
  "s4_relay_crc =
     hello ''ALICE'' @ hello ''BOB'' @
     [says ''ALICE'' T_INPUT [0, 1, 0, 0x40, 0], synced ''relay before a room exists (dropped)'',
      joins ''BOB'' ''ALICE'', synced ''BOB joins ALICE'',
      says ''ALICE'' T_INPUT [0, 1, 0, 0x40, 0], synced ''relay before start (dropped)'',
      says ''ALICE'' T_GO [], synced ''host GO -> START'',
      says ''ALICE'' T_INPUT [0, 7, 0, 0x40, 0], synced ''INPUT fanout'',
      says ''BOB'' T_STATE ([0, 0] @ map of_nat [0..<96]), synced ''96-byte STATE fanout'',
      says ''ALICE'' T_RESYNC [5, 0], synced ''RESYNC fanout''] @
     concat (map (\<lambda>t. [says ''ALICE'' T_CRC [0, of_nat t, 0, 0x11, 0x22],
                       says ''BOB'' T_CRC [1, of_nat t, 0, 0x11, 0x22]]) [0..<4]) @
     [synced ''four agreed CRC rounds'',
      says ''ALICE'' T_CRC [0, 9, 0, 0xAA, 0x00], says ''BOB'' T_CRC [1, 9, 0, 0xBB, 0x00],
      synced ''a CRC mismatch''] @
     map (\<lambda>t. says ''ALICE'' T_CRC [0, of_nat (t AND 0xFF), of_nat (drop_bit 8 t), 0x33, 0x44]) [100..<170] @
     [synced ''70 half-reported ticks (eviction)'',
      says ''BOB'' T_CRC [1, 100, 0, 0x33, 0x44], synced ''complete an evicted tick (no line)'',
      says ''BOB'' T_CRC [1, 169, 0, 0x33, 0x44], synced ''complete a surviving tick'',
      says ''ALICE'' T_CRC [3, 200, 0, 0x01, 0x00], says ''BOB'' T_CRC [1, 200, 0, 0x02, 0x00],
      synced ''a lying seat index'']"

definition s5_drop_matrix :: "cmd list" where
  "s5_drop_matrix =
     hello ''ALICE'' @ hello ''BOB'' @
     [joins ''BOB'' ''ALICE'', synced ''BOB joins ALICE'',
      says ''ALICE'' T_GO [], synced ''host GO -> START'',
      closes ''BOB'', synced ''guest leaves a STARTED room -> PEER_LEFT''] @
     hello ''CAROL'' @ hello ''DAVE'' @
     [joins ''DAVE'' ''CAROL'', synced ''DAVE joins CAROL'',
      closes ''CAROL'', synced ''host leaves a FORMING room -> ROOM 0''] @
     hello ''EVE'' @ hello ''FRANK'' @
     [joins ''FRANK'' ''EVE'', synced ''FRANK joins EVE'',
      closes ''FRANK'', synced ''guest leaves a FORMING room of 2 -> dissolve''] @
     hello ''GRACE'' @ [says ''GRACE'' T_BYE [], synced ''BYE''] @
     hello ''HEIDI'' @ [says_hello ''HEIDI'' 2 ''!!'', synced ''a bad name drops the connection'']"

definition s6_framing :: "byte \<Rightarrow> cmd list" where
  "s6_framing proto =
     (let ping = sd_frame T_PING [];
          listx3 = (let big = sd_frame T_LIST [] in cat (cat big big) big);
          j = framed_by T_JOIN (sd_pad (lit ''NOBODY''))
      in hello_as proto ''ALICE'' @
         map (\<lambda>i. Send (lit ''ALICE'') (slice i (Suc i) ping)) [0..<2] @
         [synced ''PING dribbled one byte at a time'',
          Send (lit ''ALICE'') (cat ping ping), synced ''two frames in one write'',
          Send (lit ''ALICE'') (slice 0 2 listx3), Send (lit ''ALICE'') (slice 2 6 listx3),
          synced ''three LISTs split mid-frame'',
          Send (lit ''ALICE'') (slice 0 1 j), Send (lit ''ALICE'') (slice 1 4 j), Send (lit ''ALICE'') (slice 4 10 j),
          synced ''JOIN in three fragments'',
          Connect (lit ''BADLEN''), Send (lit ''BADLEN'') (Inr [0]), synced ''length byte 0 -> bad frame length'',
          Connect (lit ''BADLEN2''), Send (lit ''BADLEN2'') (Inr [0xC9]),
          synced ''length byte 201 -> bad frame length''] @
         hello_as proto ''DAVE'' @ [says ''DAVE'' 0x7F [], synced ''unknown type $7F''])"

definition s7_limits :: "cmd list" where
  "s7_limits =
     map (\<lambda>i. Connect (lit ''IP'' @ dec_digits i)) [0..<9] @ [synced ''9 connections from one IP'']"

section \<open>The scenarios of protocol 1\<close>

definition hello1 :: "string \<Rightarrow> cmd list" where
  "hello1 label = hello_as 1 label"

definition v1_roster_order :: "cmd list" where
  "v1_roster_order =
     hello1 ''ALICE'' @ hello1 ''BOB'' @ hello1 ''CAROL'' @
     map (\<lambda>l. says l T_LIST []) [''ALICE'', ''BOB'', ''CAROL''] @ [synced ''LIST from each''] @
     [says_hello ''CAROL'' 1 ''CAROL2'', synced ''CAROL renames to CAROL2''] @
     hello1 ''DAVE'' @ [says_hello ''DAVE'' 1 ''BOB'', synced ''DAVE steals the name BOB''] @
     map (\<lambda>l. says l T_LIST []) [''ALICE'', ''DAVE''] @ [synced ''LIST after the churn''] @
     [closes ''ALICE'', synced ''ALICE disconnects'',
      says ''DAVE'' T_LIST [], synced ''LIST after a drop''] @
     hello_as 7 ''EVE'' @
     [says ''EVE'' T_LIST [], synced ''HELLO with an absurd version byte is accepted'']"

definition v1_pairing :: "cmd list" where
  "v1_pairing =
     hello1 ''ALICE'' @ hello1 ''BOB'' @ hello1 ''CAROL'' @
     [says ''CAROL'' T_LIST [], synced ''status: everyone idle (0)'',
      joins ''BOB'' ''ALICE'', synced ''BOB joins ALICE -> both START'',
      says ''CAROL'' T_LIST [], synced ''status: both busy (1)'',
      joins ''CAROL'' ''ALICE'', synced ''JOIN a busy player -> LOBBY'',
      joins ''CAROL'' ''NOBODY'', synced ''JOIN an unknown name -> LOBBY'',
      joins ''CAROL'' ''CAROL'', synced ''self-join -> LOBBY'',
      Send (lit ''CAROL'') (framed_by T_JOIN (encoded ''THISNAMEISWAYTOOLONG'')), synced ''JOIN an over-long name -> LOBBY'',
      joins ''BOB'' ''CAROL'', synced ''JOIN while matched is silent'',
      says ''ALICE'' T_PING [], synced ''PING -> PONG'',
      says ''CAROL'' T_GO [], synced ''GO is an unknown type in v1'']"

definition v1_relay_crc :: "cmd list" where
  "v1_relay_crc =
     hello1 ''ALICE'' @ hello1 ''BOB'' @
     [says ''ALICE'' T_INPUT [1, 0, 0x40, 0], synced ''relay before a match (dropped)'',
      joins ''BOB'' ''ALICE'', synced ''BOB joins ALICE'',
      says ''ALICE'' T_INPUT [7, 0, 0x40, 0], synced ''INPUT fanout (untagged, 4 bytes)'',
      says ''BOB'' T_STATE ([0, 0] @ map of_nat [0..<96]), synced ''96-byte STATE fanout'',
      says ''ALICE'' T_RESYNC [5, 0], synced ''RESYNC fanout''] @
     concat (map (\<lambda>t. [says ''ALICE'' T_CRC [of_nat t, 0, 0x11, 0x22],
                       says ''BOB'' T_CRC [of_nat t, 0, 0x11, 0x22]]) [0..<4]) @
     [synced ''four agreed CRC pairs'',
      says ''ALICE'' T_CRC [9, 0, 0xAA, 0x00], says ''BOB'' T_CRC [9, 0, 0xBB, 0x00], synced ''a CRC mismatch''] @
     map (\<lambda>t. says ''ALICE'' T_CRC [of_nat (t AND 0xFF), of_nat (drop_bit 8 t), 0x33, 0x44]) [100..<170] @
     [synced ''70 unanswered ticks (eviction)'',
      says ''BOB'' T_CRC [100, 0, 0x33, 0x44], synced ''answer an evicted tick'',
      says ''BOB'' T_CRC [169, 0, 0x33, 0x44], synced ''answer a surviving tick'']"

definition v1_drops :: "cmd list" where
  "v1_drops =
     hello1 ''ALICE'' @ hello1 ''BOB'' @
     [joins ''BOB'' ''ALICE'', synced ''BOB joins ALICE'',
      closes ''BOB'', synced ''partner leaves -> PEER_LEFT'',
      says ''ALICE'' T_LIST [], synced ''ALICE is idle again''] @
     hello1 ''CAROL'' @ [says ''CAROL'' T_BYE [], synced ''BYE''] @
     hello1 ''DAVE'' @ [says_hello ''DAVE'' 1 ''!!'', synced ''a bad name drops the connection''] @
     [Connect (lit ''NOHELLO''), joins ''NOHELLO'' ''ALICE'', synced ''JOIN before HELLO drops'']"

section \<open>Running them\<close>

definition SCENARIOS_V2 :: "nat \<Rightarrow> (pystr, cmd list) pydict" where
  "SCENARIOS_V2 seats =
    [(lit ''roster'', s1_roster_order), (lit ''rooms'', s2_rooms seats), (lit ''start'', s3_go_start),
     (lit ''relay'', s4_relay_crc), (lit ''drops'', s5_drop_matrix), (lit ''framing'', s6_framing 2),
     (lit ''limits'', s7_limits)]"

definition SCENARIOS_V1 :: "(pystr, cmd list) pydict" where
  "SCENARIOS_V1 =
    [(lit ''roster'', v1_roster_order), (lit ''pairing'', v1_pairing), (lit ''relay'', v1_relay_crc),
     (lit ''drops'', v1_drops), (lit ''framing'', s6_framing 1), (lit ''limits'', s7_limits)]"

definition SCENARIOS :: "nat \<Rightarrow> nat \<Rightarrow> (pystr, cmd list) pydict" where
  "SCENARIOS proto seats = (if proto = 1 then SCENARIOS_V1 else SCENARIOS_V2 seats)"

definition DEFAULT_ORDER_V2 :: "pystr list" where
  "DEFAULT_ORDER_V2 = [lit ''roster'', lit ''rooms'', lit ''start'', lit ''relay'', lit ''drops'', lit ''framing'']"

definition DEFAULT_ORDER_V1 :: "pystr list" where
  "DEFAULT_ORDER_V1 = [lit ''roster'', lit ''pairing'', lit ''relay'', lit ''drops'', lit ''framing'']"

text \<open>\<open>run\<close>: the scenario, a last sync, and at the end every client still open is closed.\<close>

definition open_labels :: "ctx \<Rightarrow> pystr list" where
  "open_labels x = map hc_label (filter (\<lambda>h. \<not> hc_closed h) (cx_clients x))"

definition finish :: "(ctx, unit) act" where
  "finish = bnd (gets open_labels) (\<lambda>ls. for_each ls close)"

definition run_scenario :: "nat \<Rightarrow> nat \<Rightarrow> pystr \<Rightarrow> (ctx, unit) act" where
  "run_scenario proto seats name =
     (case dget (SCENARIOS proto seats) name of
        None \<Rightarrow> throw KeyError
      | Some script \<Rightarrow>
          bnd (run_script proto (script @ [synced ''final''])) (\<lambda>_. finish))"

section \<open>They are well scripted\<close>

lemmas script_defs = hello_def hello1_def hello_as_def says_def says_hello_def joins_def synced_def closes_def framed_by_def cat_def
  slice_def encoded_def sd_pad_def sd_frame_def

lemma utf8_lit: "list_all (\<lambda>c. of_char c < (128 :: nat)) s \<Longrightarrow> utf8 (lit s) = Inr (map of_char s)"
  using utf8_ascii [of "lit s"] by (simp add: lit_def list_all_iff comp_def of_nat_of_char)

lemma well_scripted_sends:
  "(\<And>t. t \<in> set ts \<Longrightarrow> \<exists>l b. f t = Send l (Inr b) \<and> l \<in> set ls) \<Longrightarrow>
     well_scripted ls (map f ts @ cs) = well_scripted ls cs"
  by (induction ts) fastforce+

lemma ws1: "well_scripted [] (s1_roster_order @ [synced ''final''])"
  by (simp add: s1_roster_order_def script_defs utf8_lit) (simp add: lit_def)

lemma ws2: "well_scripted [] (s2_rooms seats @ [synced ''final''])"
  by (simp add: s2_rooms_def script_defs utf8_lit ljust_def) (simp add: lit_def)

lemma ws3: "well_scripted [] (s3_go_start @ [synced ''final''])"
  by (simp add: s3_go_start_def script_defs utf8_lit ljust_def) (simp add: lit_def)

lemma ws5: "well_scripted [] (s5_drop_matrix @ [synced ''final''])"
  by (simp add: s5_drop_matrix_def script_defs utf8_lit ljust_def) (simp add: lit_def)

lemma ws6: "well_scripted [] (s6_framing proto @ [synced ''final''])"
  by (simp add: s6_framing_def script_defs utf8_lit ljust_def Let_def upt_rec) (simp add: lit_def)

lemma ws7: "well_scripted [] (s7_limits @ [synced ''final''])"
  by (simp add: s7_limits_def script_defs upt_rec) (simp add: lit_def dec_digits.simps)

lemma ws4: "well_scripted [] (s4_relay_crc @ [synced ''final''])"
  by (simp add: s4_relay_crc_def script_defs utf8_lit ljust_def well_scripted_sends upt_rec) (simp add: lit_def)

lemma wv1: "well_scripted [] (v1_roster_order @ [synced ''final''])"
  by (simp add: v1_roster_order_def script_defs utf8_lit) (simp add: lit_def)

lemma wv2: "well_scripted [] (v1_pairing @ [synced ''final''])"
  by (simp add: v1_pairing_def script_defs utf8_lit ljust_def) (simp add: lit_def)

lemma wv3: "well_scripted [] (v1_relay_crc @ [synced ''final''])"
  by (simp add: v1_relay_crc_def script_defs utf8_lit ljust_def well_scripted_sends upt_rec) (simp add: lit_def)

lemma wv4: "well_scripted [] (v1_drops @ [synced ''final''])"
  by (simp add: v1_drops_def script_defs utf8_lit ljust_def) (simp add: lit_def)

lemmas well_scripted_scenarios = ws1 ws2 ws3 ws4 ws5 ws6 ws7 wv1 wv2 wv3 wv4

lemma scenario_well_scripted:
  "dget (SCENARIOS proto seats) name = Some script \<Longrightarrow> well_scripted [] (script @ [synced ''final''])"
  using well_scripted_scenarios by (auto simp: SCENARIOS_def SCENARIOS_V1_def SCENARIOS_V2_def split: if_splits)

lemma closes_ok:
  assumes "usable_start s0"
  shows "ctx_ok s0 x \<Longrightarrow> set ls \<subseteq> set (map hc_label (cx_clients x)) \<Longrightarrow> \<exists>y. for_each ls close x = (Inr (), y) \<and> ctx_ok s0 y"
proof (induction ls arbitrary: x)
  case Nil
  then show ?case by (simp add: ret_def)
next
  case (Cons l ls)
  then obtain y where "close l x = (Inr (), y)" "ctx_ok s0 y" "map hc_label (cx_clients y) = map hc_label (cx_clients x)"
    using close_ok [OF assms Cons.prems(1), of l] by auto
  moreover from this have "set ls \<subseteq> set (map hc_label (cx_clients y))" using Cons.prems(2) by (metis insert_subset list.simps(15))
  ultimately show ?case using Cons.IH [of y] by (simp add: bnd_def)
qed

section \<open>Property\<close>

text \<open>C24: each scenario of either protocol runs to its end against the relay, over any connections that
  accept what they are sent and whatever seeds it draws: no exception, whole frames only in the
  transcript, and a consistent relay at the end.\<close>

theorem scenarios_complete:
  assumes "usable_start s0" "name \<in> set (dkeys (SCENARIOS proto seats))"
  shows "\<exists>x. run_scenario proto seats name (new_ctx s0 port) = (Inr (), x) \<and>
    no_partial (cx_transcript x) \<and> INV (cx_server x)"
proof -
  obtain script where s: "dget (SCENARIOS proto seats) name = Some script"
    using assms(2) dict.ks_lookup by (metis option.exhaust)
  let ?cs = "script @ [synced ''final'']"
  have "well_scripted (map hc_label (cx_clients (new_ctx s0 port))) (?cs @ [])"
    using scenario_well_scripted [OF s] by (simp add: new_ctx_def)
  from run_script_ok [OF assms(1) new_ctx_ok this, of proto] obtain y where
    y: "run_script proto ?cs (new_ctx s0 port) = (Inr (), y)" "ctx_ok s0 y" by blast
  have "set (open_labels y) \<subseteq> set (map hc_label (cx_clients y))" by (auto simp: open_labels_def)
  from closes_ok [OF assms(1) y(2) this] obtain z where
    z: "for_each (open_labels y) close y = (Inr (), z)" "ctx_ok s0 z" by blast
  have "INV (cx_server z)" using start_reachable(1) [OF assms(1)] z(2) by (simp add: ctx_ok_def)
  with s y(1) z show ?thesis
    by (simp add: run_scenario_def finish_def bnd_def gets_def ctx_ok_def)
qed

theorem scenarios_complete_witness:
  "\<exists>x. run_scenario 2 2 (lit ''drops'') (new_ctx (main_server default_options (\<lambda>_ _. SSent 4096) (\<lambda>_. 7)) (\<lambda>n. 50000 + n)) =
      (Inr (), x) \<and> no_partial (cx_transcript x) \<and> INV (cx_server x)"
  by (rule scenarios_complete [OF usable_main]) (simp add: SCENARIOS_def SCENARIOS_V2_def dkeys_def)

end
