(* ===== verification/Verdict.thy ===== *)
theory Verdict
  imports Scenarios "HOL-Library.List_Lexorder" "HOL-Library.Multiset"
begin

text \<open>
  The judgement of \<open>tools/server_diff.py\<close>: the lines of a transcript, which log lines count and
  how they are normalised (\<open>normalize_log\<close>), and the verdict on the records of the two relays
  (\<open>compare\<close>). The regular expressions are matchers that give the length of the match at the head
  of a string; \<open>\d\<close> is read as an ASCII digit. The records themselves are arguments: the C relay
  is not modelled.
\<close>

section \<open>Transcript lines\<close>

definition entry_text :: "entry \<Rightarrow> pystr" where
  "entry_text e =
     (case e of
        GotFrame tag label txt \<Rightarrow> tag @ lit '' | '' @ label @ lit '' <- '' @ txt
      | GotPartial tag label txt \<Rightarrow> tag @ lit '' | '' @ label @ lit '' <- PARTIAL '' @ txt
      | GotEof tag label \<Rightarrow> tag @ lit '' | '' @ label @ lit '' <- EOF'')"

section \<open>Log lines\<close>

definition digit :: "nat \<Rightarrow> bool" where
  "digit c \<longleftrightarrow> 48 \<le> c \<and> c \<le> 57"

definition starts :: "pystr \<Rightarrow> pystr \<Rightarrow> bool" where
  "starts p s \<longleftrightarrow> take (length p) s = p"

text \<open>\<open>LOGLINE\<close>: a record that starts with a time stamp; its level and text.\<close>

definition stamp :: "pystr \<Rightarrow> bool" where
  "stamp s \<longleftrightarrow> 24 \<le> length s \<and>
     list_all (\<lambda>i. digit (s ! i)) [0, 1, 2, 3, 5, 6, 8, 9, 11, 12, 14, 15, 17, 18, 20, 21, 22] \<and>
     map (\<lambda>i. s ! i) [4, 7, 10, 13, 16, 19, 23] = lit ''-- ::, ''"

definition log_record :: "pystr \<Rightarrow> pystr option" where
  "log_record s =
     (if stamp s
      then (let r = drop 24 s
            in case find (\<lambda>level. starts (level @ [32]) r) [lit ''INFO'', lit ''WARNING'', lit ''DEBUG'', lit ''ERROR''] of
                 None \<Rightarrow> None
               | Some level \<Rightarrow> Some (lit ''log '' @ r))
      else None)"

definition log_lines :: "pystr list \<Rightarrow> pystr list" where
  "log_lines raw = concat (map (\<lambda>l. case log_record l of None \<Rightarrow> [] | Some r \<Rightarrow> [r]) raw)"

section \<open>normalize_log\<close>

text \<open>The three expressions; a length of at least one, or no match.\<close>

definition m_seed :: "pystr \<Rightarrow> nat option" where
  "m_seed s =
     (if starts (lit ''(seed $'') s \<and> 12 \<le> length s \<and> list_all upper_hex (take 4 (drop 7 s)) \<and> s ! 11 = 41
      then Some 12 else None)"

definition m_port :: "pystr \<Rightarrow> nat option" where
  "m_port s =
     (if starts (lit ''('' @ [39] @ lit ''127.0.0.1'' @ [39] @ lit '', '') s
      then (let ds = takeWhile digit (drop 14 s)
            in if ds \<noteq> [] \<and> starts [41] (drop (14 + length ds) s) then Some (14 + length ds + 1) else None)
      else None)"

definition m_listen :: "pystr \<Rightarrow> nat option" where
  "m_listen s =
     (if starts (lit ''listening on :'') s
      then (let ds = takeWhile digit (drop 14 s) in if ds \<noteq> [] then Some (14 + length ds) else None)
      else None)"

text \<open>\<open>re.sub\<close>: matches are replaced from left to right and do not overlap.\<close>

function sub_all :: "(pystr \<Rightarrow> nat option) \<Rightarrow> pystr \<Rightarrow> pystr \<Rightarrow> pystr" where
  "sub_all m r [] = []"
| "sub_all m r (c # s) =
     (case m (c # s) of
        Some (Suc n) \<Rightarrow> r @ sub_all m r (drop n s)
      | _ \<Rightarrow> c # sub_all m r s)"
  by pat_completeness auto
termination
  by (relation "measure (\<lambda>(m, r, s). length s)") auto

definition norm_line :: "pystr \<Rightarrow> pystr" where
  "norm_line l =
     sub_all m_listen (lit ''listening on :PORT'')
       (sub_all m_port (lit ''('' @ [39] @ lit ''127.0.0.1'' @ [39] @ lit '', PORT)'')
         (sub_all m_seed (lit ''(seed $SEED)'') l))"

definition c_only :: "pystr \<Rightarrow> bool" where
  "c_only l = starts (lit ''log WARNING a protocol v1 console tried to connect'') l"

definition normalize_log :: "pystr list \<Rightarrow> pystr list \<times> nat" where
  "normalize_log ls = (map norm_line (filter (\<lambda>l. \<not> c_only l) ls), length (filter c_only ls))"

section \<open>compare\<close>

datatype verdict = Pass nat | PassMultiset nat | Diverges | Fails

definition compare_runs :: "nat \<Rightarrow> pystr \<Rightarrow> bool \<Rightarrow> pystr list \<Rightarrow> pystr list \<Rightarrow> verdict \<times> bool" where
  "compare_runs proto name strict py c =
     (if name = lit ''limits'' \<and> sort py = sort c then (PassMultiset (length py), True)
      else if name \<noteq> lit ''limits'' \<and> py = c then (Pass (length py), True)
      else if name = lit ''framing'' \<and> proto = 2 then (Diverges, \<not> strict)
      else (Fails, False))"

text \<open>What one relay leaves behind is normalised as a whole, transcript and log.\<close>

definition record_of :: "entry list \<Rightarrow> pystr list \<Rightarrow> pystr list \<times> nat" where
  "record_of es raw = normalize_log (map entry_text es @ log_lines raw)"

definition all_ok :: "nat \<Rightarrow> bool \<Rightarrow> (pystr \<Rightarrow> pystr list \<times> pystr list) \<Rightarrow> pystr list \<Rightarrow> bool" where
  "all_ok proto strict runs names =
     foldl (\<lambda>ok n. ok \<and> snd (compare_runs proto n strict (fst (runs n)) (snd (runs n)))) True names"

section \<open>main\<close>

text \<open>
  The arguments, and how the run ends: the scenarios listed, a message of \<open>sys.exit\<close>, or the verdicts
  with the last line. \<open>exists\<close> is the test for a file, \<open>relay_c\<close> the path of the C relay, and \<open>runs\<close> the
  records of the two relays in a scenario.
\<close>

record diff_args =
  da_seats :: nat
  da_proto :: nat
  da_python_server :: "pystr option"
  da_scenario :: "pystr list"
  da_strict :: bool
  da_list :: bool

datatype diff_end =
    Lists "pystr list"
  | NoSuchServer pystr
  | NeedsPythonServer
  | NotBuilt
  | UnknownScenario pystr
  | SeatsPinned
  | Ran "verdict list" bool

definition diff_names :: "diff_args \<Rightarrow> pystr list" where
  "diff_names a =
     (if da_scenario a \<noteq> [] then da_scenario a else if da_proto a = 1 then DEFAULT_ORDER_V1 else DEFAULT_ORDER_V2)"

definition diff_reference :: "(pystr \<Rightarrow> bool) \<Rightarrow> diff_args \<Rightarrow> diff_end option" where
  "diff_reference exists a =
     (case da_python_server a of
        Some (c # path) \<Rightarrow> (if exists (c # path) then None else Some (NoSuchServer (c # path)))
      | _ \<Rightarrow> if da_proto a = 1 then Some NeedsPythonServer else None)"

definition diff_main ::
  "(pystr \<Rightarrow> bool) \<Rightarrow> pystr \<Rightarrow> (pystr \<Rightarrow> pystr list \<times> pystr list) \<Rightarrow> diff_args \<Rightarrow> diff_end" where
  "diff_main exists relay_c runs a =
     (let known = dkeys (SCENARIOS (da_proto a) (da_seats a)); names = diff_names a
      in if da_list a then Lists known
         else (case diff_reference exists a of
             Some stop \<Rightarrow> stop
           | None \<Rightarrow>
               if \<not> exists relay_c then NotBuilt
               else (case find (\<lambda>n. n \<notin> set known) names of
                   Some n \<Rightarrow> UnknownScenario n
                 | None \<Rightarrow>
                     if da_proto a = 2 \<and> da_seats a \<noteq> 2 then SeatsPinned
                     else Ran
                       (map (\<lambda>n. fst (compare_runs (da_proto a) n (da_strict a) (fst (runs n)) (snd (runs n)))) names)
                       (all_ok (da_proto a) (da_strict a) runs names))))"

definition diff_status :: "diff_end \<Rightarrow> int" where
  "diff_status e = (case e of Lists ns \<Rightarrow> 0 | Ran vs ok \<Rightarrow> if ok then 0 else 1 | _ \<Rightarrow> 1)"

section \<open>Substitution\<close>

lemma sub_all_None: "m (c # s) = None \<Longrightarrow> sub_all m r (c # s) = c # sub_all m r s"
  by simp

text \<open>Text at no place of which a match begins is kept.\<close>

lemma sub_all_skip:
  "(\<And>x y. w = x @ y \<Longrightarrow> y \<noteq> [] \<Longrightarrow> m (y @ s) = None) \<Longrightarrow> sub_all m r (w @ s) = w @ sub_all m r s"
proof (induction w)
  case (Cons c w)
  have "m (c # w @ s) = None" using Cons.prems [of "[]" "c # w"] by simp
  moreover have "sub_all m r (w @ s) = w @ sub_all m r s"
    using Cons.prems [of "c # x" y for x y] by (intro Cons.IH) auto
  ultimately show ?case by simp
qed simp

text \<open>Text a match cannot reach into from the left splits the substitution.\<close>

lemma sub_all_split:
  assumes "\<And>x y. w = x @ y \<Longrightarrow> y \<noteq> [] \<Longrightarrow> m (y @ s) = m y"
    and "\<And>x n. m x = Some n \<Longrightarrow> n \<le> length x"
  shows "sub_all m r (w @ s) = sub_all m r w @ sub_all m r s"
  using assms(1)
proof (induction "length w" arbitrary: w rule: less_induct)
  case less
  show ?case
  proof (cases w)
    case (Cons c v)
    have same: "m (c # v @ s) = m (c # v)" using less.prems [of "[]" w] Cons by simp
    have IH: "sub_all m r (drop n v @ s) = sub_all m r (drop n v) @ sub_all m r s" for n
    proof (rule less.hyps)
      show "length (drop n v) < length w" using Cons by simp
      fix x y assume "drop n v = x @ y" "y \<noteq> []"
      then have "w = (c # take n v @ x) @ y" using Cons by (metis append_Cons append_assoc append_take_drop_id)
      then show "m (y @ s) = m y" using less.prems \<open>y \<noteq> []\<close> by blast
    qed
    show ?thesis
    proof (cases "m (c # v)")
      case None
      with same Cons IH [of 0] show ?thesis by simp
    next
      case (Some k)
      then have k: "k \<le> Suc (length v)" using assms(2) [of "c # v" k] by simp
      show ?thesis
      proof (cases k)
        case 0
        with Some same Cons IH [of 0] show ?thesis by simp
      next
        case (Suc n)
        then have "drop n (v @ s) = drop n v @ s" using k by simp
        with Some Suc same Cons IH [of n] show ?thesis by simp
      qed
    qed
  qed simp
qed

text \<open>
  A matcher of text that opens with a parenthesis, has none inside, and is complete in itself:
  its matches stop at the next parenthesis.
\<close>

locale bracketed =
  fixes m :: "pystr \<Rightarrow> nat option"
  assumes fits: "m s = Some n \<Longrightarrow> 0 < n \<and> n \<le> length s"
    and extend: "m s = Some n \<Longrightarrow> m (s @ t) = Some n"
    and restrict: "m (s @ t) = Some n \<Longrightarrow> n \<le> length s \<Longrightarrow> m s = Some n"
    and inside: "m s = Some n \<Longrightarrow> 0 < i \<Longrightarrow> i < n \<Longrightarrow> s ! i \<noteq> 40"
begin

lemma stops: "y \<noteq> [] \<Longrightarrow> m (y @ 40 # s) = m y"
proof (cases "m (y @ 40 # s)")
  case None
  then show ?thesis using extend [of y _ "40 # s"] by (cases "m y") simp_all
next
  case (Some n)
  assume "y \<noteq> []"
  then have "n \<le> length y" using inside [OF Some, of "length y"] by (force simp: nth_append)
  with restrict [OF Some] Some show ?thesis by simp
qed

lemma split_at: "sub_all m r (w @ 40 # s) = sub_all m r w @ sub_all m r (40 # s)"
  using fits by (intro sub_all_split) (auto simp: stops)

lemma replaces:
  assumes "m (40 # t) = Some (Suc (length t))"
  shows "sub_all m r (w @ (40 # t) @ s) = sub_all m r w @ r @ sub_all m r s"
  using split_at [of r w "t @ s"] extend [OF assms, of s] by simp

end

lemma starts_append: "length p \<le> length s \<Longrightarrow> starts p (s @ t) = starts p s"
  by (simp add: starts_def)

lemma startsE: "starts p s \<Longrightarrow> \<exists>r. s = p @ r"
  unfolding starts_def by (metis append_take_drop_id)

lemma m_seed_Some:
  "m_seed s = Some n \<longleftrightarrow> n = 12 \<and> (\<exists>h r. s = lit ''(seed $'' @ h @ 41 # r \<and> length h = 4 \<and> list_all upper_hex h)"
proof
  assume a: "m_seed s = Some n"
  then obtain r where r: "s = lit ''(seed $'' @ r" using startsE by (auto simp: m_seed_def split: if_splits)
  with a have l: "5 \<le> length r" "list_all upper_hex (take 4 r)" "r ! 4 = 41" "n = 12"
    by (auto simp: m_seed_def lit_def split: if_splits)
  then have "r = take 4 r @ 41 # drop 5 r" using id_take_nth_drop [of 4 r] by simp
  with r l show "n = 12 \<and> (\<exists>h r. s = lit ''(seed $'' @ h @ 41 # r \<and> length h = 4 \<and> list_all upper_hex h)"
    by (intro conjI exI [of _ "take 4 r"] exI [of _ "drop 5 r"]) simp_all
next
  assume "n = 12 \<and> (\<exists>h r. s = lit ''(seed $'' @ h @ 41 # r \<and> length h = 4 \<and> list_all upper_hex h)"
  then show "m_seed s = Some n" by (auto simp: m_seed_def starts_def lit_def nth_append)
qed

lemma upper_hex_no_paren: "upper_hex c \<Longrightarrow> c \<noteq> 40"
  by (auto simp: upper_hex_def)

lemma no_paren_inside:
  assumes "s = 40 # w @ r" "(40::nat) \<notin> set w" "0 < i" "i \<le> length w"
  shows "s ! i \<noteq> 40"
proof -
  obtain j where j: "i = Suc j" using assms(3) by (cases i) auto
  then have "s ! i = w ! j" using assms by (simp add: nth_append)
  moreover have "w ! j \<in> set w" using assms(4) j by (intro nth_mem) simp
  ultimately show ?thesis using assms(2) by metis
qed

interpretation seed: bracketed m_seed
proof unfold_locales
  show "0 < n \<and> n \<le> length s" if "m_seed s = Some n" for s n
    using that by (auto simp: m_seed_Some lit_def)
  show "m_seed (s @ t) = Some n" if "m_seed s = Some n" for s t n
    using that by (fastforce simp: m_seed_Some)
  show "m_seed s = Some n" if a: "m_seed (s @ t) = Some n" "n \<le> length s" for s t n
  proof -
    have "12 \<le> length s" using a by (simp add: m_seed_Some)
    then show ?thesis
      using a by (simp add: m_seed_def starts_append lit_def nth_append split: if_splits)
  qed
  show "s ! i \<noteq> 40" if a: "m_seed s = Some n" "0 < i" "i < n" for s n i
  proof -
    obtain h r where s: "s = lit ''(seed $'' @ h @ 41 # r" "length h = 4" "list_all upper_hex h" "n = 12"
      using a(1) by (auto simp: m_seed_Some)
    have "s = 40 # (lit ''seed $'' @ h @ [41]) @ r" using s(1) by (simp add: lit_def)
    moreover have "40 \<notin> set (lit ''seed $'' @ h @ [41])"
      using s(3) upper_hex_no_paren by (auto simp: lit_def list_all_iff)
    moreover have "i \<le> length (lit ''seed $'' @ h @ [41])" using a(3) s(2,4) by (simp add: lit_def)
    ultimately show ?thesis using a(2) no_paren_inside by blast
  qed
qed

definition port_head :: pystr where
  "port_head = [39] @ lit ''127.0.0.1'' @ [39] @ lit '', ''"

lemma m_port_Some:
  "m_port s = Some n \<longleftrightarrow> (\<exists>ds r. s = 40 # port_head @ ds @ 41 # r \<and> ds \<noteq> [] \<and> list_all digit ds \<and> n = 15 + length ds)"
proof
  have head: "lit ''('' @ [39] @ lit ''127.0.0.1'' @ [39] @ lit '', '' = 40 # port_head"
    by (simp add: lit_def port_head_def)
  have head_drop: "drop (14 + k) ((40 # port_head) @ r) = drop k r" for k r
    by (simp add: lit_def port_head_def eval_nat_numeral)
  {
    assume a: "m_port s = Some n"
    then have "starts (40 # port_head) s" using head by (simp add: m_port_def split: if_splits)
    then obtain r where r: "s = (40 # port_head) @ r" using startsE by blast
    have d: "drop 14 s = r" "drop (14 + k) s = drop k r" for k
      using head_drop [of 0 r] head_drop [of k r] r by simp_all
    let ?ds = "takeWhile digit r"
    have "?ds \<noteq> []" "starts [41] (drop (length ?ds) r)" "n = 15 + length ?ds"
      using a by (auto simp: m_port_def d Let_def split: if_splits)
    moreover have "drop (length ?ds) r = dropWhile digit r" by (simp add: dropWhile_eq_drop)
    ultimately obtain q where "dropWhile digit r = 41 # q" using startsE by fastforce
    then have "r = ?ds @ 41 # q" using takeWhile_dropWhile_id [of digit r] by simp
    moreover have "list_all digit ?ds" by (auto simp: list_all_iff dest: set_takeWhileD)
    ultimately show "\<exists>ds r. s = 40 # port_head @ ds @ 41 # r \<and> ds \<noteq> [] \<and> list_all digit ds \<and> n = 15 + length ds"
      using r \<open>?ds \<noteq> []\<close> \<open>n = 15 + length ?ds\<close> by (intro exI [of _ ?ds] exI [of _ q]) simp
  next
    assume "\<exists>ds r. s = 40 # port_head @ ds @ 41 # r \<and> ds \<noteq> [] \<and> list_all digit ds \<and> n = 15 + length ds"
    then obtain ds r where s: "s = (40 # port_head) @ ds @ 41 # r" "ds \<noteq> []" "list_all digit ds" "n = 15 + length ds"
      by auto
    have "takeWhile digit (ds @ 41 # r) = ds"
      using s(3) by (simp add: takeWhile_append digit_def list_all_iff)
    moreover have "drop 14 s = ds @ 41 # r" "drop (14 + length ds) s = 41 # r"
      using head_drop [of 0 "ds @ 41 # r"] head_drop [of "length ds" "ds @ 41 # r"] s(1) by simp_all
    moreover have "starts (40 # port_head) s" using s(1) by (simp add: starts_def)
    ultimately show "m_port s = Some n"
      unfolding m_port_def head using s(2,4) by (simp add: Let_def starts_def [of "[41]"])
  }
qed

interpretation port: bracketed m_port
proof unfold_locales
  have len: "length port_head = 13" by (simp add: lit_def port_head_def)
  show "0 < n \<and> n \<le> length s" if "m_port s = Some n" for s n
    using that len by (auto simp: m_port_Some)
  show "m_port (s @ t) = Some n" if "m_port s = Some n" for s t n
    using that by (fastforce simp: m_port_Some)
  show "m_port s = Some n" if a: "m_port (s @ t) = Some n" "n \<le> length s" for s t n
  proof -
    obtain ds r where r: "s @ t = (40 # port_head @ ds @ [41]) @ r" "ds \<noteq> []" "list_all digit ds" "n = 15 + length ds"
      using a(1) by (auto simp: m_port_Some)
    define P where "P = 40 # port_head @ ds @ [41]"
    have "take (length P) (s @ t) = P" unfolding r(1) P_def by simp
    moreover have "length P \<le> length s" using a(2) r(4) len by (simp add: P_def)
    ultimately have "s = P @ drop (length P) s" by (metis append_take_drop_id diff_is_0_eq take_0 take_append append_Nil2)
    with r(2-4) show ?thesis unfolding P_def by (subst m_port_Some) (metis append_Cons append_assoc append_Nil)
  qed
  show "s ! i \<noteq> 40" if a: "m_port s = Some n" "0 < i" "i < n" for s n i
  proof -
    obtain ds r where s: "s = 40 # port_head @ ds @ 41 # r" "list_all digit ds" "n = 15 + length ds"
      using a(1) by (auto simp: m_port_Some)
    have "s = 40 # (port_head @ ds @ [41]) @ r" using s(1) by simp
    moreover have "40 \<notin> set (port_head @ ds @ [41])"
      using s(2) by (auto simp: lit_def port_head_def list_all_iff digit_def)
    moreover have "i \<le> length (port_head @ ds @ [41])" using a(3) s(3) len by simp
    ultimately show ?thesis using a(2) no_paren_inside by blast
  qed
qed

section \<open>Rendering\<close>

lemma low_digit_inject: "m < 16 \<Longrightarrow> n < 16 \<Longrightarrow> low_digit m = low_digit n \<longleftrightarrow> m = n"
  by (auto simp: low_digit_def split: if_splits)

lemma hex_digit_inject: "m < 16 \<Longrightarrow> n < 16 \<Longrightarrow> hex_digit m = hex_digit n \<longleftrightarrow> m = n"
  by (auto simp: hex_digit_def split: if_splits)

lemma byte_digits: "(x :: byte) = y \<longleftrightarrow> unat x div 16 = unat y div 16 \<and> unat x mod 16 = unat y mod 16"
  by (metis div_mult_mod_eq word_unat_eq_iff)

lemma byte_high_digit: "unat (x :: byte) div 16 < 16"
  using less_mult_imp_div_less [of "unat x" 16 16] unat_byte_less [of x] by simp

lemma hex_of_inject: "hex_of p = hex_of q \<longleftrightarrow> p = q"
proof (induction p arbitrary: q)
  case Nil
  then show ?case by (cases q) (simp_all add: hex_of_def)
next
  case (Cons x p)
  show ?case
  proof (cases q)
    case Nil
    then show ?thesis by (simp add: hex_of_def)
  next
    case q: (Cons y q')
    have "hex_of (x # p) = hex_of q \<longleftrightarrow> low_digit (unat x div 16) = low_digit (unat y div 16) \<and>
        low_digit (unat x mod 16) = low_digit (unat y mod 16) \<and> hex_of p = hex_of q'"
      by (simp add: hex_of_def q)
    also have "\<dots> \<longleftrightarrow> x = y \<and> p = q'"
      using byte_high_digit [of x] byte_high_digit [of y] Cons.IH [of q']
      by (auto simp: low_digit_inject byte_digits)
    finally show ?thesis by (simp add: q)
  qed
qed

lemma distinct_names: "distinct (map snd TNAME)"
  by (simp add: TNAME_def lit_def)

lemma names_letters: "(t, n) \<in> set TNAME \<Longrightarrow> n \<noteq> [] \<and> hd n \<noteq> 36 \<and> 32 \<notin> set n"
  by (auto simp: TNAME_def lit_def)

lemma type_name_inject: "type_name t = type_name u \<longleftrightarrow> t = u"
proof
  assume a: "type_name t = type_name u"
  show "t = u"
  proof (cases "dget TNAME t")
    case t: None
    show ?thesis
    proof (cases "dget TNAME u")
      case None
      with t a show ?thesis
        using byte_high_digit [of t] byte_high_digit [of u]
        by (simp add: type_name_def hex_digit_inject byte_digits)
    next
      case (Some n)
      with t a show ?thesis using names_letters [OF dget_Some_in [OF Some]] by (auto simp: type_name_def)
    qed
  next
    case t: (Some n)
    show ?thesis
    proof (cases "dget TNAME u")
      case None
      with t a show ?thesis using names_letters [OF dget_Some_in [OF t]] by (auto simp: type_name_def)
    next
      case (Some k)
      with t a have "(t, n) \<in> set TNAME" "(u, n) \<in> set TNAME" by (auto simp: type_name_def dest: dget_Some_in)
      then show ?thesis using distinct_names by (fastforce simp: distinct_map inj_on_def)
    qed
  qed
qed simp

lemma type_name_no_space: "32 \<notin> set (type_name t)"
proof (cases "dget TNAME t")
  case None
  have "unat t mod 16 < 16" by simp
  with None byte_high_digit [of t] show ?thesis by (auto simp: type_name_def hex_digit_def)
next
  case (Some n)
  with names_letters [OF dget_Some_in [OF Some]] show ?thesis by (simp add: type_name_def)
qed

lemma first_space:
  assumes "x @ (32::nat) # v = y @ 32 # w" "32 \<notin> set x" "32 \<notin> set y"
  shows "x = y \<and> v = w"
proof -
  have h: "takeWhile (\<lambda>c. c \<noteq> 32) (x @ 32 # v) = x" "takeWhile (\<lambda>c. c \<noteq> 32) (y @ 32 # w) = y"
    using assms(2,3) by (auto simp: takeWhile_append)
  then show ?thesis using assms(1) by (metis list.inject same_append_eq)
qed

lemma hex_of_no_paren: "41 \<notin> set (hex_of p)"
proof -
  have "low_digit d \<noteq> 41" for d by (simp add: low_digit_def)
  then show ?thesis by (auto simp: hex_of_def)
qed

definition masked :: "bytes \<Rightarrow> bool" where
  "masked m \<longleftrightarrow> hd m = T_START \<and> 4 \<le> length (tl m)"

lemma render_masked: "m \<noteq> [] \<Longrightarrow> masked m \<Longrightarrow>
    render 2 m = Inr (type_name T_START @ 32 # hex_of (take 2 (tl m) @ [0xAA, 0xAA] @ drop 4 (tl m)) @ lit '' (seed masked)'')"
  by (simp add: render_def masked_def mask_seed_def type_name_def TNAME_def lit_def const_defs Let_def)

lemma render_plain: "m \<noteq> [] \<Longrightarrow> \<not> masked m \<Longrightarrow> render 2 m = Inr (type_name (hd m) @ 32 # hex_of (tl m))"
  by (auto simp: render_def masked_def lit_def Let_def)

lemma lit_paren: "41 \<in> set (lit '' (seed masked)'')"
  by (simp add: lit_def)

lemma render_mixed:
  assumes "m \<noteq> []" "k \<noteq> []" "masked m" "\<not> masked k"
  shows "render 2 m \<noteq> render 2 k"
proof
  assume "render 2 m = render 2 k"
  then have "type_name T_START @ 32 # (hex_of (take 2 (tl m) @ [0xAA, 0xAA] @ drop 4 (tl m)) @ lit '' (seed masked)'') =
      type_name (hd k) @ 32 # hex_of (tl k)"
    using render_masked [OF assms(1,3)] render_plain [OF assms(2,4)] by simp
  from first_space [OF this type_name_no_space type_name_no_space]
  have "hex_of (take 2 (tl m) @ [0xAA, 0xAA] @ drop 4 (tl m)) @ lit '' (seed masked)'' = hex_of (tl k)" by simp
  then have "41 \<in> set (hex_of (tl k))" using lit_paren by (metis UnCI set_append)
  with hex_of_no_paren show False by blast
qed

section \<open>Normalised lines\<close>

definition seed_text :: "nat \<Rightarrow> pystr" where
  "seed_text n = 40 # lit ''seed $'' @ hex4 n @ [41]"

definition port_text :: "nat \<Rightarrow> pystr" where
  "port_text n = 40 # port_head @ dec_digits n @ [41]"

lemma dec_digits_digit: "list_all digit (dec_digits n) \<and> dec_digits n \<noteq> []"
proof (induction n rule: dec_digits.induct)
  case (1 n)
  then show ?case by (subst (1 2) dec_digits.simps) (auto simp: digit_def list_all_iff)
qed

lemma m_seed_text: "n < 65536 \<Longrightarrow> m_seed (seed_text n) = Some (length (seed_text n))"
  by (subst m_seed_Some, intro conjI exI [of _ "hex4 n"] exI [of _ "[]"])
    (simp_all add: seed_text_def lit_def hex4_length hex4_upper)

lemma m_port_text: "m_port (port_text n) = Some (length (port_text n))"
proof -
  have "length port_head = 13" by (simp add: lit_def port_head_def)
  then show ?thesis using dec_digits_digit [of n]
    by (subst m_port_Some, intro exI [of _ "dec_digits n"] exI [of _ "[]"]) (simp add: port_text_def)
qed

lemma m_seed_start: "m_seed s = Some n \<Longrightarrow> \<exists>r. s = 40 # 115 # r"
  by (auto simp: m_seed_Some lit_def)

lemma port_no_seed: "sub_all m_seed r (port_text p @ s) = port_text p @ sub_all m_seed r s"
proof (rule sub_all_skip)
  fix x y assume xy: "port_text p = x @ y" "y \<noteq> []"
  have inner: "40 \<notin> set (port_head @ dec_digits p @ [41])"
    using dec_digits_digit [of p] by (auto simp: lit_def port_head_def list_all_iff digit_def)
  show "m_seed (y @ s) = None"
  proof (cases x)
    case Nil
    then have "y @ s = 40 # 39 # tl (port_head @ dec_digits p @ [41]) @ s"
      using xy(1) by (simp add: port_text_def port_head_def)
    then show ?thesis using m_seed_start [of "y @ s"] by (cases "m_seed (y @ s)") auto
  next
    case (Cons c x')
    then have "hd y \<in> set (port_head @ dec_digits p @ [41])"
      using xy by (auto simp: port_text_def append_eq_Cons_conv intro: hd_in_set)
    then have "hd y \<noteq> 40" using inner by metis
    then show ?thesis using m_seed_start [of "y @ s"] xy(2) by (cases y; cases "m_seed (y @ s)") auto
  qed
qed

lemma norm_line_texts:
  assumes "n < 65536"
  shows "norm_line (a @ seed_text n @ b @ port_text p @ c) =
    sub_all m_listen (lit ''listening on :PORT'')
      (sub_all m_port (40 # port_head @ lit ''PORT)'')
        (sub_all m_seed (lit ''(seed $SEED)'') a @ lit ''(seed $SEED)'' @ sub_all m_seed (lit ''(seed $SEED)'') b)
       @ (40 # port_head @ lit ''PORT)'')
       @ sub_all m_port (40 # port_head @ lit ''PORT)'') (sub_all m_seed (lit ''(seed $SEED)'') c))"
proof -
  let ?R = "lit ''(seed $SEED)''" and ?P = "40 # port_head @ lit ''PORT)''"
  obtain t where t: "seed_text n = 40 # t" by (simp add: seed_text_def)
  obtain q where q: "port_text p = 40 # q" by (simp add: port_text_def)
  have "sub_all m_seed ?R (a @ seed_text n @ b @ port_text p @ c) =
      sub_all m_seed ?R a @ ?R @ sub_all m_seed ?R (b @ port_text p @ c)"
    using seed.replaces [of t ?R a] m_seed_text [OF assms] unfolding t by simp
  also have "sub_all m_seed ?R (b @ port_text p @ c) = sub_all m_seed ?R b @ port_text p @ sub_all m_seed ?R c"
    using seed.split_at [of ?R b "q @ c"] port_no_seed [of ?R p c] by (simp add: q)
  finally have seeds: "sub_all m_seed ?R (a @ seed_text n @ b @ port_text p @ c) =
      (sub_all m_seed ?R a @ ?R @ sub_all m_seed ?R b) @ port_text p @ sub_all m_seed ?R c" by simp
  have head: "lit ''('' @ [39] @ lit ''127.0.0.1'' @ [39] @ lit '', PORT)'' = ?P"
    by (simp add: lit_def port_head_def)
  have ports: "sub_all m_port ?P (x @ port_text p @ z) = sub_all m_port ?P x @ ?P @ sub_all m_port ?P z" for x z
    using port.replaces [of q ?P x z] m_port_text [of p] unfolding q by simp
  show ?thesis by (simp only: norm_line_def seeds head ports)
qed

section \<open>Properties\<close>

text \<open>C25: the harness compares frames up to the seed of a START and nothing else: the texts of two
  received frames are equal exactly if the frames are, or if both are START frames that differ in
  the two seed bytes only.\<close>

theorem render_exact:
  assumes "m \<noteq> []" "k \<noteq> []"
  shows "render 2 m = render 2 k \<longleftrightarrow>
    m = k \<or> masked m \<and> masked k \<and> take 2 (tl m) = take 2 (tl k) \<and> drop 4 (tl m) = drop 4 (tl k)"
proof (cases "masked m \<and> masked k")
  case True
  have "length (take 2 (tl m)) = length (take 2 (tl k))" using True by (simp add: masked_def)
  then have "render 2 m = render 2 k \<longleftrightarrow> take 2 (tl m) = take 2 (tl k) \<and> drop 4 (tl m) = drop 4 (tl k)"
    using True assms by (simp add: render_masked hex_of_inject)
  with True show ?thesis by auto
next
  case False
  show ?thesis
  proof (cases "masked m \<or> masked k")
    case True
    with False render_mixed [OF assms] render_mixed [OF assms(2,1)] show ?thesis by metis
  next
    case none: False
    have "render 2 m = render 2 k \<longleftrightarrow> hd m = hd k \<and> tl m = tl k"
      using none assms first_space [OF _ type_name_no_space type_name_no_space]
      by (auto simp: render_plain type_name_inject hex_of_inject dest!: first_space [OF _ type_name_no_space type_name_no_space])
    with none assms show ?thesis by (metis list.expand)
  qed
qed

theorem render_exact_witness:
  "render 2 [5, 0, 2, 7, 9, 3] = render 2 [5, 0, 2, 1, 1, 3] \<and> render 2 [5, 0, 2, 7, 9, 3] \<noteq> render 2 [5, 1, 2, 7, 9, 3]"
proof -
  have ne: "[5, 0, 2, 7, 9, 3 :: byte] \<noteq> []" "[5, 0, 2, 1, 1, 3 :: byte] \<noteq> []" "[5, 1, 2, 7, 9, 3 :: byte] \<noteq> []"
    by simp_all
  show ?thesis
    using render_exact [OF ne(1,2)] render_exact [OF ne(1,3)] by (simp add: masked_def T_START_def)
qed

text \<open>Log lines are compared up to seeds and ephemeral ports: whatever surrounds them, two lines
  that differ only there are normalised to the same line.\<close>

theorem normalize_masks:
  assumes "n < 65536" "k < 65536"
  shows "norm_line (a @ seed_text n @ b @ port_text p @ c) = norm_line (a @ seed_text k @ b @ port_text q @ c)"
  unfolding norm_line_texts [OF assms(1)] norm_line_texts [OF assms(2)] by (rule refl)

theorem normalize_masks_witness:
  "norm_line (lit ''x '' @ seed_text 1 @ [] @ port_text 50000 @ []) = norm_line (lit ''x '' @ seed_text 65535 @ [] @ port_text 9 @ [])"
  by (rule normalize_masks) simp_all

text \<open>What the verdict of a scenario rests on.\<close>

definition records_agree :: "nat \<Rightarrow> bool \<Rightarrow> pystr \<Rightarrow> pystr list \<times> pystr list \<Rightarrow> bool" where
  "records_agree proto strict name r \<longleftrightarrow>
     (if name = lit ''limits'' then mset (fst r) = mset (snd r)
      else fst r = snd r \<or> name = lit ''framing'' \<and> proto = 2 \<and> \<not> strict)"

lemma compare_exact: "snd (compare_runs proto name strict py c) \<longleftrightarrow> records_agree proto strict name (py, c)"
proof -
  have "sort py = sort c \<longleftrightarrow> mset py = mset c"
    by (metis mset_sort properties_for_sort sorted_sort)
  moreover have "lit ''limits'' \<noteq> lit ''framing''" by (simp add: lit_def)
  ultimately show ?thesis by (auto simp: compare_runs_def records_agree_def)
qed

lemma all_ok_iff: "all_ok proto strict runs names \<longleftrightarrow> list_all (\<lambda>n. records_agree proto strict n (runs n)) names"
proof -
  have "foldl (\<lambda>ok n. ok \<and> P n) b names \<longleftrightarrow> b \<and> list_all P names" for P b
    by (induction names arbitrary: b) auto
  then show ?thesis by (simp add: all_ok_def compare_exact)
qed

lemma find_unknown: "find (\<lambda>n. n \<notin> A) names = None \<longleftrightarrow> list_all (\<lambda>n. n \<in> A) names"
  by (auto simp: find_None_iff list_all_iff)

text \<open>C26: the program exits with status 0 exactly if it lists the scenarios, or if there is a reference
  relay for the protocol, the C relay is built, every scenario named is one of the protocol's, the
  number of seats is the one the Python relay has, and the records of the two relays agree in every
  scenario run: they are equal (for \<open>limits\<close>, equal up to their order), or it is \<open>framing\<close> of protocol 2
  without \<open>--strict\<close>, which passes whatever the records are.\<close>

theorem diff_passes:
  "diff_status (diff_main exists relay_c runs a) = 0 \<longleftrightarrow>
     da_list a \<or>
     diff_reference exists a = None \<and> exists relay_c \<and>
     list_all (\<lambda>n. n \<in> set (dkeys (SCENARIOS (da_proto a) (da_seats a)))) (diff_names a) \<and>
     \<not> (da_proto a = 2 \<and> da_seats a \<noteq> 2) \<and>
     list_all (\<lambda>n. records_agree (da_proto a) (da_strict a) n (runs n)) (diff_names a)"
proof -
  have stops: "diff_reference exists a = Some e \<Longrightarrow> diff_status e = 1" for e
    by (auto simp: diff_reference_def diff_status_def split: option.splits list.splits if_splits)
  show ?thesis
    using find_unknown [of "set (dkeys (SCENARIOS (da_proto a) (da_seats a)))" "diff_names a"] stops
    by (auto simp: diff_main_def Let_def diff_status_def all_ok_iff split: option.split)
qed

end
