(* ===== verification/LogText.thy ===== *)
theory LogText
  imports Differential
begin

text \<open>
  The relay's log as text: the message of every log call of \<open>server/intv_relay_server.py\<close> with its
  values formatted as Python formats them (\<open>%d\<close>, \<open>%04X\<close>, \<open>%s\<close>, and \<open>%r\<close> of clients, rooms,
  addresses and names), and the search of a text for another. The time stamp and the level in front
  of a message are left out, and so is the traceback of an unexpected error.
\<close>

section \<open>repr\<close>

text \<open>
  \<open>repr\<close> of a string that \<open>decode("ascii", "replace")\<close> returned: the quote is the double one
  where only single ones occur; the quote and the backslash are escaped, as are the control
  characters; the replacement character is printable.
\<close>

definition char_repr :: "nat \<Rightarrow> nat \<Rightarrow> pystr" where
  "char_repr q c =
     (if c = q \<or> c = 92 then [92, c]
      else if c = 9 then [92, 116]
      else if c = 10 then [92, 110]
      else if c = 13 then [92, 114]
      else if c < 32 \<or> c = 127 then [92, 120, low_digit (c div 16), low_digit (c mod 16)]
      else [c])"

definition str_repr :: "pystr \<Rightarrow> pystr" where
  "str_repr s =
     (let q = (if 39 \<in> set s \<and> 34 \<notin> set s then 34 else 39)
      in [q] @ concat (map (char_repr q) s) @ [q])"

definition addr_text :: "addr \<Rightarrow> pystr" where
  "addr_text a = [40] @ str_repr (lit (fst a)) @ lit '', '' @ dec_digits (snd a) @ [41]"

definition client_text :: "crepr \<Rightarrow> pystr" where
  "client_text c = [60] @ (case c of RName n \<Rightarrow> n | RAddr a \<Rightarrow> addr_text a) @ [62]"

definition room_text :: "pystr list \<Rightarrow> pystr" where
  "room_text ns = [91] @ join [32] ns @ [93]"

section \<open>The messages\<close>

definition perr_text :: "perr \<Rightarrow> pystr" where
  "perr_text e =
     (case e of
        ShortHello \<Rightarrow> lit ''short hello''
      | BadVersion v \<Rightarrow>
          lit ''protocol version '' @ dec_digits (unat v) @ lit '', want '' @ dec_digits (unat PROTO_VER)
      | BadName n \<Rightarrow> lit ''bad name '' @ str_repr n
      | JoinBeforeHello \<Rightarrow> lit ''join before hello''
      | UnknownType t \<Rightarrow> lit ''unknown type $'' @ [hex_digit (unat t div 16), hex_digit (unat t mod 16)])"

definition why_text :: "why \<Rightarrow> pystr" where
  "why_text w =
     (case w of
        WhyBacklog \<Rightarrow> lit ''transmit backlog exceeded''
      | WhySendError \<Rightarrow> lit ''send error''
      | WhySendZero \<Rightarrow> lit ''send returned 0''
      | WhyHelloTimeout \<Rightarrow> lit ''no hello within 60s''
      | WhyRecvError \<Rightarrow> lit ''recv error''
      | WhyClosed \<Rightarrow> lit ''closed''
      | WhyBadLength l \<Rightarrow> lit ''bad frame length '' @ dec_digits (unat l)
      | WhyProtocol e \<Rightarrow> perr_text e
      | WhyReplaced \<Rightarrow> lit ''replaced by new connection''
      | WhyInternal \<Rightarrow> lit ''internal protocol error''
      | WhyBye \<Rightarrow> lit ''bye'')"

text \<open>\<open>" ".join(f"{k}={v}" for k, v in sorted(counts.items()))\<close>.\<close>

definition counts_text :: "stats \<Rightarrow> nat \<Rightarrow> pystr" where
  "counts_text st failures =
     join [32]
       [lit ''connection_limit_rejections='' @ dec_digits (st_connection_limit_rejections st),
        lit ''hello_timeouts='' @ dec_digits (st_hello_timeouts st),
        lit ''lobby_publish_failures='' @ dec_digits failures,
        lit ''tx_backlog_drops='' @ dec_digits (st_tx_backlog_drops st)]"

text \<open>\<open>" ".join(f"seat{s}=${c:04X}" ...)\<close>.\<close>

definition report_text :: "nat \<times> nat \<Rightarrow> pystr" where
  "report_text r = lit ''seat'' @ dec_digits (fst r) @ lit ''=$'' @ hex4 (snd r)"

definition event_text :: "log_event \<Rightarrow> pystr" where
  "event_text e =
     (case e of
        LDrop c w \<Rightarrow> lit ''drop '' @ client_text c @ lit '': '' @ why_text w
      | LMatchEnded ok c k \<Rightarrow>
          lit ''match ended: '' @ dec_digits ok @ lit '' CRC rounds verified; '' @ client_text c @
          lit '' (seat '' @ dec_digits k @ lit '') left''
      | LBackToLobby c \<Rightarrow> client_text c @ lit '' back to lobby (peer left)''
      | LDissolvedHostLeft ns \<Rightarrow> lit ''room '' @ room_text ns @ lit '' dissolved (host left)''
      | LRename c n \<Rightarrow> lit ''rename '' @ client_text c @ lit '' -> '' @ n
      | LHello c \<Rightarrow> lit ''hello '' @ client_text c
      | LJoin c ns \<Rightarrow> lit ''join: '' @ client_text c @ lit '' -> room '' @ room_text ns
      | LStarted ns n seed \<Rightarrow>
          lit ''match: room '' @ room_text ns @ lit '' started, '' @ dec_digits n @ lit '' players (seed $'' @
          hex4 seed @ lit '')''
      | LMismatch tick rs \<Rightarrow>
          lit ''CRC MISMATCH tick '' @ dec_digits tick @ lit '': '' @ join [32] (map report_text rs)
      | LCrcOk tick ok \<Rightarrow>
          lit ''crc ok through tick '' @ dec_digits tick @ lit '' ('' @ dec_digits ok @ lit '' rounds)''
      | LRejectFull a n \<Rightarrow> lit ''reject '' @ addr_text a @ lit '': server full ('' @ dec_digits n @ lit '' clients)''
      | LRejectPerIp a n \<Rightarrow> lit ''reject '' @ addr_text a @ lit '': per-IP limit ('' @ dec_digits n @ lit '')''
      | LConnect a \<Rightarrow> lit ''connect from '' @ addr_text a
      | LStats active unidentified st failures \<Rightarrow>
          lit ''stats: active_clients='' @ dec_digits active @ lit '' unidentified_clients='' @
          dec_digits unidentified @ [32] @ counts_text st failures
      | LUnexpected c x \<Rightarrow> lit ''unexpected error serving '' @ client_text c)"

section \<open>Searching\<close>

text \<open>\<open>want in s\<close>.\<close>

fun occurs :: "pystr \<Rightarrow> pystr \<Rightarrow> bool" where
  "occurs want [] \<longleftrightarrow> want = []"
| "occurs want (c # s) \<longleftrightarrow> take (length want) (c # s) = want \<or> occurs want s"

lemma occurs_sublist: "occurs want s \<longleftrightarrow> (\<exists>a b. s = a @ want @ b)"
proof (induction s)
  case (Cons c s)
  show ?case
  proof
    assume "occurs want (c # s)"
    then consider "take (length want) (c # s) = want" | "occurs want s" by auto
    then show "\<exists>a b. c # s = a @ want @ b"
    proof cases
      case 1
      then have "c # s = [] @ want @ drop (length want) (c # s)" by (metis append_Nil append_take_drop_id)
      then show ?thesis by blast
    next
      case 2
      then obtain a b where "s = a @ want @ b" using Cons.IH by blast
      then have "c # s = (c # a) @ want @ b" by simp
      then show ?thesis by blast
    qed
  next
    assume "\<exists>a b. c # s = a @ want @ b"
    then obtain a b where ab: "c # s = a @ want @ b" by blast
    show "occurs want (c # s)"
    proof (cases a)
      case Nil
      then have "take (length want) (c # s) = want" using ab Nil by simp
      then show ?thesis by simp
    next
      case (Cons d a')
      then show ?thesis using ab Cons.IH by auto
    qed
  qed
qed simp

lemma occurs_append: "occurs want s \<Longrightarrow> occurs want (a @ s @ b)"
  unfolding occurs_sublist by (metis append.assoc)

text \<open>What no message contains across a line break is in the output iff it is in a message.\<close>

definition logged :: "pystr \<Rightarrow> server \<Rightarrow> bool" where
  "logged want s \<longleftrightarrow> list_ex (\<lambda>e. occurs want (event_text e)) (sv_log s)"

lemma loggedI: "e \<in> set (sv_log s) \<Longrightarrow> occurs want (event_text e) \<Longrightarrow> logged want s"
  by (auto simp: logged_def list_ex_iff)

end
