(* ===== verification/Lockstep.thy ===== *)
theory Lockstep
  imports Verdict
begin

text \<open>
  Two runs of the relay side by side. What the relay does depends on the clients' bytes alone: two
  relays that draw different seeds, see their clients on different ports and write to sockets that
  take different portions go through the same events in step. They answer with the same frames up to
  the seed in a START, and log the same events up to seeds and ports. The relation between the two
  states is \<open>like\<close>; \<open>corr\<close> lifts a relation between states to actions, one rule per way to build
  an action, so that the handlers follow along their text.
\<close>

section \<open>Actions in step\<close>

text \<open>From related states both return, with related values, or both raise the same exception.\<close>

definition corr :: "('s \<Rightarrow> 's \<Rightarrow> bool) \<Rightarrow> ('a \<Rightarrow> 'b \<Rightarrow> bool) \<Rightarrow> ('s, 'a) act \<Rightarrow> ('s, 'b) act \<Rightarrow> bool" where
  "corr R V m n \<longleftrightarrow> (\<forall>s t. R s t \<longrightarrow> rel_prod (rel_sum (=) V) R (m s) (n t))"

named_theorems corr_intro \<open>actions in step, one rule per way to build an action\<close>

lemma corrI: "(\<And>s t. R s t \<Longrightarrow> rel_prod (rel_sum (=) V) R (m s) (n t)) \<Longrightarrow> corr R V m n"
  by (simp add: corr_def)

lemma corrD: "corr R V m n \<Longrightarrow> R s t \<Longrightarrow> rel_prod (rel_sum (=) V) R (m s) (n t)"
  by (simp add: corr_def)

lemma corr_cases:
  assumes "corr R V m n" "R s t"
  obtains x y s' t' where "m s = (Inr x, s')" "n t = (Inr y, t')" "V x y" "R s' t'"
    | e s' t' where "m s = (Inl e, s')" "n t = (Inl e, t')" "R s' t'"
  using corrD [OF assms] by (cases "m s"; cases "n t"; cases "fst (m s)"; cases "fst (n t)") auto

lemma corr_ret: "V x y \<Longrightarrow> corr R V (ret x) (ret y)"
  by (simp add: corr_def ret_def)

lemma corr_ret_eq [corr_intro]: "corr R (=) (ret x) (ret x)"
  by (simp add: corr_ret)

lemma corr_throw [corr_intro]: "corr R V (throw e) (throw e)"
  by (simp add: corr_def throw_def)

lemma corr_lift: "rel_sum (=) V x y \<Longrightarrow> corr R V (lift x) (lift y)"
  by (simp add: corr_def lift_def)

lemma corr_lift_eq [corr_intro]: "corr R (=) (lift x) (lift x)"
  by (rule corr_lift) (cases x; simp)

lemma corr_gets: "(\<And>s t. R s t \<Longrightarrow> V (f s) (g t)) \<Longrightarrow> corr R V (gets f) (gets g)"
  by (simp add: corr_def gets_def)

lemma corr_modify: "(\<And>s t. R s t \<Longrightarrow> R (f s) (g t)) \<Longrightarrow> corr R (=) (modify f) (modify g)"
  by (simp add: corr_def modify_def)

lemma corr_bnd:
  assumes "corr R V m n" "\<And>x y. V x y \<Longrightarrow> corr R W (f x) (g y)"
  shows "corr R W (bnd m f) (bnd n g)"
proof (rule corrI)
  fix s t assume "R s t"
  with assms(1) show "rel_prod (rel_sum (=) W) R (bnd m f s) (bnd n g t)"
  proof (cases rule: corr_cases)
    case (1 x y s' t')
    then show ?thesis using corrD [OF assms(2)] by (simp add: bnd_def)
  next
    case (2 e s' t')
    then show ?thesis by (simp add: bnd_def)
  qed
qed

lemma corr_bnd_eq [corr_intro]:
  "corr R (=) m n \<Longrightarrow> (\<And>x. corr R W (f x) (g x)) \<Longrightarrow> corr R W (bnd m f) (bnd n g)"
  by (erule corr_bnd) simp

lemma corr_bnd_gets [corr_intro]:
  "(\<And>s t. R s t \<Longrightarrow> h s = k t) \<Longrightarrow> (\<And>x. corr R W (f x) (g x)) \<Longrightarrow>
     corr R W (bnd (gets h) f) (bnd (gets k) g)"
  by (rule corr_bnd_eq, rule corr_gets)

lemma corr_guarded [corr_intro]: "corr R (=) m n \<Longrightarrow> corr R (=) (guarded b m) (guarded b n)"
  by (simp add: guarded_def corr_ret)

lemma corr_if [corr_intro]:
  "(b \<Longrightarrow> corr R V m n) \<Longrightarrow> (\<not> b \<Longrightarrow> corr R V m' n') \<Longrightarrow> corr R V (if b then m else m') (if b then n else n')"
  by simp

lemma corr_option [corr_intro]:
  "corr R V m n \<Longrightarrow> (\<And>x. corr R V (f x) (g x)) \<Longrightarrow>
     corr R V (case a of None \<Rightarrow> m | Some x \<Rightarrow> f x) (case a of None \<Rightarrow> n | Some x \<Rightarrow> g x)"
  by (simp split: option.split)

lemma corr_seqs_Nil [corr_intro]: "corr R (=) (seqs []) (seqs [])"
  by (simp add: corr_ret)

lemma corr_seqs_Cons [corr_intro]:
  "corr R (=) m n \<Longrightarrow> corr R (=) (seqs ms) (seqs ns) \<Longrightarrow> corr R (=) (seqs (m # ms)) (seqs (n # ns))"
  by (simp add: corr_bnd_eq)

lemma corr_for_each [corr_intro]:
  "(\<And>x. corr R (=) (f x) (g x)) \<Longrightarrow> corr R (=) (for_each xs f) (for_each xs g)"
  by (induction xs) (auto intro: corr_ret corr_bnd_eq)

lemma corr_for_each2:
  "list_all2 Q xs ys \<Longrightarrow> (\<And>x y. Q x y \<Longrightarrow> corr R (=) (f x) (g y)) \<Longrightarrow> corr R (=) (for_each xs f) (for_each ys g)"
  by (induction rule: list_all2_induct) (auto intro: corr_ret corr_bnd_eq)

lemma corr_catch [corr_intro]:
  assumes "corr R (=) m n" "\<And>e. corr R (=) (h e) (k e)"
  shows "corr R (=) (catch m h) (catch n k)"
proof (rule corrI)
  fix s t assume "R s t"
  with assms(1) show "rel_prod (rel_sum (=) (=)) R (catch m h s) (catch n k t)"
  proof (cases rule: corr_cases)
    case (1 x y s' t')
    then show ?thesis by (simp add: catch_def)
  next
    case (2 e s' t')
    then show ?thesis using corrD [OF assms(2)] by (simp add: catch_def)
  qed
qed

section \<open>The relation between the two relays\<close>

text \<open>Two frame bodies that a client cannot tell apart but for the seed of a START.\<close>

definition body_like :: "bytes \<Rightarrow> bytes \<Rightarrow> bool" where
  "body_like m k \<longleftrightarrow> m \<noteq> [] \<and> length m \<le> 255 \<and> length k = length m \<and>
     (k = m \<or> masked m \<and> masked k \<and> take 2 (tl m) = take 2 (tl k) \<and> drop 4 (tl m) = drop 4 (tl k))"

definition frame_like :: "bytes \<Rightarrow> bytes \<Rightarrow> bool" where
  "frame_like a b \<longleftrightarrow> (\<exists>m k. body_like m k \<and> a = wire_of m \<and> b = wire_of k)"

definition sent_like :: "bytes \<Rightarrow> bytes \<Rightarrow> bool" where
  "sent_like a b \<longleftrightarrow>
     (\<exists>ms ks. list_all2 body_like ms ks \<and> a = concat (map wire_of ms) \<and> b = concat (map wire_of ks))"

text \<open>
  Addresses and log events without what the harness masks: the port of a loopback address and the
  seed of a match.
\<close>

definition anon_addr :: "addr \<Rightarrow> addr" where
  "anon_addr a = (if fst a = ''127.0.0.1'' then (fst a, 0) else a)"

definition anon_crepr :: "crepr \<Rightarrow> crepr" where
  "anon_crepr c = (case c of RName n \<Rightarrow> RName n | RAddr a \<Rightarrow> RAddr (anon_addr a))"

definition anon_event :: "log_event \<Rightarrow> log_event" where
  "anon_event e =
     (case e of
        LDrop c w \<Rightarrow> LDrop (anon_crepr c) w
      | LMatchEnded n c k \<Rightarrow> LMatchEnded n (anon_crepr c) k
      | LBackToLobby c \<Rightarrow> LBackToLobby (anon_crepr c)
      | LRename c n \<Rightarrow> LRename (anon_crepr c) n
      | LHello c \<Rightarrow> LHello (anon_crepr c)
      | LJoin c ns \<Rightarrow> LJoin (anon_crepr c) ns
      | LStarted ns n seed \<Rightarrow> LStarted ns n 0
      | LRejectFull a n \<Rightarrow> LRejectFull (anon_addr a) n
      | LRejectPerIp a n \<Rightarrow> LRejectPerIp (anon_addr a) n
      | LConnect a \<Rightarrow> LConnect (anon_addr a)
      | LUnexpected c x \<Rightarrow> LUnexpected (anon_crepr c) x
      | _ \<Rightarrow> e)"

definition event_seed :: "log_event \<Rightarrow> nat" where
  "event_seed e = (case e of LStarted ns n seed \<Rightarrow> seed | _ \<Rightarrow> 0)"

definition event_like :: "log_event \<Rightarrow> log_event \<Rightarrow> bool" where
  "event_like e f \<longleftrightarrow> anon_event f = anon_event e \<and> event_seed e < 65536 \<and> event_seed f < 65536"

definition client_like :: "client \<Rightarrow> client \<Rightarrow> bool" where
  "client_like c d \<longleftrightarrow> anon_addr (cl_addr d) = anon_addr (cl_addr c) \<and> cl_rx d = cl_rx c \<and> cl_tx c = [] \<and> cl_tx d = [] \<and>
     cl_name d = cl_name c \<and> cl_room d = cl_room c \<and> cl_connected_at d = cl_connected_at c \<and>
     cl_dead d = cl_dead c \<and> sent_like (cl_sent c) (cl_sent d)"

definition room_like :: "room \<Rightarrow> room \<Rightarrow> bool" where
  "room_like r q \<longleftrightarrow> rm_members q = rm_members r \<and> rm_started q = rm_started r \<and> rm_crc q = rm_crc r \<and>
     rm_crc_ok q = rm_crc_ok r \<and> rm_seed r < 65536 \<and> rm_seed q < 65536"

definition like :: "server \<Rightarrow> server \<Rightarrow> bool" where
  "like s t \<longleftrightarrow> accepting s \<and> accepting t \<and> sv_delay t = sv_delay s \<and> sv_auto_go t = sv_auto_go s \<and>
     sv_lobby t = sv_lobby s \<and> sv_by_name t = sv_by_name s \<and> sv_clients t = sv_clients s \<and>
     sv_stats t = sv_stats s \<and> sv_last_stats t = sv_last_stats s \<and> sv_nclient t = sv_nclient s \<and>
     sv_nroom t = sv_nroom s \<and> list_all2 event_like (sv_log s) (sv_log t) \<and>
     (\<forall>c. client_like (sv_client s c) (sv_client t c)) \<and> (\<forall>r. room_like (sv_room s r) (sv_room t r))"

abbreviation in_step :: "unit srv \<Rightarrow> unit srv \<Rightarrow> bool" where
  "in_step \<equiv> corr like (=)"

section \<open>Bytes and frames\<close>

lemma body_like_refl: "m \<noteq> [] \<Longrightarrow> length m \<le> 255 \<Longrightarrow> body_like m m"
  by (simp add: body_like_def)

lemma frame_like_length: "frame_like a b \<Longrightarrow> length b = length a"
  by (auto simp: frame_like_def body_like_def wire_of_def)

lemma frame_like_refl: "frame t p = Inr d \<Longrightarrow> frame_like d d"
  by (auto simp: frame_like_def body_like_def dest!: frame_Inr)

lemma sent_like_Nil: "sent_like [] []"
  unfolding sent_like_def by (intro exI [of _ "[]"]) simp

lemma sent_like_append: "sent_like a b \<Longrightarrow> sent_like c d \<Longrightarrow> sent_like (a @ c) (b @ d)"
  unfolding sent_like_def
proof (elim exE conjE)
  fix ms ks ms' ks'
  assume "list_all2 body_like ms ks" "a = concat (map wire_of ms)" "b = concat (map wire_of ks)"
    "list_all2 body_like ms' ks'" "c = concat (map wire_of ms')" "d = concat (map wire_of ks')"
  then show "\<exists>js ls. list_all2 body_like js ls \<and> a @ c = concat (map wire_of js) \<and> b @ d = concat (map wire_of ls)"
    by (intro exI [of _ "ms @ ms'"] exI [of _ "ks @ ks'"]) (simp add: list_all2_appendI)
qed

lemma frame_like_sent: "frame_like a b \<Longrightarrow> sent_like a b"
  unfolding frame_like_def sent_like_def by (elim exE conjE) (rule_tac x = "[m]" in exI, rule_tac x = "[k]" in exI, simp)

lemma sent_like_length: "sent_like a b \<Longrightarrow> length b = length a"
proof -
  have "list_all2 body_like ms ks \<Longrightarrow> length (concat (map wire_of ks)) = length (concat (map wire_of ms))" for ms ks
    by (induction rule: list_all2_induct) (auto simp: body_like_def wire_of_def)
  then show "sent_like a b \<Longrightarrow> length b = length a" by (auto simp: sent_like_def)
qed

section \<open>What like relays agree on\<close>

lemma likeI:
  assumes "accepting s" "accepting t" "sv_delay t = sv_delay s" "sv_auto_go t = sv_auto_go s"
    "sv_lobby t = sv_lobby s" "sv_by_name t = sv_by_name s" "sv_clients t = sv_clients s"
    "sv_stats t = sv_stats s" "sv_last_stats t = sv_last_stats s" "sv_nclient t = sv_nclient s"
    "sv_nroom t = sv_nroom s" "list_all2 event_like (sv_log s) (sv_log t)"
    "\<And>c. client_like (sv_client s c) (sv_client t c)" "\<And>r. room_like (sv_room s r) (sv_room t r)"
  shows "like s t"
  using assms by (simp add: like_def)

lemma like_fields:
  assumes "like s t"
  shows "sv_delay t = sv_delay s" "sv_auto_go t = sv_auto_go s" "sv_lobby t = sv_lobby s"
    "sv_by_name t = sv_by_name s" "sv_clients t = sv_clients s" "sv_stats t = sv_stats s"
    "sv_last_stats t = sv_last_stats s" "sv_nclient t = sv_nclient s" "sv_nroom t = sv_nroom s"
  using assms by (simp_all add: like_def)

lemma like_client:
  assumes "like s t"
  shows "cl_rx (sv_client t c) = cl_rx (sv_client s c)" "cl_tx (sv_client t c) = []" "cl_tx (sv_client s c) = []"
    "cl_name (sv_client t c) = cl_name (sv_client s c)" "cl_room (sv_client t c) = cl_room (sv_client s c)"
    "cl_dead (sv_client t c) = cl_dead (sv_client s c)"
    "cl_connected_at (sv_client t c) = cl_connected_at (sv_client s c)"
    "anon_addr (cl_addr (sv_client t c)) = anon_addr (cl_addr (sv_client s c))"
    "sent_like (cl_sent (sv_client s c)) (cl_sent (sv_client t c))"
  using assms by (auto simp: like_def client_like_def)

lemma like_room:
  assumes "like s t"
  shows "rm_members (sv_room t r) = rm_members (sv_room s r)" "rm_started (sv_room t r) = rm_started (sv_room s r)"
    "rm_crc (sv_room t r) = rm_crc (sv_room s r)" "rm_crc_ok (sv_room t r) = rm_crc_ok (sv_room s r)"
    "rm_seed (sv_room s r) < 65536" "rm_seed (sv_room t r) < 65536"
  using assms by (auto simp: like_def room_like_def)

lemma like_access:
  assumes "like s t"
  shows "members t = members s" "name_of t = name_of s" "room_of t = room_of s" "is_dead t = is_dead s"
  using like_client [OF assms] like_room [OF assms] like_fields [OF assms]
  by (simp_all add: fun_eq_iff access_defs)

lemmas like_same = like_fields like_access like_room(1-4) like_client(1-7)

lemma like_repr: "like s t \<Longrightarrow> anon_crepr (client_repr t c) = anon_crepr (client_repr s c)"
  using like_client(8) [of s t c]
  by (simp add: client_repr_def like_access anon_crepr_def split: option.split)

lemma like_room_repr: "like s t \<Longrightarrow> room_repr t r = room_repr s r"
  by (simp add: room_repr_def like_access)

lemma like_payloads:
  assumes "like s t"
  shows "seat t c = seat s c" "roster t r = roster s r" "room_payload t r = room_payload s r"
    "peer_left t c k = peer_left s c k" "status t c = status s c" "list_others t c = list_others s c"
    "unjoinable t c target = unjoinable s c target" "nlive t = nlive s"
  using assms
  by (simp_all add: seat_def roster_def room_payload_def peer_left_def status_def list_others_def unjoinable_def
      nlive_def like_same cong: option.case_cong sum.case_cong)

lemma like_entries: "like s t \<Longrightarrow> list_entries t cs = list_entries s cs"
  by (induction cs) (simp_all add: like_payloads like_access cong: sum.case_cong)

lemma like_lobby_payload: "like s t \<Longrightarrow> lobby_payload t c = lobby_payload s c"
  by (simp add: lobby_payload_def like_payloads like_entries Let_def cong: sum.case_cong)

lemma anon_addr_ip: "anon_addr b = anon_addr a \<Longrightarrow> fst b = fst a"
  by (auto simp: anon_addr_def split: if_splits)

lemma like_per_ip: "like s t \<Longrightarrow> anon_addr b = anon_addr a \<Longrightarrow> per_ip t b = per_ip s a"
  using like_client(8) [of s t, THEN anon_addr_ip]
  by (simp add: per_ip_def like_fields anon_addr_ip [of b a])

section \<open>Changes of the state\<close>

lemma like_upd_client:
  assumes "like s t" "client_like (sv_client s c) (sv_client t c) \<Longrightarrow> client_like (f (sv_client s c)) (g (sv_client t c))"
  shows "like (upd_client c f s) (upd_client c g t)"
  using assms by (auto simp: like_def accepting_def)

lemma like_upd_room:
  assumes "like s t" "room_like (sv_room s r) (sv_room t r) \<Longrightarrow> room_like (f (sv_room s r)) (g (sv_room t r))"
  shows "like (upd_room r f s) (upd_room r g t)"
  using assms by (auto simp: like_def accepting_def)

lemma like_log: "like s t \<Longrightarrow> event_like e f \<Longrightarrow> like (add_log e s) (add_log f t)"
  by (auto simp: like_def accepting_def list_all2_appendI)

lemma like_lobby: "like s t \<Longrightarrow> like (lobby_update s) (lobby_update t)"
  by (auto simp: like_def accepting_def lobby_update_def split: option.split)

lemma like_events: "like s t \<Longrightarrow> like (update_events c s) (update_events d t)"
  by (auto simp: like_def accepting_def update_events_def split: option.split)

lemma like_counts:
  assumes "like s t"
  shows "like (count_backlog_drop s) (count_backlog_drop t)" "like (count_rejection s) (count_rejection t)"
    "like (count_timeout s) (count_timeout t)"
  using assms by (simp_all add: like_def accepting_def count_backlog_drop_def count_rejection_def count_timeout_def)

lemma like_leave: "like s t \<Longrightarrow> like (upd_client c (\<lambda>cl. cl\<lparr>cl_room := v\<rparr>) s) (upd_client c (\<lambda>cl. cl\<lparr>cl_room := v\<rparr>) t)"
  by (erule like_upd_client) (simp add: client_like_def)

lemma like_detach: "like s t \<Longrightarrow> like (detach_members r s) (detach_members r t)"
proof -
  have "like s t \<Longrightarrow> like (fold (\<lambda>m. upd_client m (\<lambda>cl. cl\<lparr>cl_room := None\<rparr>)) ms s)
      (fold (\<lambda>m. upd_client m (\<lambda>cl. cl\<lparr>cl_room := None\<rparr>)) ms t)" for ms
    by (induction ms arbitrary: s t) (simp_all add: like_leave)
  then show "like s t \<Longrightarrow> ?thesis" by (simp add: detach_members_def like_access)
qed

lemma like_clear: "like s t \<Longrightarrow> like (clear_members r s) (clear_members r t)"
  unfolding clear_members_def by (erule like_upd_room) (simp add: room_like_def)

lemma like_mark_dead: "like s t \<Longrightarrow> like (mark_dead c w s) (mark_dead c w t)"
proof -
  assume l: "like s t"
  let ?f = "upd_client c (\<lambda>cl. cl\<lparr>cl_dead := True\<rparr>)"
  have u: "like (?f s) (?f t)" by (rule like_upd_client [OF l]) (simp add: client_like_def)
  have "like (add_log (LDrop (client_repr (?f s) c) w) (?f s)) (add_log (LDrop (client_repr (?f t) c) w) (?f t))"
    by (rule like_log [OF u]) (simp add: event_like_def anon_event_def event_seed_def like_repr [OF u])
  then show ?thesis by (simp add: mark_dead_def like_def accepting_def Let_def)
qed

lemma like_names: "like s t \<Longrightarrow> like (s\<lparr>sv_by_name := d\<rparr>) (t\<lparr>sv_by_name := d\<rparr>)"
  by (simp add: like_def accepting_def)

lemma like_forget_names: "like s t \<Longrightarrow> like (forget_names c s) (forget_names c t)"
  using like_names [of s t "sv_by_name s"] by (simp add: forget_names_def Let_def like_fields like_lobby like_names)

lemma like_set_rx: "like s t \<Longrightarrow> like (set_rx c b s) (set_rx c b t)"
  unfolding set_rx_def by (erule like_upd_client) (simp add: client_like_def)

section \<open>Sending and dropping\<close>

lemma event_likeI: "anon_event f = anon_event e \<Longrightarrow> event_seed e = 0 \<Longrightarrow> event_seed f = 0 \<Longrightarrow> event_like e f"
  by (simp add: event_like_def)

lemmas event_defs = anon_event_def event_seed_def

lemma corr_log [corr_intro]:
  "(\<And>s t. like s t \<Longrightarrow> event_like (e s) (f t)) \<Longrightarrow>
     in_step (modify (\<lambda>s. add_log (e s) s)) (modify (\<lambda>s. add_log (f s) s))"
  by (rule corr_modify) (simp add: like_log)

text \<open>What a flush over an accepting socket leaves.\<close>

definition flushed :: "cid \<Rightarrow> nat \<Rightarrow> bytes \<Rightarrow> server \<Rightarrow> server" where
  "flushed c k d s =
     update_events c (upd_client c (\<lambda>cl. cl\<lparr>cl_calls := k, cl_tx := [], cl_sent := cl_sent cl @ d\<rparr>) s)"

lemma flushed_like:
  assumes "like s t" "sent_like d e"
  shows "like (flushed c k d s) (flushed c j e t)"
  unfolding flushed_def
  by (intro like_events like_upd_client [OF assms(1)]) (simp add: client_like_def sent_like_append assms(2))

lemma flushed_queue: "flushed c k d (queue c x s) = flushed c k d s"
  by (simp add: flushed_def queue_def upd_client_def)

lemma flush_flushed: "accepting s \<Longrightarrow> \<exists>k. flush drp c s = (Inr (), flushed c k (cl_tx (sv_client s c)) s)"
  unfolding flushed_def by (rule flush_accepting)

lemma send_flushed:
  assumes "accepting s" "cl_tx (sv_client s c) = []" "\<not> is_dead s c" "length d \<le> MAX_TX_BACKLOG"
  shows "\<exists>k. send drp c d s = (Inr (), flushed c k d s)"
proof -
  have "accepting (queue c d s)" using assms(1) by (simp add: accepting_def queue_def)
  then obtain k where "flush drp c (queue c d s) = (Inr (), flushed c k (cl_tx (sv_client (queue c d s) c)) (queue c d s))"
    using flush_flushed by blast
  moreover have "cl_tx (sv_client (queue c d s) c) = d" using assms(2) by (simp add: queue_def)
  ultimately have "flush drp c (queue c d s) = (Inr (), flushed c k d s)" by (simp only: flushed_queue)
  then show ?thesis using assms(2-4) by (intro exI [of _ k]) (simp add: send_def)
qed

lemma corr_send:
  assumes "in_step (drp c WhyBacklog) (drp c WhyBacklog)" "frame_like d e"
  shows "in_step (send drp c d) (send drp c e)"
proof (rule corrI)
  fix s t assume l: "like s t"
  note tx = like_client(2,3) [OF l, of c]
  have same: "is_dead t c = is_dead s c" "length e = length d"
    using like_access(4) [OF l] frame_like_length [OF assms(2)] by simp_all
  show "rel_prod (rel_sum (=) (=)) like (send drp c d s) (send drp c e t)"
  proof (cases "is_dead s c")
    case True
    with l same(1) show ?thesis by (simp add: send_def ret_def)
  next
    case live: False
    show ?thesis
    proof (cases "MAX_TX_BACKLOG < length d")
      case True
      then have "send drp c d s = drp c WhyBacklog (count_backlog_drop s)"
        "send drp c e t = drp c WhyBacklog (count_backlog_drop t)"
        using live same tx by (simp_all add: send_def)
      then show ?thesis using corrD [OF assms(1) like_counts(1) [OF l]] by simp
    next
      case False
      have "accepting s" "accepting t" using l by (simp_all add: like_def)
      then obtain k j where "send drp c d s = (Inr (), flushed c k d s)" "send drp c e t = (Inr (), flushed c j e t)"
        using send_flushed [of s c d drp] send_flushed [of t c e drp] False live same tx by auto
      then show ?thesis using flushed_like [OF l frame_like_sent [OF assms(2)]] by simp
    qed
  qed
qed

lemma corr_flush: "in_step (flush drp c) (flush drp c)"
proof (rule corrI)
  fix s t assume l: "like s t"
  note tx = like_client(2,3) [OF l, of c]
  have "accepting s" "accepting t" using l by (simp_all add: like_def)
  then obtain k j where "flush drp c s = (Inr (), flushed c k [] s)" "flush drp c t = (Inr (), flushed c j [] t)"
    using flush_flushed [of s drp c] flush_flushed [of t drp c] tx by auto
  then show "rel_prod (rel_sum (=) (=)) like (flush drp c s) (flush drp c t)"
    using flushed_like [OF l sent_like_Nil] by simp
qed

lemma corr_walk:
  "(\<And>i m. in_step (f i m) (g i m)) \<Longrightarrow> in_step (walk n r i f) (walk n r i g)"
proof (induction n arbitrary: i)
  case (Suc n)
  show ?case
    unfolding walk.simps
    by (intro corr_intro Suc.IH Suc.prems) (simp add: like_same)
qed (simp add: corr_ret)

lemma corr_for_members [corr_intro]:
  "(\<And>i m. in_step (f i m) (g i m)) \<Longrightarrow> in_step (for_members r f) (for_members r g)"
  unfolding for_members_def by (intro corr_intro corr_walk) (simp_all add: like_same)

lemma corr_remove_member [corr_intro]: "in_step (remove_member c r) (remove_member c r)"
proof (rule corrI)
  fix s t assume l: "like s t"
  have "like (upd_room r (\<lambda>rm. rm\<lparr>rm_members := ms\<rparr>) s) (upd_room r (\<lambda>rm. rm\<lparr>rm_members := ms\<rparr>) t)" for ms
    by (rule like_upd_room [OF l]) (simp add: room_like_def)
  with l show "rel_prod (rel_sum (=) (=)) like (remove_member c r s) (remove_member c r t)"
    by (simp add: remove_member_def like_access split: sum.split)
qed

lemma corr_state [corr_intro]:
  "in_step (modify lobby_update) (modify lobby_update)" "in_step (modify (detach_members r)) (modify (detach_members r))"
  "in_step (modify (clear_members r)) (modify (clear_members r))"
  "in_step (modify (mark_dead c w)) (modify (mark_dead c w))"
  "in_step (modify (forget_names c)) (modify (forget_names c))"
  "in_step (modify count_timeout) (modify count_timeout)" "in_step (modify count_rejection) (modify count_rejection)"
  "in_step (modify (set_rx c b)) (modify (set_rx c b))"
  "in_step (modify (upd_client c (\<lambda>cl. cl\<lparr>cl_room := None\<rparr>))) (modify (upd_client c (\<lambda>cl. cl\<lparr>cl_room := None\<rparr>)))"
  by (rule corr_modify; simp add: like_lobby like_detach like_clear like_mark_dead like_forget_names like_counts
      like_set_rx like_leave)+

text \<open>What a callee that drops in step is enough for.\<close>

locale steady =
  fixes drp :: "cid \<Rightarrow> why \<Rightarrow> unit srv"
  assumes drp_step: "in_step (drp c w) (drp c w)"
begin

lemma send_step: "frame_like d e \<Longrightarrow> in_step (send drp c d) (send drp c e)"
  by (rule corr_send [OF drp_step])

lemma send_lift_step: "in_step (bnd (lift (frame ty p)) (send drp c)) (bnd (lift (frame ty p)) (send drp c))"
proof (cases "frame ty p")
  case (Inl e)
  then show ?thesis by (simp add: corr_def like_def)
next
  case (Inr d)
  then show ?thesis by (simp add: send_step frame_like_refl)
qed

lemma room_broadcast_step: "in_step (room_broadcast drp r) (room_broadcast drp r)"
  unfolding room_broadcast_def by (intro corr_intro send_lift_step) (simp add: like_payloads)

lemma dissolve_step: "in_step (dissolve drp r ms) (dissolve drp r ms)"
  unfolding dissolve_def by (intro corr_intro send_lift_step)

lemma peer_left_frame: "peer_left s c k = Inr d \<Longrightarrow> frame_like d d"
  by (auto simp: peer_left_def frame_like_refl split: sum.splits)

lemma end_match_step: "in_step (end_match drp c r k) (end_match drp c r k)"
proof -
  have left: "in_step (bnd (gets (\<lambda>s. peer_left s c k)) (\<lambda>p. bnd (lift p) f)) (bnd (gets (\<lambda>s. peer_left s c k)) (\<lambda>p. bnd (lift p) f))"
    if "\<And>d. frame_like d d \<Longrightarrow> in_step (f d) (f d)" for f :: "bytes \<Rightarrow> unit srv"
  proof (rule corr_bnd)
    let ?V = "\<lambda>x y. y = x \<and> (\<forall>d. x = Inr d \<longrightarrow> frame_like d d)"
    show "corr like ?V (gets (\<lambda>s. peer_left s c k)) (gets (\<lambda>s. peer_left s c k))"
      by (rule corr_gets) (auto simp: like_payloads dest: peer_left_frame)
    show "in_step (bnd (lift x) f) (bnd (lift y) f)" if "?V x y" for x y
      using that \<open>\<And>d. frame_like d d \<Longrightarrow> in_step (f d) (f d)\<close> by (cases x) (auto simp: corr_def)
  qed
  show ?thesis
    unfolding end_match_def
    by (intro corr_bnd_eq corr_log left corr_intro dissolve_step send_step)
      (simp_all add: like_same like_repr event_like_def event_defs)
qed

lemma leave_forming_step: "in_step (leave_forming drp r k) (leave_forming drp r k)"
  unfolding leave_forming_def
  by (intro corr_intro dissolve_step room_broadcast_step)
    (simp_all add: like_same like_room_repr event_like_def event_defs)

lemma leave_room_step: "in_step (leave_room drp c r) (leave_room drp c r)"
  unfolding leave_room_def
  by (intro corr_intro end_match_step leave_forming_step) (simp_all add: like_same)

lemma drop_body_step: "in_step (drop_body drp c w) (drop_body drp c w)"
  unfolding drop_body_def
  by (intro corr_intro leave_room_step) (simp_all add: like_same)

end

lemma steady_drop_n: "steady (drop_n n)"
proof (induction n)
  case 0
  show ?case by unfold_locales (simp add: corr_ret)
next
  case (Suc n)
  then show ?case by (auto intro: steady.intro steady.drop_body_step)
qed

interpretation stp: steady drop_client
proof
  show "in_step (drop_client c w) (drop_client c w)" for c w
    using steady.drp_step [OF steady_drop_n] like_payloads(8)
    by (simp add: corr_def drop_client_def)
qed

section \<open>The protocol handlers\<close>

lemma corr_on_list [corr_intro]: "in_step (on_list c) (on_list c)"
  unfolding on_list_def
  by (intro corr_intro stp.send_lift_step) (simp add: like_lobby_payload)

lemma like_drop_alias: "like s t \<Longrightarrow> like (drop_alias c name s) (drop_alias c name t)"
proof (cases "name_of s c")
  case None
  then show "like s t \<Longrightarrow> ?thesis" by (simp add: drop_alias_def like_access)
next
  case (Some old)
  assume l: "like s t"
  have rn: "like u v \<Longrightarrow> like (add_log (LRename (client_repr u c) name) u) (add_log (LRename (client_repr v c) name) v)" for u v
    by (rule like_log) (simp_all add: event_like_def event_defs like_repr)
  show ?thesis
    using Some l rn [OF l] rn [OF like_names [OF l, of "ddel (sv_by_name s) old"]]
    by (simp add: drop_alias_def like_access [OF l] like_fields [OF l] Let_def)
qed

lemma like_set_name: "like s t \<Longrightarrow> like (set_name c name s) (set_name c name t)"
proof -
  assume l: "like s t"
  let ?f = "upd_client c (\<lambda>cl. cl\<lparr>cl_name := Some name\<rparr>)" and ?d = "dset (sv_by_name s) name c"
  have u: "like (?f s) (?f t)" by (rule like_upd_client [OF l]) (simp add: client_like_def)
  note v = like_names [OF u, of ?d]
  have "like (add_log (LHello (client_repr ((?f s)\<lparr>sv_by_name := ?d\<rparr>) c)) ((?f s)\<lparr>sv_by_name := ?d\<rparr>))
      (add_log (LHello (client_repr ((?f t)\<lparr>sv_by_name := ?d\<rparr>) c)) ((?f t)\<lparr>sv_by_name := ?d\<rparr>))"
    by (rule like_log [OF v]) (simp add: event_like_def event_defs like_repr [OF v])
  then show ?thesis by (simp add: set_name_def Let_def like_fields [OF l])
qed

lemma corr_on_hello [corr_intro]: "in_step (on_hello c payload) (on_hello c payload)"
proof -
  have "in_step (modify (drop_alias c name)) (modify (drop_alias c name))"
    "in_step (modify (set_name c name)) (modify (set_name c name))" for name
    by (simp_all add: corr_modify like_drop_alias like_set_name)
  then show ?thesis
    unfolding on_hello_def by (intro corr_intro stp.drp_step) (simp_all add: like_same)
qed

text \<open>The common part of a START: the seat count, the seed, and the rest.\<close>

definition common_like :: "bytes \<Rightarrow> bytes \<Rightarrow> bool" where
  "common_like a b \<longleftrightarrow> (\<exists>n lo hi lo' hi' r. a = [n, lo, hi] @ r \<and> b = [n, lo', hi'] @ r \<and> r \<noteq> [])"

lemma like_restart:
  assumes "like s t" "a < 65536" "b < 65536"
  shows "like (upd_room r (\<lambda>rm. rm\<lparr>rm_started := True, rm_seed := a, rm_crc := [], rm_crc_ok := 0\<rparr>) s)
    (upd_room r (\<lambda>rm. rm\<lparr>rm_started := True, rm_seed := b, rm_crc := [], rm_crc_ok := 0\<rparr>) t)"
  by (rule like_upd_room [OF assms(1)]) (simp add: room_like_def assms(2,3))

lemma like_begin_match: "like s t \<Longrightarrow> like (begin_match r s) (begin_match r t)"
proof -
  assume l: "like s t"
  have seed: "1 + n mod 0xFFFF < 65536" for n :: nat
    using mod_less_divisor [of "0xFFFF" n] by linarith
  show ?thesis
    using like_restart [OF l seed seed, of r "sv_rand s (sv_draws s)" "sv_rand t (sv_draws t)"]
    by (simp only: begin_match_def) (simp add: like_def accepting_def)
qed

lemma like_start_common:
  assumes "like s t"
  shows "rel_sum (=) common_like (start_common s r) (start_common t r)"
proof -
  have b: "mk_byte (int (n AND 0xFF)) = Inr (word_of_int (int (n AND 0xFF)))" for n :: nat
    using low_byte_less [of n] by simp
  have h: "mk_byte (int (drop_bit 8 n)) = Inr (word_of_int (int (drop_bit 8 n)))" if "n < 65536" for n :: nat
    using that by (simp add: drop_bit_eq_div less_mult_imp_div_less)
  note hs = h [OF like_room(5) [OF assms, of r]] h [OF like_room(6) [OF assms, of r]]
  have "start_common s r = start_common t r" if "start_common s r = Inl e" for e
    using that unfolding start_common_def b hs
    by (simp add: like_access [OF assms] like_fields [OF assms] like_payloads [OF assms] split: sum.splits)
  moreover have "\<exists>d. start_common t r = Inr d \<and> common_like c d" if "start_common s r = Inr c" for c
    using that unfolding start_common_def b hs
    by (auto simp: like_access [OF assms] like_fields [OF assms] like_payloads [OF assms] common_like_def split: sum.splits)
  ultimately show ?thesis by (cases "start_common s r") fastforce+
qed

lemma start_frame_like:
  assumes "common_like a b"
  shows "rel_sum (=) frame_like (start_frame a k) (start_frame b k)"
proof -
  obtain n lo hi lo' hi' r where ab: "a = [n, lo, hi] @ r" "b = [n, lo', hi'] @ r" "r \<noteq> []"
    using assms by (auto simp: common_like_def)
  show ?thesis
  proof (cases "mk_byte (int k)")
    case (Inr x)
    show ?thesis
    proof (cases "length (x # a) \<le> 254")
      case True
      have m: "masked (T_START # x # a)" "masked (T_START # x # b)"
        using ab by (cases r; simp add: masked_def)+
      have "body_like (T_START # x # a) (T_START # x # b)"
        unfolding body_like_def using m True ab by simp
      moreover have "length (x # b) \<le> 254" using True ab by simp
      ultimately show ?thesis using Inr frame_wire_of [OF True] frame_wire_of
        by (auto simp: start_frame_def frame_like_def)
    next
      case False
      moreover have "length b = length a" using ab by simp
      ultimately show ?thesis using Inr by (simp add: start_frame_def frame_def)
    qed
  qed (simp add: start_frame_def)
qed

lemma corr_start_room [corr_intro]: "in_step (start_room r) (start_room r)"
proof -
  have frames: "in_step (bnd (lift (start_frame a k)) (transmit m)) (bnd (lift (start_frame b k)) (transmit m))"
    if "common_like a b" for a b k m
    by (rule corr_bnd [OF corr_lift, OF start_frame_like [OF that]]) (rule stp.send_step)
  have started: "in_step (modify (\<lambda>s. add_log (LStarted (room_repr s r) (length (members s r)) (rm_seed (sv_room s r))) s))
      (modify (\<lambda>s. add_log (LStarted (room_repr s r) (length (members s r)) (rm_seed (sv_room s r))) s))"
    by (rule corr_log) (simp add: event_like_def event_defs like_room_repr like_same like_room)
  have begun: "in_step (modify (begin_match r)) (modify (begin_match r))"
    by (simp add: corr_modify like_begin_match)
  show ?thesis
    unfolding start_room_def
  proof (rule corr_bnd_eq [OF begun], rule corr_bnd)
    show "corr like (rel_sum (=) common_like) (gets (\<lambda>s. start_common s r)) (gets (\<lambda>s. start_common s r))"
      by (rule corr_gets) (rule like_start_common)
  next
    fix x y :: "exn + bytes" assume "rel_sum (=) common_like x y"
    then show "in_step
       (bnd (lift x) (\<lambda>common. seqs [for_members r (\<lambda>st m. bnd (lift (start_frame common st)) (transmit m)),
         modify (\<lambda>s. add_log (LStarted (room_repr s r) (length (members s r)) (rm_seed (sv_room s r))) s), modify lobby_update]))
       (bnd (lift y) (\<lambda>common. seqs [for_members r (\<lambda>st m. bnd (lift (start_frame common st)) (transmit m)),
         modify (\<lambda>s. add_log (LStarted (room_repr s r) (length (members s r)) (rm_seed (sv_room s r))) s), modify lobby_update]))"
      by (rule corr_bnd [OF corr_lift]) (intro corr_intro frames started)
  qed
qed

lemma like_make_room: "like s t \<Longrightarrow> like (make_room h s) (make_room h t)"
proof -
  assume l: "like s t"
  let ?f = "\<lambda>s. s\<lparr>sv_room := (sv_room s)(sv_nroom s := new_room h), sv_nroom := Suc (sv_nroom s)\<rparr>"
  have "like (?f s) (?f t)" using l by (simp add: like_def accepting_def room_like_def new_room_def)
  from like_leave [OF this, of h "Some (sv_nroom s)"] show ?thesis
    by (simp add: make_room_def Let_def like_fields [OF l])
qed

lemma like_enter_room: "like s t \<Longrightarrow> like (enter_room c r s) (enter_room c r t)"
proof -
  assume l: "like s t"
  let ?f = "\<lambda>s. upd_client c (\<lambda>cl. cl\<lparr>cl_room := Some r\<rparr>) (upd_room r (\<lambda>rm. rm\<lparr>rm_members := rm_members rm @ [c]\<rparr>) s)"
  have u: "like (?f s) (?f t)"
    by (rule like_leave, rule like_upd_room [OF l]) (simp add: room_like_def)
  have "like (add_log (LJoin (client_repr (?f s) c) (room_repr (?f s) r)) (?f s))
      (add_log (LJoin (client_repr (?f t) c) (room_repr (?f t) r)) (?f t))"
    by (rule like_log [OF u]) (simp add: event_like_def event_defs like_repr [OF u] like_room_repr [OF u])
  then show ?thesis by (simp add: enter_room_def Let_def)
qed

lemma corr_join_target [corr_intro]: "corr like (=) (join_target d) (join_target d)"
proof -
  have "in_step (modify (make_room d)) (modify (make_room d))" by (simp add: corr_modify like_make_room)
  then show ?thesis unfolding join_target_def by (intro corr_intro) (simp_all add: like_same)
qed

lemma corr_join_room [corr_intro]: "in_step (join_room c d) (join_room c d)"
proof -
  have "in_step (modify (enter_room c r)) (modify (enter_room c r))" for r by (simp add: corr_modify like_enter_room)
  then show ?thesis
    unfolding join_room_def auto_start_def
    by (intro corr_intro stp.room_broadcast_step) (simp_all add: like_same)
qed

lemma corr_on_join [corr_intro]: "in_step (on_join c payload) (on_join c payload)"
  unfolding on_join_def by (intro corr_intro) (simp_all add: like_same like_payloads)

lemma corr_on_go [corr_intro]: "in_step (on_go c) (on_go c)"
  unfolding on_go_def by (intro corr_intro) (simp_all add: like_same like_payloads)

lemma crc_round_like:
  assumes "room_like rm rm'"
  shows "room_like (fst (crc_round n p rm)) (fst (crc_round n p rm'))" "snd (crc_round n p rm') = snd (crc_round n p rm)"
    "\<forall>e \<in> set (snd (crc_round n p rm)). event_like e e"
  using assms
  by (auto simp: crc_round_def room_like_def Let_def event_like_def event_seed_def split: prod.split)

lemma like_log_crc: "like s t \<Longrightarrow> like (log_crc r p s) (log_crc r p t)"
proof -
  assume l: "like s t"
  have rm: "room_like (sv_room s r) (sv_room t r)" using l by (simp add: like_def)
  note c = crc_round_like [OF rm, of "length (members s r)" p]
  have fold: "like u v \<Longrightarrow> \<forall>e \<in> set es. event_like e e \<Longrightarrow> like (fold add_log es u) (fold add_log es v)" for es u v
    by (induction es arbitrary: u v) (simp_all add: like_log)
  have "like (upd_room r (\<lambda>_. fst (crc_round (length (members s r)) p (sv_room s r))) s)
      (upd_room r (\<lambda>_. fst (crc_round (length (members s r)) p (sv_room t r))) t)"
    by (rule like_upd_room [OF l]) (rule c(1))
  from fold [OF this c(3)] show ?thesis
    by (simp add: log_crc_def case_prod_beta like_access [OF l] c(2))
qed

lemma corr_relay [corr_intro]: "in_step (relay c ty p) (relay c ty p)"
proof -
  have crc: "in_step (modify (log_crc r p)) (modify (log_crc r p))" for r by (simp add: corr_modify like_log_crc)
  have fan: "in_step (bnd (lift (frame ty p)) (\<lambda>data. for_members r (\<lambda>_ m. guarded (m \<noteq> c) (transmit m data))))
      (bnd (lift (frame ty p)) (\<lambda>data. for_members r (\<lambda>_ m. guarded (m \<noteq> c) (transmit m data))))" for r
  proof (cases "frame ty p")
    case (Inl e)
    then show ?thesis by (simp add: corr_def)
  next
    case (Inr d)
    then show ?thesis by (simp add: corr_for_members corr_guarded stp.send_step frame_like_refl)
  qed
  show ?thesis unfolding relay_def by (intro corr_intro crc fan) (simp_all add: like_same)
qed

lemma corr_handle [corr_intro]: "in_step (handle c ty p) (handle c ty p)"
  unfolding handle_def by (intro corr_intro stp.drp_step stp.send_lift_step)

section \<open>The event loop\<close>

lemma corr_handle_frame [corr_intro]: "corr like (=) (handle_frame c body) (handle_frame c body)"
proof (rule corrI)
  fix s t assume "like s t"
  with corr_handle [of c "hd body" "tl body"] show "rel_prod (rel_sum (=) (=)) like (handle_frame c body s) (handle_frame c body t)"
  proof (cases rule: corr_cases)
    case (1 x y s' t')
    then show ?thesis by (simp add: handle_frame_def like_access)
  next
    case (2 e s' t')
    have "corr like (=) (bnd (drop_client c w) (\<lambda>_. ret False)) (bnd (drop_client c w) (\<lambda>_. ret False))" for w
      by (intro corr_intro stp.drp_step)
    from corrD [OF this] 2 show ?thesis by (cases e) (simp_all add: handle_frame_def)
  qed
qed

lemma corr_pump [corr_intro]: "in_step (pump c) (pump c)"
proof -
  have "in_step (pump_n n c) (pump_n n c)" for n
  proof (induction n)
    case (Suc n)
    have step: "in_step (case sc of Wait \<Rightarrow> ret () | Bad l \<Rightarrow> drop_client c (WhyBadLength l)
        | Got body rest \<Rightarrow> bnd (modify (set_rx c rest)) (\<lambda>_. bnd (handle_frame c body) (\<lambda>go_on. if go_on then pump_n n c else ret ())))
      (case sc of Wait \<Rightarrow> ret () | Bad l \<Rightarrow> drop_client c (WhyBadLength l)
        | Got body rest \<Rightarrow> bnd (modify (set_rx c rest)) (\<lambda>_. bnd (handle_frame c body) (\<lambda>go_on. if go_on then pump_n n c else ret ())))" for sc
      by (cases sc) (simp_all, (intro corr_intro stp.drp_step Suc.IH)+)
    show ?case
      unfolding pump_n.simps by (rule corr_bnd_gets) (simp add: like_same, rule step)
  qed (simp add: corr_ret)
  then show ?thesis unfolding pump_def by (intro corr_intro) (simp add: like_same)
qed

lemma corr_service [corr_intro]: "in_step (service c r) (service c r)"
proof (cases r)
  case (RData d)
  have "in_step (modify (\<lambda>s. set_rx c (cl_rx (sv_client s c) @ d) s)) (modify (\<lambda>s. set_rx c (cl_rx (sv_client s c) @ d) s))"
    by (rule corr_modify) (simp add: like_set_rx like_client)
  with RData show ?thesis by (simp add: service_def) (intro corr_intro stp.drp_step impI conjI)
qed (simp_all add: service_def stp.drp_step corr_ret)

lemma corr_serve [corr_intro]: "in_step (serve c w r) (serve c w r)"
proof -
  have unexpected: "in_step (modify (\<lambda>s. add_log (LUnexpected (client_repr s c) e) s)) (modify (\<lambda>s. add_log (LUnexpected (client_repr s c) e) s))" for e
    by (rule corr_log) (simp add: event_like_def event_defs like_repr)
  show ?thesis
    unfolding serve_def by (intro corr_intro corr_flush stp.drp_step unexpected) (simp_all add: like_same)
qed

lemma corr_receive: "in_step (receive c d) (receive c d)"
  unfolding receive_def by (rule corr_serve)

text \<open>A connection from the same address, up to the port.\<close>

fun conn_like :: "conn \<Rightarrow> conn \<Rightarrow> bool" where
  "conn_like NoConn NoConn = True"
| "conn_like (Conn a u) (Conn b v) = (anon_addr b = anon_addr a \<and> u = v)"
| "conn_like _ _ = False"

lemma like_add_client: "like s t \<Longrightarrow> anon_addr b = anon_addr a \<Longrightarrow> like (add_client a now s) (add_client b now t)"
proof -
  assume l: "like s t" and a: "anon_addr b = anon_addr a"
  let ?f = "\<lambda>a s. s\<lparr>sv_client := (sv_client s)(sv_nclient s := new_client a now), sv_nclient := Suc (sv_nclient s),
              sv_clients := sv_clients s @ [sv_nclient s], sv_sel := (sv_sel s)(sv_nclient s \<mapsto> False)\<rparr>"
  have "like (?f a s) (?f b t)"
    using l a by (simp add: like_def accepting_def client_like_def new_client_def sent_like_Nil)
  moreover have "event_like (LConnect a) (LConnect b)" by (simp add: event_like_def event_defs a)
  ultimately show ?thesis using like_log by (simp add: add_client_def Let_def)
qed

lemma corr_accept: "conn_like x y \<Longrightarrow> in_step (accept x now) (accept y now)"
proof (cases x)
  case (Conn a u)
  assume "conn_like x y"
  with Conn obtain b where y: "y = Conn b u" "anon_addr b = anon_addr a" by (cases y) auto
  have h: "in_step (modify (add_log (LRejectFull a n))) (modify (add_log (LRejectFull b n)))"
    "in_step (modify (add_log (LRejectPerIp a n))) (modify (add_log (LRejectPerIp b n)))"
    "in_step (modify (add_client a now)) (modify (add_client b now))" for n
    by (rule corr_modify; simp add: like_log event_like_def event_defs y(2) like_add_client)+
  show ?thesis
    unfolding accept_def Conn y(1) conn.case
    by (intro corr_bnd_gets corr_if corr_seqs_Cons corr_seqs_Nil corr_throw corr_state h)
      (simp_all add: like_same like_per_ip y(2))
next
  case NoConn
  assume "conn_like x y"
  with NoConn show ?thesis by (cases y) (simp_all add: accept_def corr_throw)
qed

lemma corr_sweep [corr_intro]: "in_step (sweep now order) (sweep now order)"
  unfolding sweep_def by (intro corr_intro stp.drp_step) (simp add: like_same)

lemma like_log_stats: "like s t \<Longrightarrow> like (log_stats s) (log_stats t)"
proof -
  assume l: "like s t"
  have f: "lobby_failures t = lobby_failures s" by (simp add: lobby_failures_def like_fields [OF l])
  let ?c = "(sv_stats s, lobby_failures s)"
  have "like (s\<lparr>sv_last_stats := ?c\<rparr>) (t\<lparr>sv_last_stats := ?c\<rparr>)" using l by (simp add: like_def accepting_def)
  from like_log [OF this, of "LStats a b x n" "LStats a b x n" for a b x n] show ?thesis
    using l by (simp add: log_stats_def Let_def f like_fields [OF l] like_access [OF l] event_like_def event_seed_def)
qed

text \<open>Events that differ in the port of a connection only.\<close>

fun ev_like :: "event \<Rightarrow> event \<Rightarrow> bool" where
  "ev_like (EvAccept x now) (EvAccept y now') = (conn_like x y \<and> now' = now)"
| "ev_like (EvReady c w r) e = (e = EvReady c w r)"
| "ev_like (EvSweep now order) e = (e = EvSweep now order)"
| "ev_like EvStats e = (e = EvStats)"
| "ev_like _ _ = False"

lemma corr_run_event: "ev_like e f \<Longrightarrow> in_step (run_event e) (run_event f)"
proof (induction e f rule: ev_like.induct)
  case (1 x now y now')
  then have "conn_like x y" "now' = now" by simp_all
  then show ?case unfolding run_event_def event.case by (simp only: corr_accept)
next
  case (4 e)
  then have "e = EvStats" by simp
  then show ?case unfolding run_event_def event.case by (simp only: event.case corr_modify like_log_stats)
qed (simp_all add: run_event_def corr_serve corr_sweep)

lemma like_main: "accepting (main_server args net rand) \<Longrightarrow> accepting (main_server args net' rand') \<Longrightarrow>
    like (main_server args net rand) (main_server args net' rand')"
  by (simp add: like_def main_server_def new_server_def client_like_def room_like_def new_client_def new_room_def sent_like_Nil)

section \<open>Property\<close>

text \<open>C8: what a client receives and what the relay logs depends on the connections and the bytes of
  the clients alone. Two relays started with the same options go through the same events alike
  whatever seeds they draw, whatever ports their clients connect from and in whatever portions their
  sockets take the output: both get through or both end with the same exception, every client has
  been sent the same frames up to the seed bytes of a START, and the logs are the same up to seeds
  and loopback ports.\<close>

theorem seeds_and_ports_invisible:
  assumes "accepting (main_server args net rand)" "accepting (main_server args net' rand')" "list_all2 ev_like evs fvs"
  shows "fst (for_each fvs run_event (main_server args net' rand')) = fst (for_each evs run_event (main_server args net rand)) \<and>
    list_all2 event_like (sv_log (snd (for_each evs run_event (main_server args net rand))))
      (sv_log (snd (for_each fvs run_event (main_server args net' rand')))) \<and>
    (\<forall>c. sent_like (cl_sent (sv_client (snd (for_each evs run_event (main_server args net rand))) c))
      (cl_sent (sv_client (snd (for_each fvs run_event (main_server args net' rand'))) c)))"
proof -
  have "in_step (for_each evs run_event) (for_each fvs run_event)"
    using assms(3) by (rule corr_for_each2) (rule corr_run_event)
  from this like_main [OF assms(1,2)] show ?thesis
    by (cases rule: corr_cases) (simp_all add: like_client like_def)
qed

theorem seeds_and_ports_invisible_witness:
  "\<forall>c. sent_like
    (cl_sent (sv_client (snd (for_each
       [EvAccept (Conn (''127.0.0.1'', 50000) True) 0, EvReady 0 False (Some (RData [4, 1, 2, 65, 66]))]
       run_event (main_server default_options (\<lambda>_ _. SSent 4096) (\<lambda>_. 7)))) c))
    (cl_sent (sv_client (snd (for_each
       [EvAccept (Conn (''127.0.0.1'', 60000) True) 0, EvReady 0 False (Some (RData [4, 1, 2, 65, 66]))]
       run_event (main_server default_options (\<lambda>_ _. SSent 3) (\<lambda>_. 8)))) c))"
proof -
  have a: "accepting (main_server default_options (\<lambda>_ _. SSent n) r)" if "0 < n" for n r
    using that by (simp add: accepting_def main_server_def new_server_def)
  have e: "list_all2 ev_like
      [EvAccept (Conn (''127.0.0.1'', 50000) True) 0, EvReady 0 False (Some (RData [4, 1, 2, 65, 66]))]
      [EvAccept (Conn (''127.0.0.1'', 60000) True) 0, EvReady 0 False (Some (RData [4, 1, 2, 65, 66]))]"
    by (simp add: anon_addr_def)
  show ?thesis
    using seeds_and_ports_invisible [OF a [of 4096 "\<lambda>_. 7"] a [of 3 "\<lambda>_. 8"] e] by simp
qed

end
