(* ===== verification/Rerun.thy ===== *)
theory Rerun
  imports Lockstep LogText
begin

text \<open>
  The differential harness run on two copies of this relay. The two processes draw different seeds,
  listen on different ports, see their clients on different ports and stamp their log lines at
  different times; \<open>tools/server_diff.py\<close> masks all of that and nothing else. Here the two records of a
  scenario are shown to be equal, so that the harness finds no difference where there is none. The
  log is that of the process: the line of \<open>run\<close>, then a line for each event, each with its time stamp
  and level.
\<close>

section \<open>The relay's log on standard error\<close>

definition event_level :: "log_event \<Rightarrow> pystr" where
  "event_level e =
     (case e of
        LMismatch tick rs \<Rightarrow> lit ''WARNING''
      | LRejectFull a n \<Rightarrow> lit ''WARNING''
      | LRejectPerIp a n \<Rightarrow> lit ''WARNING''
      | LUnexpected c x \<Rightarrow> lit ''ERROR''
      | _ \<Rightarrow> lit ''INFO'')"

definition listening_text :: "nat \<Rightarrow> pystr" where
  "listening_text port = lit ''listening on :'' @ dec_digits port"

text \<open>The format of \<open>basicConfig\<close>; \<open>asctime i\<close> is the time stamp of line \<open>i\<close> with the blank behind it.\<close>

definition log_line :: "pystr \<Rightarrow> pystr \<Rightarrow> pystr \<Rightarrow> pystr" where
  "log_line stamp_text level message = stamp_text @ level @ [32] @ message"

definition stderr_lines :: "(nat \<Rightarrow> pystr) \<Rightarrow> nat \<Rightarrow> log_event list \<Rightarrow> pystr list" where
  "stderr_lines asctime port es =
     log_line (asctime 0) (lit ''INFO'') (listening_text port) #
     map (\<lambda>(i, e). log_line (asctime (Suc i)) (event_level e) (event_text e)) (zip [0..<length es] es)"

definition clock :: "(nat \<Rightarrow> pystr) \<Rightarrow> bool" where
  "clock asctime \<longleftrightarrow> (\<forall>i. length (asctime i) = 24 \<and> stamp (asctime i))"

text \<open>What a scenario leaves for \<open>compare\<close>.\<close>

definition scenario_record :: "(nat \<Rightarrow> pystr) \<Rightarrow> nat \<Rightarrow> ctx \<Rightarrow> pystr list \<times> nat" where
  "scenario_record asctime port x = record_of (cx_transcript x) (stderr_lines asctime port (sv_log (cx_server x)))"

section \<open>Normalised lines\<close>

text \<open>Texts that differ in one port or in one seed.\<close>

inductive text_like :: "pystr \<Rightarrow> pystr \<Rightarrow> bool" where
  same: "text_like x x"
| port: "text_like (a @ port_text p @ b) (a @ port_text q @ b)"
| seed: "m < 65536 \<Longrightarrow> n < 65536 \<Longrightarrow> text_like (a @ seed_text m @ b) (a @ seed_text n @ b)"

lemma text_like_frame: "text_like x y \<Longrightarrow> text_like (u @ x @ v) (u @ y @ v)"
proof (induction rule: text_like.induct)
  case (port a p b q)
  show ?case using text_like.port [of "u @ a" p "b @ v" q] by simp
next
  case (seed m n a b)
  then show ?case using text_like.seed [of m n "u @ a" "b @ v"] by simp
qed (rule text_like.same)

lemma norm_line_port:
  "norm_line (a @ port_text p @ b) =
    sub_all m_listen (lit ''listening on :PORT'')
      (sub_all m_port (40 # port_head @ lit ''PORT)'') (sub_all m_seed (lit ''(seed $SEED)'') a)
       @ (40 # port_head @ lit ''PORT)'')
       @ sub_all m_port (40 # port_head @ lit ''PORT)'') (sub_all m_seed (lit ''(seed $SEED)'') b))"
proof -
  let ?R = "lit ''(seed $SEED)''" and ?P = "40 # port_head @ lit ''PORT)''"
  obtain q where q: "port_text p = 40 # q" by (simp add: port_text_def)
  have seeds: "sub_all m_seed ?R (a @ port_text p @ b) = sub_all m_seed ?R a @ port_text p @ sub_all m_seed ?R b"
    using seed.split_at [of ?R a "q @ b"] port_no_seed [of ?R p b] by (simp add: q)
  have head: "lit ''('' @ [39] @ lit ''127.0.0.1'' @ [39] @ lit '', PORT)'' = ?P"
    by (simp add: lit_def port_head_def)
  have ports: "sub_all m_port ?P (x @ port_text p @ z) = sub_all m_port ?P x @ ?P @ sub_all m_port ?P z" for x z
    using port.replaces [of q ?P x z] m_port_text [of p] unfolding q by simp
  show ?thesis by (simp only: norm_line_def seeds head ports)
qed

lemma norm_line_seed:
  assumes "n < 65536"
  shows "norm_line (a @ seed_text n @ b) =
    sub_all m_listen (lit ''listening on :PORT'')
      (sub_all m_port (lit ''('' @ [39] @ lit ''127.0.0.1'' @ [39] @ lit '', PORT)'')
        (sub_all m_seed (lit ''(seed $SEED)'') a @ lit ''(seed $SEED)'' @ sub_all m_seed (lit ''(seed $SEED)'') b))"
proof -
  obtain t where t: "seed_text n = 40 # t" by (simp add: seed_text_def)
  show ?thesis
    using seed.replaces [of t "lit ''(seed $SEED)''" a] m_seed_text [OF assms] unfolding t norm_line_def by simp
qed

lemma norm_line_like: "text_like x y \<Longrightarrow> norm_line x = norm_line y"
  by (induction rule: text_like.induct) (simp_all only: norm_line_port norm_line_seed)

section \<open>Messages of like events\<close>

lemma addr_text_like: "anon_addr b = anon_addr a \<Longrightarrow> text_like (addr_text a) (addr_text b)"
proof (cases "fst a = ''127.0.0.1''")
  case True
  assume "anon_addr b = anon_addr a"
  with True have "fst b = ''127.0.0.1''" by (simp add: anon_addr_def split: if_splits)
  moreover have "addr_text c = port_text (snd c)" if "fst c = ''127.0.0.1''" for c
    using that by (simp add: addr_text_def port_text_def port_head_def str_repr_def char_repr_def lit_def)
  ultimately show ?thesis using True text_like.port [of "[]" "snd a" "[]" "snd b"] by simp
next
  case False
  assume "anon_addr b = anon_addr a"
  with False have "b = a" by (auto simp: anon_addr_def split: if_splits)
  then show ?thesis by (simp add: text_like.same)
qed

lemma client_text_like: "anon_crepr d = anon_crepr c \<Longrightarrow> text_like (client_text c) (client_text d)"
  using text_like_frame [OF addr_text_like, of _ _ "[60]" "[62]"] text_like.same
  by (auto simp: client_text_def anon_crepr_def split: crepr.splits)

lemma rerun_started_text: "event_text (LStarted ns n seed) =
    (lit ''match: room '' @ room_text ns @ lit '' started, '' @ dec_digits n @ lit '' players '') @ seed_text seed @ []"
  by (simp add: event_text_def seed_text_def lit_def)

lemma client_between: "anon_crepr d = anon_crepr c \<Longrightarrow> text_like (u @ client_text c @ v) (u @ client_text d @ v)"
  by (rule text_like_frame) (rule client_text_like)

lemma client_last: "anon_crepr d = anon_crepr c \<Longrightarrow> text_like (u @ client_text c) (u @ client_text d)"
  using client_between [of d c u "[]"] by simp

lemma client_first: "anon_crepr d = anon_crepr c \<Longrightarrow> text_like (client_text c @ u) (client_text d @ u)"
  using client_between [of d c "[]" u] by simp

lemma addr_between: "anon_addr b = anon_addr a \<Longrightarrow> text_like (u @ addr_text a @ v) (u @ addr_text b @ v)"
  by (rule text_like_frame) (rule addr_text_like)

lemma addr_last: "anon_addr b = anon_addr a \<Longrightarrow> text_like (u @ addr_text a) (u @ addr_text b)"
  using addr_between [of b a u "[]"] by simp

lemma match_text: "event_text (LMatchEnded ok c k) = (lit ''match ended: '' @ dec_digits ok @ lit '' CRC rounds verified; '') @
    client_text c @ (lit '' (seat '' @ dec_digits k @ lit '') left'')"
  by (simp add: event_text_def)

lemma match_like: "anon_crepr d = anon_crepr c \<Longrightarrow> text_like (event_text (LMatchEnded ok c k)) (event_text (LMatchEnded ok d k))"
  unfolding match_text by (rule client_between)

lemma started_like: "m < 65536 \<Longrightarrow> n < 65536 \<Longrightarrow> text_like (event_text (LStarted ns k m)) (event_text (LStarted ns k n))"
  unfolding rerun_started_text by (rule text_like.seed)

lemma event_text_like: "event_like e f \<Longrightarrow> text_like (event_text e) (event_text f)"
  by (cases e; cases f)
    (auto simp: event_like_def anon_event_def event_seed_def intro: match_like started_like text_like.same,
     auto simp: event_text_def intro: client_between client_first client_last addr_between addr_last text_like.same)

lemma event_level_like: "event_like e f \<Longrightarrow> event_level f = event_level e"
  by (cases e; cases f) (auto simp: event_like_def anon_event_def event_level_def)

section \<open>The harness's reading of the log\<close>

definition counted :: "log_event \<Rightarrow> pystr" where
  "counted e = lit ''log '' @ event_level e @ [32] @ event_text e"

definition counted_start :: "nat \<Rightarrow> pystr" where
  "counted_start port = lit ''log INFO '' @ listening_text port"

lemma stamp_append: "length w = 24 \<Longrightarrow> stamp (w @ r) = stamp w"
  by (simp add: stamp_def nth_append)

lemma log_record_line:
  assumes "length w = 24" "stamp w" "level \<in> {lit ''INFO'', lit ''WARNING'', lit ''ERROR''}"
  shows "log_record (log_line w level m) = Some (lit ''log '' @ level @ [32] @ m)"
  using assms by (auto simp: log_record_def log_line_def stamp_append Let_def starts_def lit_def)

lemma event_level_cases: "event_level e \<in> {lit ''INFO'', lit ''WARNING'', lit ''ERROR''}"
  by (simp add: event_level_def split: log_event.split)

lemma log_lines_stderr:
  assumes "clock asctime"
  shows "log_lines (stderr_lines asctime port es) = counted_start port # map counted es"
proof -
  have one: "log_lines (x # xs) = (case log_record x of None \<Rightarrow> [] | Some r \<Rightarrow> [r]) @ log_lines xs" for x xs
    by (simp add: log_lines_def)
  have more: "log_lines (map (\<lambda>(i, e). log_line (asctime (Suc i)) (event_level e) (event_text e)) (zip ns fs)) = map counted fs"
    if "length ns = length fs" for ns fs
    using that
  proof (induction ns fs rule: list_induct2)
    case (Cons n ns f fs)
    have "log_record (log_line (asctime (Suc n)) (event_level f) (event_text f)) = Some (counted f)"
      unfolding counted_def using assms by (intro log_record_line event_level_cases) (simp_all add: clock_def)
    with Cons.IH show ?case by (simp add: one)
  qed (simp add: log_lines_def)
  have "log_record (log_line (asctime 0) (lit ''INFO'') (listening_text port)) = Some (lit ''log '' @ lit ''INFO'' @ [32] @ listening_text port)"
    using assms by (intro log_record_line) (simp_all add: clock_def)
  moreover have "counted_start port = lit ''log '' @ lit ''INFO'' @ [32] @ listening_text port"
    by (simp add: counted_start_def lit_def)
  ultimately show ?thesis using more [of "[0..<length es]" es] by (simp add: stderr_lines_def one)
qed

lemma counted_not_c_only: "\<not> c_only (counted e)"
  by (cases e) (simp_all add: c_only_def counted_def event_level_def event_text_def starts_def lit_def)

lemma start_not_c_only: "\<not> c_only (counted_start port)"
  by (simp add: c_only_def counted_start_def starts_def lit_def)

lemma norm_counted: "event_like e f \<Longrightarrow> norm_line (counted e) = norm_line (counted f)"
  using norm_line_like [OF text_like_frame [OF event_text_like, of e f "lit ''log '' @ event_level e @ [32]" "[]"]]
  by (simp add: counted_def event_level_like)

lemma norm_start: "norm_line (counted_start p) = lit ''log INFO listening on :PORT''"
proof -
  have no_paren: "40 \<notin> set (counted_start p)"
    using dec_digits_digit [of p] by (auto simp: counted_start_def listening_text_def lit_def list_all_iff digit_def)
  have skip: "sub_all m r (counted_start p) = counted_start p"
    if "\<And>c s. c \<noteq> 40 \<Longrightarrow> m (c # s) = None" for m r
  proof -
    have "sub_all m r (counted_start p @ []) = counted_start p @ sub_all m r []"
    proof (rule sub_all_skip)
      fix x y assume "counted_start p = x @ y" "y \<noteq> []"
      with no_paren that show "m (y @ []) = None" by (cases y) auto
    qed
    then show ?thesis by simp
  qed
  have "m_seed (c # s) = None" "m_port (c # s) = None" if "c \<noteq> 40" for c s
    using that by (simp_all add: m_seed_def m_port_def starts_def lit_def)
  then have "norm_line (counted_start p) = sub_all m_listen (lit ''listening on :PORT'') (counted_start p)"
    by (simp add: norm_line_def skip)
  also have "counted_start p = lit ''log INFO '' @ (lit ''listening on :'' @ dec_digits p)"
    by (simp add: counted_start_def listening_text_def)
  also have "sub_all m_listen (lit ''listening on :PORT'') \<dots> = lit ''log INFO listening on :PORT''"
  proof -
    have digits: "takeWhile digit (dec_digits p) = dec_digits p"
      using dec_digits_digit [of p] by (simp add: list_all_iff)
    have "m_listen (lit ''listening on :'' @ dec_digits p) = Some (Suc (length (tl (lit ''listening on :'') @ dec_digits p)))"
      using dec_digits_digit [of p] by (simp add: m_listen_def starts_def lit_def digits Let_def)
    then have "sub_all m_listen (lit ''listening on :PORT'') (lit ''listening on :'' @ dec_digits p) = lit ''listening on :PORT''"
      by (simp add: lit_def)
    then show ?thesis by (simp add: m_listen_def starts_def lit_def)
  qed
  finally show ?thesis by (simp add: counted_start_def listening_text_def)
qed

lemma normalize_log_append:
  "normalize_log (xs @ ys) = (fst (normalize_log xs) @ fst (normalize_log ys), snd (normalize_log xs) + snd (normalize_log ys))"
  by (simp add: normalize_log_def)

lemma normalize_counted:
  assumes "list_all2 event_like es fs"
  shows "normalize_log (counted_start p # map counted es) = normalize_log (counted_start q # map counted fs)"
proof -
  have "map norm_line (map counted es) = map norm_line (map counted fs)"
    using assms by (induction rule: list_all2_induct) (simp_all add: norm_counted)
  moreover have "filter (\<lambda>l. \<not> c_only l) (map counted xs) = map counted xs" "filter c_only (map counted xs) = []" for xs
    by (simp_all add: filter_map comp_def counted_not_c_only)
  ultimately show ?thesis by (simp add: normalize_log_def start_not_c_only norm_start)
qed

lemma scenario_record_like:
  assumes "clock asctime" "clock asctime'" "cx_transcript y = cx_transcript x"
    "list_all2 event_like (sv_log (cx_server x)) (sv_log (cx_server y))"
  shows "scenario_record asctime p x = scenario_record asctime' q y"
  unfolding scenario_record_def record_of_def log_lines_stderr [OF assms(1)] log_lines_stderr [OF assms(2)]
    normalize_log_append normalize_counted [OF assms(4), of p q] assms(3) by (rule refl)

section \<open>What a client of the harness records\<close>

text \<open>Behind what was read before, like streams are like.\<close>

lemma parsed_prefix:
  "concat (map wire_of js) @ y = concat (map wire_of ms) \<Longrightarrow> list_all (\<lambda>m. length m \<le> 255) js \<Longrightarrow>
     list_all (\<lambda>m. length m \<le> 255) ms \<Longrightarrow> \<exists>ks. ms = js @ ks \<and> y = concat (map wire_of ks)"
proof (induction js arbitrary: ms)
  case (Cons j js)
  show ?case
  proof (cases ms)
    case Nil
    with Cons.prems(1) show ?thesis by (simp add: wire_of_def)
  next
    case ms: (Cons m ms')
    have "wire_of j @ (concat (map wire_of js) @ y) = wire_of m @ concat (map wire_of ms')"
      using Cons.prems(1) ms by simp
    moreover have "length j \<le> 255" "length m \<le> 255" using Cons.prems(2,3) ms by simp_all
    ultimately have "Got j (concat (map wire_of js) @ y) = Got m (concat (map wire_of ms'))"
      using peer_rx.nxt_enc by metis
    then have "j = m" "concat (map wire_of js) @ y = concat (map wire_of ms')" by simp_all
    with Cons.IH [of ms'] Cons.prems(2,3) ms show ?thesis by simp
  qed
qed simp

lemma body_like_short: "list_all2 body_like ms ks \<Longrightarrow> list_all (\<lambda>m. length m \<le> 255) ms \<and> list_all (\<lambda>m. length m \<le> 255) ks"
  by (induction rule: list_all2_induct) (auto simp: body_like_def)

lemma sent_like_drop:
  assumes "sent_like a b" "framed (take n a)" "n \<le> length a"
  shows "sent_like (drop n a) (drop n b)"
proof -
  obtain ms ks where mk: "list_all2 body_like ms ks" "a = concat (map wire_of ms)" "b = concat (map wire_of ks)"
    using assms(1) unfolding sent_like_def by blast
  obtain js where js: "list_all readable js" "take n a = concat (map wire_of js)"
    using assms(2) unfolding framed_def by blast
  have "concat (map wire_of js) @ drop n a = concat (map wire_of ms)"
    unfolding js(2) [symmetric] mk(2) [symmetric] by simp
  moreover have "list_all (\<lambda>m. length m \<le> 255) js" using js(1) by (auto simp: list_all_iff readable_def)
  ultimately obtain ms' where ms': "ms = js @ ms'" "drop n a = concat (map wire_of ms')"
    using parsed_prefix body_like_short [OF mk(1)] by blast
  then obtain ks1 ks2 where ks: "ks = ks1 @ ks2" "list_all2 body_like js ks1" "list_all2 body_like ms' ks2"
    using mk(1) by (auto simp: list_all2_append1)
  have "length (concat (map wire_of ks1)) = n"
    using sent_like_length [of "concat (map wire_of js)" "concat (map wire_of ks1)"] ks(2) js(2) assms(3)
    by (metis length_take min.absorb2 sent_like_def)
  then have "drop n b = concat (map wire_of ks2)" using mk(3) ks(1) by simp
  with ms'(2) ks(3) show ?thesis unfolding sent_like_def by blast
qed

lemma render_like: "body_like m k \<Longrightarrow> render 2 k = render 2 m"
  by (cases "k = []") (auto simp: body_like_def render_masked)

lemma record_client_like:
  assumes "sent_like a b"
  shows "record_client 2 tag (h\<lparr>hc_buf := b\<rparr>) = record_client 2 tag (h\<lparr>hc_buf := a\<rparr>)"
proof -
  obtain ms ks where mk: "list_all2 body_like ms ks" "a = concat (map wire_of ms)" "b = concat (map wire_of ks)"
    using assms unfolding sent_like_def by blast
  have whole: "drain peer_scan (concat (map wire_of js)) = (js, Inr [])" if "list_all (\<lambda>m. length m \<le> 255) js" for js
    using peer_rx.drain_encs [OF that, of "[]"] by (simp add: drain_def)
  have "render_all 2 ks = render_all 2 ms"
    using mk(1) by (induction rule: list_all2_induct) (simp_all add: render_like cong: sum.case_cong)
  then show ?thesis
    using body_like_short [OF mk(1)] mk(2,3) by (simp add: record_client_def whole unread_def Let_def cong: sum.case_cong)
qed

section \<open>The script in step\<close>

definition ctx_like :: "ctx \<Rightarrow> ctx \<Rightarrow> bool" where
  "ctx_like x y \<longleftrightarrow> like (cx_server x) (cx_server y) \<and> cx_clients y = cx_clients x \<and>
     cx_transcript y = cx_transcript x \<and> cx_step y = cx_step x"

lemma corr_on_server: "in_step m n \<Longrightarrow> corr ctx_like (=) (on_server m) (on_server n)"
proof (rule corrI)
  fix x y assume "in_step m n" and l: "ctx_like x y"
  have "like (cx_server x) (cx_server y)" using l by (simp add: ctx_like_def)
  with \<open>in_step m n\<close> show "rel_prod (rel_sum (=) (=)) ctx_like (on_server m x) (on_server n y)"
    using l by (cases rule: corr_cases) (simp_all add: on_server_def ctx_like_def)
qed

lemma corr_hears: "corr ctx_like (=) (hears d h) (hears d h)"
  unfolding hears_def by (auto intro: corr_ret corr_on_server corr_receive split: option.split)

lemma corr_hclient_of: "corr ctx_like (=) (gets (hclient_of l)) (gets (hclient_of l))"
  by (rule corr_gets) (simp add: ctx_like_def hclient_of_def)

lemma corr_send_bytes: "corr ctx_like (=) (send_bytes l d) (send_bytes l d)"
  unfolding send_bytes_def by (intro corr_bnd_eq corr_hclient_of corr_lift_eq corr_guarded corr_hears)

lemma corr_close: "corr ctx_like (=) (close l) (close l)"
proof -
  have "corr ctx_like (=) (modify (set_closed l)) (modify (set_closed l))"
    by (rule corr_modify) (simp add: ctx_like_def set_closed_def)
  then show ?thesis
    unfolding close_def by (intro corr_bnd_eq corr_hclient_of corr_lift_eq corr_guarded corr_hears)
qed

lemma corr_connect: "corr ctx_like (=) (connect l) (connect l)"
proof -
  have acc: "in_step (accept (Conn (''127.0.0.1'', p) True) 0) (accept (Conn (''127.0.0.1'', q) True) 0)" for p q
    by (rule corr_accept) (simp add: anon_addr_def)
  have add: "corr ctx_like (=) (modify (add_hclient l n)) (modify (add_hclient l n))" for n
    by (rule corr_modify) (auto simp: ctx_like_def add_hclient_def like_fields)
  show ?thesis
    unfolding connect_def
  proof (rule corr_bnd)
    show "corr ctx_like (\<lambda>a b. fst b = fst a) (gets (\<lambda>x. (sv_nclient (cx_server x), cx_port x (length (cx_clients x)))))
        (gets (\<lambda>x. (sv_nclient (cx_server x), cx_port x (length (cx_clients x)))))"
      by (rule corr_gets) (simp add: ctx_like_def like_fields)
    fix a b :: "nat \<times> nat" assume "fst b = fst a"
    then show "corr ctx_like (=)
       (case a of (n, port) \<Rightarrow> bnd (on_server (accept (Conn (''127.0.0.1'', port) True) 0)) (\<lambda>_. modify (add_hclient l n)))
       (case b of (n, port) \<Rightarrow> bnd (on_server (accept (Conn (''127.0.0.1'', port) True) 0)) (\<lambda>_. modify (add_hclient l n)))"
      unfolding case_prod_beta by (simp only:) (intro corr_bnd_eq corr_on_server acc add)
  qed
qed

lemma arrive_like:
  assumes "like s t" "drained s" "drained t" "hclient_ok s h"
  shows "\<exists>a b. arrive t h = (arrive s h)\<lparr>hc_buf := b\<rparr> \<and> arrive s h = (arrive s h)\<lparr>hc_buf := a\<rparr> \<and> sent_like a b"
proof (cases "hc_closed h \<or> hc_conn h = None")
  case True
  then have "arrive t h = arrive s h" "hc_buf (arrive s h) = []"
    using assms(4) by (auto simp: arrive_def hclient_ok_def split: option.split)
  then show ?thesis by (intro exI [of _ "[]"]) (simp add: sent_like_Nil)
next
  case False
  then obtain c where c: "hc_conn h = Some c" by auto
  let ?a = "cl_sent (sv_client s c)" and ?b = "cl_sent (sv_client t c)"
  have ab: "sent_like ?a ?b" by (rule like_client(9) [OF assms(1)])
  have "stream s c = ?a" using drained_stream [OF assms(2)] by simp
  then have "sent_like (drop (hc_read h) ?a) (drop (hc_read h) ?b)"
    using assms(4) c by (intro sent_like_drop [OF ab]) (simp_all add: hclient_ok_def)
  moreover have "hc_buf h = []" using assms(4) by (simp add: hclient_ok_def)
  ultimately show ?thesis
    using False c sent_like_length [OF ab] like_access(4) [OF assms(1)]
    by (intro exI [of _ "drop (hc_read h) ?a"] exI [of _ "drop (hc_read h) ?b"]) (simp add: arrive_def Let_def)
qed

lemma sync_like:
  assumes "like s t" "drained s" "drained t" "\<And>h. h \<in> set hs \<Longrightarrow> hclient_ok s h"
  shows "record_all 2 tag (map (arrive t) hs) = record_all 2 tag (map (arrive s) hs)"
    "map forget (map (arrive t) hs) = map forget (map (arrive s) hs)"
proof -
  have one: "record_client 2 tag (arrive t h) = record_client 2 tag (arrive s h) \<and> forget (arrive t h) = forget (arrive s h)"
    if h: "h \<in> set hs" for h
  proof -
    obtain a b where ab: "arrive t h = (arrive s h)\<lparr>hc_buf := b\<rparr>" "arrive s h = (arrive s h)\<lparr>hc_buf := a\<rparr>" "sent_like a b"
      using arrive_like [OF assms(1-3) assms(4) [OF h]] by blast
    have "forget (k\<lparr>hc_buf := b\<rparr>) = forget k" for k by (simp add: forget_def)
    moreover have "record_client 2 tag (arrive t h) = record_client 2 tag (arrive s h)"
      using record_client_like [OF ab(3), of tag "arrive s h"] by (metis ab(1,2))
    ultimately show ?thesis using ab(1) by metis
  qed
  then show "map forget (map (arrive t) hs) = map forget (map (arrive s) hs)" by simp
  from one show "record_all 2 tag (map (arrive t) hs) = record_all 2 tag (map (arrive s) hs)"
    by (induction hs) (simp_all cong: sum.case_cong)
qed

text \<open>One command: what the first relay's run does, the second's does.\<close>

definition both_ok :: "server \<Rightarrow> server \<Rightarrow> ctx \<Rightarrow> ctx \<Rightarrow> bool" where
  "both_ok s t x y \<longleftrightarrow> ctx_like x y \<and> ctx_ok s x \<and> ctx_ok t y"

lemma run_cmd_like:
  assumes "usable_start s" "usable_start t" "both_ok s t x y" "run_cmd 2 c x = (Inr (), x')" "run_cmd 2 c y = (Inr (), y')"
  shows "ctx_like x' y'"
proof (cases c)
  case (Sync step)
  have l: "like (cx_server x) (cx_server y)" and same: "cx_clients y = cx_clients x" "cx_transcript y = cx_transcript x"
    "cx_step y = cx_step x"
    using assms(3) by (simp_all add: both_ok_def ctx_like_def)
  have "drained (cx_server x)" "drained (cx_server y)"
    using assms(1-3) start_reachable(3) by (auto simp: both_ok_def ctx_ok_def)
  moreover have "hclient_ok (cx_server x) h" if "h \<in> set (cx_clients x)" for h
    using assms(3) that by (simp add: both_ok_def ctx_ok_def)
  ultimately have r: "record_all 2 tag (map (arrive (cx_server y)) (cx_clients x)) = record_all 2 tag (map (arrive (cx_server x)) (cx_clients x))"
    "map forget (map (arrive (cx_server y)) (cx_clients x)) = map forget (map (arrive (cx_server x)) (cx_clients x))" for tag
    using sync_like [OF l] by blast+
  show ?thesis
    using assms(4,5) Sync l r by (auto simp: sync_def Let_def same ctx_like_def split: sum.splits)
next
  case (Connect l)
  with assms corrD [OF corr_connect, of x y l] show ?thesis by (simp add: both_ok_def)
next
  case (Send l d)
  have "corr ctx_like (=) (bnd (lift d) (send_bytes l)) (bnd (lift d) (send_bytes l))"
    by (intro corr_bnd_eq corr_lift_eq corr_send_bytes)
  with Send assms corrD [of ctx_like _ "bnd (lift d) (send_bytes l)" "bnd (lift d) (send_bytes l)" x y]
  show ?thesis by (fastforce simp: both_ok_def)
next
  case (Close l)
  with assms corrD [OF corr_close, of x y l] show ?thesis by (simp add: both_ok_def)
qed

lemma run_script_like:
  assumes "usable_start s" "usable_start t"
  shows "both_ok s t x y \<Longrightarrow> well_scripted (map hc_label (cx_clients x)) cs \<Longrightarrow>
    \<exists>x' y'. run_script 2 cs x = (Inr (), x') \<and> run_script 2 cs y = (Inr (), y') \<and> both_ok s t x' y'"
proof (induction cs arbitrary: x y)
  case Nil
  then show ?case by (simp add: run_script_def ret_def)
next
  case (Cons c cs)
  have labels: "map hc_label (cx_clients y) = map hc_label (cx_clients x)"
    using Cons.prems(1) by (simp add: both_ok_def ctx_like_def)
  obtain x1 where x1: "run_cmd 2 c x = (Inr (), x1)" "ctx_ok s x1" "well_scripted (map hc_label (cx_clients x1)) cs"
    using run_cmd_ok [OF assms(1), of x c cs 2] Cons.prems by (auto simp: both_ok_def)
  obtain y1 where y1: "run_cmd 2 c y = (Inr (), y1)" "ctx_ok t y1"
    using run_cmd_ok [OF assms(2), of y c cs 2] Cons.prems labels by (auto simp: both_ok_def)
  have "both_ok s t x1 y1"
    using run_cmd_like [OF assms Cons.prems(1) x1(1) y1(1)] x1(2) y1(2) by (simp add: both_ok_def)
  from Cons.IH [OF this x1(3)] x1(1) y1(1) show ?case by (simp add: run_script_def bnd_def)
qed

lemma closes_like:
  assumes "both_ok s t x y" "for_each ls close x = (Inr (), x')" "for_each ls close y = (Inr (), y')"
  shows "ctx_like x' y'"
proof -
  have "corr ctx_like (=) (for_each ls close) (for_each ls close)" by (rule corr_for_each) (rule corr_close)
  from corrD [OF this, of x y] assms show ?thesis by (simp add: both_ok_def)
qed

text \<open>A whole scenario.\<close>

lemma run_scenario_like:
  assumes "usable_start s" "usable_start t" "like s t" "name \<in> set (dkeys (SCENARIOS 2 seats))"
  shows "\<exists>x y. run_scenario 2 seats name (new_ctx s p) = (Inr (), x) \<and> run_scenario 2 seats name (new_ctx t q) = (Inr (), y) \<and>
    ctx_like x y"
proof -
  obtain script where s: "dget (SCENARIOS 2 seats) name = Some script"
    using assms(4) dict.ks_lookup by (metis option.exhaust)
  let ?cs = "script @ [synced ''final'']"
  have "both_ok s t (new_ctx s p) (new_ctx t q)"
    using new_ctx_ok assms(3) by (simp add: both_ok_def ctx_like_def new_ctx_def)
  moreover have "well_scripted (map hc_label (cx_clients (new_ctx s p))) ?cs"
    using scenario_well_scripted [OF s] by (simp add: new_ctx_def)
  ultimately obtain x1 y1 where r: "run_script 2 ?cs (new_ctx s p) = (Inr (), x1)"
    "run_script 2 ?cs (new_ctx t q) = (Inr (), y1)" "both_ok s t x1 y1"
    using run_script_like [OF assms(1,2)] by blast
  have same: "cx_clients y1 = cx_clients x1" using r(3) by (simp add: both_ok_def ctx_like_def)
  then have labels: "open_labels y1 = open_labels x1" by (simp add: open_labels_def)
  have sub: "set (open_labels x1) \<subseteq> set (map hc_label (cx_clients x1))" by (auto simp: open_labels_def)
  obtain x where x: "for_each (open_labels x1) close x1 = (Inr (), x)"
    using closes_ok [OF assms(1) _ sub] r(3) by (auto simp: both_ok_def)
  obtain y where y: "for_each (open_labels x1) close y1 = (Inr (), y)"
    using closes_ok [OF assms(2), of y1 "open_labels x1"] sub same r(3) by (auto simp: both_ok_def)
  from closes_like [OF r(3) x y] s r(1,2) labels x y show ?thesis
    by (simp add: run_scenario_def finish_def bnd_def gets_def)
qed

section \<open>Property\<close>

lemma usable_accepting:
  "accepting (main_server args net rand) \<Longrightarrow> 0 \<le> op_delay args \<Longrightarrow> op_delay args < 256 \<Longrightarrow>
     usable_start (main_server args net rand)"
  by (simp add: usable_start_def initial_main delay_ok_def)

text \<open>C7: the differential test finds no difference between two copies of this relay. Started with the
  same options, whatever seeds the two draw, whatever ports they and their clients have, whenever
  their log lines are stamped and in whatever portions their sockets take the output, they leave the
  same record in every scenario, so that \<open>compare\<close> passes it, with \<open>--strict\<close> too. The marks of a
  single run are the only thing the harness has to mask, and it masks all of them.\<close>

theorem passes_against_itself:
  assumes "accepting (main_server args net rand)" "accepting (main_server args net' rand')"
    "0 \<le> op_delay args" "op_delay args < 256" "name \<in> set (dkeys (SCENARIOS 2 seats))" "clock asctime" "clock asctime'"
  shows "\<exists>x y. run_scenario 2 seats name (new_ctx (main_server args net rand) ports) = (Inr (), x) \<and>
    run_scenario 2 seats name (new_ctx (main_server args net' rand') ports') = (Inr (), y) \<and>
    scenario_record asctime port x = scenario_record asctime' port' y \<and>
    snd (compare_runs 2 name True (fst (scenario_record asctime port x)) (fst (scenario_record asctime' port' y)))"
proof -
  obtain x y where r: "run_scenario 2 seats name (new_ctx (main_server args net rand) ports) = (Inr (), x)"
    "run_scenario 2 seats name (new_ctx (main_server args net' rand') ports') = (Inr (), y)" "ctx_like x y"
    using run_scenario_like [OF usable_accepting [OF assms(1,3,4)] usable_accepting [OF assms(2,3,4)] like_main [OF assms(1,2)] assms(5)]
    by blast
  then have same: "scenario_record asctime port x = scenario_record asctime' port' y"
    by (intro scenario_record_like [OF assms(6,7)]) (simp_all add: ctx_like_def like_def)
  then have "snd (compare_runs 2 name True (fst (scenario_record asctime port x)) (fst (scenario_record asctime' port' y)))"
    by (simp add: compare_exact records_agree_def)
  with r same show ?thesis by blast
qed

definition sample_stamp :: pystr where
  "sample_stamp = lit ''2024-01-02 03:04:05,678 ''"

theorem passes_against_itself_witness:
  "\<exists>x y. run_scenario 2 2 (lit ''start'') (new_ctx (main_server default_options (\<lambda>_ _. SSent 4096) (\<lambda>_. 7)) (\<lambda>n. 50000 + n)) = (Inr (), x) \<and>
    run_scenario 2 2 (lit ''start'') (new_ctx (main_server default_options (\<lambda>_ _. SSent 1) (\<lambda>n. 99 * n)) (\<lambda>n. 40000 + n)) = (Inr (), y) \<and>
    scenario_record (\<lambda>_. sample_stamp) 9115 x = scenario_record (\<lambda>_. sample_stamp) 9116 y \<and>
    snd (compare_runs 2 (lit ''start'') True (fst (scenario_record (\<lambda>_. sample_stamp) 9115 x))
      (fst (scenario_record (\<lambda>_. sample_stamp) 9116 y)))"
proof (rule passes_against_itself)
  show "accepting (main_server default_options (\<lambda>_ _. SSent 4096) (\<lambda>_. 7))"
    "accepting (main_server default_options (\<lambda>_ _. SSent 1) (\<lambda>n. 99 * n))"
    by (simp_all add: accepting_def main_server_def new_server_def)
  show "0 \<le> op_delay default_options" "op_delay default_options < 256"
    by (simp_all add: default_options_def DEFAULT_DELAY_def)
  show "lit ''start'' \<in> set (dkeys (SCENARIOS 2 2))" by (simp add: SCENARIOS_def SCENARIOS_V2_def dkeys_def)
  show "clock (\<lambda>_. sample_stamp)" "clock (\<lambda>_. sample_stamp)"
    by (simp_all add: clock_def sample_stamp_def stamp_def lit_def digit_def)
qed

end
