(* ===== verification/Gate.thy ===== *)
theory Gate
  imports LogText Simulation
begin

text \<open>
  The protocol gate of \<open>tools/bbnet_client_sim.py\<close>: simulated consoles against the relay. Its
  three scenarios are scripts of steps with the assertions they make; the steps are run against
  the model of the Python relay, whose output is judged as the gate judges it. A client is named
  by its label, which is the name it says HELLO with; the number of seats (\<open>cap\<close>) is a parameter, as in
  the source. The pauses are left out: the relay handles what is sent as soon as it is sent.
\<close>

section \<open>Clients\<close>

text \<open>What \<open>recv(4096)\<close> has to deliver: the relay's bytes not yet taken, then the end of the
  stream when the relay has closed the connection.\<close>

function chunked :: "bytes \<Rightarrow> bytes list" where
  "chunked d = (if d = [] then [] else take 4096 d # chunked (drop 4096 d))"
  by pat_completeness auto
termination
  by (relation "measure length") auto

declare chunked.simps [simp del]

definition incoming :: "server \<Rightarrow> hclient \<Rightarrow> bytes option list" where
  "incoming s h =
     (case hc_conn h of
        None \<Rightarrow> [Some []]
      | Some c \<Rightarrow>
          map Some (chunked (drop (hc_read h) (cl_sent (sv_client s c)))) @ (if is_dead s c then [Some []] else []))"

definition took :: "pystr \<Rightarrow> bytes \<Rightarrow> nat \<Rightarrow> ctx \<Rightarrow> ctx" where
  "took label buf n x =
     x\<lparr>cx_clients := map (\<lambda>h. if hc_label h = label then h\<lparr>hc_buf := buf, hc_read := hc_read h + n\<rparr> else h)
        (cx_clients x)\<rparr>"

text \<open>A method of \<open>Cli\<close> that reads; a closed socket raises.\<close>

definition reads ::
  "(bytes \<Rightarrow> bytes option list \<Rightarrow> (exn + 'a) \<times> bytes \<times> bytes option list) \<Rightarrow> pystr \<Rightarrow> (ctx, 'a) act" where
  "reads f label =
     bnd (gets (hclient_of label)) (\<lambda>r. bnd (lift r) (\<lambda>h.
       if hc_closed h then throw OSError
       else bnd (gets (\<lambda>x. incoming (cx_server x) h)) (\<lambda>chs.
         case f (hc_buf h) chs of (got, buf, chs') \<Rightarrow>
           bnd (modify (took label buf (to_come chs - to_come chs'))) (\<lambda>_. lift got))))"

definition writes :: "pystr \<Rightarrow> bytes \<Rightarrow> (ctx, unit) act" where
  "writes label d =
     bnd (gets (hclient_of label)) (\<lambda>r. bnd (lift r) (\<lambda>h. if hc_closed h then throw OSError else hears d h))"

text \<open>\<open>Cli(name, ver)\<close>.\<close>

definition new_cli :: "pystr \<Rightarrow> int \<Rightarrow> (ctx, unit) act" where
  "new_cli name ver = bnd (connect name) (\<lambda>_. bnd (lift (cs_hello name ver)) (writes name))"

section \<open>Assertions\<close>

definition require :: "exn + bool \<Rightarrow> exn + unit" where
  "require b = (case b of Inl e \<Rightarrow> Inl e | Inr ok \<Rightarrow> if ok then Inr () else Inl AssertionError)"

text \<open>\<open>a and b\<close>, \<open>p[i] == v\<close>, \<open>lobby_status(p, name) == v\<close>, \<open>roster_names(p[i:j])[:k] == ns\<close>.\<close>

definition both :: "exn + bool \<Rightarrow> exn + bool \<Rightarrow> exn + bool" where
  "both a b = (case a of Inl e \<Rightarrow> Inl e | Inr ok \<Rightarrow> if ok then b else Inr False)"

definition byte_is :: "nat \<Rightarrow> nat \<Rightarrow> bytes \<Rightarrow> exn + bool" where
  "byte_is i v p = (if i < length p then Inr (unat (p ! i) = v) else Inl IndexError)"

definition byte_least :: "nat \<Rightarrow> nat \<Rightarrow> bytes \<Rightarrow> exn + bool" where
  "byte_least i v p = (if i < length p then Inr (v \<le> unat (p ! i)) else Inl IndexError)"

definition status_is :: "pystr \<Rightarrow> nat \<Rightarrow> bytes \<Rightarrow> exn + bool" where
  "status_is name v p =
     (case lobby_status p name of Inl e \<Rightarrow> Inl e | Inr r \<Rightarrow> Inr (map_option unat r = Some v))"

definition roster_is :: "nat \<Rightarrow> nat \<Rightarrow> nat \<Rightarrow> pystr list \<Rightarrow> bytes \<Rightarrow> exn + bool" where
  "roster_is i j k ns p =
     (case roster_names (take (j - i) (drop i p)) of Inl e \<Rightarrow> Inl e | Inr ms \<Rightarrow> Inr (take k ms = ns))"

definition anything :: "bytes \<Rightarrow> exn + bool" where
  "anything p = Inr True"

section \<open>Reading loops\<close>

text \<open>\<open>expect_silence\<close>, the reception that must not bring a frame, and the loop that skips frames
  until one of a type.\<close>

definition silence :: "bytes \<Rightarrow> bytes option list \<Rightarrow> (exn + unit) \<times> bytes \<times> bytes option list" where
  "silence buf chs =
     (case recv_frame buf chs of
        (Inr _, buf', chs') \<Rightarrow> (Inl AssertionError, buf', chs')
      | (Inl e, buf', chs') \<Rightarrow> (if e = TimeoutError then Inr () else Inl e, buf', chs'))"

definition refused :: "bytes \<Rightarrow> bytes option list \<Rightarrow> (exn + unit) \<times> bytes \<times> bytes option list" where
  "refused buf chs =
     (case recv_frame buf chs of
        (Inr _, buf', chs') \<Rightarrow> (Inl AssertionError, buf', chs')
      | (Inl e, buf', chs') \<Rightarrow> (if e = TimeoutError \<or> e = EOFError then Inr () else Inl e, buf', chs'))"

function await :: "byte \<Rightarrow> bytes \<Rightarrow> bytes option list \<Rightarrow> (exn + bytes) \<times> bytes \<times> bytes option list" where
  "await ftype buf chs =
     (case recv_frame buf chs of
        (Inl e, buf', chs') \<Rightarrow> (Inl e, buf', chs')
      | (Inr (t, p), buf', chs') \<Rightarrow> if t = ftype then (Inr p, buf', chs') else await ftype buf' chs')"
  by pat_completeness auto
termination
  by (relation "measure (\<lambda>(t, buf, chs). length buf + to_come chs)") (auto dest!: recv_frame_shrink [OF sym])

declare await.simps [simp del]

section \<open>Steps\<close>

text \<open>
  \<open>Expects\<close> reads one frame of the type from each of the clients, in order, and checks each payload,
  then all of them together; \<open>Awaits\<close> does so skipping frames of other types. \<open>Knocks\<close> is the
  connection with which \<open>start_server\<close> finds the relay up.
\<close>

datatype gate_step =
    Opens pystr int
  | Says pystr "exn + bytes"
  | Expects byte "(pystr \<times> (bytes \<Rightarrow> exn + bool)) list" "bytes list \<Rightarrow> exn + bool"
  | Awaits byte pystr "bytes \<Rightarrow> exn + bool"
  | Silent pystr
  | Refused pystr
  | Closes pystr
  | Knocks pystr

fun expect_each :: "byte \<Rightarrow> (pystr \<times> (bytes \<Rightarrow> exn + bool)) list \<Rightarrow> (ctx, bytes list) act" where
  "expect_each t [] = ret []"
| "expect_each t ((l, check) # ls) =
     bnd (reads (expect t) l) (\<lambda>p. bnd (lift (require (check p))) (\<lambda>_.
     bnd (expect_each t ls) (\<lambda>ps. ret (p # ps))))"

fun run_step :: "gate_step \<Rightarrow> (ctx, unit) act" where
  "run_step (Opens l v) = new_cli l v"
| "run_step (Says l d) = bnd (lift d) (writes l)"
| "run_step (Expects t ls check) = bnd (expect_each t ls) (\<lambda>ps. lift (require (check ps)))"
| "run_step (Awaits t l check) = bnd (reads (await t) l) (\<lambda>p. lift (require (check p)))"
| "run_step (Silent l) = reads silence l"
| "run_step (Refused l) = reads refused l"
| "run_step (Closes l) = close l"
| "run_step (Knocks l) = bnd (connect l) (\<lambda>_. close l)"

definition run_steps :: "gate_step list \<Rightarrow> (ctx, unit) act" where
  "run_steps steps = for_each steps run_step"

section \<open>The scenarios\<close>

definition ROOM_NAMES :: "pystr list" where
  "ROOM_NAMES = [lit ''ALICE'', lit ''BOB'', lit ''CAROL'', lit ''DAVE'']"

text \<open>\<open>c.expect(t)\<close>, one payload or one from each client, alike or by seat; \<open>c.send(frame(t, p))\<close>.\<close>

definition expects :: "pystr \<Rightarrow> byte \<Rightarrow> (bytes \<Rightarrow> exn + bool) \<Rightarrow> gate_step" where
  "expects l t check = Expects t [(l, check)] (\<lambda>_. Inr True)"

definition all_expect :: "pystr list \<Rightarrow> byte \<Rightarrow> (bytes \<Rightarrow> exn + bool) \<Rightarrow> gate_step list" where
  "all_expect ls t check = map (\<lambda>l. expects l t check) ls"

definition says :: "pystr \<Rightarrow> byte \<Rightarrow> bytes \<Rightarrow> gate_step" where
  "says l t p = Says l (cs_frame t p)"

definition joins :: "pystr \<Rightarrow> pystr \<Rightarrow> gate_step" where
  "joins l name = Says l (case cs_pad name of Inl e \<Rightarrow> Inl e | Inr b \<Rightarrow> cs_frame T_JOIN b)"

definition asks :: "pystr \<Rightarrow> (bytes \<Rightarrow> exn + bool) \<Rightarrow> gate_step list" where
  "asks l check = [says l T_LIST [], expects l T_LOBBY check]"

definition enters :: "pystr \<Rightarrow> gate_step list" where
  "enters l = [Opens l 2, expects l T_LOBBY anything]"

text \<open>1: HELLO and its refusal.\<close>

definition main_hello :: "pystr list \<Rightarrow> gate_step list" where
  "main_hello names =
     [Opens (lit ''ALICE'') 2, expects (lit ''ALICE'') T_LOBBY (byte_is 0 0),
      Opens (lit ''OLDGUY'') 1, Refused (lit ''OLDGUY''), Closes (lit ''OLDGUY'')] @
     map (\<lambda>n. Opens n 2) (tl names) @ all_expect (tl names) T_LOBBY anything @ enters (lit ''EVE'')"

text \<open>2 and 3: joins, the ROOM broadcast and the statuses; 7a.\<close>

definition room_is :: "nat \<Rightarrow> pystr list \<Rightarrow> bytes \<Rightarrow> exn + bool" where
  "room_is n names p = both (byte_is 0 n p) (roster_is 1 33 n (take n names) p)"

definition main_rooms :: "nat \<Rightarrow> pystr list \<Rightarrow> gate_step list" where
  "main_rooms cap names =
     (let eve = lit ''EVE''; alice = lit ''ALICE''; bob = lit ''BOB''
      in asks eve (status_is alice (st_byte cap 1)) @ [joins (names ! 1) alice] @
         all_expect (take 2 names) T_ROOM (room_is 2 names) @
         asks eve (status_is alice (st_byte cap 2)) @ asks eve (status_is bob (st_byte cap 2)) @
         (if 3 \<le> cap then joins (names ! 2) bob # all_expect (take 3 names) T_ROOM (room_is 3 names) else []) @
         concat (map (\<lambda>i. joins (names ! i) alice # all_expect (take (i + 1) names) T_ROOM (byte_is 0 (i + 1)))
           [3..<cap]) @
         asks eve (status_is alice (0x80 OR cap)) @ [joins eve alice, expects eve T_LOBBY anything])"

text \<open>4: START; 2b and 7b.\<close>

definition start_is :: "nat \<Rightarrow> pystr list \<Rightarrow> nat \<Rightarrow> bytes \<Rightarrow> exn + bool" where
  "start_is cap names k p =
     both (Inr (length p = 37)) (both (byte_is 0 k p) (both (byte_is 1 cap p)
       (both (byte_least 4 1 p) (roster_is 5 37 cap names p))))"

definition one_seed :: "bytes list \<Rightarrow> exn + bool" where
  "one_seed ps = Inr (length (remdups (map (\<lambda>p. (p ! 2, p ! 3)) ps)) = 1)"

definition main_start :: "nat \<Rightarrow> pystr list \<Rightarrow> gate_step list" where
  "main_start cap names =
     (let eve = lit ''EVE''; alice = lit ''ALICE''
      in [says (names ! 1) T_GO [], says (names ! 0) T_GO [],
          Expects T_START (map (\<lambda>(k, l). (l, start_is cap names k)) (List.enumerate 0 names)) one_seed] @
         asks eve (status_is alice (0x80 OR cap)) @ [joins eve alice, expects eve T_LOBBY anything])"

text \<open>5 and 6: the relay and the CRC rounds.\<close>

definition crc_of :: "pystr \<Rightarrow> nat \<Rightarrow> nat \<Rightarrow> nat \<Rightarrow> gate_step" where
  "crc_of l k tick v =
     says l T_CRC [of_nat k, of_nat (tick AND 0xFF), of_nat (drop_bit 8 tick), of_nat (v AND 0xFF), of_nat (drop_bit 8 v)]"

definition crc_round_of :: "pystr list \<Rightarrow> nat \<Rightarrow> (nat \<Rightarrow> nat) \<Rightarrow> gate_step list" where
  "crc_round_of names tick v =
     map (\<lambda>(k, l). crc_of l k tick (v k)) (List.enumerate 0 names) @
     concat (map (\<lambda>l. replicate (length names - 1) (expects l T_CRC anything)) names)"

definition main_play :: "pystr list \<Rightarrow> gate_step list" where
  "main_play names =
     (let inp = [0, 5, 0, 0x44, 0]; stt = [0, 0xFF, 9, 0]
      in [says (names ! 0) T_INPUT inp] @ all_expect (tl names) T_INPUT (\<lambda>p. Inr (p = inp)) @
         [Silent (names ! 0), says (names ! 0) T_STATE stt] @ all_expect (tl names) T_STATE (\<lambda>p. Inr (p = stt)) @
         concat (map (\<lambda>rnd. crc_round_of names (64 * (rnd + 1)) (\<lambda>_. 0xBEEF)) [0..<4]) @
         crc_round_of names 320 (\<lambda>k. if k = 1 then 0x2222 else 0x1111))"

text \<open>10: a player of a started room walks out.\<close>

definition left_is :: "nat \<Rightarrow> pystr \<Rightarrow> bytes \<Rightarrow> exn + bool" where
  "left_is k name p =
     both (byte_is 0 k p) (Inr (rstrip_nul (take 8 (drop 1 p)) = map of_nat name))"

definition main_leave :: "pystr list \<Rightarrow> gate_step list" where
  "main_leave names =
     (let eve = lit ''EVE''
      in [Closes (names ! 1)] @ all_expect (names ! 0 # drop 2 names) T_PEER_LEFT (left_is 1 (lit ''BOB'')) @
         asks eve (status_is (lit ''ALICE'') 1) @
         concat (map (\<lambda>n. asks eve (status_is n 1)) (drop 2 names)) @
         [Closes eve] @ map Closes (drop 2 names))"

text \<open>8 and 9: leaving a room before the match.\<close>

definition main_forming :: "nat \<Rightarrow> pystr list \<Rightarrow> gate_step list" where
  "main_forming cap names =
     (let alice = lit ''ALICE''; host = names ! 0; g1 = lit ''GUESTA''; g2 = lit ''GUESTB''; g3 = lit ''GUESTC''
      in enters g1 @ [joins g1 alice] @ all_expect [host, g1] T_ROOM anything @
         (if 3 \<le> cap
          then enters g2 @ [joins g2 alice] @ all_expect [host, g1, g2] T_ROOM anything @
               [Closes g1, expects host T_ROOM (room_is 2 [alice, g2]), expects g2 T_ROOM anything]
          else [Closes g1, expects host T_ROOM (byte_is 0 0)] @ enters g3 @ [joins g3 alice] @
               all_expect [host, g3] T_ROOM anything) @
         (let last = (if 3 \<le> cap then g2 else g3)
          in [Closes host, expects last T_ROOM (byte_is 0 0), Closes last]))"

definition scenario_main :: "nat \<Rightarrow> gate_step list" where
  "scenario_main cap =
     (let names = take cap ROOM_NAMES
      in main_hello names @ main_rooms cap names @ main_start cap names @ main_play names @
         main_leave names @ main_forming cap names)"

definition autogo_is :: "bytes list \<Rightarrow> exn + bool" where
  "autogo_is ps =
     both (byte_is 0 0 (ps ! 0)) (both (byte_is 0 1 (ps ! 1)) (both (byte_is 1 2 (ps ! 0)) (byte_is 1 2 (ps ! 1))))"

definition scenario_autogo :: "gate_step list" where
  "scenario_autogo =
     (let a = lit ''EVE''; b = lit ''FRANK''
      in enters a @ enters b @ [joins b a] @ all_expect [a, b] T_ROOM anything @
         [Expects T_START [(a, anything), (b, anything)] autogo_is, Closes a, Closes b])"

definition full_names :: "nat \<Rightarrow> pystr list" where
  "full_names cap = map (\<lambda>i. [80] @ dec_digits (i + 1) @ [65 + i, 65 + i]) [0..<cap]"

definition full_start :: "nat \<Rightarrow> pystr list \<Rightarrow> nat \<Rightarrow> bytes \<Rightarrow> exn + bool" where
  "full_start cap names k p =
     both (byte_is 0 k p) (both (byte_is 1 cap p) (roster_is 5 37 cap names p))"

definition scenario_full :: "nat \<Rightarrow> gate_step list" where
  "scenario_full cap =
     (let names = full_names cap; sender = cap - 1; msg = [of_nat sender, 7, 0, 0x40, 0]; e = lit ''PZZZ''
      in map (\<lambda>n. Opens n 2) names @ all_expect names T_LOBBY anything @
         map (\<lambda>n. joins n (names ! 0)) (tl names) @
         map (\<lambda>(k, n). Awaits T_START n (full_start cap names k)) (List.enumerate 0 names) @
         enters e @ [joins e (names ! 0), expects e T_LOBBY anything, says (names ! sender) T_INPUT msg] @
         all_expect (filter (\<lambda>n. n \<noteq> names ! sender) names) T_INPUT (\<lambda>p. Inr (p = msg)) @
         [Silent (names ! sender)] @ map Closes (names @ [e]))"

section \<open>The gate\<close>

text \<open>
  A scenario under \<open>try ... finally\<close>: the relay is started with the arguments, and whatever the
  scenario did, its output is searched in the end; a miss raises.
\<close>

definition gate_server :: "int \<Rightarrow> (cid \<Rightarrow> nat \<Rightarrow> send_outcome) \<Rightarrow> (nat \<Rightarrow> nat) \<Rightarrow> server" where
  "gate_server auto net rand = main_server (default_options\<lparr>op_port := 9139, op_auto_go := auto\<rparr>) net rand"

definition with_server ::
  "int \<Rightarrow> gate_step list \<Rightarrow> pystr list \<Rightarrow> (cid \<Rightarrow> nat \<Rightarrow> send_outcome) \<Rightarrow> (nat \<Rightarrow> nat) \<Rightarrow> (nat \<Rightarrow> nat) \<Rightarrow> exn + unit" where
  "with_server auto steps wants net rand port =
     (case run_steps (Knocks [] # steps) (new_ctx (gate_server auto net rand) port) of
        (r, x) \<Rightarrow> if list_all (\<lambda>w. logged w (cx_server x)) wants then r else Inl AssertionError)"

definition main_wants :: "pystr list" where
  "main_wants = [lit ''match: room'', lit ''CRC MISMATCH tick 320'', lit ''(4 rounds)'', lit ''peer left'']"

datatype gate_end = GateExit string | GateRaises exn | GatePass

text \<open>The command line, for the Python relay; \<open>SERVER=c\<close> runs a program that is not modelled.\<close>

definition then_go :: "exn + unit \<Rightarrow> gate_end \<Rightarrow> gate_end" where
  "then_go r k = (case r of Inl e \<Rightarrow> GateRaises e | Inr _ \<Rightarrow> k)"

definition gate :: "nat \<Rightarrow> (cid \<Rightarrow> nat \<Rightarrow> send_outcome) \<Rightarrow> (nat \<Rightarrow> nat) \<Rightarrow> (nat \<Rightarrow> nat) \<Rightarrow> gate_end" where
  "gate cap net rand port =
     (if \<not> (2 \<le> cap \<and> cap \<le> 4) then GateExit ''SEATS must be 2..4''
      else if cap \<noteq> 2 then GateExit ''this repo's Python server is pinned at MAX_SEATS=2''
      else
        then_go (with_server 0 (scenario_main cap) main_wants net rand port)
          (then_go (with_server 2 scenario_autogo [] net rand port)
            (then_go (with_server (int cap) (scenario_full cap) [] net rand port) GatePass)))"

end
