(* ===== verification/Ledger.thy ===== *)
theory Ledger
  imports Simulation LogText
begin

text \<open>
  What the lobby specification leaves out and the gate of \<open>tools/bbnet_client_sim.py\<close> looks at: the
  CRC table of a running match, and what the relay has logged. A match's table changes by its CRC
  reports and by nothing else, and starts empty.
\<close>

section \<open>Log lines\<close>

text \<open>The kinds of log line the gate greps for.\<close>

datatype mark = MarkStarted | MarkLeft | MarkAgreed nat | MarkMismatch nat

fun mark_of :: "log_event \<Rightarrow> mark option" where
  "mark_of (LStarted ns n seed) = Some MarkStarted"
| "mark_of (LBackToLobby c) = Some MarkLeft"
| "mark_of (LCrcOk tick ok) = Some (MarkAgreed ok)"
| "mark_of (LMismatch tick rs) = Some (MarkMismatch tick)"
| "mark_of e = None"

definition marked :: "mark \<Rightarrow> server \<Rightarrow> bool" where
  "marked m s \<longleftrightarrow> (\<exists>e \<in> set (sv_log s). mark_of e = Some m)"

lemma marked_grows: "marked m s \<Longrightarrow> sv_log t = sv_log s @ l \<Longrightarrow> marked m t"
  by (auto simp: marked_def)

lemma marked_evolves: "marked m s \<Longrightarrow> evolves s t \<Longrightarrow> marked m t"
  unfolding evolves_def using marked_grows by blast

lemma marked_calm: "marked m s \<Longrightarrow> calm s t \<Longrightarrow> marked m t"
  using marked_evolves calm_evolves by blast

lemma marked_log [simp]: "marked m (add_log e s) \<longleftrightarrow> marked m s \<or> mark_of e = Some m"
  by (auto simp: marked_def)

lemma marked_lobby [simp]: "marked m (lobby_update s) \<longleftrightarrow> marked m s"
  by (simp add: marked_def)

section \<open>CRC tables\<close>

text \<open>The table of a room whose match has not started is empty.\<close>

definition blank :: "server \<Rightarrow> bool" where
  "blank s \<longleftrightarrow>
     (\<forall>r. \<not> rm_started (sv_room s r) \<longrightarrow> rm_crc (sv_room s r) = [] \<and> rm_crc_ok (sv_room s r) = 0)"

lemma blankD: "blank s \<Longrightarrow> \<not> rm_started (sv_room s r) \<Longrightarrow> rm_crc (sv_room s r) = [] \<and> rm_crc_ok (sv_room s r) = 0"
  by (simp add: blank_def)

lemma blank_calm: "calm s t \<Longrightarrow> blank s \<longrightarrow> blank t"
  by (simp add: calm_def blank_def)

lemma keeps_blank: "keeps calm m \<Longrightarrow> keeps (\<lambda>s t. blank s \<longrightarrow> blank t) m"
  unfolding keeps_def using blank_calm by blast

interpretation clean: talker "\<lambda>s t. blank s \<longrightarrow> blank t"
proof (intro talker.intro talker_axioms.intro sender.intro preorder_rel.intro sender_axioms.intro)
  show "keeps (\<lambda>s t. blank s \<longrightarrow> blank t) (transmit c d)" for c d by (intro keeps_blank drops.send_calm)
  show "keeps (\<lambda>s t. blank s \<longrightarrow> blank t) (remove_member c r)" for c r by (intro keeps_blank calm_remove_member)
  show "keeps (\<lambda>s t. blank s \<longrightarrow> blank t) (drop_client c w)" for c w by (intro keeps_blank drops.drp_calm)
  show "blank s \<longrightarrow> blank (drop_alias c n s)" for c n s
    by (simp add: drop_alias_def Let_def blank_def split: option.split)
  show "blank s \<longrightarrow> blank (set_name c n s)" for c n s by (simp add: set_name_def Let_def blank_def)
  show "blank s \<longrightarrow> blank (begin_match r s)" for r s by (simp add: begin_match_def upd_room_def blank_def)
  show "blank s \<longrightarrow> blank (make_room t s)" for t s by (simp add: make_room_def Let_def blank_def new_room_def)
  show "blank s \<longrightarrow> blank (enter_room c r s)" for c r s by (simp add: enter_room_def Let_def blank_def)
  show "blank s \<longrightarrow> blank (upd_client c (\<lambda>cl. cl\<lparr>cl_room := None\<rparr>) s)" for c s by (simp add: blank_def)
qed (use blank_calm calm_log calm_lobby calm_detach calm_clear calm_mark_dead calm_forget_names in blast)+

lemma blank_log_crc: "blank s \<Longrightarrow> rm_started (sv_room s r) \<Longrightarrow> blank (log_crc r p s)"
proof -
  assume s: "blank s" "rm_started (sv_room s r)"
  obtain rm ls where c: "crc_round (length (members s r)) p (sv_room s r) = (rm, ls)" by fastforce
  then have "rm_started rm" using s(2) crc_round_started [of "length (members s r)" p "sv_room s r"] by simp
  moreover have "sv_room (log_crc r p s) = (sv_room s)(r := rm)"
    using c by (simp add: log_crc_def fold_add_log upd_room_def)
  ultimately show ?thesis using s(1) by (simp add: blank_def)
qed

lemma blank_relay: "blank s \<Longrightarrow> blank (snd (relay c ftype p s))"
proof (cases "\<exists>r. room_of s c = Some r \<and> rm_started (sv_room s r)")
  case False
  then have "snd (relay c ftype p s) = s" by (auto simp: relay_def ret_def split: option.split)
  then show "blank s \<Longrightarrow> ?thesis" by simp
next
  case True
  assume s: "blank s"
  from True obtain r where r: "room_of s c = Some r" "rm_started (sv_room s r)" by blast
  let ?s = "crc_step ftype r p s"
  let ?rest = "bnd (lift (frame ftype p)) (\<lambda>data. for_members r (\<lambda>_ m. guarded (m \<noteq> c) (transmit m data)))"
  have "blank ?s" using s blank_log_crc r(2) by (simp add: crc_step_def)
  moreover have k: "keeps (\<lambda>s t. blank s \<longrightarrow> blank t) ?rest"
    by (intro clean.kp_bnd clean.kp_lift clean.kp_for_members clean.kp_guarded clean.send_R)
  moreover have "relay c ftype p s = ?rest ?s"
    using r by (simp add: relay_def crc_step_def bnd_run [of "guarded _ _"] guarded_def modify_def ret_def)
  moreover have "blank ?s \<longrightarrow> blank (snd (?rest ?s))" by (rule keepsD [OF k])
  ultimately show ?thesis by simp
qed

lemma blank_handle_frame: "blank s \<Longrightarrow> blank (snd (handle_frame c body s))"
proof -
  assume s: "blank s"
  obtain r t where h: "handle c (hd body) (tl body) s = (r, t)" by fastforce
  have "blank (snd (handle c (hd body) (tl body) s))"
  proof (cases "hd body \<in> set RELAY_TYPES")
    case True
    then show ?thesis using blank_relay [OF s] by (simp add: handle_def)
  next
    case False
    then have "keeps (\<lambda>s t. blank s \<longrightarrow> blank t) (handle c (hd body) (tl body))"
      unfolding handle_def
      by (auto intro!: clean.kp_on_hello clean.kp_on_list clean.kp_on_join clean.kp_on_go clean.drop_R
          clean.kp_send_lift clean.kp_throw)
    from keepsD [OF this, of s] s show ?thesis by blast
  qed
  then have "blank t" using h by simp
  moreover have "blank (snd (bnd (drop_client c w) (\<lambda>_. ret False) t))" if "blank t" for w
    using keepsD [OF clean.kp_bnd [OF clean.drop_R clean.kp_ret], of t c w "\<lambda>_. False"] that by simp
  ultimately show ?thesis using h by (auto simp: handle_frame_def split: sum.split exn.split)
qed

section \<open>A running match\<close>

text \<open>The host and the guest of a match with its table and its count of agreed rounds.\<close>

definition in_match :: "server \<Rightarrow> cid \<Rightarrow> cid \<Rightarrow> (nat, crc_entry) pydict \<Rightarrow> nat \<Rightarrow> bool" where
  "in_match s h g crc ok \<longleftrightarrow> h \<noteq> g \<and> h < sv_nclient s \<and> g < sv_nclient s \<and>
     (\<exists>r. room_of s h = Some r \<and> room_of s g = Some r \<and> members s r = [h, g] \<and>
        rm_started (sv_room s r) \<and> rm_crc (sv_room s r) = crc \<and> rm_crc_ok (sv_room s r) = ok)"

lemma undisturbed_match: "undisturbed s t \<Longrightarrow> in_match s h g crc ok \<Longrightarrow> in_match t h g crc ok"
  by (simp add: in_match_def undisturbed_def members_def)

lemma match_table: "in_match s h g crc ok \<Longrightarrow> INV s \<Longrightarrow> c < sv_nclient s \<Longrightarrow> c = h \<or> c = g \<Longrightarrow>
  table_of s c = Some (h, g, True)"
  by (auto simp: in_match_def table_of_def)

text \<open>The verdict on a report, as \<open>crc_round\<close> gives it in a room of two.\<close>

definition page :: "(nat, crc_entry) pydict \<Rightarrow> nat \<Rightarrow> room" where
  "page crc ok = \<lparr> rm_members = [], rm_started = True, rm_seed = 0, rm_crc = crc, rm_crc_ok = ok \<rparr>"

lemma crc_round_page:
  "crc_round n p rm =
     (let (rm', ls) = crc_round n p (page (rm_crc rm) (rm_crc_ok rm))
      in (rm\<lparr>rm_crc := rm_crc rm', rm_crc_ok := rm_crc_ok rm'\<rparr>, ls))"
  by (cases rm) (simp add: crc_round_def page_def Let_def split: prod.split)

lemma log_crc_match:
  assumes m: "in_match s h g crc ok" and r: "room_of s h = Some r" and v: "crc_round 2 p (page crc ok) = (rm, ls)"
  shows "in_match (log_crc r p s) h g (rm_crc rm) (rm_crc_ok rm)" "set ls \<subseteq> set (sv_log (log_crc r p s))"
proof -
  have mem: "members s r = [h, g]" "rm_crc (sv_room s r) = crc" "rm_crc_ok (sv_room s r) = ok"
    "rm_started (sv_room s r)" "room_of s g = Some r" "h \<noteq> g" "h < sv_nclient s" "g < sv_nclient s"
    using m r by (auto simp: in_match_def)
  then have c: "crc_round (length (members s r)) p (sv_room s r) =
      ((sv_room s r)\<lparr>rm_crc := rm_crc rm, rm_crc_ok := rm_crc_ok rm\<rparr>, ls)"
    using crc_round_page [of 2 p "sv_room s r"] v by (simp add: numeral_2_eq_2)
  then show "set ls \<subseteq> set (sv_log (log_crc r p s))" by (simp add: log_crc_def fold_add_log)
  show "in_match (log_crc r p s) h g (rm_crc rm) (rm_crc_ok rm)"
    using c mem r by (auto simp: in_match_def log_crc_def fold_add_log upd_room_def access_defs)
qed

text \<open>GO starts one, with an empty table.\<close>

lemma go_match:
  assumes t: "tidy s" and c: "\<not> is_dead s c" and b: "blank s" and tb: "table_of s c = Some (c, g, False)"
  shows "\<exists>u. on_go c s = (Inr (), u) \<and> in_match u c g [] 0 \<and> marked MarkStarted u"
proof -
  note inv = tidyD(1) [OF t]
  have lt: "c < sv_nclient s" using c by (simp add: is_dead_def)
  obtain r where r: "room_of s c = Some r" using tb by (auto simp: table_of_def split: option.splits if_splits)
  obtain h g' where tp: "table_of s c = Some (h, g', rm_started (sv_room s r))" "members s r = [h, g']"
    "h \<noteq> g'" "c = h \<or> c = g'" "room_of s h = Some r" "room_of s g' = Some r"
    "h < sv_nclient s" "g' < sv_nclient s" "name_of s h \<noteq> None" "name_of s g' \<noteq> None"
    by (rule table_pair [OF inv lt r])
  then have hg: "h = c" "g' = g" "\<not> rm_started (sv_room s r)" using tb by simp_all
  have live: "\<not> is_dead s h" "\<not> is_dead s g'" using tidyD(6) [OF t] tp by blast+
  obtain x y where xy: "name_of s h = Some x" "name_of s g' = Some y" using tp(9,10) by blast
  from start_run [OF inv tidyD(3,4,2) [OF t] lt r tp(2) live xy refl] obtain u where u:
    "start_room r s = (Inr (), lobby_update (add_log (LStarted (room_repr u r) (length (members u r)) (rm_seed (sv_room u r))) u))"
    "undisturbed (begin_match r s) u" by blast
  have "seat s c = Inr (Some 0)" using r tp(2) hg by (simp add: seat_def)
  then have "on_go c s = start_room r s" using r tp(2) hg(3) by (simp add: on_go_def MAX_SEATS_def)
  moreover have "in_match (begin_match r s) c g [] 0"
    using tp hg blankD [OF b, of r] by (auto simp: in_match_def begin_match_def upd_room_def access_defs)
  then have "in_match u c g [] 0" by (rule undisturbed_match [OF u(2)])
  ultimately show ?thesis using u(1) by (simp add: in_match_def access_defs)
qed

text \<open>The relay counts the reports of the two; what others send, it does not touch.\<close>

lemma relay_match:
  assumes t: "tidy s" and c: "\<not> is_dead s c" and len: "length p \<le> 199" and m: "in_match s h g crc ok"
    and who: "c = h \<or> c = g \<or> room_of s c = None"
  shows "\<exists>u. relay c ftype p s = (Inr (), u) \<and>
    (if room_of s c \<noteq> None \<and> ftype = T_CRC \<and> length p = 5
     then in_match u h g (rm_crc (fst (crc_round 2 p (page crc ok)))) (rm_crc_ok (fst (crc_round 2 p (page crc ok)))) \<and>
       (\<forall>e \<in> set (snd (crc_round 2 p (page crc ok))). e \<in> set (sv_log u))
     else in_match u h g crc ok)"
proof -
  obtain u where u: "relay c ftype p s = (Inr (), u)"
    "case room_of s c of None \<Rightarrow> u = s
     | Some r \<Rightarrow> if rm_started (sv_room s r) then undisturbed (crc_step ftype r p s) u else u = s"
    using relay_accepted [OF t c len, of ftype 0] by blast
  show ?thesis
  proof (cases "room_of s c")
    case None
    with u m show ?thesis by simp
  next
    case (Some r)
    have r: "room_of s h = Some r" "rm_started (sv_room s r)" using m who Some by (auto simp: in_match_def)
    have und: "undisturbed (crc_step ftype r p s) u" using u(2) Some r(2) by simp
    show ?thesis
    proof (cases "ftype = T_CRC \<and> length p = 5")
      case False
      then show ?thesis using u(1) undisturbed_match [OF und] m by (auto simp: crc_step_def)
    next
      case True
      let ?f = "\<lambda>_ x. guarded (x \<noteq> c) (transmit x (wire_of (ftype # p)))"
      obtain rm ls where v: "crc_round 2 p (page crc ok) = (rm, ls)" by fastforce
      note lm = log_crc_match [OF m r(1) v]
      have "for_members r ?f (log_crc r p s) = (Inr (), u)"
        using u(1) relay_unfold [OF Some r(2)] len True by (simp add: crc_step_def)
      moreover have "keeps evolves (for_members r ?f)"
        by (intro ev.kp_for_members evolves.kp_guarded ev.send_R)
      ultimately have "evolves (log_crc r p s) u" using keepsD [of evolves "for_members r ?f" "log_crc r p s"] by simp
      then have "set ls \<subseteq> set (sv_log u)" using lm(2) by (auto simp: evolves_def)
      moreover have "in_match u h g (rm_crc rm) (rm_crc_ok rm)"
        using undisturbed_match [OF und] lm(1) True by (simp add: crc_step_def)
      ultimately show ?thesis using u(1) v Some True by auto
    qed
  qed
qed

text \<open>The end of one is logged.\<close>

lemma end_match_marks:
  assumes "end_match drp c r st s = (Inr (), t)" "members s r = [m]"
  shows "marked MarkLeft t"
proof -
  let ?s1 = "add_log (LMatchEnded (rm_crc_ok (sv_room s r)) (client_repr s c) st) s"
  have mem: "members ?s1 r = [m]" using assms(2) by simp
  obtain d where d: "peer_left ?s1 c st = Inr d"
    using assms(1) by (cases "peer_left ?s1 c st") (simp_all add: end_match_def act_run)
  obtain q u where u: "send drp m d (clear_members r (detach_members r ?s1)) = (q, u)" by fastforce
  have "(Inr (), t) = (case q of Inl e \<Rightarrow> (Inl e, u) | Inr x \<Rightarrow> (Inr (), add_log (LBackToLobby (client_repr u m)) u))"
    using assms(1) mem d u by (cases q) (auto simp: end_match_def dissolve_nobody act_run)
  then show ?thesis by (auto split: sum.splits)
qed

lemma drop_marks:
  assumes m: "in_match s h g crc ok" and c: "c = h \<or> c = g" and live: "\<not> is_dead s c"
    and run: "drop_client c w s = (Inr (), t)"
  shows "marked MarkLeft t"
proof -
  obtain r where r: "h \<noteq> g" "room_of s h = Some r" "room_of s g = Some r" "members s r = [h, g]" "rm_started (sv_room s r)"
    using m by (auto simp: in_match_def)
  let ?s = "forget_names c (mark_dead c w s)"
  define st :: nat where "st = (if c = h then 0 else 1)"
  have mem: "members ?s r = [h, g]" using r by simp
  have started: "rm_started (sv_room ?s r)" using r by (simp add: mark_dead_def Let_def)
  have "drop_client c w s = leave_room drop_client c r ?s" using live c r by (auto simp: drop_unfold_live)
  moreover have "list_index (members ?s r) c = Inr st" "c \<in> set (members ?s r)" using mem c r(1) by (auto simp: st_def)
  moreover have "rm_started (sv_room (depart c r ?s) r)" using started by (simp add: depart_def upd_room_def)
  ultimately obtain u where u: "end_match drop_client c r st (depart c r ?s) = (Inr (), u)" "t = lobby_update u"
    using run by (auto simp: leave_room_def depart_run bnd_run [of "if _ then _ else _"] bnd_run [of "end_match _ _ _ _"] modify_def
      split: sum.splits prod.splits)
  have "members (depart c r ?s) r = [if c = h then g else h]" using mem c r(1) by auto
  from end_match_marks [OF u(1) this] u(2) show ?thesis by simp
qed

section \<open>Following one match\<close>

text \<open>
  The match followed, if any, and what a command of \<open>c\<close> does to it. What is not followed any more
  is forgotten, so that the rules can be few.
\<close>

type_synonym followed = "(nat \<times> nat \<times> (nat, crc_entry) pydict \<times> nat) option"

definition tracked :: "server \<Rightarrow> followed \<Rightarrow> bool" where
  "tracked s f \<longleftrightarrow> (case f of None \<Rightarrow> True | Some (h, g, crc, ok) \<Rightarrow> in_match s h g crc ok)"

definition refuses :: "lobby \<Rightarrow> nat \<Rightarrow> pystr \<Rightarrow> bool" where
  "refuses a c n \<longleftrightarrow> nick a c \<noteq> None \<and>
     (lb_table a c \<noteq> None \<or> (case holder a n of None \<Rightarrow> True | Some t \<Rightarrow> t = c \<or> lb_table a t \<noteq> None))"

definition marks_of :: "log_event list \<Rightarrow> mark list" where
  "marks_of es = concat (map (\<lambda>e. case mark_of e of None \<Rightarrow> [] | Some m \<Rightarrow> [m]) es)"

definition after_command :: "nat \<Rightarrow> command \<Rightarrow> lobby \<Rightarrow> followed \<Rightarrow> followed \<times> mark list" where
  "after_command c cmd a f =
     (case cmd of
        CmdHello n \<Rightarrow> if holder a n = None then (f, []) else (None, [])
      | CmdGo \<Rightarrow>
          (case lb_table a c of
             Some (h, g, False) \<Rightarrow> if c = h then (Some (h, g, [], 0), [MarkStarted]) else (f, [])
           | _ \<Rightarrow> (f, []))
      | CmdList \<Rightarrow> (f, [])
      | CmdJoin n \<Rightarrow> if refuses a c n then (f, []) else (None, [])
      | CmdRelay t p \<Rightarrow>
          (case f of
             None \<Rightarrow> (None, [])
           | Some (h, g, crc, ok) \<Rightarrow>
               if c = h \<or> c = g then
                 (if t = T_CRC \<and> length p = 5
                  then (let (rm, es) = crc_round 2 p (page crc ok)
                        in (Some (h, g, rm_crc rm, rm_crc_ok rm), marks_of es))
                  else (f, []))
               else if lb_table a c = None then (f, []) else (None, []))
      | _ \<Rightarrow> (None, []))"

lemma tracked_undisturbed: "undisturbed s t \<Longrightarrow> tracked s f \<Longrightarrow> tracked t f"
  by (auto simp: tracked_def undisturbed_match split: option.splits)

lemma marks_of_logged: "set es \<subseteq> set (sv_log s) \<Longrightarrow> m \<in> set (marks_of es) \<Longrightarrow> marked m s"
  by (force simp: marks_of_def marked_def split: option.splits)

lemma join_refused:
  assumes t: "tidy s" and c: "\<not> is_dead s c" and r: "refuses (lobby_of s) c (rstrip_pad (decode_ascii p))"
  shows "\<exists>u. on_join c p s = (Inr (), u) \<and> undisturbed s u"
proof -
  let ?z = "rstrip_pad (decode_ascii p)"
  note inv = tidyD(1) [OF t]
  have lt: "c < sv_nclient s" using c by (simp add: is_dead_def)
  have named: "name_of s c \<noteq> None" using r nick_lobby [OF t lt c] by (simp add: refuses_def)
  show ?thesis
  proof (cases "room_of s c")
    case (Some r)
    then have "on_join c p s = (Inr (), s)" using named by (auto simp: on_join_def ret_def)
    then show ?thesis by (simp add: undisturbed_def)
  next
    case None
    then have free: "table_of s c = None" using table_None [OF inv lt] by simp
    have "unjoinable s c (dget (sv_by_name s) ?z)"
    proof (cases "dget (sv_by_name s) ?z")
      case (Some q)
      then have entry: "(?z, q) \<in> set (sv_by_name s)" by (rule dget_Some_in)
      have q: "q < sv_nclient s" using names_ok_entry [OF INV_D(1) [OF inv] entry] by blast
      have "q = c \<or> table_of s q \<noteq> None" using r Some free by (simp add: refuses_def holder_def dget_holder)
      moreover have "unjoinable s c (Some q)" if "table_of s q \<noteq> None"
      proof -
        have "room_of s q \<noteq> None" using that table_None [OF inv q] by (cases "room_of s q") simp_all
        then obtain r where r: "room_of s q = Some r" by blast
        from rooms_okD [OF INV_D(4) [OF inv] q r] have "MAX_SEATS \<le> length (members s r)"
          by (simp add: MAX_SEATS_def)
        with r show ?thesis by (simp add: unjoinable_def)
      qed
      ultimately show ?thesis using Some by (auto simp: unjoinable_def)
    qed (simp add: unjoinable_def)
    then have "on_join c p s = on_list c s" using None named by (auto simp: on_join_def)
    with on_list_accepted [OF t c, of 0] show ?thesis by auto
  qed
qed

lemma hello_match:
  assumes t: "tidy s" and c: "\<not> is_dead s c" and n: "hello_name p = Inr n" "holder (lobby_of s) n = None"
    and f: "tracked s f"
  shows "\<exists>u. on_hello c p s = (Inr (), u) \<and> tracked u f"
proof -
  have "sv_room (renamed c n s) = sv_room s"
    by (simp add: renamed_def set_name_def drop_alias_def Let_def split: option.split)
  then have "in_match (lobby_update (renamed c n s)) h g crc ok" if "in_match s h g crc ok" for h g crc ok
    using that by (auto simp: in_match_def)
  then have "tracked (lobby_update (renamed c n s)) f" using f by (auto simp: tracked_def split: option.split)
  moreover obtain u where "on_hello c p s = (Inr (), u)" "undisturbed (lobby_update (renamed c n s)) u"
    using on_hello_accepted [OF t c n(1), of 0] n(2) by blast
  ultimately show ?thesis using tracked_undisturbed by blast
qed

lemma go_ignored:
  assumes t: "tidy s" and c: "\<not> is_dead s c" and no: "\<And>g. table_of s c \<noteq> Some (c, g, False)"
  shows "on_go c s = (Inr (), s)"
proof -
  note inv = tidyD(1) [OF t]
  have lt: "c < sv_nclient s" using c by (simp add: is_dead_def)
  show ?thesis
  proof (cases "room_of s c")
    case None
    then show ?thesis by (simp add: on_go_def ret_def)
  next
    case (Some r)
    obtain h g where tb: "table_of s c = Some (h, g, rm_started (sv_room s r))" "members s r = [h, g]"
      "h \<noteq> g" "c = h \<or> c = g" "room_of s h = Some r" "room_of s g = Some r"
      "h < sv_nclient s" "g < sv_nclient s" "name_of s h \<noteq> None" "name_of s g \<noteq> None"
      by (rule table_pair [OF inv lt Some])
    then have "seat s c = Inr (Some (if c = h then 0 else 1))" using Some by (auto simp: seat_def)
    moreover have "rm_started (sv_room s r) \<or> c \<noteq> h" using tb(1) no by auto
    ultimately show ?thesis using Some by (auto simp: on_go_def ret_def lift_def act_run)
  qed
qed

lemma after_go:
  assumes t: "tidy s" and c: "\<not> is_dead s c" and b: "blank s" and f: "tracked s f"
    and a: "after_command c CmdGo (lobby_of s) f = (f', new)" and run: "on_go c s = (Inr (), u)"
  shows "tracked u f' \<and> (\<forall>m \<in> set new. marked m u)"
proof (cases "\<exists>g. table_of s c = Some (c, g, False)")
  case True
  then obtain g where "table_of s c = Some (c, g, False)" by blast
  with go_match [OF t c b this] a run show ?thesis by (auto simp: after_command_def tracked_def)
next
  case False
  then have "u = s" using go_ignored [OF t c] run by simp
  with False a f show ?thesis by (auto simp: after_command_def split: option.splits prod.splits if_splits bool.splits)
qed

lemma after_relay:
  assumes t: "tidy s" and c: "\<not> is_dead s c" and len: "length p \<le> 199" and f: "tracked s f"
    and a: "after_command c (CmdRelay ft p) (lobby_of s) f = (f', new)" and run: "relay c ft p s = (Inr (), u)"
  shows "tracked u f' \<and> (\<forall>m \<in> set new. marked m u)"
proof (cases "f' = None")
  case True
  then have "new = []" using a by (auto simp: after_command_def Let_def split: option.splits prod.splits if_splits)
  with True show ?thesis by (simp add: tracked_def)
next
  case False
  then obtain h g crc ok where m: "f = Some (h, g, crc, ok)" "in_match s h g crc ok"
    using a f by (cases f) (auto simp: after_command_def tracked_def split: option.splits prod.splits)
  have lt: "c < sv_nclient s" using c by (simp add: is_dead_def)
  have who: "c = h \<or> c = g \<or> room_of s c = None"
    using False a m(1) table_None [OF tidyD(1) [OF t] lt] by (auto simp: after_command_def split: if_splits)
  have seated: "room_of s c \<noteq> None \<longleftrightarrow> c = h \<or> c = g" using who m(2) by (auto simp: in_match_def)
  obtain rm es where v: "crc_round 2 p (page crc ok) = (rm, es)" by fastforce
  from relay_match [OF t c len m(2) who, of ft] run seated v have
    "if (c = h \<or> c = g) \<and> ft = T_CRC \<and> length p = 5
     then in_match u h g (rm_crc rm) (rm_crc_ok rm) \<and> set es \<subseteq> set (sv_log u) else in_match u h g crc ok"
    by (auto simp: subset_iff)
  with a m(1) v False marks_of_logged show ?thesis
    by (auto simp: after_command_def tracked_def split: if_splits)
qed

text \<open>Whatever frame it is.\<close>

lemma after_frame:
  assumes t: "tidy s" and c: "\<not> is_dead s c" and len: "length body \<le> 200" and b: "blank s" and f: "tracked s f"
    and a: "after_command c (parse (hd body) (tl body)) (lobby_of s) f = (f', new)"
    and run: "handle_frame c body s = (Inr x, u)"
  shows "tracked u f' \<and> (\<forall>m \<in> set new. marked m u)"
proof -
  note kinds = const_defs RELAY_TYPES_def
  let ?t = "hd body" and ?p = "tl body"
  have forgot: ?thesis if "f' = None" "new = []" using that by (simp add: tracked_def)
  have step: "v = u" if "handle c ?t ?p s = (Inr (), v)" for v using run that by (simp add: handle_frame_def)
  consider (relay) "?t \<in> set RELAY_TYPES" | (lists) "?t = T_LIST" | (join) "?t = T_JOIN" | (go) "?t = T_GO"
    | (hello) "?t = T_HELLO"
    | (other) "?t \<notin> set RELAY_TYPES" "?t \<noteq> T_LIST" "?t \<noteq> T_JOIN" "?t \<noteq> T_GO" "?t \<noteq> T_HELLO" by blast
  then show ?thesis
  proof cases
    case relay
    have len': "length ?p \<le> 199" using len by simp
    obtain v where v: "relay c ?t ?p s = (Inr (), v)" using relay_accepted [OF t c len', of ?t 0] by blast
    then have "v = u" using step relay by (simp add: handle_def)
    moreover have "after_command c (CmdRelay ?t ?p) (lobby_of s) f = (f', new)" using a relay by (simp add: parse_def)
    ultimately show ?thesis using after_relay [OF t c len' f] v by blast
  next
    case lists
    obtain v where v: "on_list c s = (Inr (), v)" "undisturbed s v" using on_list_accepted [OF t c, of 0] by blast
    then have "v = u" using step lists by (simp add: handle_def kinds)
    moreover have "f' = f" "new = []" using a lists by (simp_all add: parse_def after_command_def kinds)
    ultimately show ?thesis using tracked_undisturbed [OF v(2) f] by simp
  next
    case join
    show ?thesis
    proof (cases "refuses (lobby_of s) c (rstrip_pad (decode_ascii ?p))")
      case True
      obtain v where v: "on_join c ?p s = (Inr (), v)" "undisturbed s v" using join_refused [OF t c True] by blast
      then have "v = u" using step join by (simp add: handle_def kinds)
      moreover have "f' = f" "new = []" using a join True by (simp_all add: parse_def after_command_def kinds)
      ultimately show ?thesis using tracked_undisturbed [OF v(2) f] by simp
    next
      case False
      then show ?thesis using a join by (intro forgot) (simp_all add: parse_def after_command_def kinds)
    qed
  next
    case go
    obtain v where v: "on_go c s = (Inr (), v)"
      using go_match [OF t c b] go_ignored [OF t c] by (cases "\<exists>g. table_of s c = Some (c, g, False)") blast+
    then have "v = u" using step go by (simp add: handle_def kinds)
    moreover have "after_command c CmdGo (lobby_of s) f = (f', new)" using a go by (simp add: parse_def kinds)
    ultimately show ?thesis using after_go [OF t c b f] v by blast
  next
    case hello
    show ?thesis
    proof (cases "\<exists>n. hello_name ?p = Inr n \<and> holder (lobby_of s) n = None")
      case True
      then obtain n where n: "hello_name ?p = Inr n" "holder (lobby_of s) n = None" by blast
      from hello_match [OF t c n f] obtain v where v: "on_hello c ?p s = (Inr (), v)" "tracked v f" by blast
      then have "v = u" using step hello by (simp add: handle_def kinds)
      moreover have "parse ?t ?p = CmdHello n"
        using n(1) hello by (simp add: parse_def parse_hello_def hello_name_def kinds Let_def split: if_splits)
      then have "f' = f" "new = []" using a n(2) by (simp_all add: after_command_def)
      ultimately show ?thesis using v(2) by simp
    next
      case False
      then show ?thesis
        using a hello by (intro forgot)
          (auto simp: parse_def parse_hello_def hello_name_def after_command_def kinds Let_def split: if_splits)
    qed
  next
    case other
    then have "parse ?t ?p \<in> {CmdBye, CmdPing, CmdBad}"
      by (auto simp: parse_def Let_def)
    then show ?thesis using a by (intro forgot) (auto simp: after_command_def)
  qed
qed

text \<open>When one of the two leaves, that is logged.\<close>

definition after_exit :: "nat \<Rightarrow> followed \<Rightarrow> followed \<times> mark list" where
  "after_exit c f =
     (None, case f of None \<Rightarrow> [] | Some (h, g, crc, ok) \<Rightarrow> if c = h \<or> c = g then [MarkLeft] else [])"

lemma after_drop:
  assumes "tracked s f" "after_exit c f = (f', new)" "\<not> is_dead s c" "drop_client c w s = (Inr (), u)"
  shows "tracked u f' \<and> (\<forall>m \<in> set new. marked m u)"
  using assms drop_marks [OF _ _ assms(3,4)]
  by (auto simp: after_exit_def tracked_def split: option.splits if_splits)

text \<open>A new connection changes nothing of this.\<close>

lemma enter_ledger:
  "blank s \<Longrightarrow> blank (add_client a now s)" "tracked s f \<Longrightarrow> tracked (add_client a now s) f"
  "marked m s \<Longrightarrow> marked m (add_client a now s)"
proof -
  show "blank s \<Longrightarrow> blank (add_client a now s)" by (simp add: blank_def)
  show "tracked s f \<Longrightarrow> tracked (add_client a now s) f"
    by (auto simp: tracked_def in_match_def split: option.split)
  show "marked m s \<Longrightarrow> marked m (add_client a now s)"
    by (simp add: add_client_def Let_def) (simp add: marked_def)
qed

end
