(* ===== verification/Rehearsal.thy ===== *)
theory Rehearsal
  imports Gate Ledger
begin

text \<open>
  The steps of the protocol gate, played on the specification of \<open>Lobby\<close> instead of the relay:
  every client has a mailbox with the messages the specification sent it. Playing is a function,
  cheap to evaluate; a script that can be played passes against the relay itself, over any
  accepting sockets (\<open>played_passes\<close>).
\<close>

section \<open>The stage\<close>

text \<open>
  The clients opened so far, in order, with their connections; those that were closed; the
  mailboxes; and the match followed, with the marks known to be in the log.
\<close>

record stage =
  sg_lobby :: lobby
  sg_next :: nat
  sg_cast :: "(pystr \<times> nat) list"
  sg_gone :: "pystr list"
  sg_mail :: "nat \<Rightarrow> message list"
  sg_match :: followed
  sg_marks :: "mark list"

fun put_mail :: "(nat \<times> message) list \<Rightarrow> (nat \<Rightarrow> message list) \<Rightarrow> nat \<Rightarrow> message list" where
  "put_mail [] f = f"
| "put_mail ((c, m) # out) f = put_mail out (f(c := f c @ [m]))"

definition deliver :: "outcome \<Rightarrow> stage \<Rightarrow> stage" where
  "deliver out g = g\<lparr>sg_lobby := fst out, sg_mail := put_mail (snd out) (sg_mail g)\<rparr>"

definition enter_stage :: "pystr \<Rightarrow> stage \<Rightarrow> stage" where
  "enter_stage l g =
     g\<lparr>sg_lobby := (sg_lobby g)\<lparr>lb_up := (lb_up (sg_lobby g))(sg_next g := True)\<rparr>,
       sg_next := Suc (sg_next g), sg_cast := sg_cast g @ [(l, sg_next g)]\<rparr>"

definition record_match :: "followed \<times> mark list \<Rightarrow> stage \<Rightarrow> stage" where
  "record_match x g = g\<lparr>sg_match := fst x, sg_marks := snd x @ sg_marks g\<rparr>"

definition speak :: "(nat \<Rightarrow> nat) \<Rightarrow> bool \<Rightarrow> nat \<Rightarrow> bytes \<Rightarrow> stage \<Rightarrow> stage" where
  "speak rand auto c body g =
     (if lb_up (sg_lobby g) c
      then (let cmd = parse (hd body) (tl body)
            in record_match (after_command c cmd (sg_lobby g) (sg_match g)) (deliver (obey rand auto c cmd (sg_lobby g)) g))
      else g)"

definition exit_stage :: "nat \<Rightarrow> stage \<Rightarrow> stage" where
  "exit_stage c g =
     (if lb_up (sg_lobby g) c
      then record_match (after_exit c (sg_match g)) (deliver (leave_lobby c (sg_lobby g)) g) else g)"

definition present :: "stage \<Rightarrow> pystr \<Rightarrow> nat option" where
  "present g l = (if l \<in> set (sg_gone g) then None else map_of (sg_cast g) l)"

definition take_mail :: "nat \<Rightarrow> message list \<Rightarrow> stage \<Rightarrow> stage" where
  "take_mail c ms g = g\<lparr>sg_mail := (sg_mail g)(c := ms)\<rparr>"

section \<open>Playing\<close>

text \<open>A frame the relay reads whole.\<close>

definition sendable :: "bytes \<Rightarrow> bool" where
  "sendable f \<longleftrightarrow> f = wire_of (tl f) \<and> readable (tl f)"

text \<open>The first message of a mailbox, as its type and payload.\<close>

definition first_mail :: "byte \<Rightarrow> message list \<Rightarrow> (byte \<times> bytes \<times> message list) option" where
  "first_mail delay ms =
     (case ms of
        [] \<Rightarrow> None
      | m # rest \<Rightarrow>
          (case body_of delay m of
             [] \<Rightarrow> None
           | t # p \<Rightarrow> if length p \<le> 254 then Some (t, p, rest) else None))"

fun skip_mail :: "byte \<Rightarrow> byte \<Rightarrow> message list \<Rightarrow> (bytes \<times> message list) option" where
  "skip_mail delay t [] = None"
| "skip_mail delay t (m # ms) =
     (case first_mail delay (m # ms) of
        None \<Rightarrow> None
      | Some (u, p, rest) \<Rightarrow> if u = t then Some (p, rest) else skip_mail delay t ms)"

fun play_expect :: "byte \<Rightarrow> byte \<Rightarrow> (pystr \<times> (bytes \<Rightarrow> exn + bool)) list \<Rightarrow> stage \<Rightarrow> (bytes list \<times> stage) option" where
  "play_expect delay t [] g = Some ([], g)"
| "play_expect delay t ((l, check) # ls) g =
     (case present g l of
        None \<Rightarrow> None
      | Some c \<Rightarrow>
          (case first_mail delay (sg_mail g c) of
             None \<Rightarrow> None
           | Some (u, p, rest) \<Rightarrow>
               if u = t \<and> check p = Inr True
               then map_option (\<lambda>(ps, g'). (p # ps, g')) (play_expect delay t ls (take_mail c rest g))
               else None))"

fun play :: "(nat \<Rightarrow> nat) \<Rightarrow> bool \<Rightarrow> byte \<Rightarrow> gate_step \<Rightarrow> stage \<Rightarrow> stage option" where
  "play rand auto delay (Opens l v) g =
     (if l \<in> fst ` set (sg_cast g) \<or> 8 \<le> length (filter (lb_up (sg_lobby g)) [0..<sg_next g]) then None
      else (case cs_hello l v of
              Inl _ \<Rightarrow> None
            | Inr f \<Rightarrow> if sendable f then Some (speak rand auto (sg_next g) (tl f) (enter_stage l g)) else None))"
| "play rand auto delay (Says l d) g =
     (case present g l of
        None \<Rightarrow> None
      | Some c \<Rightarrow>
          (case d of
             Inl _ \<Rightarrow> None
           | Inr f \<Rightarrow> if sendable f then Some (speak rand auto c (tl f) g) else None))"
| "play rand auto delay (Expects t ls check) g =
     (case play_expect delay t ls g of
        None \<Rightarrow> None
      | Some (ps, g') \<Rightarrow> if check ps = Inr True then Some g' else None)"
| "play rand auto delay (Awaits t l check) g =
     (case present g l of
        None \<Rightarrow> None
      | Some c \<Rightarrow>
          (case skip_mail delay t (sg_mail g c) of
             None \<Rightarrow> None
           | Some (p, rest) \<Rightarrow> if check p = Inr True then Some (take_mail c rest g) else None))"
| "play rand auto delay (Silent l) g =
     (case present g l of
        None \<Rightarrow> None
      | Some c \<Rightarrow> if sg_mail g c = [] \<and> lb_up (sg_lobby g) c then Some g else None)"
| "play rand auto delay (Refused l) g =
     (case present g l of
        None \<Rightarrow> None
      | Some c \<Rightarrow> if sg_mail g c = [] then Some g else None)"
| "play rand auto delay (Closes l) g =
     (case present g l of
        None \<Rightarrow> None
      | Some c \<Rightarrow> Some (exit_stage c (g\<lparr>sg_gone := l # sg_gone g\<rparr>)))"
| "play rand auto delay (Knocks l) g =
     (if l \<in> fst ` set (sg_cast g) \<or> 8 \<le> length (filter (lb_up (sg_lobby g)) [0..<sg_next g]) then None
      else (let h = enter_stage l g in Some (exit_stage (sg_next g) (h\<lparr>sg_gone := l # sg_gone h\<rparr>))))"

fun play_all :: "(nat \<Rightarrow> nat) \<Rightarrow> bool \<Rightarrow> byte \<Rightarrow> gate_step list \<Rightarrow> stage \<Rightarrow> stage option" where
  "play_all rand auto delay [] g = Some g"
| "play_all rand auto delay (st # sts) g =
     (case play rand auto delay st g of None \<Rightarrow> None | Some g' \<Rightarrow> play_all rand auto delay sts g')"

definition empty_stage :: stage where
  "empty_stage = \<lparr> sg_lobby = empty_lobby, sg_next = 0, sg_cast = [], sg_gone = [], sg_mail = (\<lambda>_. []),
       sg_match = None, sg_marks = [] \<rparr>"

lemma play_all_append:
  "play_all rand auto delay (xs @ ys) g =
     (case play_all rand auto delay xs g of None \<Rightarrow> None | Some g' \<Rightarrow> play_all rand auto delay ys g')"
  by (induction xs arbitrary: g) (simp_all split: option.split)

section \<open>The relay on stage\<close>

definition staged :: "(nat \<Rightarrow> nat) \<Rightarrow> bool \<Rightarrow> byte \<Rightarrow> server \<Rightarrow> stage \<Rightarrow> bool" where
  "staged rand auto delay s g \<longleftrightarrow>
     tidy s \<and> lobby_of s = sg_lobby g \<and> sv_nclient s = sg_next g \<and> sv_rand s = rand \<and> autostart s = auto \<and>
     word_of_int (sv_delay s) = delay \<and> (\<forall>c. \<not> is_dead s c \<longrightarrow> cl_rx (sv_client s c) = []) \<and>
     blank s \<and> tracked s (sg_match g) \<and> (\<forall>m \<in> set (sg_marks g). marked m s)"

text \<open>The messages as they are on the wire; the mailboxes got what the streams got.\<close>

definition letters :: "byte \<Rightarrow> message list \<Rightarrow> bytes" where
  "letters delay ms = concat (map (\<lambda>m. wire_of (body_of delay m)) ms)"

definition advanced :: "byte \<Rightarrow> server \<Rightarrow> stage \<Rightarrow> server \<Rightarrow> stage \<Rightarrow> bool" where
  "advanced delay s g t g' \<longleftrightarrow>
     (\<exists>new. \<forall>d. stream t d = stream s d @ letters delay (new d) \<and> sg_mail g' d = sg_mail g d @ new d) \<and>
     sg_next g' = sg_next g \<and> sg_cast g' = sg_cast g \<and> sg_gone g' = sg_gone g"

lemma put_mail_eq: "put_mail out f d = f d @ map snd (filter (\<lambda>p. fst p = d) out)"
proof (induction out arbitrary: f)
  case (Cons p out)
  then show ?case by (cases p) simp
qed simp

lemma post_to_letters: "post_to delay out d = letters delay (map snd (filter (\<lambda>p. fst p = d) out))"
  by (simp add: post_to_def letters_def split_def comp_def)

lemma advanced_deliver:
  assumes "posted s (post_to delay (snd out)) t"
  shows "advanced delay s g t (record_match x (deliver out g))"
  unfolding advanced_def
proof (intro conjI exI allI)
  fix d
  show "stream t d = stream s d @ letters delay (map snd (filter (\<lambda>p. fst p = d) (snd out)))"
    using assms by (simp add: posted_def post_to_letters)
  show "sg_mail (record_match x (deliver out g)) d = sg_mail g d @ map snd (filter (\<lambda>p. fst p = d) (snd out))"
    by (simp add: record_match_def deliver_def put_mail_eq)
qed (simp_all add: record_match_def deliver_def)

lemma advanced_refl: "advanced delay s g s g"
  unfolding advanced_def by (auto intro!: exI [of _ "\<lambda>_. []"] simp: letters_def)

lemma staged_up: "staged rand auto delay s g \<Longrightarrow> lb_up (sg_lobby g) c \<longleftrightarrow> \<not> is_dead s c"
  unfolding staged_def by (metis lobby_of_simps(1))

lemma staged_deliver:
  assumes "staged rand auto delay s g" "tidy t" "lobby_of t = fst out" "evolves s t"
    and "blank t" "tracked t f" "\<forall>m \<in> set new. marked m t"
  shows "staged rand auto delay t (record_match (f, new) (deliver out g))"
  using assms evolves_dead [OF assms(4)] marked_evolves [OF _ assms(4)]
  unfolding staged_def evolves_def autostart_def deliver_def record_match_def by auto

text \<open>One whole frame from a living client, with nothing left over before it.\<close>

lemma receive_frame:
  assumes t: "tidy s" and c: "\<not> is_dead s c" and rx: "cl_rx (sv_client s c) = []" and body: "readable body"
  shows "\<exists>u. receive c (wire_of body) s = (Inr (), u) \<and> tidy u \<and>
    lobby_of u = fst (expected s c (hd body) (tl body)) \<and> evolves s u \<and>
    posted s (post_to (word_of_int (sv_delay s)) (snd (expected s c (hd body) (tl body)))) u \<and>
    (\<exists>b. handle_frame c body s = (Inr b, u))"
proof -
  let ?w = "wire_of body"
  let ?s = "set_rx c ?w s"
  have len: "length body \<le> 200" using body by (simp add: readable_def)
  from handle_frame_accepted [OF t c len] obtain u where u:
    "handle_frame c body s = (Inr (lb_up (fst (expected s c (hd body) (tl body))) c), u)" "tidy u"
    "lobby_of u = fst (expected s c (hd body) (tl body))"
    "posted s (post_to (word_of_int (sv_delay s)) (snd (expected s c (hd body) (tl body)))) u" by blast
  have ev: "evolves s u" using keepsD [OF ev_handle_frame, of s c body] u(1) by simp
  have same: "set_rx c [] ?s = s"
    using rx by (cases "sv_client s c") (simp add: set_rx_def upd_client_def fun_upd_idem)
  have "cl_rx (sv_client u c) = []" using ev rx by (simp add: evolves_def)
  then have "pump c u = (Inr (), u)" by (simp add: pump_unfold scan_frame_def ret_def)
  moreover have "scan_frame (cl_rx (sv_client ?s c)) = Got body []"
    using scan_frame_enc [OF body, of "[]"] by (simp add: set_rx_def)
  ultimately have "pump c ?s = (Inr (), u)"
    using u(1) same by (simp add: pump_unfold [of c "set_rx c (wire_of body) s"] bnd_def modify_def ret_def)
  moreover have "?w \<noteq> []" by (simp add: wire_of_def)
  ultimately have "service c (RData ?w) s = (Inr (), u)" using rx by (simp add: service_def)
  moreover have "serving c s" using tidyD(1,2) [OF t] c by (simp add: served_def is_dead_def)
  ultimately have "receive c ?w s = (Inr (), u)" using receive_live c by simp
  with u ev show ?thesis by blast
qed

lemma receive_speak:
  assumes st: "staged rand auto delay s g" and body: "readable body"
  shows "\<exists>t. receive c (wire_of body) s = (Inr (), t) \<and> staged rand auto delay t (speak rand auto c body g) \<and>
    advanced delay s g t (speak rand auto c body g)"
proof (cases "is_dead s c")
  case True
  then have "speak rand auto c body g = g" using staged_up [OF st] by (simp add: speak_def)
  with True st advanced_refl show ?thesis by (simp add: receive_dead)
next
  case False
  have s: "tidy s" "cl_rx (sv_client s c) = []" "delay = word_of_int (sv_delay s)" using st False by (auto simp: staged_def)
  have up: "lb_up (sg_lobby g) c" using staged_up [OF st] False by simp
  have out: "expected s c (hd body) (tl body) = obey rand auto c (parse (hd body) (tl body)) (sg_lobby g)"
    using st by (simp add: expected_def staged_def)
  from receive_frame [OF s(1) False s(2) body] obtain u where "receive c (wire_of body) s = (Inr (), u)" "tidy u"
    "lobby_of u = fst (expected s c (hd body) (tl body))" "evolves s u"
    "posted s (post_to delay (snd (expected s c (hd body) (tl body)))) u" "\<exists>b. handle_frame c body s = (Inr b, u)"
    unfolding s(3) by blast
  moreover obtain b where b: "handle_frame c body s = (Inr b, u)" using calculation by blast
  obtain f new where f: "after_command c (parse (hd body) (tl body)) (sg_lobby g) (sg_match g) = (f, new)" by fastforce
  have "blank s" "tracked s (sg_match g)" "lobby_of s = sg_lobby g" "length body \<le> 200"
    using st body by (auto simp: staged_def readable_def)
  with after_frame [OF s(1) False _ _ _ _ b] f blank_handle_frame [of s c body] b
  have "blank u" "tracked u f \<and> (\<forall>m \<in> set new. marked m u)" by simp_all
  ultimately show ?thesis
    using staged_deliver [OF st] advanced_deliver up out f by (simp add: speak_def)
qed

text \<open>The end of a client's stream.\<close>

lemma receive_exit:
  assumes st: "staged rand auto delay s g"
  shows "\<exists>t. receive c [] s = (Inr (), t) \<and> staged rand auto delay t (exit_stage c g) \<and>
    advanced delay s g t (exit_stage c g)"
proof (cases "is_dead s c")
  case True
  then have "exit_stage c g = g" using staged_up [OF st] by (simp add: exit_stage_def)
  with True st advanced_refl show ?thesis by (simp add: receive_dead)
next
  case False
  have t: "tidy s" and l: "lobby_of s = sg_lobby g" using st by (auto simp: staged_def)
  have up: "lb_up (sg_lobby g) c" using staged_up [OF st] False by simp
  from leave_accepted [OF t False, of WhyClosed delay] obtain u where u: "drop_client c WhyClosed s = (Inr (), u)"
    "tidy u" "lobby_of u = fst (leave_lobby c (lobby_of s))" "posted s (post_to delay (snd (leave_lobby c (lobby_of s)))) u"
    by blast
  have "evolves s u" using keepsD [OF ev_drop, of s c WhyClosed] u(1) by simp
  moreover have "serving c s" using tidyD(1,2) [OF t] False by (simp add: served_def is_dead_def)
  then have "receive c [] s = (Inr (), u)" using receive_live False u(1) by (simp add: service_def)
  moreover obtain f new where f: "after_exit c (sg_match g) = (f, new)" by fastforce
  have "blank s" "tracked s (sg_match g)" using st by (auto simp: staged_def)
  then have "blank u" "tracked u f \<and> (\<forall>m \<in> set new. marked m u)"
    using after_drop [OF _ f False u(1)] blank_calm keepsD [OF drops.drp_calm, of s c WhyClosed] u(1) by auto
  ultimately show ?thesis
    using staged_deliver [OF st u(2,3)] advanced_deliver [OF u(4)] up l f by (simp add: exit_stage_def)
qed

text \<open>A connection that is let in.\<close>

lemma accept_enter:
  assumes st: "staged rand auto delay s g" and room: "length (filter (lb_up (sg_lobby g)) [0..<sg_next g]) < 8"
  shows "\<exists>t. accept (Conn (ip, port) True) now s = (Inr (), t) \<and> staged rand auto delay t (enter_stage l g) \<and>
    sv_nclient t = Suc (sv_nclient s) \<and> (\<forall>d. stream t d = stream s d)"
proof -
  let ?a = "(ip, port)"
  let ?t = "add_client ?a now s"
  have t: "tidy s" and l: "lobby_of s = sg_lobby g" and n: "sv_nclient s = sg_next g" using st by (auto simp: staged_def)
  have ok: "clients_ok s" using tidyD(1) [OF t] INV_D(2) by blast
  have "set (filter (lb_up (sg_lobby g)) [0..<sg_next g]) = set (sv_clients s)"
    using ok unfolding l [symmetric] n [symmetric] by (auto simp: clients_ok_def is_dead_def)
  then have "length (filter (lb_up (sg_lobby g)) [0..<sg_next g]) = length (sv_clients s)"
    using ok by (metis clients_ok_def distinct_card distinct_filter distinct_upt)
  then have few: "length (sv_clients s) < 8" using room by simp
  have "per_ip s ?a \<le> length (sv_clients s)" by (simp add: per_ip_def)
  with few have k: "length (sv_clients s) < MAX_CLIENTS" "per_ip s ?a < MAX_CONNECTIONS_PER_IP"
    by (simp_all add: MAX_CLIENTS_def MAX_CONNECTIONS_PER_IP_def)
  then have run: "accept (Conn ?a True) now s = (Inr (), ?t)" by (simp add: accept_def act_run)
  have f: "follows s ?t" using follows_add_client [OF t k] .
  have "lobby_of ?t = (lobby_of s)\<lparr>lb_up := (lb_up (lobby_of s))(sv_nclient s := True)\<rparr>"
    by (rule lobby_add_client)
  then have "staged rand auto delay ?t (enter_stage l g)"
    using st f follows_tidy [OF f] unfolding staged_def follows_def enter_stage_def autostart_def
    by (auto simp: is_dead_add_client new_client_def enter_ledger)
  moreover have "stream ?t d = stream s d" for d using tidyD(7) [OF t, of "sv_nclient s"] by simp
  ultimately show ?thesis using run by auto
qed

end
