(* ===== verification/Played.thy ===== *)
theory Played
  imports Rehearsal
begin

text \<open>
  A script that can be played on the specification passes against the relay: step for step, the
  clients of \<open>Gate\<close> hold the connections of the stage's cast, and what each has still to read is
  the content of its mailbox.
\<close>

section \<open>Readers\<close>

lemma recv_frame_tail:
  "recv_frame buf chs = (Inr r, buf', chs') \<Longrightarrow> recv_frame buf (chs @ tl') = (Inr r, buf', chs' @ tl')"
proof (induction buf chs rule: recv_frame.induct)
  case (1 buf)
  then show ?case by (cases tl') (auto split: scan.splits if_splits)
qed (simp split: scan.splits option.splits if_splits)

lemma recv_frame_suffix: "recv_frame buf chs = (r, buf', chs') \<Longrightarrow> \<exists>pre. chs = pre @ chs'"
proof (induction buf chs rule: recv_frame.induct)
  case (2 buf ch chs)
  then show ?case by (fastforce split: scan.splits option.splits if_splits intro: exI [of _ "[]"] exI [of _ "[ch]"]
        simp: append_Cons [symmetric] simp del: append_Cons)
qed (simp split: scan.splits)

lemma letters_Cons: "letters delay (m # ms) = wire_of (body_of delay m) @ letters delay ms"
  by (simp add: letters_def)

lemma letters_append: "letters delay (ms @ ns) = letters delay ms @ letters delay ns"
  by (simp add: letters_def)

lemma first_mailD: "first_mail delay ms = Some (t, p, rest) \<Longrightarrow>
  \<exists>m. ms = m # rest \<and> body_of delay m = t # p \<and> length p \<le> 254"
  by (auto simp: first_mail_def split: list.splits if_splits)

text \<open>With the mailbox still to come, the next frame is its first message.\<close>

lemma recv_mail:
  assumes "first_mail delay ms = Some (t, p, rest)" "[] \<notin> set ds" "buf @ concat ds = letters delay ms"
  shows "\<exists>buf' pre ds'. recv_frame buf (map Some ds @ end_of) = (Inr (t, p), buf', map Some ds' @ end_of) \<and>
    ds = pre @ ds' \<and> buf' @ concat ds' = letters delay rest"
proof -
  obtain m where m: "ms = m # rest" "body_of delay m = t # p" "length p \<le> 254" using first_mailD [OF assms(1)] by blast
  have "buf @ concat ds = wire_of (t # p) @ letters delay rest" using assms(3) m by (simp add: letters_Cons)
  from recv_frame_next [OF m(3) assms(2) this] obtain buf' ds' where
    r: "recv_frame buf (map Some ds) = (Inr (t, p), buf', map Some ds')" "buf' @ concat ds' = letters delay rest" by blast
  obtain pre where "map Some ds = pre @ map Some ds'" using recv_frame_suffix [OF r(1)] by blast
  then obtain pre' where "ds = pre' @ ds'" by (metis (no_types, lifting) inj_Some inj_map_eq_map map_eq_append_conv)
  with r recv_frame_tail [OF r(1), of end_of] show ?thesis by blast
qed

text \<open>
  \<open>mail_read f delay ms v rest\<close>: over a connection that has \<open>ms\<close> to deliver, \<open>f\<close> returns \<open>v\<close> and
  leaves \<open>rest\<close> to come; \<open>alive\<close> says whether the connection is open.
\<close>

definition mail_read ::
  "(bytes \<Rightarrow> bytes option list \<Rightarrow> (exn + 'a) \<times> bytes \<times> bytes option list) \<Rightarrow> byte \<Rightarrow> bool \<Rightarrow> message list \<Rightarrow> 'a \<Rightarrow>
     message list \<Rightarrow> bool" where
  "mail_read f delay alive ms v rest \<longleftrightarrow>
     (\<forall>buf ds. [] \<notin> set ds \<and> buf @ concat ds = letters delay ms \<longrightarrow>
        (\<exists>buf' pre ds' chs'. f buf (map Some ds @ (if alive then [] else [Some []])) = (Inr v, buf', chs') \<and>
           to_come chs' = length (concat ds') \<and> ds = pre @ ds' \<and> buf' @ concat ds' = letters delay rest))"

lemma to_come_Some: "to_come (map Some ds) = length (concat ds)"
  by (induction ds) (simp_all add: to_come_def)

lemma to_come_append: "to_come (xs @ ys) = to_come xs + to_come ys"
  by (simp add: to_come_def)

lemma to_come_end: "to_come (if alive then [] else [Some []]) = 0"
  by (simp add: to_come_def)

lemma read_expect:
  assumes "first_mail delay ms = Some (t, p, rest)"
  shows "mail_read (expect t) delay alive ms p rest"
  unfolding mail_read_def
proof (intro allI impI)
  fix buf ds
  assume ds: "[] \<notin> set ds \<and> buf @ concat ds = letters delay ms"
  let ?e = "if alive then [] else [Some []]"
  from recv_mail [OF assms, of ds buf ?e] ds obtain buf' pre ds' where
    "recv_frame buf (map Some ds @ ?e) = (Inr (t, p), buf', map Some ds' @ ?e)"
    "ds = pre @ ds'" "buf' @ concat ds' = letters delay rest" by blast
  moreover have "to_come (map Some ds' @ ?e) = length (concat ds')"
    by (simp add: to_come_append to_come_Some to_come_end del: if_split)
  ultimately show "\<exists>buf' pre ds' chs'. expect t buf (map Some ds @ ?e) = (Inr p, buf', chs') \<and>
      to_come chs' = length (concat ds') \<and> ds = pre @ ds' \<and> buf' @ concat ds' = letters delay rest"
    by (intro exI conjI) (simp_all add: expect_def)
qed

lemma read_await:
  "skip_mail delay t ms = Some (p, rest) \<Longrightarrow> mail_read (await t) delay alive ms p rest"
proof (induction ms)
  case (Cons m ms)
  obtain u q rest' where f: "first_mail delay (m # ms) = Some (u, q, rest')"
    using Cons.prems by (auto split: option.splits)
  have r: "rest' = ms" using first_mailD [OF f] by simp
  show ?case unfolding mail_read_def
  proof (intro allI impI)
    fix buf ds
    assume ds: "[] \<notin> set ds \<and> buf @ concat ds = letters delay (m # ms)"
    let ?e = "if alive then [] else [Some []]"
    from recv_mail [OF f, of ds buf ?e] ds obtain buf' pre ds' where
      one: "recv_frame buf (map Some ds @ ?e) = (Inr (u, q), buf', map Some ds' @ ?e)" "ds = pre @ ds'"
        "buf' @ concat ds' = letters delay ms" unfolding r by blast
    show "\<exists>buf' pre ds' chs'. await t buf (map Some ds @ ?e) = (Inr p, buf', chs') \<and>
        to_come chs' = length (concat ds') \<and> ds = pre @ ds' \<and> buf' @ concat ds' = letters delay rest"
    proof (cases "u = t")
      case True
      then have "p = q" "rest = ms" using Cons.prems f r by auto
      moreover have "await t buf (map Some ds @ ?e) = (Inr q, buf', map Some ds' @ ?e)"
        unfolding await.simps [of t buf] one(1) using True by simp
      moreover have "to_come (map Some ds' @ ?e) = length (concat ds')"
        by (simp add: to_come_append to_come_Some to_come_end del: if_split)
      ultimately show ?thesis using one(2,3) by blast
    next
      case False
      then have "skip_mail delay t ms = Some (p, rest)" using Cons.prems f by simp
      from Cons.IH [OF this] have "mail_read (await t) delay alive ms p rest" .
      then obtain buf2 pre2 ds2 chs2 where two: "await t buf' (map Some ds' @ ?e) = (Inr p, buf2, chs2)"
        "to_come chs2 = length (concat ds2)" "ds' = pre2 @ ds2" "buf2 @ concat ds2 = letters delay rest"
        using one ds unfolding mail_read_def by (metis Un_iff set_append)
      have "await t buf (map Some ds @ ?e) = (Inr p, buf2, chs2)"
        unfolding await.simps [of t buf] one(1) using False two(1) by simp
      moreover have "ds = (pre @ pre2) @ ds2" using one(2) two(3) by simp
      ultimately show ?thesis using two by blast
    qed
  qed
qed simp

text \<open>An empty mailbox.\<close>

lemma recv_nothing:
  "recv_frame [] (if alive then [] else [Some []]) = (Inl (if alive then TimeoutError else EOFError), [], [])"
  by (simp add: peer_scan_def)

lemma nothing_to_come:
  "[] \<notin> set ds \<Longrightarrow> buf @ concat ds = letters delay [] \<Longrightarrow> buf = [] \<and> ds = []"
  by (cases ds) (simp_all add: letters_def)

lemma read_nothing:
  assumes "\<And>e. f [] e = (case recv_frame [] e of (Inr _, b, c) \<Rightarrow> (Inl AssertionError, b, c) | (Inl x, b, c) \<Rightarrow> (if ok x then Inr () else Inl x, b, c))"
    and "ok (if alive then TimeoutError else EOFError)"
  shows "mail_read f delay alive [] () []"
  unfolding mail_read_def
proof (intro allI impI)
  fix buf ds
  assume ds: "[] \<notin> set ds \<and> buf @ concat ds = letters delay []"
  let ?e = "if alive then [] else [Some []]"
  have "buf = []" "ds = []" using nothing_to_come ds by blast+
  moreover have "f [] ?e = (Inr (), [], [])" unfolding assms(1) recv_nothing using assms(2) by simp
  ultimately show "\<exists>buf' pre ds' chs'. f buf (map Some ds @ ?e) = (Inr (), buf', chs') \<and>
      to_come chs' = length (concat ds') \<and> ds = pre @ ds' \<and> buf' @ concat ds' = letters delay []"
    by (intro exI [of _ "[]"]) (simp add: letters_def to_come_def)
qed

lemma read_silence: "mail_read silence delay True [] () []"
  by (rule read_nothing [where ok = "\<lambda>x. x = TimeoutError"]) (simp_all add: silence_def)

lemma read_refused: "mail_read refused delay alive [] () []"
  by (rule read_nothing [where ok = "\<lambda>x. x = TimeoutError \<or> x = EOFError"]) (simp_all add: refused_def)

section \<open>Contexts and stages\<close>

text \<open>A client the script has not closed: what it holds and what is to come are its mailbox.\<close>

definition client_played :: "byte \<Rightarrow> server \<Rightarrow> stage \<Rightarrow> hclient \<Rightarrow> bool" where
  "client_played delay s g h \<longleftrightarrow>
     (hc_closed h \<longleftrightarrow> hc_label h \<in> set (sg_gone g)) \<and>
     (\<forall>c. hc_conn h = Some c \<and> \<not> hc_closed h \<longrightarrow>
        hc_read h \<le> length (stream s c) \<and> hc_buf h @ drop (hc_read h) (stream s c) = letters delay (sg_mail g c))"

definition cast_of :: "ctx \<Rightarrow> (pystr \<times> nat option) list" where
  "cast_of x = map (\<lambda>h. (hc_label h, hc_conn h)) (cx_clients x)"

definition played :: "(nat \<Rightarrow> nat) \<Rightarrow> bool \<Rightarrow> byte \<Rightarrow> ctx \<Rightarrow> stage \<Rightarrow> bool" where
  "played rand auto delay x g \<longleftrightarrow>
     staged rand auto delay (cx_server x) g \<and>
     cast_of x = map (\<lambda>p. (fst p, Some (snd p))) (sg_cast g) \<and>
     distinct (map fst (sg_cast g)) \<and> distinct (map snd (sg_cast g)) \<and>
     (\<forall>p \<in> set (sg_cast g). snd p < sg_next g) \<and> (\<forall>d. sg_next g \<le> d \<longrightarrow> sg_mail g d = []) \<and>
     (\<forall>h \<in> set (cx_clients x). client_played delay (cx_server x) g h)"

lemma playedD:
  assumes "played rand auto delay x g"
  shows "staged rand auto delay (cx_server x) g"
    "cast_of x = map (\<lambda>p. (fst p, Some (snd p))) (sg_cast g)"
    "distinct (map fst (sg_cast g))" "distinct (map snd (sg_cast g))"
    "\<And>p. p \<in> set (sg_cast g) \<Longrightarrow> snd p < sg_next g" "\<And>d. sg_next g \<le> d \<Longrightarrow> sg_mail g d = []"
    "\<And>h. h \<in> set (cx_clients x) \<Longrightarrow> client_played delay (cx_server x) g h"
  using assms by (simp_all add: played_def)

lemma played_labels: "played rand auto delay x g \<Longrightarrow> map hc_label (cx_clients x) = map fst (sg_cast g)"
proof -
  assume "played rand auto delay x g"
  then have "map fst (cast_of x) = map fst (sg_cast g)" by (simp add: played_def comp_def)
  then show ?thesis by (simp add: cast_of_def comp_def)
qed

lemma played_member:
  assumes "played rand auto delay x g" "h \<in> set (cx_clients x)"
  shows "\<exists>c. hc_conn h = Some c \<and> (hc_label h, c) \<in> set (sg_cast g)"
proof -
  have "(hc_label h, hc_conn h) \<in> set (cast_of x)" using assms(2) by (force simp: cast_of_def)
  then show ?thesis using playedD(2) [OF assms(1)] by auto
qed

lemma find_label:
  "distinct (map hc_label hs) \<Longrightarrow> h \<in> set hs \<Longrightarrow> find (\<lambda>k. hc_label k = hc_label h) hs = Some h"
  by (induction hs) (auto simp: image_iff)

lemma present_client:
  assumes "played rand auto delay x g" "present g l = Some c"
  obtains h where "hclient_of l x = Inr h" "h \<in> set (cx_clients x)" "hc_label h = l" "hc_conn h = Some c" "\<not> hc_closed h"
proof -
  have l: "l \<notin> set (sg_gone g)" "(l, c) \<in> set (sg_cast g)"
    using assms(2) by (auto simp: present_def map_of_SomeD split: if_splits)
  then have "(l, Some c) \<in> set (cast_of x)" using playedD(2) [OF assms(1)] by force
  then obtain h where h: "h \<in> set (cx_clients x)" "hc_label h = l" "hc_conn h = Some c" by (auto simp: cast_of_def)
  have "distinct (map hc_label (cx_clients x))" using played_labels [OF assms(1)] playedD(3) [OF assms(1)] by simp
  from find_label [OF this h(1)] h(2) have "hclient_of l x = Inr h" by (simp add: hclient_of_def)
  moreover have "\<not> hc_closed h" using playedD(7) [OF assms(1) h(1)] l(1) h(2) by (simp add: client_played_def)
  ultimately show thesis using that h by blast
qed

text \<open>An event of the relay.\<close>

lemma played_server:
  assumes p: "played rand auto delay x g" and st: "staged rand auto delay t g'"
    and adv: "advanced delay (cx_server x) g t g'"
  shows "played rand auto delay (x\<lparr>cx_server := t\<rparr>) g'"
proof -
  obtain new where new: "\<And>d. stream t d = stream (cx_server x) d @ letters delay (new d)"
    "\<And>d. sg_mail g' d = sg_mail g d @ new d" and same: "sg_next g' = sg_next g" "sg_cast g' = sg_cast g" "sg_gone g' = sg_gone g"
    using adv unfolding advanced_def by blast
  have tidy: "tidy t" "sv_nclient t = sg_next g" using st same(1) by (simp_all add: staged_def)
  have "sg_mail g' d = []" if d: "sg_next g' \<le> d" for d
  proof -
    have "stream t d = []" using tidyD(7) [OF tidy(1)] tidy(2) d same(1) by simp
    then have "letters delay (new d) = []" using new(1) [of d] by simp
    then have "new d = []" by (cases "new d") (simp_all add: letters_def wire_of_def)
    then show ?thesis using new(2) playedD(6) [OF p] d same(1) by simp
  qed
  moreover have "client_played delay t g' h" if "h \<in> set (cx_clients x)" for h
    using playedD(7) [OF p that] new same(3) by (auto simp: client_played_def letters_append)
  ultimately show ?thesis using p st same unfolding played_def cast_of_def by simp
qed

lemma played_on_server:
  assumes "played rand auto delay x g" "m (cx_server x) = (Inr (), t)" "staged rand auto delay t g'"
    "advanced delay (cx_server x) g t g'"
  shows "\<exists>y. on_server m x = (Inr (), y) \<and> played rand auto delay y g'"
  using played_server [OF assms(1,3,4)] assms(2) by (simp add: on_server_def)

text \<open>A client that reads.\<close>

lemma chunked_pieces: "concat (chunked d) = d \<and> [] \<notin> set (chunked d)"
proof (induction d rule: chunked.induct)
  case (1 d)
  then show ?case by (cases "d = []") (simp_all add: chunked.simps [of d] chunked.simps [of "[]"])
qed

lemma played_read:
  assumes p: "played rand auto delay x g" and l: "present g l = Some c"
    and r: "mail_read f delay (lb_up (sg_lobby g) c) (sg_mail g c) v rest"
  shows "\<exists>y. reads f l x = (Inr v, y) \<and> played rand auto delay y (take_mail c rest g)"
proof -
  let ?s = "cx_server x"
  obtain h where h: "hclient_of l x = Inr h" "h \<in> set (cx_clients x)" "hc_label h = l" "hc_conn h = Some c" "\<not> hc_closed h"
    by (rule present_client [OF p l])
  note st = playedD(1) [OF p]
  have sent: "stream ?s c = cl_sent (sv_client ?s c)"
    using tidyD(4) st by (simp add: staged_def drained_def stream_def)
  have alive: "is_dead ?s c \<longleftrightarrow> \<not> lb_up (sg_lobby g) c" using staged_up [OF st] by simp
  let ?e = "if lb_up (sg_lobby g) c then [] else [Some []]"
  let ?ds = "chunked (drop (hc_read h) (stream ?s c))"
  have inc: "incoming ?s h = map Some ?ds @ ?e" using h(4) sent alive by (simp add: incoming_def)
  have mail: "hc_read h \<le> length (stream ?s c)" "hc_buf h @ drop (hc_read h) (stream ?s c) = letters delay (sg_mail g c)"
    using playedD(7) [OF p h(2)] h(4,5) by (simp_all add: client_played_def)
  obtain buf' pre ds' chs' where f: "f (hc_buf h) (incoming ?s h) = (Inr v, buf', chs')"
    "to_come chs' = length (concat ds')" "?ds = pre @ ds'" "buf' @ concat ds' = letters delay rest"
    using r mail(2) chunked_pieces [of "drop (hc_read h) (stream ?s c)"] unfolding inc mail_read_def by metis
  have all: "concat pre @ concat ds' = drop (hc_read h) (stream ?s c)"
    using f(3) chunked_pieces by (metis concat_append)
  have n: "to_come (incoming ?s h) - to_come chs' = length (concat pre)"
    unfolding inc to_come_append to_come_Some to_come_end f(2) f(3) by simp
  let ?y = "took l buf' (length (concat pre)) x"
  have run: "reads f l x = (Inr v, ?y)"
    using h(1,5) f(1) n by (simp add: reads_def bnd_def gets_def lift_def modify_def)
  have rest: "drop (hc_read h + length (concat pre)) (stream ?s c) = concat ds'"
    using all by (metis append_eq_conv_conj drop_drop add.commute)
  have le: "hc_read h + length (concat pre) \<le> length (stream ?s c)"
    using arg_cong [OF all, of length] mail(1) by simp
  let ?upd = "\<lambda>k. if hc_label k = l then k\<lparr>hc_buf := buf', hc_read := hc_read k + length (concat pre)\<rparr> else k"
  have "client_played delay ?s (take_mail c rest g) (?upd k)" if mem: "k \<in> set (cx_clients x)" for k
  proof (cases "hc_label k = l")
    case True
    have "distinct (map hc_label (cx_clients x))" using played_labels [OF p] playedD(3) [OF p] by simp
    then have "k = h" using True h(2,3) mem by (metis distinct_map inj_onD)
    then show ?thesis using h le rest f(4) playedD(7) [OF p h(2)] by (simp add: client_played_def take_mail_def)
  next
    case False
    obtain d where d: "hc_conn k = Some d" "(hc_label k, d) \<in> set (sg_cast g)" using played_member [OF p mem] by blast
    have "(l, c) \<in> set (sg_cast g)" using l by (auto simp: present_def map_of_SomeD split: if_splits)
    then have "d \<noteq> c" using d(2) False playedD(4) [OF p] by (metis distinct_map inj_onD prod.sel(1) snd_conv)
    then show ?thesis using False d(1) playedD(7) [OF p mem] by (simp add: client_played_def take_mail_def)
  qed
  then have "\<forall>k \<in> set (cx_clients x). client_played delay ?s (take_mail c rest g) (?upd k)" by blast
  then have "\<forall>k \<in> set (cx_clients ?y). client_played delay ?s (take_mail c rest g) k" by (fastforce simp: took_def)
  moreover have "cast_of ?y = cast_of x" by (simp add: cast_of_def took_def comp_def if_distrib cong: if_cong)
  moreover have "staged rand auto delay ?s (take_mail c rest g)" using st by (simp add: staged_def take_mail_def)
  moreover have "c < sg_next g"
    using playedD(5) [OF p] l by (auto simp: present_def dest!: map_of_SomeD split: if_splits)
  ultimately have "played rand auto delay ?y (take_mail c rest g)"
    using p unfolding played_def by (simp add: take_mail_def took_def)
  with run show ?thesis by blast
qed

section \<open>Steps\<close>

lemma took_other: "cx_clients (x\<lparr>cx_server := t\<rparr>) = cx_clients x"
  by simp

lemma played_expect_each:
  "played rand auto delay x g \<Longrightarrow> play_expect delay t ls g = Some (ps, g') \<Longrightarrow>
     \<exists>y. expect_each t ls x = (Inr ps, y) \<and> played rand auto delay y g'"
proof (induction ls arbitrary: x g ps)
  case (Cons lc ls)
  obtain l check where lc: "lc = (l, check)" by (cases lc)
  obtain c p rest where c: "present g l = Some c" "first_mail delay (sg_mail g c) = Some (t, p, rest)" "check p = Inr True"
    using Cons.prems(2) lc by (auto split: option.splits if_splits)
  then obtain ps' where ps: "play_expect delay t ls (take_mail c rest g) = Some (ps', g')" "ps = p # ps'"
    using Cons.prems(2) lc by auto
  obtain y where y: "reads (expect t) l x = (Inr p, y)" "played rand auto delay y (take_mail c rest g)"
    using played_read [OF Cons.prems(1) c(1) read_expect [OF c(2)]] by blast
  obtain z where "expect_each t ls y = (Inr ps', z)" "played rand auto delay z g'"
    using Cons.IH [OF y(2) ps(1)] by blast
  with y(1) c(3) ps(2) lc show ?case by (simp add: bnd_def lift_def require_def ret_def)
qed (simp add: ret_def)

lemma sendableD: "sendable f \<Longrightarrow> \<exists>body. f = wire_of body \<and> readable body \<and> tl f = body"
  by (auto simp: sendable_def)

lemma played_writes:
  assumes p: "played rand auto delay x g" and l: "present g l = Some c" and body: "readable body"
  shows "\<exists>y. writes l (wire_of body) x = (Inr (), y) \<and> played rand auto delay y (speak rand auto c body g)"
proof -
  obtain h where h: "hclient_of l x = Inr h" "hc_conn h = Some c" "\<not> hc_closed h"
    by (rule present_client [OF p l])
  obtain t where "receive c (wire_of body) (cx_server x) = (Inr (), t)"
    "staged rand auto delay t (speak rand auto c body g)"
    "advanced delay (cx_server x) g t (speak rand auto c body g)"
    using receive_speak [OF playedD(1) [OF p] body] by blast
  from played_on_server [where m = "receive c (wire_of body)", OF p this] h show ?thesis
    by (simp add: writes_def bnd_def gets_def lift_def hears_def)
qed

lemma played_connect:
  assumes p: "played rand auto delay x g" and new: "l \<notin> fst ` set (sg_cast g)" "l \<notin> set (sg_gone g)"
    and room: "length (filter (lb_up (sg_lobby g)) [0..<sg_next g]) < 8"
  shows "\<exists>y. connect l x = (Inr (), y) \<and> played rand auto delay y (enter_stage l g) \<and>
    present (enter_stage l g) l = Some (sg_next g)"
proof -
  let ?s = "cx_server x" and ?port = "cx_port x (length (cx_clients x))"
  note st = playedD(1) [OF p]
  have n: "sv_nclient ?s = sg_next g" using st by (simp add: staged_def)
  obtain t where t: "accept (Conn (''127.0.0.1'', ?port) True) 0 ?s = (Inr (), t)" "staged rand auto delay t (enter_stage l g)"
    "sv_nclient t = Suc (sv_nclient ?s)" "\<And>d. stream t d = stream ?s d"
    using accept_enter [OF st room] by metis
  let ?h = "\<lparr> hc_label = l, hc_buf = [], hc_closed = False, hc_eof = False, hc_conn = Some (sg_next g), hc_read = 0 \<rparr>"
  let ?y = "x\<lparr>cx_server := t, cx_clients := cx_clients x @ [?h]\<rparr>"
  have run: "connect l x = (Inr (), ?y)"
    using t(1,3) n by (simp add: connect_def bnd_def gets_def on_server_def modify_def add_hclient_def)
  have fresh: "sg_next g \<notin> snd ` set (sg_cast g)" using playedD(5) [OF p] by fastforce
  have "stream ?s (sg_next g) = []" using tidyD(7) st n by (simp add: staged_def)
  then have "client_played delay t (enter_stage l g) ?h"
    using t(4) playedD(6) [OF p] new(2) by (simp add: client_played_def enter_stage_def letters_def)
  moreover have "client_played delay t (enter_stage l g) h" if "h \<in> set (cx_clients x)" for h
    using playedD(7) [OF p that] t(4) by (simp add: client_played_def enter_stage_def)
  ultimately have "\<forall>h \<in> set (cx_clients ?y). client_played delay t (enter_stage l g) h" by auto
  moreover have "cast_of ?y = cast_of x @ [(l, Some (sg_next g))]" by (simp add: cast_of_def)
  ultimately have "played rand auto delay ?y (enter_stage l g)"
    using p t(2) new(1) fresh unfolding played_def by (auto simp: enter_stage_def less_Suc_eq)
  moreover have "map_of (sg_cast g) l = None" using new(1) by (simp add: map_of_eq_None_iff)
  then have "present (enter_stage l g) l = Some (sg_next g)"
    using new(2) by (simp add: present_def enter_stage_def map_add_def)
  ultimately show ?thesis using run by blast
qed

lemma played_close:
  assumes p: "played rand auto delay x g" and l: "present g l = Some c"
  shows "\<exists>y. close l x = (Inr (), y) \<and> played rand auto delay y (exit_stage c (g\<lparr>sg_gone := l # sg_gone g\<rparr>))"
proof -
  let ?g = "g\<lparr>sg_gone := l # sg_gone g\<rparr>"
  obtain h where h: "hclient_of l x = Inr h" "hc_conn h = Some c" "\<not> hc_closed h"
    by (rule present_client [OF p l])
  have "cast_of (set_closed l x) = cast_of x" by (simp add: cast_of_def set_closed_def comp_def if_distrib cong: if_cong)
  moreover have "client_played delay (cx_server x) ?g (if hc_label k = l then k\<lparr>hc_closed := True\<rparr> else k)"
    if "k \<in> set (cx_clients x)" for k
    using playedD(7) [OF p that] by (simp add: client_played_def)
  then have "\<forall>k \<in> set (cx_clients (set_closed l x)). client_played delay (cx_server x) ?g k"
    by (fastforce simp: set_closed_def)
  ultimately have shut: "played rand auto delay (set_closed l x) ?g"
    using p unfolding played_def staged_def by (simp add: set_closed_def)
  obtain t where "receive c [] (cx_server (set_closed l x)) = (Inr (), t)" "staged rand auto delay t (exit_stage c ?g)"
    "advanced delay (cx_server (set_closed l x)) ?g t (exit_stage c ?g)"
    using receive_exit [OF playedD(1) [OF shut]] by blast
  from played_on_server [where m = "receive c []", OF shut this] h show ?thesis
    by (simp add: close_def bnd_def gets_def lift_def modify_def hears_def)
qed

lemma stage_keeps [simp]:
  "sg_gone (speak rand auto c body g) = sg_gone g" "sg_cast (speak rand auto c body g) = sg_cast g"
  "sg_gone (exit_stage c g) = sg_gone g" "sg_cast (exit_stage c g) = sg_cast g"
  "sg_gone (take_mail c ms g) = sg_gone g" "sg_cast (take_mail c ms g) = sg_cast g"
  "sg_gone (enter_stage l g) = sg_gone g" "sg_cast (enter_stage l g) = sg_cast g @ [(l, sg_next g)]"
  by (simp_all add: speak_def exit_stage_def deliver_def record_match_def take_mail_def enter_stage_def Let_def)

lemma play_expect_keeps:
  "play_expect delay t ls g = Some (ps, h) \<Longrightarrow> sg_gone h = sg_gone g \<and> sg_cast h = sg_cast g"
  by (induction ls arbitrary: g ps) (auto split: option.splits if_splits)

text \<open>Only clients that were opened are closed.\<close>

definition listed :: "stage \<Rightarrow> bool" where
  "listed g \<longleftrightarrow> set (sg_gone g) \<subseteq> fst ` set (sg_cast g)"

lemma present_listed: "present g l = Some c \<Longrightarrow> l \<in> fst ` set (sg_cast g)"
  by (force simp: present_def dest: map_of_SomeD split: if_splits)

lemma played_opens:
  assumes p: "played rand auto delay x g" and play: "play rand auto delay (Opens l v) g = Some g'" and gone: "listed g"
  shows "\<exists>y. run_step (Opens l v) x = (Inr (), y) \<and> played rand auto delay y g' \<and> listed g'"
proof -
  obtain f where f: "cs_hello l v = Inr f" "sendable f" "l \<notin> fst ` set (sg_cast g)"
    "length (filter (lb_up (sg_lobby g)) [0..<sg_next g]) < 8" "g' = speak rand auto (sg_next g) (tl f) (enter_stage l g)"
    using play by (auto split: if_splits sum.splits)
  with gone obtain y where y: "connect l x = (Inr (), y)" "played rand auto delay y (enter_stage l g)"
    "present (enter_stage l g) l = Some (sg_next g)" using played_connect [OF p f(3) _ f(4)] by (auto simp: listed_def)
  obtain body where b: "f = wire_of body" "readable body" "tl f = body" using sendableD [OF f(2)] by blast
  obtain z where "writes l (wire_of body) y = (Inr (), z)" "played rand auto delay z g'"
    using played_writes [OF y(2,3) b(2)] f(5) b(3) by auto
  then show ?thesis using y(1) f(1,5) b(1) gone by (auto simp: new_cli_def bnd_def lift_def listed_def)
qed

lemma played_knocks:
  assumes p: "played rand auto delay x g" and play: "play rand auto delay (Knocks l) g = Some g'" and gone: "listed g"
  shows "\<exists>y. run_step (Knocks l) x = (Inr (), y) \<and> played rand auto delay y g' \<and> listed g'"
proof -
  let ?h = "enter_stage l g"
  have k: "l \<notin> fst ` set (sg_cast g)" "length (filter (lb_up (sg_lobby g)) [0..<sg_next g]) < 8"
    "g' = exit_stage (sg_next g) (?h\<lparr>sg_gone := l # sg_gone ?h\<rparr>)"
    using play by (auto simp: Let_def split: if_splits)
  with gone obtain y where y: "connect l x = (Inr (), y)" "played rand auto delay y ?h" "present ?h l = Some (sg_next g)"
    using played_connect [OF p k(1) _ k(2)] by (auto simp: listed_def)
  from played_close [OF y(2,3)] y(1) k(3) gone show ?thesis by (auto simp: bnd_def listed_def)
qed

lemma played_step:
  assumes p: "played rand auto delay x g" and play: "play rand auto delay st g = Some g'" and gone: "listed g"
  shows "\<exists>y. run_step st x = (Inr (), y) \<and> played rand auto delay y g' \<and> listed g'"
proof (cases st)
  case (Opens l v)
  with played_opens [OF p _ gone] play show ?thesis by blast
next
  case (Knocks l)
  with played_knocks [OF p _ gone] play show ?thesis by blast
next
  case (Says l d)
  with play obtain c f where f: "present g l = Some c" "d = Inr f" "sendable f" "g' = speak rand auto c (tl f) g"
    by (auto split: option.splits sum.splits if_splits)
  obtain body where b: "f = wire_of body" "readable body" "tl f = body" using sendableD [OF f(3)] by blast
  with played_writes [OF p f(1) b(2)] Says f(2,4) gone show ?thesis by (simp add: listed_def)
next
  case (Expects t ls check)
  with play obtain ps where ps: "play_expect delay t ls g = Some (ps, g')" "check ps = Inr True"
    by (auto split: option.splits if_splits)
  obtain y where "expect_each t ls x = (Inr ps, y)" "played rand auto delay y g'"
    using played_expect_each [OF p ps(1)] by blast
  then show ?thesis using Expects ps(2) play_expect_keeps [OF ps(1)] gone
    by (simp add: bnd_def lift_def require_def listed_def)
next
  case (Awaits t l check)
  with play obtain c q rest where c: "present g l = Some c" "skip_mail delay t (sg_mail g c) = Some (q, rest)"
    "check q = Inr True" "g' = take_mail c rest g" by (auto split: option.splits if_splits)
  with played_read [OF p c(1) read_await [OF c(2)]] Awaits gone show ?thesis
    by (auto simp: bnd_def lift_def require_def listed_def)
next
  case (Silent l)
  with play obtain c where c: "present g l = Some c" "sg_mail g c = []" "lb_up (sg_lobby g) c" "g' = g"
    by (auto split: option.splits if_splits)
  have "mail_read silence delay (lb_up (sg_lobby g) c) (sg_mail g c) () []" using c read_silence by simp
  from played_read [OF p c(1) this] show ?thesis using Silent c gone by (simp add: take_mail_def fun_upd_idem)
next
  case (Refused l)
  with play obtain c where c: "present g l = Some c" "sg_mail g c = []" "g' = g"
    by (auto split: option.splits if_splits)
  have "mail_read refused delay (lb_up (sg_lobby g) c) (sg_mail g c) () []" using c read_refused by simp
  from played_read [OF p c(1) this] show ?thesis using Refused c gone by (simp add: take_mail_def fun_upd_idem)
next
  case (Closes l)
  with play obtain c where c: "present g l = Some c" "g' = exit_stage c (g\<lparr>sg_gone := l # sg_gone g\<rparr>)"
    by (auto split: option.splits)
  with played_close [OF p c(1)] present_listed [OF c(1)] Closes gone show ?thesis by (simp add: listed_def)
qed

lemma played_steps:
  "played rand auto delay x g \<Longrightarrow> listed g \<Longrightarrow> play_all rand auto delay sts g = Some g' \<Longrightarrow> \<exists>y. run_steps sts x = (Inr (), y) \<and> played rand auto delay y g'"
proof (induction sts arbitrary: x g)
  case Nil
  then show ?case by (simp add: run_steps_def ret_def)
next
  case (Cons st sts)
  obtain g1 where g1: "play rand auto delay st g = Some g1" "play_all rand auto delay sts g1 = Some g'"
    using Cons.prems(3) by (auto split: option.splits)
  obtain y where y: "run_step st x = (Inr (), y)" "played rand auto delay y g1" "listed g1"
    using played_step [OF Cons.prems(1) g1(1) Cons.prems(2)] by blast
  from Cons.IH [OF y(2,3) g1(2)] y(1) show ?case by (auto simp: run_steps_def bnd_def)
qed

text \<open>The beginning: a fresh relay and no client.\<close>

lemma played_start:
  assumes "initial s0" "delay_ok s0" "accepting s0"
  shows "played (sv_rand s0) (autostart s0) (word_of_int (sv_delay s0)) (new_ctx s0 port) empty_stage"
proof -
  note t = tidy_initial [OF assms]
  have "sv_nclient s0 = 0" and b: "blank s0"
    using assms(1) by (auto simp: initial_def new_server_def blank_def new_room_def)
  then have "staged (sv_rand s0) (autostart s0) (word_of_int (sv_delay s0)) s0 empty_stage"
    using t b by (simp add: staged_def empty_stage_def is_dead_def tracked_def)
  then show ?thesis by (simp add: played_def new_ctx_def cast_of_def empty_stage_def)
qed

lemma played_passes:
  assumes "initial s0" "delay_ok s0" "accepting s0"
    and "play_all (sv_rand s0) (autostart s0) (word_of_int (sv_delay s0)) sts empty_stage = Some g"
  shows "\<exists>x. run_steps sts (new_ctx s0 port) = (Inr (), x) \<and>
    played (sv_rand s0) (autostart s0) (word_of_int (sv_delay s0)) x g"
  using played_steps [OF played_start [OF assms(1-3), of port] _ assms(4)] by (simp add: empty_stage_def listed_def)

end
