(* ===== verification/GateRuns.thy ===== *)
theory GateRuns
  imports Played
begin

text \<open>
  The gate passes: its three scenarios are played on the specification by rewriting, with the
  seed of the match as a variable, and so pass against the relay whatever sockets it has, as long
  as they take what they are given.
\<close>

section \<open>Rewriting a play\<close>

named_theorems staging \<open>evaluation of plays\<close>

lemma replicate_stage [staging]: "replicate (numeral k) x = x # replicate (pred_numeral k) x"
  by (simp add: numeral_eq_Suc)

lemma status_stage [staging]:
  "status_from payload name i (numeral k) =
     (let e = take 9 (drop (1 + 9 * i) payload)
      in case name_field e of
           Inl x \<Rightarrow> Inl x
         | Inr m \<Rightarrow>
             if m = name then (if length e \<le> 8 then Inl IndexError else Inr (Some (e ! 8)))
             else status_from payload name (Suc i) (pred_numeral k))"
  by (simp add: numeral_eq_Suc)

lemma names_stage [staging]:
  "names_from raw i (numeral k) =
     (case name_field (drop (i * 8) raw) of
        Inl e \<Rightarrow> Inl e
      | Inr m \<Rightarrow> (case names_from raw (Suc i) (pred_numeral k) of Inl e \<Rightarrow> Inl e | Inr ms \<Rightarrow> Inr (m # ms)))"
  by (simp add: numeral_eq_Suc)

lemma utf8_stage [staging]:
  "unat b < 128 \<Longrightarrow> utf8_decode (b # bs) = (case utf8_decode bs of Inl e \<Rightarrow> Inl e | Inr us \<Rightarrow> Inr (unat b # us))"
  by (simp add: utf8_head_def Let_def)

lemmas [staging] = enters_def says_def expects_def joins_def all_expect_def asks_def anything_def Let_def
  cs_hello_def cs_frame_def cs_pad_def lit_def utf8_char_def ljust_def sendable_def readable_def wire_of_def

lemmas [staging] = empty_stage_def empty_lobby_def enter_stage_def speak_def deliver_def record_match_def exit_stage_def
  present_def take_mail_def first_mail_def body_of_def entry_def seats_def padded_def

lemmas [staging] = obey_def parse_def parse_hello_def hello_lobby_def register_def holder_def nick_def listing_def
  others_def join_lobby_def go_lobby_def start_lobby_def relay_lobby_def leave_lobby_def RELAY_TYPES_def
  decode_ascii_def rstrip_pad_def valid_name_def NAME_CHARS_def const_defs

lemmas [staging] = after_command_def after_exit_def refuses_def crc_round_def crc_store_def crc_tick_def crc_value_def
  page_def marks_of_def ddel_def

lemmas [staging] = both_def byte_is_def byte_least_def autogo_is_def start_is_def full_start_def status_is_def
  roster_is_def roster_names_def lobby_status_def name_field_def rstrip_nul_def room_is_def left_is_def one_seed_def
  st_byte_def ex_bool_eq all_bool_eq

declare utf8_decode.simps(2) [simp del]

section \<open>The plays\<close>

lemma upto_stage [staging]: "[0..<2] = [0, Suc 0]" "[0..<4] = [0, Suc 0, 2, 3]"
  by (simp_all add: upt_rec)

lemma names_two [staging]: "take 2 ROOM_NAMES = [[65, 76, 73, 67, 69], [66, 79, 66]]"
  by (simp add: ROOM_NAMES_def lit_def)

lemma full_names_two [staging]: "full_names 2 = [[80, 49, 65, 65], [80, 50, 66, 66]]"
  by (simp add: full_names_def upto_stage dec_digits.simps)

lemma play_autogo: "\<exists>g. play_all rand True 3 (Knocks [] # scenario_autogo) empty_stage = Some g"
  by (simp add: scenario_autogo_def staging)

lemma play_full: "\<exists>g. play_all rand True 3 (Knocks [] # scenario_full 2) empty_stage = Some g"
  by (simp add: scenario_full_def staging)

lemma play_main:
  "\<exists>g. play_all rand False 3 (Knocks [] # scenario_main 2) empty_stage = Some g \<and>
     {MarkStarted, MarkMismatch 320, MarkAgreed 4, MarkLeft} \<subseteq> set (sg_marks g)"
  by (simp add: scenario_main_def main_hello_def main_rooms_def main_start_def main_play_def main_leave_def
      main_forming_def crc_round_of_def crc_of_def staging)

section \<open>What the log then shows\<close>

lemma logged_mark:
  assumes "marked m s" "\<And>e. mark_of e = Some m \<Longrightarrow> occurs want (event_text e)"
  shows "logged want s"
  using assms loggedI unfolding marked_def by blast

lemma occurs_here: "occurs want (a @ want @ b)"
  unfolding occurs_sublist by blast

lemma started_text: "mark_of e = Some MarkStarted \<Longrightarrow> occurs (lit ''match: room'') (event_text e)"
proof (cases e)
  case (LStarted ns n seed)
  then have "event_text e = [] @ lit ''match: room'' @ (lit '' '' @ room_text ns @ lit '' started, '' @ dec_digits n @
      lit '' players (seed $'' @ hex4 seed @ lit '')'')"
    by (simp add: event_text_def lit_def)
  then show ?thesis using occurs_here by metis
qed simp_all

lemma left_text: "mark_of e = Some MarkLeft \<Longrightarrow> occurs (lit ''peer left'') (event_text e)"
proof (cases e)
  case (LBackToLobby c)
  then have "event_text e = (client_text c @ lit '' back to lobby ('') @ lit ''peer left'' @ lit '')''"
    by (simp add: event_text_def lit_def)
  then show ?thesis using occurs_here by metis
qed simp_all

lemma mismatch_text: "mark_of e = Some (MarkMismatch 320) \<Longrightarrow> occurs (lit ''CRC MISMATCH tick 320'') (event_text e)"
proof (cases e)
  case (LMismatch tick rs)
  moreover assume "mark_of e = Some (MarkMismatch 320)"
  moreover have "dec_digits 320 = lit ''320''" by (simp add: dec_digits.simps lit_def)
  ultimately have "event_text e = [] @ lit ''CRC MISMATCH tick 320'' @ (lit '': '' @ join [32] (map report_text rs))"
    by (simp add: event_text_def) (simp add: lit_def)
  then show ?thesis using occurs_here by metis
qed simp_all

lemma agreed_text: "mark_of e = Some (MarkAgreed 4) \<Longrightarrow> occurs (lit ''(4 rounds)'') (event_text e)"
proof (cases e)
  case (LCrcOk tick ok)
  moreover assume "mark_of e = Some (MarkAgreed 4)"
  moreover have "dec_digits 4 = lit ''4''" by (simp add: dec_digits.simps lit_def)
  ultimately have "event_text e = (lit ''crc ok through tick '' @ dec_digits tick @ lit '' '') @ lit ''(4 rounds)'' @ []"
    by (simp add: event_text_def) (simp add: lit_def)
  then show ?thesis using occurs_here by metis
qed simp_all

lemma main_logged:
  "marked MarkStarted s \<Longrightarrow> marked (MarkMismatch 320) s \<Longrightarrow> marked (MarkAgreed 4) s \<Longrightarrow> marked MarkLeft s \<Longrightarrow>
     list_all (\<lambda>w. logged w s) main_wants"
  using logged_mark started_text left_text mismatch_text agreed_text by (simp add: main_wants_def)

section \<open>Property\<close>

lemma gate_server_start:
  assumes "accepting (gate_server auto net rand)"
  shows "initial (gate_server auto net rand)" "delay_ok (gate_server auto net rand)"
    "sv_rand (gate_server auto net rand) = rand" "word_of_int (sv_delay (gate_server auto net rand)) = (3 :: byte)"
    "autostart (gate_server auto net rand) \<longleftrightarrow> auto \<noteq> 0 \<and> auto \<le> 2"
proof -
  have d: "sv_delay (gate_server auto net rand) = 3"
    by (simp add: gate_server_def default_options_def DEFAULT_DELAY_def)
  show "initial (gate_server auto net rand)" by (simp add: gate_server_def initial_main)
  show "delay_ok (gate_server auto net rand)" "word_of_int (sv_delay (gate_server auto net rand)) = (3 :: byte)"
    using d by (simp_all add: delay_ok_def)
  show "sv_rand (gate_server auto net rand) = rand" "autostart (gate_server auto net rand) \<longleftrightarrow> auto \<noteq> 0 \<and> auto \<le> 2"
    by (simp_all add: gate_server_def main_server_def new_server_def autostart_def)
qed

lemma with_server_passes:
  assumes ok: "accepting (gate_server auto net rand)" and a: "auto' \<longleftrightarrow> auto \<noteq> 0 \<and> auto \<le> 2"
    and play: "play_all rand auto' 3 (Knocks [] # steps) empty_stage = Some g"
    and wants: "\<And>s. \<forall>m \<in> set (sg_marks g). marked m s \<Longrightarrow> list_all (\<lambda>w. logged w s) wants"
  shows "with_server auto steps wants net rand port = Inr ()"
proof -
  note start = gate_server_start [OF ok]
  from played_passes [OF start(1,2) ok, of "Knocks [] # steps" g port] play a start obtain x where
    x: "run_steps (Knocks [] # steps) (new_ctx (gate_server auto net rand) port) = (Inr (), x)"
    "played rand auto' 3 x g" by auto
  have "\<forall>m \<in> set (sg_marks g). marked m (cx_server x)" using playedD(1) [OF x(2)] by (simp add: staged_def)
  with wants x(1) show ?thesis by (simp add: with_server_def)
qed

lemma gate_accepting: "(\<And>c k. \<exists>n > 0. net c k = SSent n) \<Longrightarrow> accepting (gate_server auto net rand)"
  by (simp add: accepting_def gate_server_def main_server_def new_server_def)

text \<open>C19: the protocol gate passes against the relay. Over any sockets that take what they are given,
  in pieces of any size, and whatever seed the relay draws, every assertion of the three scenarios
  holds on what the clients receive, no client is left waiting, and the relay's log shows the four
  lines the gate searches for.\<close>

theorem gate_passes:
  assumes "\<And>c k. \<exists>n > 0. net c k = SSent n"
  shows "gate 2 net rand port = GatePass"
proof -
  note ok = gate_accepting [OF assms]
  obtain g where main: "play_all rand False 3 (Knocks [] # scenario_main 2) empty_stage = Some g"
    "{MarkStarted, MarkMismatch 320, MarkAgreed 4, MarkLeft} \<subseteq> set (sg_marks g)" using play_main by blast
  have "with_server 0 (scenario_main 2) main_wants net rand port = Inr ()"
    by (rule with_server_passes [OF ok _ main(1)]) (use main(2) main_logged in auto)
  moreover obtain g2 where "play_all rand True 3 (Knocks [] # scenario_autogo) empty_stage = Some g2"
    using play_autogo by blast
  then have "with_server 2 scenario_autogo [] net rand port = Inr ()"
    by (intro with_server_passes [OF ok]) simp_all
  moreover obtain g3 where "play_all rand True 3 (Knocks [] # scenario_full 2) empty_stage = Some g3"
    using play_full by blast
  then have "with_server 2 (scenario_full 2) [] net rand port = Inr ()"
    by (intro with_server_passes [OF ok]) simp_all
  ultimately show ?thesis by (simp add: gate_def then_go_def)
qed

theorem gate_passes_witness: "gate 2 (\<lambda>c k. SSent (Suc (c + k))) (\<lambda>_. 7) (\<lambda>n. 50000 + n) = GatePass"
  by (rule gate_passes) simp

end
