(* ===== verification/Ghost.thy ===== *)
theory Ghost
  imports Clients Behaviour
begin

text \<open>
  \<open>tools/ghost_peer.py\<close>, the scripted opponent: it says HELLO, polls the lobby until somebody waits
  there, joins, and from then on answers every INPUT with an INPUT of the same tick. It speaks
  protocol 1. The clock is a function from the number of its readings, \<open>works\<close> tells which of its
  \<open>sendall\<close> calls succeed, and the receptions come as a list; what it prints are values.
\<close>

section \<open>State\<close>

record ghost_options =
  go_name :: pystr
  go_want :: int
  go_timeout :: rat
  go_mirror :: bool
  go_pitch_at :: int

datatype ghost_line =
    JoiningLine pystr
  | MatchedLine pystr nat nat nat
  | PitchLine nat
  | InputLine nat bytes
  | LeftLine
  | ClosedLine
  | SummaryLine nat nat nat "(nat \<times> nat) list"
  | VerdictLine bool

record ghost =
  gh_buf :: bytes
  gh_matched :: bool
  gh_last_list :: rat
  gh_inputs :: nat
  gh_crcs :: nat
  gh_max_tick :: nat
  gh_crc_ticks :: "(nat \<times> nat) list"
  gh_deadline :: rat
  gh_last :: "bytes option"
  gh_sent :: "bytes list"
  gh_out :: "ghost_line list"
  gh_readings :: nat

definition new_ghost :: ghost where
  "new_ghost =
     \<lparr> gh_buf = [], gh_matched = False, gh_last_list = 0, gh_inputs = 0, gh_crcs = 0, gh_max_tick = 0,
       gh_crc_ticks = [], gh_deadline = 0, gh_last = None, gh_sent = [], gh_out = [], gh_readings = 0 \<rparr>"

definition IDLE :: byte where "IDLE = 0x40"

section \<open>Its calls\<close>

definition ghost_now :: "(nat \<Rightarrow> rat) \<Rightarrow> (ghost, rat) act" where
  "ghost_now clock =
     bnd (gets (\<lambda>g. clock (gh_readings g))) (\<lambda>t.
     bnd (modify (\<lambda>g. g\<lparr>gh_readings := Suc (gh_readings g)\<rparr>)) (\<lambda>_. ret t))"

definition ghost_send :: "(nat \<Rightarrow> bool) \<Rightarrow> exn + bytes \<Rightarrow> (ghost, unit) act" where
  "ghost_send works d =
     bnd (lift d) (\<lambda>b. bnd (gets (\<lambda>g. works (length (gh_sent g)))) (\<lambda>ok.
       if ok then modify (\<lambda>g. g\<lparr>gh_sent := gh_sent g @ [b]\<rparr>) else throw OSError))"

definition ghost_print :: "ghost_line \<Rightarrow> (ghost, unit) act" where
  "ghost_print l = modify (\<lambda>g. g\<lparr>gh_out := gh_out g @ [l]\<rparr>)"

definition byte_at :: "bytes \<Rightarrow> nat \<Rightarrow> exn + byte" where
  "byte_at p i = (if i < length p then Inr (p ! i) else Inl IndexError)"

text \<open>\<open>p[i] | (p[i + 1] << 8)\<close>.\<close>

definition word_at :: "bytes \<Rightarrow> nat \<Rightarrow> exn + nat" where
  "word_at p i =
     (case byte_at p i of Inl e \<Rightarrow> Inl e | Inr lo \<Rightarrow>
     (case byte_at p (i + 1) of Inl e \<Rightarrow> Inl e | Inr hi \<Rightarrow> Inr (unat lo OR push_bit 8 (unat hi))))"

definition encoded_name :: "ghost_options \<Rightarrow> exn + bytes" where
  "encoded_name opts = utf8 (go_name opts)"

definition ghost_hello :: "ghost_options \<Rightarrow> exn + bytes" where
  "ghost_hello opts = (case encoded_name opts of Inl e \<Rightarrow> Inl e | Inr b \<Rightarrow> cs_frame T_HELLO (1 # b))"

section \<open>What it does with a frame\<close>

text \<open>LOBBY: the first entry that waits and is not its own; \<open>n\<close> entries are left.\<close>

fun ghost_join :: "(nat \<Rightarrow> bool) \<Rightarrow> ghost_options \<Rightarrow> bytes \<Rightarrow> nat \<Rightarrow> nat \<Rightarrow> (ghost, unit) act" where
  "ghost_join works opts p i 0 = ret ()"
| "ghost_join works opts p i (Suc n) =
     bnd (lift (byte_at p (9 + i * 9))) (\<lambda>status.
     bnd (lift (if status = 0 then encoded_name opts else Inr [])) (\<lambda>mine.
       let name = rstrip_nul (take 8 (drop (1 + i * 9) p))
       in if status = 0 \<and> name \<noteq> mine
          then bnd (lift (utf8_decode name)) (\<lambda>shown.
               bnd (ghost_print (JoiningLine shown)) (\<lambda>_. ghost_send works (cs_frame T_JOIN name)))
          else ghost_join works opts p (Suc i) n))"

definition ghost_start :: "bytes \<Rightarrow> (ghost, unit) act" where
  "ghost_start p =
     bnd (modify (\<lambda>g. g\<lparr>gh_matched := True\<rparr>)) (\<lambda>_.
     bnd (lift (byte_at p 0)) (\<lambda>role.
     bnd (lift (word_at p 1)) (\<lambda>seed.
     bnd (lift (utf8_decode (rstrip_nul (take 8 (drop 4 p))))) (\<lambda>opp.
     bnd (lift (byte_at p 3)) (\<lambda>d.
       ghost_print (MatchedLine opp (unat role) seed (unat d)))))))"

text \<open>The cell it answers with, and whether it says that it pitches.\<close>

definition pitch_cell :: "ghost_options \<Rightarrow> nat \<Rightarrow> byte \<times> bool" where
  "pitch_cell opts tick =
     (if go_pitch_at opts \<noteq> 0 \<and> go_pitch_at opts \<le> int tick
      then (let ph = (int tick - go_pitch_at opts) mod 256
            in if ph = 0 then (0x85, True) else if ph < 4 then (0xC5, False) else (IDLE, False))
      else (IDLE, False))"

definition ghost_reply :: "ghost_options \<Rightarrow> bytes \<Rightarrow> nat \<Rightarrow> bytes" where
  "ghost_reply opts p tick =
     (if go_mirror opts then drop 2 p
      else fst (pitch_cell opts tick) # replicate (max (length p - 3) 1) 0)"

definition ghost_input :: "(nat \<Rightarrow> bool) \<Rightarrow> ghost_options \<Rightarrow> bytes \<Rightarrow> (ghost, unit) act" where
  "ghost_input works opts p =
     bnd (lift (word_at p 0)) (\<lambda>tick.
     bnd (modify (\<lambda>g. g\<lparr>gh_inputs := gh_inputs g + 1, gh_max_tick := max (gh_max_tick g) tick\<rparr>)) (\<lambda>_.
     bnd (guarded (\<not> go_mirror opts \<and> snd (pitch_cell opts tick)) (ghost_print (PitchLine tick))) (\<lambda>_.
     bnd (gets gh_last) (\<lambda>seen.
     bnd (guarded (go_mirror opts \<and> Some (drop 2 p) \<noteq> seen)
       (bnd (modify (\<lambda>g. g\<lparr>gh_last := Some (drop 2 p)\<rparr>)) (\<lambda>_. ghost_print (InputLine tick (drop 2 p))))) (\<lambda>_.
       ghost_send works (cs_frame T_INPUT (take 2 p @ ghost_reply opts p tick)))))))"

definition ghost_crc :: "bytes \<Rightarrow> (ghost, unit) act" where
  "ghost_crc p =
     bnd (lift (word_at p 0)) (\<lambda>tick.
     bnd (lift (word_at p 2)) (\<lambda>crc.
       modify (\<lambda>g. g\<lparr>gh_crcs := gh_crcs g + 1, gh_crc_ticks := gh_crc_ticks g @ [(tick, crc)]\<rparr>)))"

definition ghost_peer_left :: "(nat \<Rightarrow> rat) \<Rightarrow> (ghost, unit) act" where
  "ghost_peer_left clock =
     bnd (ghost_print LeftLine) (\<lambda>_.
     bnd (ghost_now clock) (\<lambda>now.
       modify (\<lambda>g. g\<lparr>gh_deadline := min (gh_deadline g) (now + 1)\<rparr>)))"

definition ghost_frame :: "(nat \<Rightarrow> rat) \<Rightarrow> (nat \<Rightarrow> bool) \<Rightarrow> ghost_options \<Rightarrow> byte \<Rightarrow> bytes \<Rightarrow> (ghost, unit) act" where
  "ghost_frame clock works opts t p =
     bnd (gets gh_matched) (\<lambda>matched.
       if t = T_LOBBY \<and> \<not> matched
       then bnd (lift (byte_at p 0)) (\<lambda>count. ghost_join works opts p 0 (unat count))
       else if t = T_START then ghost_start p
       else if t = T_INPUT then ghost_input works opts p
       else if t = T_CRC then ghost_crc p
       else if t = T_PEER_LEFT then ghost_peer_left clock
       else ret ())"

section \<open>Its loop\<close>

text \<open>
  The first frame of the buffer, if it is there: a frame of length 0 takes the byte behind it for
  its type.
\<close>

definition ghost_scan :: "bytes \<Rightarrow> (byte \<times> bytes \<times> bytes) option + exn" where
  "ghost_scan buf =
     (case buf of
        [] \<Rightarrow> Inl None
      | l # rest \<Rightarrow>
          if length buf < unat l + 1 then Inl None
          else (case rest of [] \<Rightarrow> Inr IndexError | t # _ \<Rightarrow>
            Inl (Some (t, take (unat l - 1) (drop 2 buf), drop (unat l + 1) buf))))"

fun ghost_pump :: "(nat \<Rightarrow> rat) \<Rightarrow> (nat \<Rightarrow> bool) \<Rightarrow> ghost_options \<Rightarrow> nat \<Rightarrow> (ghost, unit) act" where
  "ghost_pump clock works opts 0 = ret ()"
| "ghost_pump clock works opts (Suc n) =
     bnd (gets (\<lambda>g. ghost_scan (gh_buf g))) (\<lambda>sc.
       case sc of
         Inr e \<Rightarrow> throw e
       | Inl None \<Rightarrow> ret ()
       | Inl (Some (t, p, rest)) \<Rightarrow>
           bnd (modify (\<lambda>g. g\<lparr>gh_buf := rest\<rparr>)) (\<lambda>_.
           bnd (ghost_frame clock works opts t p) (\<lambda>_. ghost_pump clock works opts n)))"

definition ghost_drain :: "(nat \<Rightarrow> rat) \<Rightarrow> (nat \<Rightarrow> bool) \<Rightarrow> ghost_options \<Rightarrow> (ghost, unit) act" where
  "ghost_drain clock works opts = bnd (gets (\<lambda>g. length (gh_buf g))) (ghost_pump clock works opts)"

datatype reception = Nothing | Arrives bytes | Breaks

text \<open>Why the loop ended; with no reception left the ghost is still waiting.\<close>

datatype ghost_end = Expired | HungUp | Reached | Waiting

definition ghost_poll :: "(nat \<Rightarrow> rat) \<Rightarrow> (nat \<Rightarrow> bool) \<Rightarrow> (ghost, unit) act" where
  "ghost_poll clock works =
     bnd (gets (\<lambda>g. (gh_matched g, gh_last_list g))) (\<lambda>(matched, last).
       if matched then ret ()
       else bnd (ghost_now clock) (\<lambda>now.
         guarded (1 < now - last)
           (bnd (ghost_send works (cs_frame T_LIST [])) (\<lambda>_.
            bnd (ghost_now clock) (\<lambda>sent_at.
              modify (\<lambda>g. g\<lparr>gh_last_list := sent_at\<rparr>))))))"

fun ghost_loop :: "(nat \<Rightarrow> rat) \<Rightarrow> (nat \<Rightarrow> bool) \<Rightarrow> ghost_options \<Rightarrow> reception list \<Rightarrow> (ghost, ghost_end) act" where
  "ghost_loop clock works opts rs =
     bnd (ghost_now clock) (\<lambda>now. bnd (gets gh_deadline) (\<lambda>deadline.
       if \<not> now < deadline then ret Expired
       else bnd (ghost_poll clock works) (\<lambda>_.
         case rs of
           [] \<Rightarrow> ret Waiting
         | Breaks # rs' \<Rightarrow> throw OSError
         | Nothing # rs' \<Rightarrow> ghost_loop clock works opts rs'
         | Arrives chunk # rs' \<Rightarrow>
             if chunk = [] then bnd (ghost_print ClosedLine) (\<lambda>_. ret HungUp)
             else bnd (modify (\<lambda>g. g\<lparr>gh_buf := gh_buf g @ chunk\<rparr>)) (\<lambda>_.
                  bnd (ghost_drain clock works opts) (\<lambda>_.
                  bnd (gets gh_max_tick) (\<lambda>top.
                    if go_want opts \<le> int top then ret Reached
                    else ghost_loop clock works opts rs'))))))"

declare ghost_loop.simps [simp del]

text \<open>\<open>main\<close>, once connected: the exit status, or none while it is still waiting.\<close>

definition ghost_main :: "(nat \<Rightarrow> rat) \<Rightarrow> (nat \<Rightarrow> bool) \<Rightarrow> ghost_options \<Rightarrow> reception list \<Rightarrow> (ghost, int option) act" where
  "ghost_main clock works opts rs =
     bnd (ghost_send works (ghost_hello opts)) (\<lambda>_.
     bnd (ghost_now clock) (\<lambda>now.
     bnd (modify (\<lambda>g. g\<lparr>gh_deadline := now + go_timeout opts\<rparr>)) (\<lambda>_.
     bnd (ghost_loop clock works opts rs) (\<lambda>ended.
       if ended = Waiting then ret None
       else
         bnd (gets (\<lambda>g. SummaryLine (gh_inputs g) (gh_max_tick g) (gh_crcs g) (take 4 (gh_crc_ticks g)))) (\<lambda>l.
         bnd (ghost_print l) (\<lambda>_.
         bnd (gets (\<lambda>g. go_want opts \<le> int (gh_max_tick g) \<and> 0 < gh_crcs g)) (\<lambda>ok.
         bnd (ghost_print (VerdictLine ok)) (\<lambda>_.
           ret (Some (if ok then 0 else 1))))))))))"

section \<open>The reading loop\<close>

lemma ghost_scan_peer:
  "ghost_scan buf =
     (case peer_scan buf of
        Got (t # p) rest \<Rightarrow> Inl (Some (t, p, rest))
      | Got [] rest \<Rightarrow> (case rest of [] \<Rightarrow> Inr IndexError | t # _ \<Rightarrow> Inl (Some (t, [], rest)))
      | _ \<Rightarrow> Inl None)"
proof (cases buf)
  case Nil
  then show ?thesis by (simp add: ghost_scan_def peer_scan_def)
next
  case (Cons l b)
  show ?thesis
  proof (cases b)
    case Nil
    with Cons show ?thesis by (simp add: ghost_scan_def peer_scan_def)
  next
    case b: (Cons t c)
    show ?thesis
    proof (cases "unat l")
      case 0
      with Cons b show ?thesis by (simp add: ghost_scan_def peer_scan_def)
    next
      case (Suc n)
      with Cons b show ?thesis by (simp add: ghost_scan_def peer_scan_def)
    qed
  qed
qed

lemma ghost_scan_enc: "m \<noteq> [] \<Longrightarrow> length m \<le> 255 \<Longrightarrow> ghost_scan (wire_of m @ rest) = Inl (Some (hd m, tl m, rest))"
  by (cases m) (simp_all add: ghost_scan_peer peer_scan_enc)

lemma ghost_scan_wait: "peer_scan rest = Wait \<Longrightarrow> ghost_scan rest = Inl None"
  by (simp add: ghost_scan_peer)

text \<open>The whole frames in the buffer are handled in order; what is left is less than a frame.\<close>

lemma ghost_pump_frames:
  assumes "\<And>m. m \<in> set ms \<Longrightarrow> m \<noteq> [] \<and> length m \<le> 255" "peer_scan rest = Wait"
    and "\<And>t p g b r h. ghost_frame clock works opts t p (g\<lparr>gh_buf := b\<rparr>) = (r, h) \<Longrightarrow> gh_buf h = b"
  shows "length ms \<le> n \<Longrightarrow> gh_buf g = concat (map wire_of ms) @ rest \<Longrightarrow>
    ghost_pump clock works opts n g =
      for_each ms (\<lambda>m. bnd (modify (\<lambda>g. g\<lparr>gh_buf := drop (length (wire_of m)) (gh_buf g)\<rparr>)) (\<lambda>_.
        ghost_frame clock works opts (hd m) (tl m))) g"
  using assms(1)
proof (induction ms arbitrary: n g)
  case Nil
  then show ?case using ghost_scan_wait [OF assms(2)] by (cases n) (simp_all add: ret_def)
next
  case (Cons m ms)
  obtain k where n: "n = Suc k" using Cons.prems(1) by (cases n) auto
  have m: "m \<noteq> []" "length m \<le> 255" using Cons.prems(3) by auto
  have sc: "ghost_scan (gh_buf g) = Inl (Some (hd m, tl m, concat (map wire_of ms) @ rest))"
    using ghost_scan_enc [OF m] Cons.prems(2) by simp
  let ?g = "g\<lparr>gh_buf := concat (map wire_of ms) @ rest\<rparr>"
  have d: "g\<lparr>gh_buf := drop (length (wire_of m)) (gh_buf g)\<rparr> = ?g" using Cons.prems(2) by simp
  obtain r h where h: "ghost_frame clock works opts (hd m) (tl m) ?g = (r, h)" by fastforce
  have "gh_buf h = concat (map wire_of ms) @ rest" using assms(3) [OF h] .
  with Cons.IH [of k h] Cons.prems n h sc d show ?case
    by (cases r) (simp_all add: bnd_def gets_def modify_def)
qed

text \<open>No handler touches the buffer.\<close>

definition buffered :: "(ghost, 'a) act \<Rightarrow> bool" where
  "buffered m \<longleftrightarrow> (\<forall>g. gh_buf (snd (m g)) = gh_buf g)"

named_theorems buffered_rules

lemma buffered_ret [buffered_rules]: "buffered (ret x)" "buffered (throw e)" "buffered (lift r)" "buffered (gets f)"
  by (simp_all add: buffered_def act_defs)

lemma buffered_modify: "(\<And>g. gh_buf (f g) = gh_buf g) \<Longrightarrow> buffered (modify f)"
  by (simp add: buffered_def act_defs)

lemma buffered_bnd [buffered_rules]: "buffered m \<Longrightarrow> (\<And>x. buffered (f x)) \<Longrightarrow> buffered (bnd m f)"
  unfolding buffered_def bnd_def by (auto split: prod.splits sum.splits) (metis snd_conv)+

lemma buffered_if [buffered_rules]: "buffered m \<Longrightarrow> buffered n \<Longrightarrow> buffered (if b then m else n)"
  by simp

lemma buffered_guarded [buffered_rules]: "buffered m \<Longrightarrow> buffered (guarded b m)"
  by (simp add: guarded_def buffered_ret)

lemma buffered_calls [buffered_rules]:
  "buffered (ghost_now clock)" "buffered (ghost_send works d)" "buffered (ghost_print l)"
  unfolding ghost_now_def ghost_send_def ghost_print_def
  by (intro buffered_rules buffered_modify; simp)+

lemma buffered_join [buffered_rules]: "buffered (ghost_join works opts p i n)"
  by (induction n arbitrary: i) (simp_all add: Let_def buffered_rules)

lemma buffered_frame: "buffered (ghost_frame clock works opts t p)"
  unfolding ghost_frame_def ghost_start_def ghost_input_def ghost_crc_def ghost_peer_left_def
  by (intro buffered_rules buffered_modify; simp)

lemma ghost_drain_frames:
  assumes "\<And>m. m \<in> set ms \<Longrightarrow> m \<noteq> [] \<and> length m \<le> 255" "peer_scan rest = Wait"
    and "gh_buf g = concat (map wire_of ms) @ rest"
  shows "ghost_drain clock works opts g =
    for_each ms (\<lambda>m. bnd (modify (\<lambda>g. g\<lparr>gh_buf := drop (length (wire_of m)) (gh_buf g)\<rparr>)) (\<lambda>_.
      ghost_frame clock works opts (hd m) (tl m))) g"
proof -
  have "length ms \<le> length (concat (map wire_of ms))"
    by (induction ms) (simp_all add: wire_of_def)
  moreover have "gh_buf h = b" if "ghost_frame clock works opts t p (g\<lparr>gh_buf := b\<rparr>) = (r, h)" for t p g b r h
    using buffered_frame [unfolded buffered_def, rule_format, of clock works opts t p "g\<lparr>gh_buf := b\<rparr>"] that by simp
  ultimately show ?thesis
    using ghost_pump_frames [OF assms(1,2), where n = "length (gh_buf g)" and g = g] assms(3)
    by (simp add: ghost_drain_def)
qed

section \<open>The lockstep\<close>

text \<open>What reaches a player of a running match, with the payloads complete.\<close>

definition play_frame :: "bytes \<Rightarrow> bool" where
  "play_frame m \<longleftrightarrow> m \<noteq> [] \<and> length m \<le> 254 \<and> hd m \<noteq> T_LOBBY \<and> hd m \<noteq> T_START \<and> hd m \<noteq> T_PEER_LEFT \<and>
     (if hd m = T_INPUT then 3 \<le> length m else if hd m = T_CRC then 5 \<le> length m else True)"

definition tick_of :: "bytes \<Rightarrow> nat" where
  "tick_of m = unat (m ! 1) OR push_bit 8 (unat (m ! 2))"

definition answers_to :: "ghost_options \<Rightarrow> bytes \<Rightarrow> bytes list" where
  "answers_to opts m =
     (if hd m = T_INPUT then [wire_of (T_INPUT # take 2 (tl m) @ ghost_reply opts (tl m) (tick_of m))] else [])"

lemma word_at_tick:
  assumes "3 \<le> length m"
  shows "word_at (tl m) 0 = Inr (tick_of m)"
proof -
  obtain a b c r where "m = a # b # c # r"
    using assms by (cases m; cases "tl m"; cases "tl (tl m)") auto
  then show ?thesis by (simp add: word_at_def byte_at_def tick_of_def)
qed

lemma ghost_reply_length: "length p \<le> 253 \<Longrightarrow> length (T_INPUT # take 2 p @ ghost_reply opts p t) \<le> 255"
  by (simp add: ghost_reply_def) linarith

text \<open>The count, the highest tick, the buffer and what was sent after one frame.\<close>

definition ghost_moved :: "ghost_options \<Rightarrow> bytes \<Rightarrow> ghost \<Rightarrow> ghost \<Rightarrow> bool" where
  "ghost_moved opts m g h \<longleftrightarrow>
     gh_sent h = gh_sent g @ answers_to opts m \<and>
     gh_inputs h = gh_inputs g + length (filter (\<lambda>t. t = T_INPUT) [hd m]) \<and>
     gh_crcs h = gh_crcs g + length (filter (\<lambda>t. t = T_CRC) [hd m]) \<and>
     gh_max_tick h = (if hd m = T_INPUT then max (gh_max_tick g) (tick_of m) else gh_max_tick g)"

lemma ghost_input_moves:
  assumes "\<And>k. works k" "play_frame m" "hd m = T_INPUT"
  shows "\<exists>h. ghost_input works opts (tl m) g = (Inr (), h) \<and> ghost_moved opts m g h"
proof -
  have "3 \<le> length m" "length (tl m) \<le> 253" using assms(2,3) by (auto simp: play_frame_def)
  note f = word_at_tick [OF this(1)] cs_frame_wire [of "take 2 (tl m) @ ghost_reply opts (tl m) (tick_of m)" T_INPUT]
    ghost_reply_length [OF this(2), of opts "tick_of m"]
  then show ?thesis
    using assms(1,3) by (auto simp: ghost_input_def ghost_print_def ghost_send_def ghost_moved_def answers_to_def type_defs
        bnd_def gets_def modify_def lift_def guarded_def ret_def)
qed

lemma ghost_frame_moves:
  assumes "\<And>k. works k" "play_frame m"
  shows "\<exists>h. ghost_frame clock works opts (hd m) (tl m) g = (Inr (), h) \<and> ghost_moved opts m g h"
proof (cases "hd m = T_INPUT")
  case True
  with ghost_input_moves [where works = works, OF assms True] show ?thesis by (simp add: ghost_frame_def type_defs)
next
  case False
  show ?thesis
  proof (cases "hd m = T_CRC")
    case True
    with assms(2) have "5 \<le> length m" by (auto simp: play_frame_def type_defs)
    then have "word_at (tl m) 0 = Inr (tick_of m)" "\<exists>v. word_at (tl m) 2 = Inr v"
      using word_at_tick [of m] by (simp_all add: word_at_def byte_at_def)
    with True show ?thesis
      by (auto simp: ghost_frame_def ghost_crc_def ghost_moved_def answers_to_def modify_def type_defs)
  next
    case not_crc: False
    with False assms(2) show ?thesis
      by (auto simp: ghost_frame_def play_frame_def ghost_moved_def answers_to_def ret_def)
  qed
qed

lemma ghost_frames_move:
  assumes "\<And>k. works k"
  shows "list_all play_frame ms \<Longrightarrow>
    \<exists>h. for_each ms (\<lambda>m. bnd (modify (\<lambda>g. g\<lparr>gh_buf := drop (length (wire_of m)) (gh_buf g)\<rparr>)) (\<lambda>_.
        ghost_frame clock works opts (hd m) (tl m))) g = (Inr (), h) \<and>
      gh_buf h = drop (length (concat (map wire_of ms))) (gh_buf g) \<and>
      gh_sent h = gh_sent g @ concat (map (answers_to opts) ms) \<and>
      gh_inputs h = gh_inputs g + length (filter (\<lambda>m. hd m = T_INPUT) ms) \<and>
      gh_crcs h = gh_crcs g + length (filter (\<lambda>m. hd m = T_CRC) ms) \<and>
      gh_max_tick h = fold max (map tick_of (filter (\<lambda>m. hd m = T_INPUT) ms)) (gh_max_tick g)"
proof (induction ms arbitrary: g)
  case Nil
  then show ?case by (simp add: ret_def)
next
  case (Cons m ms)
  let ?g = "g\<lparr>gh_buf := drop (length (wire_of m)) (gh_buf g)\<rparr>"
  obtain h where h: "ghost_frame clock works opts (hd m) (tl m) ?g = (Inr (), h)" "ghost_moved opts m ?g h"
    using ghost_frame_moves [where works = works and m = m and g = ?g, OF assms] Cons.prems by auto
  moreover have "gh_buf h = gh_buf ?g"
    using buffered_frame [unfolded buffered_def, rule_format, of clock works opts "hd m" "tl m" ?g] h(1) by simp
  ultimately show ?case
    using Cons.IH [of h] Cons.prems by (auto simp: bnd_def modify_def ghost_moved_def max.commute add.commute)
qed

section \<open>Against the relay\<close>

text \<open>Receptions without a byte: the ghost only polls, and has no checksum to show in the end.\<close>

definition mute :: "reception \<Rightarrow> bool" where
  "mute r = (case r of Arrives d \<Rightarrow> d = [] | _ \<Rightarrow> True)"

definition only_polls :: "bytes list \<Rightarrow> ghost \<Rightarrow> bool" where
  "only_polls sent g \<longleftrightarrow> gh_crcs g = 0 \<and> (\<exists>n. gh_sent g = sent @ replicate n (wire_of [T_LIST]))"

definition keeps_polling :: "(ghost, 'a) act \<Rightarrow> bool" where
  "keeps_polling m \<longleftrightarrow> (\<forall>sent g. only_polls sent g \<longrightarrow> only_polls sent (snd (m g)))"

lemma keeps_polling_bnd: "keeps_polling m \<Longrightarrow> (\<And>x. keeps_polling (f x)) \<Longrightarrow> keeps_polling (bnd m f)"
  unfolding keeps_polling_def bnd_def by (auto split: prod.splits sum.splits) (metis snd_conv)+

lemma keeps_polling_simple: "keeps_polling (ret x)" "keeps_polling (throw e)" "keeps_polling (gets f)"
  by (simp_all add: keeps_polling_def act_defs)

lemma keeps_polling_modify: "(\<And>g. gh_crcs (f g) = gh_crcs g \<and> gh_sent (f g) = gh_sent g) \<Longrightarrow> keeps_polling (modify f)"
  by (simp add: keeps_polling_def act_defs only_polls_def)

lemma keeps_polling_list: "keeps_polling (ghost_send works (cs_frame T_LIST []))"
  unfolding keeps_polling_def only_polls_def
  by (auto simp: ghost_send_def cs_frame_wire bnd_def gets_def modify_def lift_def throw_def replicate_append_same
      intro: exI [of _ "Suc n" for n])

lemmas keeps_polling_rules = keeps_polling_bnd keeps_polling_simple keeps_polling_modify keeps_polling_list

lemma keeps_polling_now: "keeps_polling (ghost_now clock)"
  unfolding ghost_now_def by (intro keeps_polling_rules) simp

lemma keeps_polling_print: "keeps_polling (ghost_print l)"
  unfolding ghost_print_def by (intro keeps_polling_rules) simp

lemma keeps_polling_poll: "keeps_polling (ghost_poll clock works)"
  unfolding ghost_poll_def guarded_def
  by (auto intro!: keeps_polling_rules keeps_polling_now split: prod.split)

lemma keeps_polling_loop: "list_all mute rs \<Longrightarrow> keeps_polling (ghost_loop clock works opts rs)"
proof (induction rs)
  case Nil
  show ?case
    by (subst ghost_loop.simps) (auto intro!: keeps_polling_rules keeps_polling_now keeps_polling_poll)
next
  case (Cons r rs)
  then have IH: "keeps_polling (ghost_loop clock works opts rs)" by simp
  show ?case
    using Cons.prems
    by (subst ghost_loop.simps)
      (auto simp: mute_def intro!: keeps_polling_rules keeps_polling_now keeps_polling_poll keeps_polling_print IH
        split: reception.splits)
qed

lemma ghost_main_mute:
  assumes "list_all mute rs" "ghost_main clock works opts rs new_ghost = (res, h)"
  shows "res \<noteq> Inr (Some 0)" "set (gh_sent h) \<subseteq> {d. ghost_hello opts = Inr d} \<union> {wire_of [T_LIST]}"
proof -
  let ?hi = "ghost_send works (ghost_hello opts)"
  obtain r1 g1 where g1: "?hi new_ghost = (r1, g1)" by fastforce
  have sent: "only_polls (gh_sent g1) g1" "set (gh_sent g1) \<subseteq> {d. ghost_hello opts = Inr d}"
    using g1 by (auto simp: ghost_send_def only_polls_def new_ghost_def bnd_def lift_def gets_def modify_def throw_def
        intro: exI [of _ 0] split: sum.splits if_splits)
  define rest where "rest = bnd (ghost_now clock) (\<lambda>now.
     bnd (modify (\<lambda>g. g\<lparr>gh_deadline := now + go_timeout opts\<rparr>)) (\<lambda>_. ghost_loop clock works opts rs))"
  have kr: "keeps_polling rest"
    unfolding rest_def by (intro keeps_polling_rules keeps_polling_now keeps_polling_loop [OF assms(1)]) simp
  have main: "ghost_main clock works opts rs = bnd ?hi (\<lambda>_. bnd rest (\<lambda>ended.
       if ended = Waiting then ret None
       else
         bnd (gets (\<lambda>g. SummaryLine (gh_inputs g) (gh_max_tick g) (gh_crcs g) (take 4 (gh_crc_ticks g)))) (\<lambda>l.
         bnd (ghost_print l) (\<lambda>_.
         bnd (gets (\<lambda>g. go_want opts \<le> int (gh_max_tick g) \<and> 0 < gh_crcs g)) (\<lambda>ok.
         bnd (ghost_print (VerdictLine ok)) (\<lambda>_.
           ret (Some (if ok then 0 else 1))))))))"
    by (simp add: ghost_main_def rest_def bnd_assoc)
  obtain r2 g2 where g2: "rest g1 = (r2, g2)" by fastforce
  have p2: "only_polls (gh_sent g1) g2" using kr sent(1) g2 unfolding keeps_polling_def by (metis snd_conv)
  have "gh_sent h = gh_sent g1 \<or> gh_sent h = gh_sent g2" "res \<noteq> Inr (Some 0)"
    using assms(2) g1 g2 p2 unfolding main
    by (auto simp: bnd_def [of ?hi] bnd_def [of rest] only_polls_def ghost_print_def ret_def modify_def
        split: sum.splits if_splits)
  with p2 sent(2) show "res \<noteq> Inr (Some 0)"
    "set (gh_sent h) \<subseteq> {d. ghost_hello opts = Inr d} \<union> {wire_of [T_LIST]}"
    by (auto simp: only_polls_def)
qed

text \<open>A HELLO of protocol 1 costs a new client its connection.\<close>

lemma old_hello_refused:
  assumes "INV s" "c < sv_nclient s" "\<not> is_dead s c" "name_of s c = None" "cl_rx (sv_client s c) = []"
    and "cs_frame T_HELLO (1 # b) = Inr d"
  shows "\<exists>t. service c (RData d) s = (Inr (), t) \<and> is_dead t c \<and> stream t c = stream s c"
proof -
  let ?s = "set_rx c d s" and ?body = "T_HELLO # 1 # b"
  have b: "length b \<le> 253"
    using assms(6) by (cases "length b \<le> 253") (simp_all add: cs_frame_def Let_def mk_byte_def)
  then have d: "d = wire_of ?body" and l: "length ?body \<le> 255"
    using assms(6) cs_frame_wire [of "1 # b" T_HELLO] by simp_all
  have gone: "drop_client c w u = (Inr (), forget_names c (mark_dead c w u))"
    "is_dead (forget_names c (mark_dead c w u)) c" "stream (forget_names c (mark_dead c w u)) c = stream s c"
    if "INV u" "\<not> is_dead u c" "name_of u c = None" "stream u c = stream s c" for u w
    using that drop_nameless [OF that(1-3)] by (simp_all add: is_dead_mark_dead)
  have pump: "service c (RData d) s = pump c ?s"
    using assms(5) by (simp add: service_def d wire_of_def)
  show ?thesis
  proof (cases "readable ?body")
    case True
    have "scan_frame (wire_of ?body @ []) = Got ?body []" using scan_frame_enc [OF True, of "[]"] .
    then have "pump c ?s = bnd (modify (set_rx c [])) (\<lambda>_. bnd (handle_frame c ?body) (\<lambda>go_on. if go_on then pump c else ret ())) ?s"
      by (subst pump_unfold) (simp add: d)
    moreover let ?u = "set_rx c [] ?s"
    obtain p where h: "handle c T_HELLO (1 # b) ?u = (Inl (ProtocolError p), ?u)"
      by (cases "length b < 2") (auto simp: handle_def on_hello_def hello_name_def PROTO_VER_def type_defs RELAY_TYPES_def bnd_def lift_def)
    have "handle_frame c ?body ?u = (Inr False, forget_names c (mark_dead c (WhyProtocol p) ?u))"
      using h gone(1) [of ?u "WhyProtocol p"] assms(1,3,4) by (simp add: handle_frame_def bnd_def ret_def)
    ultimately show ?thesis
      using gone(2,3) [of ?u "WhyProtocol p"] assms(1,3,4) pump by (simp add: bnd_def modify_def ret_def)
  next
    case False
    then have "scan_frame d = Bad (hd d)"
      using l unat_of_length [OF l] by (auto simp: scan_frame_def d wire_of_def readable_def)
    then have "pump c ?s = drop_client c (WhyBadLength (hd d)) ?s" by (subst pump_unfold) simp
    with gone [of ?s] assms(1,3,4) pump show ?thesis by auto
  qed
qed

section \<open>Properties\<close>

text \<open>C22: in a running match the scripted opponent keeps the lockstep. Fed with any bytes, it handles the
  whole frames among them in order and keeps the rest; for each INPUT it sends one INPUT that
  carries the same tick, in the order of their arrival, and its counts of INPUTs and CRCs and its
  highest tick are those of the frames.\<close>

theorem ghost_lockstep:
  assumes "\<And>k. works k" "list_all play_frame ms" "peer_scan rest = Wait"
    and "gh_buf g = concat (map wire_of ms) @ rest"
  shows "\<exists>h. ghost_drain clock works opts g = (Inr (), h) \<and> gh_buf h = rest \<and>
    gh_sent h = gh_sent g @
      map (\<lambda>m. wire_of (T_INPUT # take 2 (tl m) @ ghost_reply opts (tl m) (tick_of m))) (filter (\<lambda>m. hd m = T_INPUT) ms) \<and>
    gh_inputs h = gh_inputs g + length (filter (\<lambda>m. hd m = T_INPUT) ms) \<and>
    gh_crcs h = gh_crcs g + length (filter (\<lambda>m. hd m = T_CRC) ms) \<and>
    gh_max_tick h = fold max (map tick_of (filter (\<lambda>m. hd m = T_INPUT) ms)) (gh_max_tick g)"
proof -
  have "m \<noteq> [] \<and> length m \<le> 255" if "m \<in> set ms" for m
    using assms(2) that by (auto simp: list_all_iff play_frame_def)
  note drain = ghost_drain_frames [OF this assms(3,4)]
  have "concat (map (answers_to opts) ms) =
      map (\<lambda>m. wire_of (T_INPUT # take 2 (tl m) @ ghost_reply opts (tl m) (tick_of m))) (filter (\<lambda>m. hd m = T_INPUT) ms)"
    by (induction ms) (simp_all add: answers_to_def)
  with ghost_frames_move [where works = works, OF assms(1,2)] drain assms(4) show ?thesis by fastforce
qed

theorem ghost_lockstep_witness:
  "\<exists>h. ghost_drain (\<lambda>_. 0) (\<lambda>_. True) \<lparr>go_name = lit ''GHOST1'', go_want = 9, go_timeout = 60, go_mirror = True, go_pitch_at = 0\<rparr>
      (new_ghost\<lparr>gh_buf := wire_of [T_INPUT, 7, 1, 0x44, 0] @ wire_of [T_CRC, 7, 1, 0x11, 0x22] @ [5, T_INPUT]\<rparr>) = (Inr (), h) \<and>
    gh_sent h = [wire_of [T_INPUT, 7, 1, 0x44, 0]] \<and> gh_crcs h = 1 \<and> gh_max_tick h = 263"
proof -
  have "list_all play_frame [[T_INPUT, 7, 1, 0x44, 0], [T_CRC, 7, 1, 0x11, 0x22]]" "peer_scan [5, T_INPUT] = Wait"
    by (simp_all add: play_frame_def type_defs peer_scan_def)
  from ghost_lockstep [where works = "\<lambda>_. True", OF _ this, of "new_ghost\<lparr>gh_buf := wire_of [T_INPUT, 7, 1, 0x44, 0] @
      wire_of [T_CRC, 7, 1, 0x11, 0x22] @ [5, T_INPUT]\<rparr>" "\<lambda>_. 0"
      "\<lparr>go_name = lit ''GHOST1'', go_want = 9, go_timeout = 60, go_mirror = True, go_pitch_at = 0\<rparr>"]
  show ?thesis
    by (auto simp: new_ghost_def ghost_reply_def tick_of_def type_defs)
qed

text \<open>C21: the scripted opponent cannot play against this relay. Whatever its options, its HELLO, which
  carries version 1, costs it the connection without a byte in return; whatever the clock, its
  sends and its receptions then do, all it ever sends besides is LIST, and it never exits with
  status 0.\<close>

theorem ghost_refused:
  assumes "INV s" "c < sv_nclient s" "\<not> is_dead s c" "name_of s c = None" "cl_rx (sv_client s c) = []"
    and "stream s c = []" "ghost_hello opts = Inr d" "service c (RData d) s = (r, t)"
    and "\<exists>more. concat (map (\<lambda>a. case a of Arrives ch \<Rightarrow> ch | _ \<Rightarrow> []) rs) @ more = stream t c"
    and "ghost_main clock works opts rs new_ghost = (res, h)"
  shows "r = Inr () \<and> is_dead t c \<and> stream t c = [] \<and> set (gh_sent h) \<subseteq> {d, wire_of [T_LIST]} \<and> res \<noteq> Inr (Some 0)"
proof -
  obtain b where b: "cs_frame T_HELLO (1 # b) = Inr d"
    using assms(7) by (auto simp: ghost_hello_def split: sum.splits)
  have t: "r = Inr ()" "is_dead t c" "stream t c = []"
    using old_hello_refused [OF assms(1-5) b] assms(6,8) by auto
  with assms(9) have "list_all mute rs"
    by (auto simp: list_all_iff mute_def split: reception.splits)
  from ghost_main_mute [OF this assms(10)] t assms(7) show ?thesis by auto
qed

theorem ghost_refused_witness:
  "\<exists>d r t. ghost_hello \<lparr>go_name = lit ''GHOST1'', go_want = 0, go_timeout = 60, go_mirror = False, go_pitch_at = 0\<rparr> = Inr d \<and>
     service 0 (RData d) demo1 = (r, t) \<and> is_dead t 0 \<and>
     fst (ghost_main (\<lambda>n. of_nat n) (\<lambda>_. True) \<lparr>go_name = lit ''GHOST1'', go_want = 0, go_timeout = 60, go_mirror = False, go_pitch_at = 0\<rparr>
       [Nothing, Arrives []] new_ghost) \<noteq> Inr (Some 0)"
proof -
  let ?o = "\<lparr>go_name = lit ''GHOST1'', go_want = 0, go_timeout = 60, go_mirror = False, go_pitch_at = 0\<rparr>"
  have "reachable demo_start demo1"
    by (rule reachable_event [OF reachable.start _ demo_step1]) (simp add: possible_def)
  then have i: "INV demo1" using reachable_INV [OF _ initial_demo delay_ok_demo] by blast
  have f: "0 < sv_nclient demo1" "\<not> is_dead demo1 0" "name_of demo1 0 = None" "cl_rx (sv_client demo1 0) = []"
    "stream demo1 0 = []"
    by (simp_all add: demo1_def is_dead_def name_of_def stream_def)
  obtain d where d: "ghost_hello ?o = Inr d"
    by (simp add: ghost_hello_def encoded_name_def lit_def utf8_char_def cs_frame_def)
  obtain r t where t: "service 0 (RData d) demo1 = (r, t)" by fastforce
  obtain res h where h: "ghost_main (\<lambda>n. of_nat n) (\<lambda>_. True) ?o [Nothing, Arrives []] new_ghost = (res, h)" by fastforce
  from ghost_refused [OF i f d t _ h] d t h show ?thesis by auto
qed

end
