(* ===== verification/Soak.thy ===== *)
theory Soak
  imports GateRuns
begin

text \<open>
  \<open>tools/soak.py\<close>: one match and a lobby of idle clients, all from the local host, and a loop that
  sends INPUT and CRC for both players at a fixed rate while it samples the relay's memory. The
  times are rationals; the readings of the clock and of \<open>/proc\<close> are arguments of each pass. What the
  clients read is thrown away by the program, so the model leaves the reading out.
\<close>

section \<open>Frames\<close>

definition soak_frame :: "byte \<Rightarrow> bytes \<Rightarrow> exn + bytes" where
  "soak_frame t payload =
     (case mk_byte (int (length payload + 1)) of Inl e \<Rightarrow> Inl e | Inr l \<Rightarrow> Inr ([l, t] @ payload))"

definition soak_pad :: "pystr \<Rightarrow> exn + bytes" where
  "soak_pad n = (case utf8 n of Inl e \<Rightarrow> Inl e | Inr b \<Rightarrow> Inr (ljust 8 (take 8 b)))"

definition soak_hello :: "pystr \<Rightarrow> exn + bytes" where
  "soak_hello name = (case utf8 name of Inl e \<Rightarrow> Inl e | Inr b \<Rightarrow> soak_frame T_HELLO ([2] @ b))"

section \<open>Setting up\<close>

text \<open>\<open>hello(port, name)\<close>: a connection that says HELLO.\<close>

definition parks :: "pystr \<Rightarrow> (ctx, unit) act" where
  "parks name = bnd (connect name) (\<lambda>_. bnd (lift (soak_hello name)) (writes name))"

definition MATCHA :: pystr where "MATCHA = lit ''MATCHA''"

definition MATCHB :: pystr where "MATCHB = lit ''MATCHB''"

definition idle_label :: "nat \<Rightarrow> pystr" where
  "idle_label i = lit ''IDLE'' @ dec2 i"

text \<open>The connection that finds the relay up, the match, and the idle clients.\<close>

definition soak_match :: "(ctx, unit) act" where
  "soak_match =
     seqs [bnd (connect []) (\<lambda>_. close []),
       parks MATCHA, parks MATCHB,
       bnd (lift (case soak_pad MATCHA of Inl e \<Rightarrow> Inl e | Inr b \<Rightarrow> soak_frame T_JOIN b)) (writes MATCHB),
       bnd (lift (soak_frame T_GO [])) (writes MATCHA)]"

definition soak_setup :: "nat \<Rightarrow> (ctx, unit) act" where
  "soak_setup idle = bnd soak_match (\<lambda>_. for_each [0..<idle] (\<lambda>i. parks (idle_label i)))"

section \<open>The load\<close>

definition lo_byte :: "nat \<Rightarrow> byte" where
  "lo_byte tick = of_nat (tick AND 0xFF)"

definition hi_byte :: "nat \<Rightarrow> byte" where
  "hi_byte tick = of_nat (drop_bit 8 tick)"

definition soak_tick :: "nat \<Rightarrow> (ctx, unit) act" where
  "soak_tick tick =
     (let lo = lo_byte tick; hi = hi_byte tick
      in seqs [
        bnd (lift (soak_frame T_INPUT [0, lo, hi, 0x40, 0])) (writes MATCHA),
        bnd (lift (soak_frame T_CRC [0, lo, hi, 0x11, 0x22])) (writes MATCHA),
        bnd (lift (soak_frame T_INPUT [1, lo, hi, 0x20, 0])) (writes MATCHB),
        bnd (lift (soak_frame T_CRC [1, lo, hi, 0x11, 0x22])) (writes MATCHB)])"

record soak_options =
  so_secs :: rat
  so_hz :: rat
  so_every :: rat

record soak =
  sk_tick :: nat
  sk_next_tick :: rat
  sk_next_sample :: rat
  sk_rss :: "nat list"
  sk_hwm :: nat

definition soak_start :: "rat \<Rightarrow> soak" where
  "soak_start t0 = \<lparr> sk_tick = 0, sk_next_tick = t0, sk_next_sample = t0, sk_rss = [], sk_hwm = 0 \<rparr>"

text \<open>What one pass reads: the clock, twice, and the two sizes.\<close>

record pass =
  pa_check :: rat
  pa_now :: rat
  pa_rss :: nat
  pa_hwm :: nat

definition soak_due :: "soak_options \<Rightarrow> soak \<Rightarrow> soak" where
  "soak_due opts k =
     k\<lparr>sk_next_tick := sk_next_tick k + 1 / so_hz opts, sk_tick := (sk_tick k + 1) AND 0xFFFF\<rparr>"

definition soak_sample :: "soak_options \<Rightarrow> pass \<Rightarrow> soak \<Rightarrow> soak" where
  "soak_sample opts p k =
     (if sk_next_sample k \<le> pa_now p
      then k\<lparr>sk_next_sample := sk_next_sample k + so_every opts,
             sk_rss := (if pa_rss p \<noteq> 0 then sk_rss k @ [pa_rss p] else sk_rss k),
             sk_hwm := max (sk_hwm k) (pa_hwm p)\<rparr>
      else k)"

text \<open>An \<open>OSError\<close> of a send ends the loop, before the sample of that pass.\<close>

fun soak_loop :: "soak_options \<Rightarrow> rat \<Rightarrow> pass list \<Rightarrow> soak \<Rightarrow> (ctx, soak) act" where
  "soak_loop opts t0 [] k = ret k"
| "soak_loop opts t0 (p # ps) k =
     (if \<not> pa_check p - t0 < so_secs opts then ret k
      else if sk_next_tick k \<le> pa_now p
      then (\<lambda>x.
        let k' = soak_due opts k
        in case soak_tick (sk_tick k') x of
             (Inl e, y) \<Rightarrow> if e = OSError then (Inr k', y) else (Inl e, y)
           | (Inr _, y) \<Rightarrow> soak_loop opts t0 ps (soak_sample opts p k') y)
      else soak_loop opts t0 ps (soak_sample opts p k))"

section \<open>The report\<close>

definition third :: "nat list \<Rightarrow> nat" where
  "third rss = max 1 (length rss div 3)"

definition growth :: "nat list \<Rightarrow> rat" where
  "growth rss =
     of_nat (sum_list (drop (length rss - third rss) rss)) / of_nat (third rss) -
     of_nat (sum_list (take (third rss) rss)) / of_nat (third rss)"

record soak_report =
  sr_samples :: nat
  sr_first :: nat
  sr_last :: nat
  sr_max :: nat
  sr_hwm :: nat
  sr_growth :: rat
  sr_ticks :: nat

text \<open>No sample: the program exits with a message.\<close>

definition soak_result :: "soak \<Rightarrow> soak_report option" where
  "soak_result k =
     (case sk_rss k of
        [] \<Rightarrow> None
      | r # rs \<Rightarrow>
          Some \<lparr> sr_samples = length (sk_rss k), sr_first = r, sr_last = last (sk_rss k), sr_max = fold max rs r,
            sr_hwm = sk_hwm k, sr_growth = growth (sk_rss k), sr_ticks = sk_tick k \<rparr>)"

definition soak_server :: "int \<Rightarrow> (cid \<Rightarrow> nat \<Rightarrow> send_outcome) \<Rightarrow> (nat \<Rightarrow> nat) \<Rightarrow> server" where
  "soak_server free net rand = main_server (default_options\<lparr>op_port := free\<rparr>) net rand"

definition soak_run :: "soak_options \<Rightarrow> nat \<Rightarrow> rat \<Rightarrow> pass list \<Rightarrow> (ctx, soak) act" where
  "soak_run opts idle t0 ps = bnd (soak_setup idle) (\<lambda>_. soak_loop opts t0 ps (soak_start t0))"

section \<open>Growth\<close>

lemma sum_list_between:
  "(\<And>x. x \<in> set xs \<Longrightarrow> lo \<le> x \<and> x \<le> hi) \<Longrightarrow> length xs * lo \<le> sum_list xs \<and> sum_list xs \<le> length xs * (hi :: nat)"
proof (induction xs)
  case (Cons x xs)
  then have "lo \<le> x" "x \<le> hi" "length xs * lo \<le> sum_list xs" "sum_list xs \<le> length xs * hi" by auto
  then show ?case by simp
qed simp

lemma mean_between:
  assumes "\<And>x. x \<in> set xs \<Longrightarrow> lo \<le> x \<and> x \<le> hi" "xs \<noteq> []"
  shows "of_nat lo \<le> (of_nat (sum_list xs) / of_nat (length xs) :: rat)"
    "(of_nat (sum_list xs) / of_nat (length xs) :: rat) \<le> of_nat hi"
proof -
  have n: "(0 :: rat) < of_nat (length xs)" using assms(2) by simp
  have "of_nat (length xs * lo) \<le> (of_nat (sum_list xs) :: rat)" "(of_nat (sum_list xs) :: rat) \<le> of_nat (length xs * hi)"
    using sum_list_between [OF assms(1)] by (simp_all only: of_nat_le_iff)
  with n show "of_nat lo \<le> (of_nat (sum_list xs) / of_nat (length xs) :: rat)"
    "(of_nat (sum_list xs) / of_nat (length xs) :: rat) \<le> of_nat hi"
    by (simp_all add: pos_le_divide_eq pos_divide_le_eq mult.commute)
qed

lemma growth_bounds:
  assumes "rss \<noteq> []" "\<And>r. r \<in> set rss \<Longrightarrow> lo \<le> r \<and> r \<le> hi"
  shows "of_nat lo - of_nat hi \<le> growth rss \<and> growth rss \<le> of_nat hi - of_nat lo"
proof -
  have t: "third rss \<le> length rss" "0 < third rss" using assms(1) by (cases rss; simp add: third_def)+
  have l: "length (drop (length rss - third rss) rss) = third rss" "length (take (third rss) rss) = third rss"
    using t(1) by simp_all
  have "drop (length rss - third rss) rss \<noteq> []" "take (third rss) rss \<noteq> []"
    using l t(2) by (metis length_0_conv less_numeral_extra(3))+
  from mean_between [OF _ this(1), of lo hi] mean_between [OF _ this(2), of lo hi] show ?thesis
    using assms(2) l unfolding growth_def by (force dest: in_set_dropD in_set_takeD)
qed

section \<open>The set-up, as steps of a play\<close>

lemma soak_frame_cs: "soak_frame t p = cs_frame t p"
  by (simp add: soak_frame_def cs_frame_def Let_def split: sum.split)

lemma soak_hello_cs: "soak_hello name = cs_hello name 2"
  by (simp add: soak_hello_def cs_hello_def soak_frame_cs split: sum.split)

lemma parks_step: "parks name = run_step (Opens name 2)"
  by (simp add: parks_def new_cli_def soak_hello_cs)

lemma soak_match_steps:
  "soak_match = run_steps [Knocks [], Opens MATCHA 2, Opens MATCHB 2, joins MATCHB MATCHA, says MATCHA T_GO []]"
proof -
  have "(case soak_pad MATCHA of Inl e \<Rightarrow> Inl e | Inr b \<Rightarrow> soak_frame T_JOIN b) =
      (case cs_pad MATCHA of Inl e \<Rightarrow> Inl e | Inr b \<Rightarrow> cs_frame T_JOIN b)"
    by (auto simp: soak_pad_def cs_pad_def soak_frame_cs split: sum.split)
  then show ?thesis
    by (simp add: soak_match_def run_steps_def parks_step soak_frame_cs joins_def says_def)
qed

text \<open>The match and the first \<open>k\<close> idle clients.\<close>

definition soak_steps :: "nat \<Rightarrow> gate_step list" where
  "soak_steps k =
     [Knocks [], Opens MATCHA 2, Opens MATCHB 2, joins MATCHB MATCHA, says MATCHA T_GO []] @
     map (\<lambda>i. Opens (idle_label i) 2) [0..<k]"

lemma soak_setup_steps:
  assumes "k \<le> idle"
  shows "soak_setup idle = bnd (run_steps (soak_steps k))
      (\<lambda>_. for_each [k..<idle] (\<lambda>i. parks (idle_label i)))"
proof -
  have apart: "for_each (xs @ ys) f = bnd (for_each xs f) (\<lambda>_. for_each ys f)" for xs ys :: "'a list" and f :: "'a \<Rightarrow> ('s, unit) act"
    by (induction xs) (simp_all add: bnd_assoc)
  have "run_steps (map (\<lambda>i. Opens (idle_label i) 2) is) = for_each is (\<lambda>i. parks (idle_label i))" for "is"
    by (induction "is") (simp_all add: run_steps_def parks_step del: run_step.simps(1))
  moreover have "[0..<idle] = [0..<k] @ [k..<idle]" using assms upt_add_eq_append [of 0 k "idle - k"] by simp
  ultimately show ?thesis
    unfolding soak_setup_def soak_match_steps soak_steps_def by (simp only: apart run_steps_def bnd_assoc)
qed

lemma upto_few [staging]:
  "[0..<Suc 0] = [0]" "[0..<2] = [0, Suc 0]" "[0..<3] = [0, Suc 0, 2]" "[0..<4] = [0, Suc 0, 2, 3]"
  "[0..<5] = [0, Suc 0, 2, 3, 4]" "[0..<6] = [0, Suc 0, 2, 3, 4, 5]"
  by (simp_all add: upt_rec)

lemma idle_labels [staging]:
  "idle_label 0 = [73, 68, 76, 69, 48, 48]" "idle_label (Suc 0) = [73, 68, 76, 69, 48, 49]"
  "idle_label 2 = [73, 68, 76, 69, 48, 50]" "idle_label 3 = [73, 68, 76, 69, 48, 51]"
  "idle_label 4 = [73, 68, 76, 69, 48, 52]" "idle_label 5 = [73, 68, 76, 69, 48, 53]"
  by (simp_all add: idle_label_def dec2_def dec_digits.simps lit_def)

lemma upto_nine [staging]: "[0..<9] = [0, Suc 0, Suc (Suc 0), Suc (Suc (Suc 0)), Suc (Suc (Suc (Suc 0))),
    Suc (Suc (Suc (Suc (Suc 0)))), Suc (Suc (Suc (Suc (Suc (Suc 0))))), Suc (Suc (Suc (Suc (Suc (Suc (Suc 0)))))),
    Suc (Suc (Suc (Suc (Suc (Suc (Suc (Suc 0)))))))]"
  by (simp add: upt_rec)

text \<open>What the play leaves: the two players, and who came after them.\<close>

definition soaked :: "nat \<Rightarrow> stage \<Rightarrow> bool" where
  "soaked k g \<longleftrightarrow>
     length (filter (lb_up (sg_lobby g)) [0..<sg_next g]) = 2 + k \<and> sg_match g = Some (1, 2, [], 0) \<and>
     lb_up (sg_lobby g) 1 \<and> lb_up (sg_lobby g) 2 \<and>
     lb_table (sg_lobby g) 1 = Some (1, 2, True) \<and> lb_table (sg_lobby g) 2 = Some (1, 2, True) \<and>
     present g MATCHA = Some 1 \<and> present g MATCHB = Some 2 \<and>
     map fst (sg_cast g) = [] # MATCHA # MATCHB # map idle_label [0..<k]"

lemma play_soak_few:
  "\<exists>g. play_all rand False 3 (soak_steps 0) empty_stage = Some g \<and> soaked 0 g"
  "\<exists>g. play_all rand False 3 (soak_steps (Suc 0)) empty_stage = Some g \<and> soaked (Suc 0) g"
  "\<exists>g. play_all rand False 3 (soak_steps 2) empty_stage = Some g \<and> soaked 2 g"
  "\<exists>g. play_all rand False 3 (soak_steps 3) empty_stage = Some g \<and> soaked 3 g"
  by (simp_all add: soaked_def soak_steps_def MATCHA_def MATCHB_def staging)

lemma play_soak_many:
  "\<exists>g. play_all rand False 3 (soak_steps 4) empty_stage = Some g \<and> soaked 4 g"
  "\<exists>g. play_all rand False 3 (soak_steps 5) empty_stage = Some g \<and> soaked 5 g"
  "\<exists>g. play_all rand False 3 (soak_steps 6) empty_stage = Some g \<and> soaked 6 g"
  by (simp_all add: soaked_def soak_steps_def MATCHA_def MATCHB_def staging)

lemma play_soak:
  assumes "k \<le> 6"
  shows "\<exists>g. play_all rand False 3 (soak_steps k) empty_stage = Some g \<and> soaked k g"
proof -
  have "k = 0 \<or> k = Suc 0 \<or> k = 2 \<or> k = 3 \<or> k = 4 \<or> k = 5 \<or> k = 6" using assms by linarith
  then show ?thesis using play_soak_few play_soak_many by blast
qed

section \<open>Everybody comes from one host\<close>

definition homely :: "server \<Rightarrow> bool" where
  "homely s \<longleftrightarrow> (\<forall>c < sv_nclient s. fst (cl_addr (sv_client s c)) = ''127.0.0.1'')"

text \<open>Serving a connection makes none and changes no address.\<close>

definition rooted :: "server \<Rightarrow> server \<Rightarrow> bool" where
  "rooted s t \<longleftrightarrow> sv_nclient t = sv_nclient s \<and> (\<forall>c. cl_addr (sv_client t c) = cl_addr (sv_client s c))"

lemma rooted_evolves: "keeps evolves m \<Longrightarrow> keeps rooted m"
  by (auto simp: keeps_def evolves_def rooted_def)

interpretation rooted: server_loop rooted
proof (intro server_loop.intro preorder_rel.intro server_loop_axioms.intro)
  show "keeps rooted (handle c ftype payload)" for c ftype payload by (rule rooted_evolves [OF ev_handle])
  show "keeps rooted (drop_client c w)" for c w by (rule rooted_evolves [OF ev_drop])
  show "keeps rooted (flush drop_client c)" for c by (rule rooted_evolves [OF keeps_evolves [OF drops.flush_calm]])
qed (simp_all add: rooted_def)

lemma rooted_homely: "rooted s t \<Longrightarrow> homely s \<Longrightarrow> homely t"
  by (simp add: rooted_def homely_def)

abbreviation stays_home :: "ctx \<Rightarrow> ctx \<Rightarrow> bool" where
  "stays_home x y \<equiv> homely (cx_server x) \<longrightarrow> homely (cx_server y)"

interpretation home: preorder_rel stays_home
  by unfold_locales simp_all

lemma home_receive: "keeps stays_home (hears d h)"
proof -
  have "stays_home x (snd (on_server (receive c d) x))" for c x
    using keepsD [OF rooted.kp_serve, of "cx_server x" c False "Some (RData d)"] rooted_homely
    by (auto simp: on_server_def receive_def split: prod.split)
  then have "keeps stays_home (on_server (receive c d))" for c by (simp add: keeps_def)
  then show ?thesis unfolding hears_def by (auto intro: home.kp_ret split: option.split)
qed

lemma homely_accept: "homely s \<Longrightarrow> homely (snd (accept (Conn (''127.0.0.1'', port) True) now s))"
  by (simp add: accept_def act_run homely_def count_rejection_def add_client_def Let_def new_client_def)

lemma home_connect: "keeps stays_home (connect l)"
proof -
  have "stays_home x (snd (on_server (accept (Conn (''127.0.0.1'', port) True) 0) x))" for port x
    using homely_accept [of "cx_server x" port 0] by (auto simp: on_server_def split: prod.split)
  then have "keeps stays_home (on_server (accept (Conn (''127.0.0.1'', port) True) 0))" for port
    by (simp add: keeps_def)
  moreover have "keeps stays_home (modify (add_hclient l n))" for n
    by (rule keeps_modify) (simp add: add_hclient_def)
  ultimately show ?thesis
    unfolding connect_def by (intro home.kp_bnd home.kp_gets) (auto intro: home.kp_bnd)
qed

lemma home_writes: "keeps stays_home (writes l d)"
  unfolding writes_def by (intro home.kp_bnd home.kp_gets home.kp_lift home.kp_if home.kp_throw home_receive)

lemma home_close: "keeps stays_home (close l)"
proof -
  have "keeps stays_home (modify (set_closed l))" by (rule keeps_modify) (simp add: set_closed_def)
  then show ?thesis
    unfolding close_def by (intro home.kp_bnd home.kp_gets home.kp_lift home.kp_guarded home_receive)
qed

lemma home_parks: "keeps stays_home (parks l)"
  unfolding parks_def by (intro home.kp_bnd home.kp_lift home_connect home_writes)

lemma home_match: "keeps stays_home soak_match"
  unfolding soak_match_def
  by (rule home.kp_seqs) (auto intro!: home.kp_bnd home.kp_lift home_connect home_close home_writes home_parks)

section \<open>A full house\<close>

lemma staged_rejection:
  assumes st: "staged rand auto delay s g" and run: "accept (Conn a True) now s = (Inr (), t)"
    and t: "t = add_log e (count_rejection s)"
  shows "staged rand auto delay t g"
proof -
  have t': "tidy s" using st by (simp add: staged_def)
  have "tidy t" using follows_tidy [OF follows_accept [OF t' run]] .
  moreover have "undisturbed s t" unfolding t by (simp add: undisturbed_def count_rejection_def access_defs drained_def)
  moreover have "blank t" "\<And>m. marked m s \<Longrightarrow> marked m t" "cl_rx (sv_client t c) = cl_rx (sv_client s c)" for c
    using st unfolding t staged_def by (simp_all add: blank_def count_rejection_def marked_def)
  ultimately show ?thesis
    using st undisturbed_lobby_of [of s t] tracked_undisturbed [of s t]
    unfolding staged_def undisturbed_def autostart_def by auto
qed

lemma staged_count:
  assumes "staged rand auto delay s g"
  shows "length (sv_clients s) = length (filter (lb_up (sg_lobby g)) [0..<sg_next g])"
proof -
  have ok: "clients_ok s" using assms INV_D(2) tidyD(1) by (auto simp: staged_def)
  have "lb_up (sg_lobby g) c \<longleftrightarrow> \<not> is_dead s c" for c by (rule staged_up [OF assms])
  moreover have "sg_next g = sv_nclient s" using assms by (simp add: staged_def)
  ultimately have "set (filter (lb_up (sg_lobby g)) [0..<sg_next g]) = set (sv_clients s)"
    using ok by (auto simp: clients_ok_def is_dead_def)
  then show ?thesis
    using ok by (metis clients_ok_def distinct_card distinct_filter distinct_upt)
qed

lemma full_refuses:
  assumes st: "staged rand auto delay s g" and home: "homely s"
    and full: "length (filter (lb_up (sg_lobby g)) [0..<sg_next g]) = 8"
  shows "\<exists>e. accept (Conn (''127.0.0.1'', port) True) 0 s = (Inr (), add_log e (count_rejection s))"
proof -
  have n: "length (sv_clients s) = 8" using staged_count [OF st] full by simp
  have "clients_ok s" using st INV_D(2) tidyD(1) by (auto simp: staged_def)
  then have "filter (\<lambda>c. fst (cl_addr (sv_client s c)) = ''127.0.0.1'') (sv_clients s) = sv_clients s"
    using home by (auto simp: filter_id_conv clients_ok_def homely_def is_dead_def)
  then have "per_ip s (''127.0.0.1'', port) = 8" using n by (simp add: per_ip_def)
  with n show ?thesis
    by (auto simp: accept_def act_run MAX_CLIENTS_def MAX_CONNECTIONS_PER_IP_def)
qed

text \<open>The relay at the soak's load: the stage, and the connections of the two players.\<close>

definition player :: "ctx \<Rightarrow> pystr \<Rightarrow> cid \<Rightarrow> bool" where
  "player x l c \<longleftrightarrow> (\<exists>h. hclient_of l x = Inr h \<and> hc_conn h = Some c \<and> \<not> hc_closed h)"

definition soaking :: "(nat \<Rightarrow> nat) \<Rightarrow> nat \<Rightarrow> ctx \<Rightarrow> stage \<Rightarrow> bool" where
  "soaking rand k x g \<longleftrightarrow>
     staged rand False 3 (cx_server x) g \<and> homely (cx_server x) \<and> player x MATCHA 1 \<and> player x MATCHB 2 \<and>
     length (filter (lb_up (sg_lobby g)) [0..<sg_next g]) = 2 + k \<and> lb_up (sg_lobby g) 1 \<and> lb_up (sg_lobby g) 2 \<and>
     lb_table (sg_lobby g) 1 = Some (1, 2, True) \<and> lb_table (sg_lobby g) 2 = Some (1, 2, True)"

lemma find_append: "find P (xs @ ys) = (case find P xs of None \<Rightarrow> find P ys | Some x \<Rightarrow> Some x)"
  by (induction xs) simp_all

lemma player_append: "player x l c \<Longrightarrow> cx_clients y = cx_clients x @ hs \<Longrightarrow> player y l c"
  by (auto simp: player_def hclient_of_def find_append split: option.splits)

lemma parks_refused:
  assumes s: "soaking rand 6 x g" and new: "name \<notin> set (map hc_label (cx_clients x))" and hello: "soak_hello name = Inr d"
  shows "\<exists>y. parks name x = (Inr (), y) \<and> soaking rand 6 y g \<and> map hc_label (cx_clients y) = map hc_label (cx_clients x) @ [name]"
proof -
  let ?p = "cx_port x (length (cx_clients x))" and ?n = "sv_nclient (cx_server x)"
  have st: "staged rand False 3 (cx_server x) g" "homely (cx_server x)"
    "length (filter (lb_up (sg_lobby g)) [0..<sg_next g]) = 8" using s by (auto simp: soaking_def)
  obtain e where a: "accept (Conn (''127.0.0.1'', ?p) True) 0 (cx_server x) = (Inr (), add_log e (count_rejection (cx_server x)))"
    using full_refuses [OF st] by blast
  let ?t = "add_log e (count_rejection (cx_server x))"
  let ?h = "\<lparr> hc_label = name, hc_buf = [], hc_closed = False, hc_eof = False, hc_conn = None, hc_read = 0 \<rparr>"
  let ?y = "x\<lparr>cx_server := ?t, cx_clients := cx_clients x @ [?h]\<rparr>"
  have run: "connect name x = (Inr (), ?y)"
    using a by (simp add: connect_def bnd_def gets_def on_server_def modify_def add_hclient_def count_rejection_def)
  have "hclient_of name ?y = Inr ?h"
    using new by (auto simp: hclient_of_def find_append find_None_iff split: option.split dest: find_Some_iff [THEN iffD1])
  then have "parks name x = (Inr (), ?y)"
    using run hello by (simp add: parks_def writes_def bnd_def lift_def gets_def hears_def ret_def)
  moreover have "homely ?t" using homely_accept [OF st(2), of ?p 0] a by simp
  moreover have "player ?y MATCHA 1" "player ?y MATCHB 2"
    using s player_append [of x _ _ ?y] by (auto simp: soaking_def)
  ultimately show ?thesis
    using s staged_rejection [OF st(1) a refl] by (auto simp: soaking_def)
qed

section \<open>The ticks\<close>

lemma player_writes:
  assumes s: "soaking rand q x g" and p: "player x l c" and body: "readable body"
    and same: "sg_lobby (speak rand False c body g) = sg_lobby g" "sg_next (speak rand False c body g) = sg_next g"
  shows "\<exists>y. writes l (wire_of body) x = (Inr (), y) \<and> soaking rand q y (speak rand False c body g) \<and>
    cx_clients y = cx_clients x"
proof -
  obtain h where h: "hclient_of l x = Inr h" "hc_conn h = Some c" "\<not> hc_closed h" using p by (auto simp: player_def)
  have st: "staged rand False 3 (cx_server x) g" using s by (simp add: soaking_def)
  obtain t where t: "receive c (wire_of body) (cx_server x) = (Inr (), t)" "staged rand False 3 t (speak rand False c body g)"
    using receive_speak [OF st body] by blast
  have "rooted (cx_server x) t"
    using keepsD [OF rooted.kp_serve, of "cx_server x" c False "Some (RData (wire_of body))"] t(1) by (simp add: receive_def)
  then have "homely t" using rooted_homely s by (auto simp: soaking_def)
  moreover have "writes l (wire_of body) x = (Inr (), x\<lparr>cx_server := t\<rparr>)"
    using h t(1) by (simp add: writes_def bnd_def gets_def lift_def hears_def on_server_def)
  ultimately show ?thesis
    using s t(2) same by (auto simp: soaking_def player_def hclient_of_def)
qed

lemma speak_relay:
  assumes "lb_up (sg_lobby g) c" "lb_table (sg_lobby g) c = Some (h, k, True)" "ftype \<in> set RELAY_TYPES"
  shows "sg_lobby (speak rand auto c (ftype # p) g) = sg_lobby g" "sg_next (speak rand auto c (ftype # p) g) = sg_next g"
    "sg_match (speak rand auto c (ftype # p) g) = fst (after_command c (CmdRelay ftype p) (sg_lobby g) (sg_match g))"
  using assms by (simp_all add: speak_def parse_def obey_def relay_lobby_def deliver_def record_match_def Let_def)

text \<open>What the four frames of a tick do to the table of the match.\<close>

lemma input_match:
  "fst (after_command 1 (CmdRelay T_INPUT p) a (Some (1, 2, crc, ok))) = Some (1, 2, crc, ok)"
  "fst (after_command 2 (CmdRelay T_INPUT p) a (Some (1, 2, crc, ok))) = Some (1, 2, crc, ok)"
  by (simp_all add: after_command_def const_defs)

lemma crc_match:
  "fst (after_command 1 (CmdRelay T_CRC [0, lo, hi, v, w]) a (Some (1, 2, [], ok))) =
     Some (1, 2, [(crc_tick [0, lo, hi, v, w], [(0, crc_value [0, lo, hi, v, w])])], ok)"
  "fst (after_command 2 (CmdRelay T_CRC [1, lo, hi, v, w]) a (Some (1, 2, [(crc_tick [0, lo, hi, v, w], [(0, crc_value [0, lo, hi, v, w])])], ok))) =
     Some (1, 2, [], Suc ok)"
proof -
  have k: "crc_tick [1, lo, hi, v, w] = crc_tick [0, lo, hi, v, w]" "crc_value [1, lo, hi, v, w] = crc_value [0, lo, hi, v, w]"
    by (simp_all add: crc_tick_def crc_value_def)
  show "fst (after_command 1 (CmdRelay T_CRC [0, lo, hi, v, w]) a (Some (1, 2, [], ok))) =
     Some (1, 2, [(crc_tick [0, lo, hi, v, w], [(0, crc_value [0, lo, hi, v, w])])], ok)"
    using crc_first [of "page [] ok" "[0, lo, hi, v, w]"] by (simp add: after_command_def page_def)
  show "fst (after_command 2 (CmdRelay T_CRC [1, lo, hi, v, w]) a (Some (1, 2, [(crc_tick [0, lo, hi, v, w], [(0, crc_value [0, lo, hi, v, w])])], ok))) =
     Some (1, 2, [], Suc ok)"
    using crc_second [of "[]" "[1, lo, hi, v, w]" "page [(crc_tick [0, lo, hi, v, w], [(0, crc_value [0, lo, hi, v, w])])] ok" 0
        "crc_value [0, lo, hi, v, w]"] k
    by (simp add: after_command_def page_def)
qed

text \<open>One frame of the load: what it does to the match is said by \<open>after_command\<close>.\<close>

lemma load_frame:
  assumes s: "soaking rand q x g" and c: "l = MATCHA \<and> c = 1 \<or> l = MATCHB \<and> c = 2"
    and f: "ftype \<in> {T_INPUT, T_CRC}" "length p = 5" and m: "sg_match g = m"
    and m': "fst (after_command c (CmdRelay ftype p) (sg_lobby g) m) = m'"
  shows "\<exists>y h. bnd (lift (soak_frame ftype p)) (writes l) x = (Inr (), y) \<and> soaking rand q y h \<and> sg_match h = m'"
proof -
  have p: "player x l c" and seat: "lb_up (sg_lobby g) c" "lb_table (sg_lobby g) c = Some (1, 2, True)"
    using s c by (auto simp: soaking_def)
  have t: "ftype \<in> set RELAY_TYPES" using f(1) by (auto simp: RELAY_TYPES_def)
  have "readable (ftype # p)" using f(2) by (simp add: readable_def)
  note w = player_writes [OF s p this speak_relay(1,2) [OF seat t]]
  have "soak_frame ftype p = Inr (wire_of (ftype # p))" using f(2) by (simp add: soak_frame_cs cs_frame_wire)
  with w speak_relay(1,3) [OF seat t, of rand False p] m m' show ?thesis by auto
qed

lemma tick_verified:
  assumes "soaking rand q x g" "sg_match g = Some (1, 2, [], n)"
  shows "\<exists>y h. soak_tick t x = (Inr (), y) \<and> soaking rand q y h \<and> sg_match h = Some (1, 2, [], Suc n)"
proof -
  let ?lo = "lo_byte t" and ?hi = "hi_byte t"
  let ?p = "[0, ?lo, ?hi, 0x11, 0x22]"
  have who: "MATCHA = MATCHA \<and> (1::nat) = 1 \<or> MATCHA = MATCHB \<and> (1::nat) = 2"
    "MATCHB = MATCHA \<and> (2::nat) = 1 \<or> MATCHB = MATCHB \<and> (2::nat) = 2" by simp_all
  have kinds: "T_INPUT \<in> {T_INPUT, T_CRC}" "T_CRC \<in> {T_INPUT, T_CRC}" by simp_all
  have five: "length [a, b, c, d, e] = 5" for a b c d e :: byte by simp
  obtain y1 g1 where 1: "bnd (lift (soak_frame T_INPUT [0, ?lo, ?hi, 0x40, 0])) (writes MATCHA) x = (Inr (), y1)"
    "soaking rand q y1 g1" "sg_match g1 = Some (1, 2, [], n)"
    using load_frame [OF assms(1) who(1) kinds(1) five assms(2) input_match(1)] by blast
  obtain y2 g2 where 2: "bnd (lift (soak_frame T_CRC ?p)) (writes MATCHA) y1 = (Inr (), y2)" "soaking rand q y2 g2"
    "sg_match g2 = Some (1, 2, [(crc_tick ?p, [(0, crc_value ?p)])], n)"
    using load_frame [OF 1(2) who(1) kinds(2) five 1(3) crc_match(1)] by blast
  obtain y3 g3 where 3: "bnd (lift (soak_frame T_INPUT [1, ?lo, ?hi, 0x20, 0])) (writes MATCHB) y2 = (Inr (), y3)"
    "soaking rand q y3 g3" "sg_match g3 = Some (1, 2, [(crc_tick ?p, [(0, crc_value ?p)])], n)"
    using load_frame [OF 2(2) who(2) kinds(1) five 2(3) input_match(2)] by blast
  obtain y4 g4 where 4: "bnd (lift (soak_frame T_CRC [1, ?lo, ?hi, 0x11, 0x22])) (writes MATCHB) y3 = (Inr (), y4)"
    "soaking rand q y4 g4" "sg_match g4 = Some (1, 2, [], Suc n)"
    using load_frame [OF 3(2) who(2) kinds(2) five 3(3) crc_match(2)] by blast
  from 1(1) 2(1) 3(1) 4(1) have "soak_tick t x = (Inr (), y4)"
    by (simp add: soak_tick_def Let_def bnd_run [of "bnd _ _"] ret_def)
  with 4(2,3) show ?thesis by blast
qed

lemma sampled [simp]: "sk_tick (soak_sample opts p k) = sk_tick k"
  by (simp add: soak_sample_def)

lemma due_tick: "sk_tick (soak_due opts k) = (sk_tick k + 1) mod 65536"
  using take_bit_eq_mask [of 16 "sk_tick k + 1"] by (simp add: soak_due_def take_bit_eq_mod mask_eq_exp_minus_1)

lemma loop_verified:
  "soaking rand q x g \<Longrightarrow> sg_match g = Some (1, 2, [], n) \<Longrightarrow> sk_tick k = n mod 65536 \<Longrightarrow>
     \<exists>y h k' n'. soak_loop opts t0 ps k x = (Inr k', y) \<and> soaking rand q y h \<and> sg_match h = Some (1, 2, [], n') \<and>
       sk_tick k' = n' mod 65536 \<and> n \<le> n' \<and> n' \<le> n + length ps"
proof (induction ps arbitrary: x g n k)
  case Nil
  then show ?case by (auto simp: ret_def)
next
  case (Cons p ps)
  show ?case
  proof (cases "\<not> pa_check p - t0 < so_secs opts")
    case True
    with Cons.prems show ?thesis by (auto simp: ret_def)
  next
    case run: False
    show ?thesis
    proof (cases "sk_next_tick k \<le> pa_now p")
      case True
      let ?k = "soak_due opts k"
      obtain y h where y: "soak_tick (sk_tick ?k) x = (Inr (), y)" "soaking rand q y h" "sg_match h = Some (1, 2, [], Suc n)"
        using tick_verified [OF Cons.prems(1,2)] by blast
      have "sk_tick (soak_sample opts p ?k) = Suc n mod 65536" using Cons.prems(3) by (simp add: due_tick mod_Suc_eq)
      from Cons.IH [OF y(2,3) this] run True y(1) show ?thesis by (fastforce simp: Let_def)
    next
      case False
      have "sk_tick (soak_sample opts p k) = n mod 65536" using Cons.prems(3) by simp
      from Cons.IH [OF Cons.prems(1,2) this] run False show ?thesis by fastforce
    qed
  qed
qed

section \<open>Properties\<close>

lemma digits_value_dec2: "digits_value (dec2 n) = n"
proof -
  have "foldl (\<lambda>a d. 10 * a + (d - 48)) (0 :: nat) (replicate k 48) = 0" for k by (induction k) simp_all
  then show ?thesis using digits_value_dec [of n] by (simp add: dec2_def digits_value_def)
qed

lemma idle_label_inject: "idle_label i = idle_label j \<longleftrightarrow> i = j"
  using digits_value_dec2 by (metis idle_label_def same_append_eq)

text \<open>A number below ten to the \<open>k\<close> has at most \<open>k\<close> digits.\<close>

lemma dec_digits_short: "n < 10 ^ Suc k \<Longrightarrow> length (dec_digits n) \<le> Suc k"
proof (induction k arbitrary: n)
  case 0
  then show ?case by (subst dec_digits.simps) simp
next
  case (Suc k)
  then have "length (dec_digits (n div 10)) \<le> Suc k" by (intro Suc.IH) (simp add: less_mult_imp_div_less)
  then show ?case by (subst dec_digits.simps) simp
qed

lemma idle_label_short:
  assumes "i < 65536"
  shows "list_all (\<lambda>c. c < 128) (idle_label i)" "length (idle_label i) \<le> 9"
proof -
  have d: "list_all (\<lambda>c. c < 128) (dec_digits n)" for n
  proof (induction n rule: dec_digits.induct)
    case (1 n)
    then show ?case by (subst dec_digits.simps) auto
  qed
  then show "list_all (\<lambda>c. c < 128) (idle_label i)" by (auto simp: idle_label_def dec2_def lit_def list_all_iff)
  have "i < 10 ^ Suc 4" using assms by simp
  from dec_digits_short [OF this] show "length (idle_label i) \<le> 9" by (simp add: idle_label_def dec2_def lit_def)
qed

lemma idle_hello: "i < 65536 \<Longrightarrow> \<exists>d. soak_hello (idle_label i) = Inr d"
  using idle_label_short [of i] utf8_ascii cs_frame_wire [of "2 # map of_nat (idle_label i)" T_HELLO]
  by (auto simp: soak_hello_def soak_frame_cs)

lemma idle_rest:
  "soaking rand 6 x g \<Longrightarrow> a \<le> b \<Longrightarrow> b \<le> 65536 \<Longrightarrow> (\<And>i. a \<le> i \<Longrightarrow> idle_label i \<notin> set (map hc_label (cx_clients x))) \<Longrightarrow>
     \<exists>y. for_each [a..<b] (\<lambda>i. parks (idle_label i)) x = (Inr (), y) \<and> soaking rand 6 y g"
proof (induction "b - a" arbitrary: a x)
  case 0
  then show ?case by (auto simp: ret_def)
next
  case (Suc n)
  then have ab: "[a..<b] = a # [Suc a..<b]" "Suc a \<le> b" "n = b - Suc a" "a < 65536" by (simp_all add: upt_rec)
  obtain d where "soak_hello (idle_label a) = Inr d" using idle_hello [OF ab(4)] by blast
  from parks_refused [OF Suc.prems(1) _ this] Suc.prems(4) obtain y where
    y: "parks (idle_label a) x = (Inr (), y)" "soaking rand 6 y g"
      "map hc_label (cx_clients y) = map hc_label (cx_clients x) @ [idle_label a]" by blast
  have "idle_label i \<notin> set (map hc_label (cx_clients y))" if "Suc a \<le> i" for i
    using Suc.prems(4) [of i] that unfolding y(3) by (auto simp: idle_label_inject)
  from Suc.hyps(1) [OF ab(3) y(2) ab(2) Suc.prems(3) this] y(1) ab(1) show ?case by (simp add: bnd_def)
qed

lemma setup_soaks:
  assumes net: "\<And>c k. \<exists>n > 0. net c k = SSent n" and idle: "idle \<le> 65536"
  shows "\<exists>x g. soak_setup idle (new_ctx (soak_server free net rand) port) = (Inr (), x) \<and>
    soaking rand (min idle 6) x g \<and> sg_match g = Some (1, 2, [], 0)"
proof -
  let ?s = "soak_server free net rand" and ?k = "min idle 6"
  have s: "?s = gate_server 0 net rand"
    by (simp add: soak_server_def gate_server_def main_server_def main_lobby_def default_options_def)
  have ok: "accepting (gate_server 0 net rand)" by (rule gate_accepting) (rule net)
  note start = gate_server_start [OF ok]
  obtain g where g: "play_all rand False 3 (soak_steps ?k) empty_stage = Some g" "soaked ?k g"
    using play_soak [of ?k rand] by auto
  then have p: "present g MATCHA = Some 1" "present g MATCHB = Some 2"
    "map fst (sg_cast g) = [] # MATCHA # MATCHB # map idle_label [0..<?k]" by (simp_all add: soaked_def)
  have "autostart (gate_server 0 net rand) = False" using start(5) by simp
  note pp = played_passes [OF start(1,2) ok, of "soak_steps ?k" g port, unfolded start(3,4) this, OF g(1)]
  obtain y where y: "run_steps (soak_steps ?k) (new_ctx (gate_server 0 net rand) port) = (Inr (), y)" "played rand False 3 y g"
    using pp by (elim exE conjE) (rule that; assumption)
  have "homely (cx_server y)"
  proof -
    have k: "keeps stays_home (bnd soak_match (\<lambda>_. for_each [0..<?k] (\<lambda>i. parks (idle_label i))))"
      by (intro home.kp_bnd home_match home.kp_for_each home_parks)
    have "bnd soak_match (\<lambda>_. for_each [0..<?k] (\<lambda>i. parks (idle_label i))) = run_steps (soak_steps ?k)"
      using soak_setup_steps [of ?k ?k] by (simp add: soak_setup_def bnd_ret_right)
    with keepsD [OF k, of "new_ctx (gate_server 0 net rand) port"] y(1)
    have "homely (gate_server 0 net rand) \<longrightarrow> homely (cx_server y)" by (simp add: new_ctx_def)
    moreover have "homely (gate_server 0 net rand)"
      by (simp add: homely_def gate_server_def main_server_def new_server_def)
    ultimately show ?thesis by blast
  qed
  moreover have "player y MATCHA 1" "player y MATCHB 2"
    using present_client [OF y(2) p(1)] present_client [OF y(2) p(2)] unfolding player_def by metis+
  ultimately have soaking: "soaking rand ?k y g" using playedD(1) [OF y(2)] g(2) by (simp add: soaking_def soaked_def)
  have labels: "map hc_label (cx_clients y) = [] # MATCHA # MATCHB # map idle_label [0..<?k]"
    using played_labels [OF y(2)] p(3) by simp
  have new: "idle_label i \<notin> set (map hc_label (cx_clients y))" if "?k \<le> i" for i
  proof -
    have "idle_label i \<notin> {[], MATCHA, MATCHB}" by (simp add: idle_label_def MATCHA_def MATCHB_def lit_def)
    moreover have "idle_label i \<notin> set (map idle_label [0..<?k])" using that by (auto simp: idle_label_inject)
    ultimately show ?thesis unfolding labels by simp
  qed
  have "\<exists>x. for_each [?k..<idle] (\<lambda>i. parks (idle_label i)) y = (Inr (), x) \<and> soaking rand ?k x g"
  proof (cases "6 \<le> idle")
    case True
    then have k: "?k = 6" by simp
    show ?thesis using idle_rest [OF soaking [unfolded k] True idle new [unfolded k]] unfolding k .
  next
    case False
    with soaking show ?thesis by (auto simp: min_def ret_def)
  qed
  then obtain x where "for_each [?k..<idle] (\<lambda>i. parks (idle_label i)) y = (Inr (), x)" "soaking rand ?k x g" by blast
  moreover have "sg_match g = Some (1, 2, [], 0)" using g(2) by (simp add: soaked_def)
  moreover have "soak_setup idle = bnd (run_steps (soak_steps ?k)) (\<lambda>_. for_each [?k..<idle] (\<lambda>i. parks (idle_label i)))"
    by (rule soak_setup_steps) simp
  ultimately show ?thesis using y(1) unfolding s by (auto simp: bnd_def)
qed

text \<open>C20: what a soak of the Python relay measures. For any number of idle clients it is asked for, up to
  the number of ports a host has, the relay holds the two players and at most six idle ones during
  the run, as it takes eight connections from one address. The match goes on for the whole run: every
  tick sent is verified by the relay as an agreed CRC round, also when the 16-bit tick wraps, and no
  report is left over. The sockets are taken to accept what they are given.\<close>

theorem soak_load:
  assumes "\<And>c k. \<exists>n > 0. net c k = SSent n" "idle \<le> 65536"
  shows "\<exists>x k n. soak_run opts idle t0 ps (new_ctx (soak_server free net rand) port) = (Inr k, x) \<and>
    length (sv_clients (cx_server x)) = 2 + min idle 6 \<and> in_match (cx_server x) 1 2 [] n \<and>
    sk_tick k = n mod 65536 \<and> n \<le> length ps"
proof -
  let ?q = "min idle 6"
  obtain x g where x: "soak_setup idle (new_ctx (soak_server free net rand) port) = (Inr (), x)" "soaking rand ?q x g"
    "sg_match g = Some (1, 2, [], 0)"
    using setup_soaks [where net = net, OF assms] by blast
  from loop_verified [OF x(2,3), of "soak_start t0" opts t0 ps] obtain y h k n where
    y: "soak_loop opts t0 ps (soak_start t0) x = (Inr k, y)" "soaking rand ?q y h" "sg_match h = Some (1, 2, [], n)"
      "sk_tick k = n mod 65536" "n \<le> length ps"
    by (auto simp: soak_start_def)
  have st: "staged rand False 3 (cx_server y) h" "length (filter (lb_up (sg_lobby h)) [0..<sg_next h]) = 2 + ?q"
    using y(2) by (simp_all add: soaking_def)
  have "length (sv_clients (cx_server y)) = 2 + ?q" using staged_count [OF st(1)] st(2) by simp
  moreover have "tracked (cx_server y) (Some (1, 2, [], n))" using st(1) y(3) by (simp add: staged_def)
  then have "in_match (cx_server y) 1 2 [] n" by (simp add: tracked_def)
  moreover have "soak_run opts idle t0 ps (new_ctx (soak_server free net rand) port) = (Inr k, y)"
    using x(1) y(1) by (simp add: soak_run_def bnd_def)
  ultimately show ?thesis using y(4,5) by blast
qed

theorem soak_load_witness:
  "\<exists>x k n. soak_run \<lparr>so_secs = 120, so_hz = 20, so_every = 5\<rparr> 32 0
      (replicate 2 \<lparr>pa_check = 1, pa_now = 1, pa_rss = 9000, pa_hwm = 9100\<rparr>)
      (new_ctx (soak_server 5000 (\<lambda>c k. SSent (Suc k)) (\<lambda>_. 7)) (\<lambda>n. 50000 + n)) = (Inr k, x) \<and>
    length (sv_clients (cx_server x)) = 2 + min 32 6 \<and> in_match (cx_server x) 1 2 [] n \<and> sk_tick k = n mod 65536 \<and>
    n \<le> length (replicate 2 \<lparr>pa_check = (1 :: rat), pa_now = 1, pa_rss = 9000, pa_hwm = 9100\<rparr>)"
  by (rule soak_load) simp_all

end
