(* ===== verification/Probe.thy ===== *)
theory Probe
  imports Prelude
begin

text \<open>
  \<open>tools/latency_probe_server.py\<close>: a server that echoes what it receives and reports the average time
  between arrivals. A connection is the list of what its \<open>recv\<close> calls yield, each with the clock's
  reading after it; \<open>works\<close> tells which \<open>sendall\<close> calls succeed. Times are rationals.
\<close>

section \<open>A connection\<close>

record probe =
  pr_sent :: "bytes list"
  pr_rounds :: nat
  pr_gaps :: "rat list"
  pr_last :: rat

definition probe_start :: "rat \<Rightarrow> probe" where
  "probe_start t0 = \<lparr> pr_sent = [], pr_rounds = 0, pr_gaps = [], pr_last = t0 \<rparr>"

text \<open>An \<open>OSError\<close> ends the connection, like the end of the stream.\<close>

fun echo :: "(nat \<Rightarrow> bool) \<Rightarrow> ((exn + bytes) \<times> rat) list \<Rightarrow> probe \<Rightarrow> probe" where
  "echo works [] p = p"
| "echo works ((r, now) # rs) p =
     (case r of
        Inl e \<Rightarrow> p
      | Inr d \<Rightarrow>
          if d = [] then p
          else
            (let p' = p\<lparr>pr_gaps := pr_gaps p @ [now - pr_last p], pr_last := now\<rparr>
             in if works (length (pr_sent p))
                then echo works rs (p'\<lparr>pr_sent := pr_sent p @ [d], pr_rounds := pr_rounds p + 1\<rparr>)
                else p'))"

text \<open>The line printed at the end, if anything arrived: the rounds, the time, and the average gap in ms.\<close>

definition probe_report :: "rat \<Rightarrow> rat \<Rightarrow> probe \<Rightarrow> (nat \<times> rat \<times> rat) option" where
  "probe_report t0 t1 p =
     (if pr_gaps p = [] then None
      else Some (pr_rounds p, t1 - t0, sum_list (tl (pr_gaps p)) / of_nat (max (length (pr_gaps p) - 1) 1) * 1000))"

section \<open>What it sends and reports\<close>

text \<open>What arrives goes back, in order and unchanged; the rounds count it.\<close>

lemma echo_sends:
  "\<exists>ds. pr_sent (echo works rs p) = pr_sent p @ ds \<and> pr_rounds (echo works rs p) = pr_rounds p + length ds \<and>
     take (length ds) (map fst rs) = map Inr ds"
proof (induction works rs p rule: echo.induct)
  case (2 works r now rs p)
  show ?case
  proof (cases "\<exists>d. r = Inr d \<and> d \<noteq> [] \<and> works (length (pr_sent p))")
    case True
    then obtain d where d: "r = Inr d" "d \<noteq> []" "works (length (pr_sent p))" by blast
    let ?p = "p\<lparr>pr_gaps := pr_gaps p @ [now - pr_last p], pr_last := now\<rparr>"
    obtain ds where "pr_sent (echo works rs (?p\<lparr>pr_sent := pr_sent p @ [d], pr_rounds := pr_rounds p + 1\<rparr>)) = (pr_sent p @ [d]) @ ds"
      "pr_rounds (echo works rs (?p\<lparr>pr_sent := pr_sent p @ [d], pr_rounds := pr_rounds p + 1\<rparr>)) = pr_rounds p + 1 + length ds"
      "take (length ds) (map fst rs) = map Inr ds"
      using 2 [OF d(1,2) refl d(3)] by auto
    with d show ?thesis by (intro exI [of _ "d # ds"]) (auto simp: Let_def)
  next
    case False
    then show ?thesis by (intro exI [of _ "[]"]) (auto simp: Let_def split: sum.split)
  qed
qed auto

text \<open>The gaps are the differences of the readings, so their sum is the time since the start.\<close>

lemma echo_gaps: "sum_list (pr_gaps (echo works rs p)) - pr_last (echo works rs p) = sum_list (pr_gaps p) - pr_last p"
  by (induction works rs p rule: echo.induct) (auto simp: Let_def split: sum.split)

text \<open>So the average is the time between the first and the last arrival over the number of gaps between
  them.\<close>

lemma probe_average:
  assumes "probe_report t0 t1 (echo works rs (probe_start t0)) = Some (n, dt, avg)"
  shows "avg = (pr_last (echo works rs (probe_start t0)) - t0 - hd (pr_gaps (echo works rs (probe_start t0)))) /
    of_nat (max (length (pr_gaps (echo works rs (probe_start t0))) - 1) 1) * 1000"
proof -
  let ?p = "echo works rs (probe_start t0)"
  have ne: "pr_gaps ?p \<noteq> []" using assms by (auto simp: probe_report_def split: if_splits)
  have "sum_list (pr_gaps ?p) = pr_last ?p - t0" using echo_gaps [of works rs "probe_start t0"] by (simp add: probe_start_def)
  moreover have "sum_list (pr_gaps ?p) = hd (pr_gaps ?p) + sum_list (tl (pr_gaps ?p))"
    using ne by (cases "pr_gaps ?p") simp_all
  ultimately have "sum_list (tl (pr_gaps ?p)) = pr_last ?p - t0 - hd (pr_gaps ?p)" by simp
  then show ?thesis using assms ne by (simp add: probe_report_def)
qed

end
