(* ===== verification/Recon.thy ===== *)
theory Recon
  imports RomImages
begin

text \<open>
  The port reconnaissance tool \<open>tools/recon.py\<close>: a linear scan of a cartridge image for the
  places a port has to touch. \<open>jsrs\<close> and \<open>refs\<close> decode call and operand words, \<open>report\<close> gathers
  the header pointers, the timer table, the EXEC calls and the cell references it prints. Rates
  and periods (floating point, printed only) are left out.
\<close>

section \<open>Tables\<close>

definition EXEC_NAMES :: "(nat, pystr) pydict" where
  "EXEC_NAMES =
    [(0x1082, lit ''post-title mainline''),
     (0x108F, lit ''MAIN LOOP''),
     (0x1126, lit ''X_DEF_ISR''),
     (0x11FA, lit ''boot/title hand-off''),
     (0x14F1, lit ''controller scan entry''),
     (0x1523, lit ''controller scan''),
     (0x15F8, lit ''handler-table dispatch (jumps into game code)''),
     (0x167D, lit ''X_RAND1  ** RNG **''),
     (0x169E, lit ''X_RAND2  ** RNG **''),
     (0x17D5, lit ''timer-table dispatch pass''),
     (0x1838, lit ''X_TIMER_STOP''),
     (0x1844, lit ''X_TIMER_START''),
     (0x181E, lit ''set timer countdown := interval  ** relocation hazard **''),
     (0x1831, lit ''set timer countdown := R0 (music)''),
     (0x1A71, lit ''music note timer''),
     (0x1AAD, lit ''sound update''),
     (0x1CCE, lit ''sound engine RNG caller (churns $035E mid-tick)''),
     (0x1F2F, lit ''X_DO_GRAM_INIT'')]"

definition RNG_CALLS :: "nat list" where "RNG_CALLS = [0x167D, 0x169E]"
definition TIMER_CALLS :: "nat list" where "TIMER_CALLS = [0x181E, 0x1831, 0x1838, 0x1844]"

definition CELLS :: "(nat, pystr) pydict" where
  "CELLS =
    [(0x011F, lit ''decoded input, LEFT controller   ** shadow-patch site **''),
     (0x0120, lit ''decoded input, RIGHT controller  ** shadow-patch site **''),
     (0x0121, lit ''keypad/action state, left''),
     (0x0122, lit ''keypad/action state, right''),
     (0x0123, lit ''raw port, left''),
     (0x0124, lit ''raw port, right''),
     (0x035D, lit ''input handler-table pointer      ** phase machine **''),
     (0x035E, lit ''EXEC LFSR state  ** must never be sim state **''),
     (0x035F, lit ''sound frame counter'')]"

definition OPS :: "(nat, pystr) pydict" where
  "OPS = [(1, lit ''MVO''), (2, lit ''MVI''), (3, lit ''ADD''), (4, lit ''SUB''), (5, lit ''CMP''),
     (6, lit ''AND''), (7, lit ''XOR'')]"

section \<open>Rom\<close>

record rom =
  rom_base :: nat
  rom_w :: "nat list"

definition load_rom :: "nat \<Rightarrow> bytes \<Rightarrow> rom" where
  "load_rom base file = \<lparr> rom_base = base, rom_w = words file \<rparr>"

definition rom_end :: "rom \<Rightarrow> nat" where
  "rom_end r = rom_base r + length (rom_w r)"

definition has_addr :: "rom \<Rightarrow> nat \<Rightarrow> bool" where
  "has_addr r addr \<longleftrightarrow> rom_base r \<le> addr \<and> addr < rom_end r"

text \<open>\<open>self.w[addr - self.base]\<close>: a negative index counts from the end.\<close>

definition at_addr :: "rom \<Rightarrow> nat \<Rightarrow> exn + nat" where
  "at_addr r addr =
     (let n = length (rom_w r)
      in if rom_base r \<le> addr
         then (if addr - rom_base r < n then Inr (rom_w r ! (addr - rom_base r)) else Inl IndexError)
         else (if rom_base r - addr \<le> n then Inr (rom_w r ! (n - (rom_base r - addr))) else Inl IndexError))"

definition ptr :: "rom \<Rightarrow> nat \<Rightarrow> exn + nat" where
  "ptr r addr =
     (case at_addr r addr of
        Inl e \<Rightarrow> Inl e
      | Inr lo \<Rightarrow> (case at_addr r (addr + 1) of Inl e \<Rightarrow> Inl e | Inr hi \<Rightarrow> Inr (lo OR push_bit 8 hi)))"

text \<open>The call at word \<open>i\<close>, if its three words have the form of one: site, register, target.\<close>

definition jsr_at :: "rom \<Rightarrow> nat \<Rightarrow> (nat \<times> nat \<times> nat) option" where
  "jsr_at r i =
     (if rom_w r ! i \<noteq> 4 then None
      else
        (let w1 = rom_w r ! (i + 1); w2 = rom_w r ! (i + 2)
         in if w1 AND 0xFC00 \<noteq> 0 \<or> w2 AND 0xFC00 \<noteq> 0 then None
            else Some (rom_base r + i, 4 + (drop_bit 8 w1 AND 3),
                       push_bit 10 (drop_bit 2 (w1 AND 0xFF)) OR (w2 AND 0x3FF))))"

definition jsrs :: "rom \<Rightarrow> (nat \<times> nat \<times> nat) list" where
  "jsrs r = List.map_filter (jsr_at r) [0..<length (rom_w r) - 2]"

text \<open>The operand reference of the opcode at word \<open>i\<close>; \<open>OPS\<close> has an entry for every opcode in range.\<close>

definition ref_at :: "rom \<Rightarrow> nat \<Rightarrow> (nat \<times> pystr \<times> nat \<times> nat) option" where
  "ref_at r i =
     (let v = rom_w r ! i
      in if \<not> (0x0240 \<le> v \<and> v \<le> 0x03FF) then None
         else
           (let opn = the (dget OPS (drop_bit 6 v AND 7)); mode = drop_bit 3 v AND 7; reg = v AND 7
            in if mode = 0 then Some (rom_base r + i + 1, opn, reg, rom_w r ! (i + 1))
               else if mode = 7 then Some (rom_base r + i + 1, opn @ lit ''I'', reg, rom_w r ! (i + 1))
               else None))"

definition refs :: "rom \<Rightarrow> (nat \<times> pystr \<times> nat \<times> nat) list" where
  "refs r = List.map_filter (ref_at r) [0..<length (rom_w r) - 1]"

section \<open>report\<close>

text \<open>The timer table: address and interval of its entries, up to a zero address or the image's end.\<close>

function timer_walk :: "rom \<Rightarrow> nat \<Rightarrow> exn + (nat \<times> nat) list" where
  "timer_walk r a =
     (if has_addr r (a + 3) then
        (case ptr r a of
           Inl e \<Rightarrow> Inl e
         | Inr addr \<Rightarrow> (case ptr r (a + 2) of
             Inl e \<Rightarrow> Inl e
           | Inr interval \<Rightarrow>
               if addr = 0 then Inr []
               else (case timer_walk r (a + 4) of Inl e \<Rightarrow> Inl e | Inr ts \<Rightarrow> Inr ((addr, interval) # ts))))
      else Inr [])"
  by pat_completeness auto
termination
  by (relation "measure (\<lambda>(r, a). rom_end r - a)") (auto simp: has_addr_def)

declare timer_walk.simps [simp del]

text \<open>Call sites grouped by target, for the targets below the image.\<close>

fun exec_calls :: "nat \<Rightarrow> (nat \<times> nat \<times> nat) list \<Rightarrow> (nat, nat list) pydict \<Rightarrow> (nat, nat list) pydict" where
  "exec_calls base [] d = d"
| "exec_calls base ((site, reg, tgt) # js) d =
     exec_calls base js
       (if tgt < base then dset d tgt ((case dget d tgt of None \<Rightarrow> [] | Some ss \<Rightarrow> ss) @ [site]) else d)"

definition rng_hits :: "(nat, nat list) pydict \<Rightarrow> (nat \<times> nat list) list" where
  "rng_hits calls = sort_key fst (filter (\<lambda>(t, ss). t \<in> set RNG_CALLS) calls)"

definition timer_hits :: "(nat, nat list) pydict \<Rightarrow> (nat \<times> nat) list" where
  "timer_hits calls =
     concat (map (\<lambda>t. map (\<lambda>s. (s, t)) (case dget calls t of None \<Rightarrow> [] | Some ss \<Rightarrow> ss)) TIMER_CALLS)"

definition cell_hits :: "(nat \<times> pystr \<times> nat \<times> nat) list \<Rightarrow> (nat \<times> (nat \<times> pystr \<times> nat) list) list" where
  "cell_hits rs =
     filter (\<lambda>(c, hits). hits \<noteq> [])
       (map (\<lambda>(c, what). (c, map (\<lambda>(s, opn, reg, v). (s, opn, reg)) (filter (\<lambda>(s, opn, reg, v). v = c) rs))) CELLS)"

definition mvo_refs :: "nat \<Rightarrow> nat \<Rightarrow> (nat \<times> pystr \<times> nat \<times> nat) list \<Rightarrow> (nat \<times> pystr \<times> nat \<times> nat) list" where
  "mvo_refs lo hi rs = filter (\<lambda>(s, opn, reg, v). opn = lit ''MVO'' \<and> lo \<le> v \<and> v \<le> hi) rs"

definition most_called :: "(nat, nat list) pydict \<Rightarrow> (nat \<times> nat list) list" where
  "most_called calls = take 8 (sort_key (\<lambda>(t, ss). - int (length ss)) calls)"

text \<open>What the report shows; no timers when the table lies outside the image.\<close>

record recon_report =
  rep_tbl :: nat
  rep_start :: nat
  rep_gram :: nat
  rep_display :: "(nat \<times> nat) list"
  rep_timers :: "(nat \<times> nat) list option"
  rep_rng :: "(nat \<times> nat list) list"
  rep_timer_calls :: "(nat \<times> nat) list"
  rep_cells :: "(nat \<times> (nat \<times> pystr \<times> nat) list) list"
  rep_stic :: "(nat \<times> pystr \<times> nat \<times> nat) list"
  rep_gramw :: "(nat \<times> pystr \<times> nat \<times> nat) list"
  rep_top :: "(nat \<times> nat list) list"

fun read_all :: "rom \<Rightarrow> nat list \<Rightarrow> exn + (nat \<times> nat) list" where
  "read_all r [] = Inr []"
| "read_all r (a # as) =
     (case at_addr r a of
        Inl e \<Rightarrow> Inl e
      | Inr v \<Rightarrow> (case read_all r as of Inl e \<Rightarrow> Inl e | Inr vs \<Rightarrow> Inr ((a, v) # vs)))"

definition report :: "nat \<Rightarrow> bytes \<Rightarrow> exn + recon_report" where
  "report base file =
     (let r = load_rom base file
      in case ptr r (base + 2) of Inl e \<Rightarrow> Inl e | Inr tbl \<Rightarrow>
        (case ptr r (base + 4) of Inl e \<Rightarrow> Inl e | Inr start \<Rightarrow>
        (case ptr r (base + 8) of Inl e \<Rightarrow> Inl e | Inr gram \<Rightarrow>
        (case read_all r (map (\<lambda>off. base + off) [0x0D, 0x0E, 0x0F, 0x10, 0x11, 0x12, 0x13]) of
           Inl e \<Rightarrow> Inl e | Inr disp \<Rightarrow>
        (case (if has_addr r tbl then timer_walk r tbl else Inr []) of Inl e \<Rightarrow> Inl e | Inr timers \<Rightarrow>
           (let calls = exec_calls base (jsrs r) []; rs = refs r
            in Inr \<lparr> rep_tbl = tbl, rep_start = start, rep_gram = gram, rep_display = disp,
                     rep_timers = (if has_addr r tbl then Some timers else None),
                     rep_rng = rng_hits calls, rep_timer_calls = timer_hits calls,
                     rep_cells = cell_hits rs, rep_stic = mvo_refs 0 0x3F rs,
                     rep_gramw = mvo_refs 0x3800 0x39FF rs, rep_top = most_called calls \<rparr>))))))"

section \<open>Decoding calls\<close>

text \<open>The three words of \<open>JSR R5,t\<close>, as the comment in \<open>tools/patches.py\<close> gives them.\<close>

definition jsr_word1 :: "nat \<Rightarrow> nat" where
  "jsr_word1 t = push_bit 2 (drop_bit 10 t) OR 0x100"

definition jsr_word2 :: "nat \<Rightarrow> nat" where
  "jsr_word2 t = t AND 0x3FF"

lemma and_mask10: "(n :: nat) AND 0x3FF = take_bit 10 n"
proof -
  have "mask 10 = (0x3FF :: nat)" by (simp add: mask_eq_exp_minus_1)
  then show ?thesis by (metis take_bit_eq_mask)
qed

lemma split10: "push_bit 10 (drop_bit 10 (t :: nat)) OR (t AND 0x3FF) = t"
  by (rule bit_eqI) (auto simp: and_mask10 bit_simps)

lemma jsr_word1_fields:
  assumes "t < 65536"
  shows "jsr_word1 t AND 0xFC00 = 0" "drop_bit 8 (jsr_word1 t) AND 3 = 1"
    "drop_bit 2 (jsr_word1 t AND 0xFF) = drop_bit 10 t"
proof -
  let ?q = "drop_bit 10 t"
  have "take_bit 16 t = t" using assms by (simp add: take_bit_nat_eq_self)
  then have q: "n < 16" if "bit t n" for n using that by (metis bit_take_bit_iff)
  have nums: "(0xFC00 :: nat) = push_bit 10 (mask 6)" "(0x100 :: nat) = push_bit 8 1"
    "(3 :: nat) = mask 2" "(0xFF :: nat) = mask 8"
    by (simp_all add: mask_eq_exp_minus_1 push_bit_eq_mult)
  have w: "jsr_word1 t = push_bit 2 ?q OR push_bit 8 1" by (simp only: jsr_word1_def nums(2))
  have bits: "bit (jsr_word1 t) n \<longleftrightarrow> n = 8 \<or> (2 \<le> n \<and> bit ?q (n - 2))" for n
  proof -
    have "bit (push_bit 8 (1 :: nat)) n \<longleftrightarrow> n = 8"
      unfolding bit_push_bit_iff_nat bit_1_iff by auto
    then show ?thesis unfolding w bit_or_iff bit_push_bit_iff_nat by auto
  qed
  show "jsr_word1 t AND 0xFC00 = 0"
    unfolding nums(1)
    by (rule bit_eqI) (auto simp: bits bit_and_iff bit_push_bit_iff bit_drop_bit_eq bit_mask_iff dest: q)
  show "drop_bit 8 (jsr_word1 t) AND 3 = 1"
    unfolding nums(3)
    by (rule bit_eqI) (auto simp: bits bit_and_iff bit_drop_bit_eq bit_mask_iff bit_Suc_0_iff dest: q)
  show "drop_bit 2 (jsr_word1 t AND 0xFF) = ?q"
    unfolding nums(4)
    by (rule bit_eqI) (auto simp: bits bit_and_iff bit_drop_bit_eq bit_mask_iff dest: q)
qed

lemma jsr_word2_fields: "jsr_word2 t AND 0xFC00 = 0" "jsr_word2 t AND 0x3FF = t AND 0x3FF"
proof -
  have "(0x3FF :: nat) AND 0xFC00 = 0" "(0x3FF :: nat) AND 0x3FF = 0x3FF" by simp_all
  then show "jsr_word2 t AND 0xFC00 = 0" "jsr_word2 t AND 0x3FF = t AND 0x3FF"
    unfolding jsr_word2_def by (metis and.assoc and_zero_eq)+
qed

lemma jsr_at_encoded:
  assumes "t < 65536" "rom_w r ! i = 4" "rom_w r ! (i + 1) = jsr_word1 t" "rom_w r ! (i + 2) = jsr_word2 t"
  shows "jsr_at r i = Some (rom_base r + i, 5, t)"
  using assms jsr_word1_fields [OF assms(1)] jsr_word2_fields [of t]
  by (simp add: jsr_at_def split10)

lemma in_map_filter: "y \<in> set (List.map_filter f xs) \<longleftrightarrow> (\<exists>x \<in> set xs. f x = Some y)"
  by (force simp: List.map_filter_def)

lemma jsrs_encoded:
  assumes "t < 65536" "i + 2 < length (rom_w r)"
    "rom_w r ! i = 4" "rom_w r ! (i + 1) = jsr_word1 t" "rom_w r ! (i + 2) = jsr_word2 t"
  shows "(rom_base r + i, 5, t) \<in> set (jsrs r)"
proof -
  have "i \<in> set [0..<length (rom_w r) - 2]" using assms(2) by simp
  with jsr_at_encoded [OF assms(1,3-5)] show ?thesis unfolding jsrs_def in_map_filter by blast
qed

section \<open>Reading the image\<close>

lemma at_addr_has: "has_addr r a \<Longrightarrow> at_addr r a = Inr (rom_w r ! (a - rom_base r))"
  by (auto simp: has_addr_def at_addr_def rom_end_def)

lemma ptr_has: "has_addr r a \<Longrightarrow> has_addr r (a + 1) \<Longrightarrow> \<exists>v. ptr r a = Inr v"
  by (simp add: ptr_def at_addr_has)

lemma has_addr_back: "has_addr r (a + k) \<Longrightarrow> rom_base r \<le> a \<Longrightarrow> j \<le> k \<Longrightarrow> has_addr r (a + j)"
  by (auto simp: has_addr_def)

definition timers_read :: "rom \<Rightarrow> nat \<Rightarrow> (nat \<times> nat) list \<Rightarrow> bool" where
  "timers_read r a ts \<longleftrightarrow>
     (\<forall>i < length ts. fst (ts ! i) \<noteq> 0 \<and> has_addr r (a + 4 * i + 3) \<and>
        ptr r (a + 4 * i) = Inr (fst (ts ! i)) \<and> ptr r (a + 4 * i + 2) = Inr (snd (ts ! i)))"

lemma timers_read_Cons:
  assumes "has_addr r (a + 3)" "ptr r a = Inr v" "v \<noteq> 0" "ptr r (a + 2) = Inr n" "timers_read r (a + 4) ts"
  shows "timers_read r a ((v, n) # ts)"
  unfolding timers_read_def
proof (intro allI impI)
  fix i assume i: "i < length ((v, n) # ts)"
  show "fst (((v, n) # ts) ! i) \<noteq> 0 \<and> has_addr r (a + 4 * i + 3) \<and>
      ptr r (a + 4 * i) = Inr (fst (((v, n) # ts) ! i)) \<and> ptr r (a + 4 * i + 2) = Inr (snd (((v, n) # ts) ! i))"
  proof (cases i)
    case 0
    with assms show ?thesis by simp
  next
    case (Suc j)
    with i assms(5) show ?thesis by (simp add: timers_read_def algebra_simps)
  qed
qed

lemma timer_walk_spec:
  "rom_base r \<le> a \<Longrightarrow>
     \<exists>ts. timer_walk r a = Inr ts \<and> timers_read r a ts \<and>
       (\<not> has_addr r (a + 4 * length ts + 3) \<or> ptr r (a + 4 * length ts) = Inr 0)"
proof (induction r a rule: timer_walk.induct)
  case (1 r a)
  show ?case
  proof (cases "has_addr r (a + 3)")
    case False
    then show ?thesis by (subst timer_walk.simps) (simp add: timers_read_def)
  next
    case True
    note has = has_addr_back [OF True 1(2)]
    obtain v where v: "ptr r a = Inr v" using ptr_has [of r a] has [of 0] has [of 1] by auto
    have "has_addr r (a + 2 + 1)" using has [of 3] by (simp add: numeral_eq_Suc)
    moreover have "has_addr r (a + 2)" using has [of 2] by simp
    ultimately obtain n where n: "ptr r (a + 2) = Inr n"
      using ptr_has [of r "a + 2"] by blast
    show ?thesis
    proof (cases "v = 0")
      case True
      with \<open>has_addr r (a + 3)\<close> v n show ?thesis by (subst timer_walk.simps) (simp add: timers_read_def)
    next
      case False
      have "rom_base r \<le> a + 4" using 1(2) by simp
      from 1(1) [OF True v n False this] obtain ts where
        ts: "timer_walk r (a + 4) = Inr ts" "timers_read r (a + 4) ts"
        "\<not> has_addr r (a + 4 + 4 * length ts + 3) \<or> ptr r (a + 4 + 4 * length ts) = Inr 0" by blast
      have "timer_walk r a = Inr ((v, n) # ts)"
        using True v n False ts(1) by (subst timer_walk.simps) simp
      moreover have "timers_read r a ((v, n) # ts)" by (rule timers_read_Cons [OF True v False n ts(2)])
      ultimately show ?thesis using ts(3) by (intro exI [of _ "(v, n) # ts"]) (simp add: algebra_simps)
    qed
  qed
qed

section \<open>Grouping calls\<close>

definition sites_of :: "nat \<Rightarrow> (nat \<times> nat \<times> nat) list \<Rightarrow> nat list" where
  "sites_of t js = map fst (filter (\<lambda>(s, g, t'). t' = t) js)"

lemma exec_calls_lookup:
  "dget (exec_calls base js d) t =
     (if t < base \<and> sites_of t js \<noteq> []
      then Some ((case dget d t of None \<Rightarrow> [] | Some ss \<Rightarrow> ss) @ sites_of t js) else dget d t)"
  by (induction base js d rule: exec_calls.induct)
    (auto simp: sites_of_def dget_dset split: option.splits)

lemma dwf_dset: "dwf d \<Longrightarrow> dwf (dset d k v)"
  by (rule dict.wf_store)

lemma exec_calls_wf: "dwf d \<Longrightarrow> dwf (exec_calls base js d)"
  by (induction base js d rule: exec_calls.induct) (simp_all add: dwf_dset)

section \<open>Properties\<close>

text \<open>The call sites the patch map retargets, with the routine each goes to.\<close>

definition call_sites :: "(nat \<times> pystr) list" where
  "call_sites =
     map (\<lambda>s. (s, lit ''NB_RAND1'')) [0x5313, 0x56D3, 0x5A26] @
     map (\<lambda>s. (s, lit ''NB_RAND2'')) [0x52DF, 0x5B99, 0x5BA1, 0x5BD5, 0x5BFC] @
     map (\<lambda>s. (s, lit ''NB_SFX_SKIP'')) [0x5860, 0x5257, 0x5264, 0x58E6, 0x5BA9, 0x5C4B]"

definition jsr_expr1 :: "pystr \<Rightarrow> pystr" where
  "jsr_expr1 nm = lit ''(('' @ nm @ lit '' SHR 10) SHL 2) OR $0100''"

definition jsr_expr2 :: "pystr \<Rightarrow> pystr" where
  "jsr_expr2 nm = nm @ lit '' AND $3FF''"

lemma call_sites_patched:
  "\<forall>(s, nm) \<in> set call_sites.
     (s + 1, jsr_expr1 nm) \<in> set patches \<and> (s + 2, jsr_expr2 nm) \<in> set patches \<and> s + 2 < 0x6000 \<and> 0x5000 \<le> s"
  by (simp add: call_sites_def jsr_expr1_def jsr_expr2_def patches_def lit_def)

text \<open>C39: the patch map retargets the calls it says. In an image at $5000 whose words at the patched
  addresses are what the assembler makes of the declared expressions (for a symbol, the two words
  of the JSR form), and whose opcode words at the fourteen call sites are untouched, the
  reconnaissance scan reports at each site a JSR through R5 to exactly the wrapper's address.\<close>

theorem patched_calls_found:
  assumes "rom_base r = 0x5000" "0x1000 \<le> length (rom_w r)"
    and "\<forall>(a, e) \<in> set patches. rom_w r ! (a - 0x5000) = asm e"
    and "\<forall>(s, nm) \<in> set call_sites. rom_w r ! (s - 0x5000) = 4"
    and "\<forall>nm. asm (jsr_expr1 nm) = jsr_word1 (val nm) \<and> asm (jsr_expr2 nm) = jsr_word2 (val nm)"
    and "(s, nm) \<in> set call_sites" "val nm < 65536"
  shows "(s, 5, val nm) \<in> set (jsrs r)"
proof -
  have site: "(s + 1, jsr_expr1 nm) \<in> set patches" "(s + 2, jsr_expr2 nm) \<in> set patches"
    "s + 2 < 0x6000" "0x5000 \<le> s"
    using bspec [OF call_sites_patched assms(6)] by auto
  define i where "i = s - 0x5000"
  have i: "s = 0x5000 + i" "i + 2 < length (rom_w r)" using site assms(2) by (simp_all add: i_def)
  have "rom_w r ! (i + 1) = jsr_word1 (val nm)" "rom_w r ! (i + 2) = jsr_word2 (val nm)" "rom_w r ! i = 4"
    using bspec [OF assms(3) site(1)] bspec [OF assms(3) site(2)] bspec [OF assms(4,6)] assms(5) i(1) by auto
  from jsrs_encoded [OF assms(7) i(2) this(3,1,2)] i(1) assms(1) show ?thesis by simp
qed

definition sample_asm :: "pystr \<Rightarrow> nat" where
  "sample_asm e = (if last e = 48 then jsr_word1 0x6123 else jsr_word2 0x6123)"

definition sample_rom :: rom where
  "sample_rom =
     \<lparr> rom_base = 0x5000,
       rom_w = map (\<lambda>i. if 0x5000 + i \<in> fst ` set call_sites then 4
                         else (case dget patches (0x5000 + i) of Some e \<Rightarrow> sample_asm e | None \<Rightarrow> 0)) [0..<0x1000] \<rparr>"

lemma patches_keys: "dwf patches" "\<forall>a \<in> set (dkeys patches). 0x5000 \<le> a \<and> a < 0x6000 \<and> a \<notin> fst ` set call_sites"
  by (simp_all add: dwf_def dkeys_def patches_def call_sites_def)

theorem patched_calls_found_witness: "(0x5313, 5, 0x6123) \<in> set (jsrs sample_rom)"
proof (rule patched_calls_found)
  show "rom_base sample_rom = 0x5000" "0x1000 \<le> length (rom_w sample_rom)"
    by (simp_all add: sample_rom_def)
  have at: "rom_w sample_rom ! (a - 0x5000) =
      (if a \<in> fst ` set call_sites then 4 else (case dget patches a of Some e \<Rightarrow> sample_asm e | None \<Rightarrow> 0))"
    if "0x5000 \<le> a" "a < 0x6000" for a
    using that by (simp add: sample_rom_def)
  show "\<forall>(a, e) \<in> set patches. rom_w sample_rom ! (a - 0x5000) = sample_asm e"
  proof (clarify)
    fix a e assume ae: "(a, e) \<in> set patches"
    then have "a \<in> set (dkeys patches)" by (force simp: dkeys_def)
    then have "0x5000 \<le> a" "a < 0x6000" "a \<notin> fst ` set call_sites" using patches_keys(2) by blast+
    with at [of a] dget_in [OF patches_keys(1) ae] show "rom_w sample_rom ! (a - 0x5000) = sample_asm e" by simp
  qed
  show "\<forall>(s, nm) \<in> set call_sites. rom_w sample_rom ! (s - 0x5000) = 4"
  proof (clarify)
    fix s nm assume "(s, nm) \<in> set call_sites"
    moreover from this have "0x5000 \<le> s" "s < 0x6000" using call_sites_patched by fastforce+
    ultimately show "rom_w sample_rom ! (s - 0x5000) = 4" using at [of s] by force
  qed
  show "\<forall>nm. sample_asm (jsr_expr1 nm) = jsr_word1 0x6123 \<and> sample_asm (jsr_expr2 nm) = jsr_word2 0x6123"
    by (simp add: sample_asm_def jsr_expr1_def jsr_expr2_def lit_def)
  show "(0x5313, lit ''NB_RAND1'') \<in> set call_sites" by (simp add: call_sites_def)
qed simp

text \<open>The walk over the timer table ends and raises nothing on a table inside the image: it lists,
  from the table's address on, every four-byte entry up to the first zero address or the end of
  the image, each read from its own words.\<close>

lemma timer_walk_complete:
  assumes "rom_base r \<le> a"
  shows "\<exists>ts. timer_walk r a = Inr ts \<and> timers_read r a ts \<and>
    (\<not> has_addr r (a + 4 * length ts + 3) \<or> ptr r (a + 4 * length ts) = Inr 0)"
  by (rule timer_walk_spec [OF assms])

text \<open>The report raises exactly on images too short for the header it reads (20 words), and the
  RNG part of a report lists each RNG routine below the image that is called at all, once, with
  all its call sites in address order.\<close>

theorem report_rng:
  "case report base file of
      Inl e \<Rightarrow> e = IndexError \<and> length file div 2 < 20
    | Inr rep \<Rightarrow> 20 \<le> length file div 2 \<and> distinct (map fst (rep_rng rep)) \<and>
        (\<forall>t ss. (t, ss) \<in> set (rep_rng rep) \<longleftrightarrow>
           t \<in> set RNG_CALLS \<and> t < base \<and> ss = sites_of t (jsrs (load_rom base file)) \<and> ss \<noteq> [])"
proof -
  let ?r = "load_rom base file" and ?n = "length file div 2"
  let ?calls = "exec_calls base (jsrs ?r) []"
  have n: "length (rom_w ?r) = ?n" "rom_base ?r = base"
    by (simp_all add: load_rom_def length_words)
  have at: "at_addr ?r (base + k) = (if k < ?n then Inr (rom_w ?r ! k) else Inl IndexError)" for k
    by (simp add: at_addr_def Let_def n)
  have at1: "at_addr ?r (Suc (base + k)) = (if Suc k < ?n then Inr (rom_w ?r ! Suc k) else Inl IndexError)" for k
    using at [of "Suc k"] by simp
  have ptr: "ptr ?r (base + k) =
      (if k + 1 < ?n then Inr (rom_w ?r ! k OR push_bit 8 (rom_w ?r ! (k + 1))) else Inl IndexError)" for k
    by (simp add: ptr_def at at1)
  then have ptr2: "ptr ?r (Suc (Suc base)) =
      (if 3 < ?n then Inr (rom_w ?r ! 2 OR push_bit 8 (rom_w ?r ! 3)) else Inl IndexError)"
    using ptr [of 2] by (simp add: numeral_3_eq_3 numeral_2_eq_2)
  have calls: "dwf ?calls" by (rule exec_calls_wf) (simp add: dwf_def dkeys_def)
  have rng: "(t, ss) \<in> set (rng_hits ?calls) \<longleftrightarrow>
      t \<in> set RNG_CALLS \<and> t < base \<and> ss = sites_of t (jsrs ?r) \<and> ss \<noteq> []" for t ss
  proof -
    have "(t, ss) \<in> set ?calls \<longleftrightarrow> dget ?calls t = Some ss"
      using dget_in [OF calls] dget_Some_in [of ?calls t ss] by blast
    then show ?thesis by (auto simp: rng_hits_def exec_calls_lookup)
  qed
  have "distinct (map fst (rng_hits ?calls))"
  proof -
    have "inj_on fst (set (rng_hits ?calls))" using rng by (fastforce intro!: inj_onI)
    moreover have "distinct (rng_hits ?calls)"
      using calls by (simp add: rng_hits_def dwf_def dkeys_def distinct_map)
    ultimately show ?thesis by (simp add: distinct_map)
  qed
  moreover have walk: "\<exists>ts. (if has_addr ?r tbl then timer_walk ?r tbl else Inr []) = Inr ts" for tbl
    using timer_walk_spec [of ?r tbl] by (auto simp: has_addr_def)
  ultimately show ?thesis
  proof (cases "20 \<le> ?n")
    case True
    obtain ts where "(if has_addr ?r (rom_w ?r ! 2 OR push_bit 8 (rom_w ?r ! 3))
        then timer_walk ?r (rom_w ?r ! 2 OR push_bit 8 (rom_w ?r ! 3)) else Inr []) = Inr ts"
      using walk by blast
    with True rng \<open>distinct (map fst (rng_hits ?calls))\<close> show ?thesis
      by (simp add: report_def Let_def ptr2 ptr at)
  next
    case False
    then show ?thesis by (auto simp: report_def Let_def ptr2 ptr at)
  qed
qed

end
