(* ===== verification/MemDump.thy ===== *)
theory MemDump
  imports RomImages
begin

text \<open>
  The determinism tools, which compare memory dumps from debugger logs: \<open>tools/crc_trace_diff.py\<close>
  (the dump parser and the comparison of two checksum rings), \<open>tools/check_dest_phase.py\<close>,
  \<open>tools/cell_diff.py\<close> and \<open>tools/mk_replay.py\<close>. A log is a sequence of code points, a parsed
  dump a dict from address to value; the printed text is represented by the values it shows.
\<close>

section \<open>Parsing a log\<close>

text \<open>\<open>[0-9A-F]{4}\<close>: four upper-case hexadecimal digits.\<close>

definition eat_hex4 :: "pystr \<Rightarrow> (nat \<times> pystr) option" where
  "eat_hex4 s =
     (if 4 \<le> length s \<and> list_all upper_hex (take 4 s) then Some (unhex (take 4 s), drop 4 s) else None)"

text \<open>
  \<open>(?:\s+[0-9A-F]{4}\*?){1,8}\<close>, taken greedily: a shorter match would have to be followed by a
  digit or a star where the expression demands white space or the number sign.
\<close>

fun dump_words :: "nat \<Rightarrow> pystr \<Rightarrow> nat list \<times> pystr" where
  "dump_words 0 s = ([], s)"
| "dump_words (Suc n) s =
     (if lstrip s = s then ([], s)
      else (case eat_hex4 (lstrip s) of
              None \<Rightarrow> ([], s)
            | Some (v, r) \<Rightarrow>
                (let (vs, q) = dump_words n (case eat 42 r of Some t \<Rightarrow> t | None \<Rightarrow> r)
                 in (v # vs, q))))"

text \<open>\<open>DUMP_RE\<close> at the start of a line: the address, the words, and the text behind the match.\<close>

definition dump_match :: "pystr \<Rightarrow> (nat \<times> nat list \<times> pystr) option" where
  "dump_match s =
     Option.bind (eat_hex4 s) (\<lambda>(addr, r).
     Option.bind (eat 58 r) (\<lambda>r1.
       (let (vs, q) = dump_words 8 r1
        in if vs = [] then None
           else Option.bind (eat 35 (lstrip q)) (\<lambda>t. Some (addr, vs, t)))))"

text \<open>\<open>finditer\<close> with \<open>re.M\<close>: the next match starts at a line after the end of the last one.\<close>

definition next_line :: "pystr \<Rightarrow> pystr" where
  "next_line s = drop 1 (dropWhile (\<lambda>c. c \<noteq> 10) s)"

lemma lstrip_length: "length (lstrip s) \<le> length s"
  unfolding lstrip_def by (rule length_dropWhile_le)

lemma next_line_length: "s \<noteq> [] \<Longrightarrow> length (next_line s) < length s"
proof -
  assume "s \<noteq> []"
  moreover have "length (dropWhile (\<lambda>c. c \<noteq> 10) s) \<le> length s" by (rule length_dropWhile_le)
  ultimately show ?thesis unfolding next_line_def length_drop by (cases s) auto
qed

lemma eat_hex4_length: "eat_hex4 s = Some (v, r) \<Longrightarrow> length s = length r + 4"
  by (auto simp: eat_hex4_def split: if_splits)

lemma eat_length: "eat c s = Some r \<Longrightarrow> length s = length r + 1"
  by (auto simp: eat_def split: list.splits if_splits)

lemma dump_words_length: "dump_words n s = (vs, r) \<Longrightarrow> length r \<le> length s"
proof (induction n arbitrary: s vs r)
  case (Suc n)
  show ?case
  proof (cases "lstrip s = s \<or> eat_hex4 (lstrip s) = None")
    case True
    with Suc.prems show ?thesis by (auto split: if_splits)
  next
    case False
    then obtain v t where t: "eat_hex4 (lstrip s) = Some (v, t)" by auto
    define t' where "t' = (case eat 42 t of Some u \<Rightarrow> u | None \<Rightarrow> t)"
    have "length t' \<le> length t" using eat_length [of 42 t] by (auto simp: t'_def split: option.split)
    moreover obtain ws q where q: "dump_words n t' = (ws, q)" by fastforce
    moreover have "length t \<le> length s" using eat_hex4_length [OF t] lstrip_length [of s] by simp
    moreover have "r = q" using Suc.prems False t q by (simp add: t'_def)
    ultimately show ?thesis using Suc.IH [of t' ws q] by simp
  qed
qed simp

lemma dump_match_length:
  assumes "dump_match s = Some (a, vs, t)"
  shows "length t < length s"
proof -
  obtain a' r r1 where r: "eat_hex4 s = Some (a', r)" "eat 58 r = Some r1"
    using assms by (auto simp: dump_match_def bind_eq_Some_conv)
  obtain ws q where w: "dump_words 8 r1 = (ws, q)" by fastforce
  have t: "eat 35 (lstrip q) = Some t"
    using assms r w by (auto simp: dump_match_def bind_eq_Some_conv split: if_splits)
  show ?thesis
    using eat_hex4_length [OF r(1)] eat_length [OF r(2)] dump_words_length [OF w]
      eat_length [OF t] lstrip_length [of q] by simp
qed

function dump_lines :: "pystr \<Rightarrow> (nat \<times> nat list) list" where
  "dump_lines s =
     (if s = [] then []
      else (case dump_match s of
              None \<Rightarrow> dump_lines (next_line s)
            | Some (a, vs, t) \<Rightarrow> (a, vs) # (if t = [] then [] else dump_lines (next_line t))))"
  by pat_completeness auto
termination
  by (relation "measure length") (auto simp: next_line_length dest!: dump_match_length
      intro: less_trans [OF next_line_length])

declare dump_lines.simps [simp del]

type_synonym mem = "(nat, nat) pydict"

definition store_words :: "nat \<times> nat list \<Rightarrow> mem \<Rightarrow> mem" where
  "store_words l mem = (case l of (a, vs) \<Rightarrow> fold (\<lambda>(x, v) m. dset m x v) (enumerate a vs) mem)"

definition parse :: "pystr \<Rightarrow> mem" where
  "parse text = fold store_words (dump_lines text) []"

section \<open>tools/crc_trace_diff.py\<close>

definition get :: "mem \<Rightarrow> nat \<Rightarrow> exn + nat" where
  "get mem x = (case dget mem x of None \<Rightarrow> Inl KeyError | Some v \<Rightarrow> Inr v)"

text \<open>\<open>mem[x] | (mem[x + 1] << 8)\<close>.\<close>

definition get16 :: "mem \<Rightarrow> nat \<Rightarrow> exn + nat" where
  "get16 mem x =
     (case get mem x of
        Inl e \<Rightarrow> Inl e
      | Inr lo \<Rightarrow> (case get mem (x + 1) of Inl e \<Rightarrow> Inl e | Inr hi \<Rightarrow> Inr (lo OR push_bit 8 hi)))"

text \<open>The tick a ring slot holds when the run parked at \<open>tick\<close>.\<close>

definition slot_tick :: "nat \<Rightarrow> nat \<Rightarrow> int" where
  "slot_tick tick slot =
     (let lap = int tick - int (tick AND 0xFF)
      in if (tick AND 0xFF) \<le> slot then lap - 0x100 + int slot else lap + int slot)"

text \<open>The loop over the ring: how many slots are missing, and the slots that differ.\<close>

type_synonym mismatch = "int \<times> nat \<times> nat \<times> nat"

fun ring_diff :: "mem \<Rightarrow> mem \<Rightarrow> nat \<Rightarrow> nat list \<Rightarrow> exn + nat \<times> mismatch list" where
  "ring_diff a b tick [] = Inr (0, [])"
| "ring_diff a b tick (slot # slots) =
     (let addr = 0x9000 + slot * 2
      in if dget a addr = None \<or> dget b addr = None
         then (case ring_diff a b tick slots of Inl e \<Rightarrow> Inl e | Inr (n, ms) \<Rightarrow> Inr (Suc n, ms))
         else (case get16 a addr of Inl e \<Rightarrow> Inl e | Inr ca \<Rightarrow>
              (case get16 b addr of Inl e \<Rightarrow> Inl e | Inr cb \<Rightarrow>
              (case ring_diff a b tick slots of
                 Inl e \<Rightarrow> Inl e
               | Inr (n, ms) \<Rightarrow>
                   Inr (n, if ca \<noteq> cb then (slot_tick tick slot, slot, ca, cb) # ms else ms)))))"

definition anim_field :: "nat \<Rightarrow> bool" where
  "anim_field x \<longleftrightarrow> 0x031D \<le> x \<and> x < 0x035D \<and> (x - 0x031D) mod 8 = 5"

text \<open>\<open>sorted(set(a) & set(b))\<close>.\<close>

definition common :: "mem \<Rightarrow> mem \<Rightarrow> nat list" where
  "common a b = sorted_list_of_set (set (dkeys a) \<inter> set (dkeys b))"

definition settled_cell :: "nat \<Rightarrow> bool" where
  "settled_cell x \<longleftrightarrow>
     \<not> anim_field x \<and> x \<noteq> 0x016B \<and> ((0x015D \<le> x \<and> x < 0x01F0) \<or> (0x0315 \<le> x \<and> x < 0x35E))"

definition settled :: "mem \<Rightarrow> mem \<Rightarrow> nat list" where
  "settled a b = filter (\<lambda>x. dget a x \<noteq> dget b x \<and> settled_cell x) (common a b)"

datatype trace_result =
    NoDump pystr
  | ParkMismatch nat nat
  | SettledFail nat "nat list"
  | DeterminismFail nat "mismatch list" int
  | DeterminismPass nat

text \<open>The number in the last three is that of the missing slots.\<close>

definition trace_diff :: "mem \<Rightarrow> mem \<Rightarrow> exn + trace_result" where
  "trace_diff a b =
     (if dget a 0x8108 = None then Inr (NoDump (lit ''A''))
      else if dget b 0x8108 = None then Inr (NoDump (lit ''B''))
      else (case get16 a 0x8108 of Inl e \<Rightarrow> Inl e | Inr tick_a \<Rightarrow>
           (case get16 b 0x8108 of Inl e \<Rightarrow> Inl e | Inr tick_b \<Rightarrow>
              if tick_a \<noteq> tick_b then Inr (ParkMismatch tick_a tick_b)
              else (case ring_diff a b tick_a [0..<256] of
                      Inl e \<Rightarrow> Inl e
                    | Inr (missing, ms) \<Rightarrow>
                        if settled a b \<noteq> [] then Inr (SettledFail missing (settled a b))
                        else if ms \<noteq> [] then Inr (DeterminismFail missing ms (Min (fst ` set ms)))
                        else Inr (DeterminismPass missing)))))"

section \<open>tools/cell_diff.py\<close>

definition cell_diff :: "mem \<Rightarrow> mem \<Rightarrow> (nat \<times> nat \<times> nat) list" where
  "cell_diff a b =
     map (\<lambda>x. (x, the (dget a x), the (dget b x)))
       (filter (\<lambda>x. dget a x \<noteq> dget b x \<and> ((0x015D \<le> x \<and> x \<le> 0x01EF) \<or> (0x02F0 \<le> x \<and> x \<le> 0x035F)))
         (common a b))"

section \<open>tools/check_dest_phase.py\<close>

definition NB_HTBL_BOOT :: nat where "NB_HTBL_BOOT = 0x58D6"
definition NB_HTBL_LIVE :: nat where "NB_HTBL_LIVE = 0x55AF"
definition NB_HTBL_NULL :: nat where "NB_HTBL_NULL = 0x1906"

datatype phase_problem = NoMemory | NoTable | BadTable nat | Mob0Zero | Mob1Zero

definition game_table :: "mem \<Rightarrow> nat option" where
  "game_table mem =
     (case (dget mem 0x80C0, dget mem 0x80C1) of
        (Some lo, Some hi) \<Rightarrow> Some (lo OR push_bit 8 hi)
      | _ \<Rightarrow> None)"

text \<open>\<open>any(mem.get(a, 0) for a in range(lo, hi))\<close>.\<close>

definition populated :: "mem \<Rightarrow> nat \<Rightarrow> nat \<Rightarrow> bool" where
  "populated mem lo hi = list_ex (\<lambda>a. case dget mem a of None \<Rightarrow> False | Some v \<Rightarrow> v \<noteq> 0) [lo..<hi]"

definition check_dest_phase :: "pystr \<Rightarrow> phase_problem list" where
  "check_dest_phase text =
     (let mem = parse text
      in if mem = [] then [NoMemory]
         else
           (case game_table mem of
              None \<Rightarrow> [NoTable]
            | Some t \<Rightarrow> if t \<notin> {NB_HTBL_BOOT, NB_HTBL_LIVE, NB_HTBL_NULL} then [BadTable t] else []) @
           (if populated mem 0x31D 0x325 then [] else [Mob0Zero]) @
           (if populated mem 0x325 0x32D then [] else [Mob1Zero]))"

section \<open>tools/mk_replay.py\<close>

definition REC_CAP :: nat where "REC_CAP = 768"

definition get_or :: "mem \<Rightarrow> nat \<Rightarrow> nat \<Rightarrow> nat" where
  "get_or mem x d = (case dget mem x of None \<Rightarrow> d | Some v \<Rightarrow> v)"

definition replay_row :: "mem \<Rightarrow> nat \<Rightarrow> nat \<times> nat \<times> nat \<times> nat" where
  "replay_row mem t =
     (let slot = 0x9000 + t * 4
      in (get_or mem slot 0x40 AND 0xFF, get_or mem (slot + 1) 0x40 AND 0xFF,
          get_or mem (slot + 2) 0 AND 0xFF, get_or mem (slot + 3) 0 AND 0xFF))"

text \<open>\<open>REPLAY_LEN\<close> and the rows of \<open>REPLAY_TBL\<close>.\<close>

definition mk_replay :: "mem \<Rightarrow> nat \<times> (nat \<times> nat \<times> nat \<times> nat) list" where
  "mk_replay mem =
     (let ticks = get_or mem 0x8108 0 OR push_bit 8 (get_or mem 0x8109 0)
      in (min ticks REC_CAP, map (replay_row mem) [0..<REC_CAP]))"

section \<open>Reading back a log\<close>

text \<open>
  A line of a lines: a dump line, which holds an address, its words (each after white space, and
  perhaps marked with a star), white space, the number sign and some text; or any other line.
\<close>

type_synonym shown_word = "pystr \<times> nat \<times> bool"

datatype log_item =
    Dump nat "shown_word list" pystr pystr
  | Note pystr

definition word_text :: "shown_word \<Rightarrow> pystr" where
  "word_text w = (case w of (sep, v, star) \<Rightarrow> sep @ hex4 v @ (if star then [42] else []))"

definition word_fine :: "shown_word \<Rightarrow> bool" where
  "word_fine w \<longleftrightarrow> (case w of (sep, v, star) \<Rightarrow> sep \<noteq> [] \<and> list_all py_space sep \<and> v < 65536)"

fun item_text :: "log_item \<Rightarrow> pystr" where
  "item_text (Dump a ws gap tail) = hex4 a @ [58] @ concat (map word_text ws) @ gap @ [35] @ tail @ [10]"
| "item_text (Note t) = t @ [10]"

text \<open>One to eight words; a line of another kind does not start with four digits and a colon.\<close>

fun item_fine :: "log_item \<Rightarrow> bool" where
  "item_fine (Dump a ws gap tail) \<longleftrightarrow>
     a < 65536 \<and> ws \<noteq> [] \<and> length ws \<le> 8 \<and> list_all word_fine ws \<and> list_all py_space gap \<and> 10 \<notin> set tail"
| "item_fine (Note t) \<longleftrightarrow>
     10 \<notin> set t \<and> \<not> (5 \<le> length t \<and> list_all upper_hex (take 4 t) \<and> t ! 4 = 58)"

text \<open>The cells a line shows: its \<open>i\<close>-th word is that of the \<open>i\<close>-th address from its own on.\<close>

fun item_cells :: "log_item \<Rightarrow> (nat \<times> nat) list" where
  "item_cells (Dump a ws gap tail) = map (\<lambda>i. (a + i, fst (snd (ws ! i)))) [0..<length ws]"
| "item_cells (Note t) = []"

fun item_line :: "log_item \<Rightarrow> (nat \<times> nat list) list" where
  "item_line (Dump a ws gap tail) = [(a, map (\<lambda>w. fst (snd w)) ws)]"
| "item_line (Note t) = []"

lemma eat_hex4_hex4: "n < 65536 \<Longrightarrow> eat_hex4 (hex4 n @ r) = Some (n, r)"
  by (simp add: eat_hex4_def hex4_length hex4_upper)

lemma lstrip_spaces: "list_all py_space sp \<Longrightarrow> lstrip (sp @ s) = lstrip s"
  by (induction sp) (simp_all add: lstrip_def)

lemma lstrip_hex4: "lstrip (hex4 n @ r) = hex4 n @ r"
proof -
  have "\<not> py_space (hd (hex4 n))" using hex_not [OF hex4_hex, of "hd (hex4 n)" n] by simp
  then show ?thesis by (cases "hex4 n") (simp_all add: lstrip_def)
qed

lemma lstrip_sign: "lstrip (35 # r) = 35 # r"
  by (simp add: lstrip_def py_space_def)

lemma eat_here: "eat c (c # r) = Some r"
  by (simp add: eat_def)

lemma no_star:
  assumes "list_all word_fine ws" "list_all py_space gap"
  shows "eat 42 (concat (map word_text ws) @ gap @ 35 # r) = None"
proof -
  have star: "\<not> py_space 42" by (simp add: py_space_def)
  show ?thesis
  proof (cases ws)
    case Nil
    with assms(2) star show ?thesis by (cases gap) (auto simp: eat_def)
  next
    case (Cons w vs)
    then obtain c sep v b where "w = (c # sep, v, b)" "py_space c"
      using assms(1) by (cases w; cases "fst w") (auto simp: word_fine_def)
    with Cons star show ?thesis by (auto simp: eat_def word_text_def)
  qed
qed

lemma dump_words_read:
  assumes "length ws \<le> n" "list_all word_fine ws" "list_all py_space gap"
  shows "dump_words n (concat (map word_text ws) @ gap @ 35 # r) = (map (\<lambda>w. fst (snd w)) ws, gap @ 35 # r)"
  using assms
proof (induction n arbitrary: ws)
  case (Suc n)
  show ?case
  proof (cases ws)
    case Nil
    have "lstrip (gap @ 35 # r) = 35 # r" using Suc.prems(3) by (simp add: lstrip_spaces lstrip_sign)
    with Nil show ?thesis by (simp add: eat_hex4_def upper_hex_def)
  next
    case (Cons w vs)
    obtain sep v b where w: "w = (sep, v, b)" by (rule prod_cases3)
    let ?r = "concat (map word_text vs) @ gap @ 35 # r"
    let ?s = "sep @ hex4 v @ (if b then [42] else []) @ ?r"
    have fine: "word_fine (sep, v, b)" and vs: "list_all word_fine vs" using Suc.prems(2) unfolding Cons w by simp_all
    then have sep: "sep \<noteq> []" "list_all py_space sep" "v < 65536" by (simp_all add: word_fine_def)
    have s: "lstrip ?s = hex4 v @ (if b then [42] else []) @ ?r"
      using sep(2) by (simp only: lstrip_spaces lstrip_hex4)
    then have "lstrip ?s \<noteq> ?s" using sep(1) by simp
    moreover have "(case eat 42 ((if b then [42] else []) @ ?r) of Some t \<Rightarrow> t | None \<Rightarrow> (if b then [42] else []) @ ?r) = ?r"
      using no_star [OF vs Suc.prems(3)] by (simp add: eat_def)
    moreover have "dump_words n ?r = (map (\<lambda>w. fst (snd w)) vs, gap @ 35 # r)"
      using Suc.prems(1) Cons vs by (intro Suc.IH Suc.prems(3)) simp_all
    ultimately have "dump_words (Suc n) ?s = (v # map (\<lambda>w. fst (snd w)) vs, gap @ 35 # r)"
      unfolding dump_words.simps s eat_hex4_hex4 [OF sep(3)] by simp
    moreover have "concat (map word_text ws) @ gap @ 35 # r = ?s"
      unfolding Cons w by (simp add: word_text_def [of "(sep, v, b)"])
    ultimately show ?thesis unfolding Cons w by (simp only: list.map fst_conv snd_conv)
  qed
qed simp

lemma dump_match_line:
  assumes "item_fine (Dump a ws gap tail)"
  shows "dump_match (item_text (Dump a ws gap tail) @ r) = Some (a, map (\<lambda>w. fst (snd w)) ws, tail @ 10 # r)"
  using assms dump_words_read [of ws 8 gap "tail @ 10 # r"]
  by (simp add: dump_match_def eat_hex4_hex4 lstrip_spaces lstrip_sign eat_here)

lemma dump_match_note:
  assumes "item_fine (Note t)"
  shows "dump_match (t @ 10 # r) = None"
proof (rule ccontr)
  assume "dump_match (t @ 10 # r) \<noteq> None"
  then obtain v q z where q: "eat_hex4 (t @ 10 # r) = Some (v, q)" "eat 58 q = Some z"
    by (auto simp: dump_match_def bind_eq_Some_conv)
  then have hex: "list_all upper_hex (take 4 (t @ 10 # r))" "q = drop 4 (t @ 10 # r)"
    by (simp_all add: eat_hex4_def split: if_splits)
  have "\<not> length t < 4"
  proof
    assume "length t < 4"
    then have "10 \<in> set (take 4 (t @ 10 # r))" by (simp add: take_Cons')
    then have "upper_hex 10" using hex(1) unfolding list_all_iff by blast
    then show False by (simp add: upper_hex_def)
  qed
  moreover have "length t \<noteq> 4" using q(2) hex(2) by (auto simp: eat_def)
  ultimately have n: "5 \<le> length t" by simp
  then have "q = t ! 4 # drop 5 t @ 10 # r" using hex(2) Cons_nth_drop_Suc [of 4 t] by simp
  then have "t ! 4 = 58" using q(2) by (auto simp: eat_def split: if_splits)
  with assms n hex(1) show False by simp
qed

lemma next_line_tail: "10 \<notin> set tail \<Longrightarrow> next_line (tail @ 10 # r) = r"
  by (induction tail) (auto simp: next_line_def)

lemma dump_lines_read:
  "list_all item_fine lines \<Longrightarrow> dump_lines (concat (map item_text lines)) = concat (map item_line lines)"
proof (induction lines)
  case Nil
  then show ?case by (subst dump_lines.simps) simp
next
  case (Cons l lines)
  let ?r = "concat (map item_text lines)"
  have IH: "dump_lines ?r = concat (map item_line lines)" using Cons by simp
  have text_split: "concat (map item_text (l # lines)) = item_text l @ ?r" by simp
  show ?case
  proof (cases l)
    case (Dump a ws gap tail)
    then have fine: "item_fine (Dump a ws gap tail)" using Cons.prems by simp
    have "item_text (Dump a ws gap tail) @ ?r \<noteq> []" by simp
    with dump_match_line [OF fine, of ?r] IH fine show ?thesis
      unfolding text_split Dump by (subst dump_lines.simps) (simp add: next_line_tail del: item_text.simps)
  next
    case (Note t)
    then have fine: "item_fine (Note t)" using Cons.prems by simp
    with dump_match_note [OF fine, of ?r] IH show ?thesis
      unfolding text_split Note by (subst dump_lines.simps) (simp add: next_line_tail)
  qed
qed

text \<open>The memory: a dictionary filled entry by entry holds the last value of each key.\<close>

lemma dget_fold_dset:
  "dget (fold (\<lambda>(x, v) m. dset m x v) kvs m) x = (case map_of (rev kvs) x of None \<Rightarrow> dget m x | Some v \<Rightarrow> Some v)"
  by (induction kvs arbitrary: m) (auto simp: dget_dset map_add_def split: option.split)

lemma item_line_cells: "concat (map (\<lambda>(a, vs). enumerate a vs) (item_line l)) = item_cells l"
  by (cases l) (auto intro!: nth_equalityI simp: nth_enumerate_eq)

lemma store_lines:
  "fold store_words (concat (map item_line lines)) m = fold (\<lambda>(x, v) m. dset m x v) (concat (map item_cells lines)) m"
proof (induction lines arbitrary: m)
  case (Cons l lines)
  have "fold store_words (item_line l) m = fold (\<lambda>(x, v) m. dset m x v) (item_cells l) m" for m
    using item_line_cells [of l] by (cases l) (simp_all add: store_words_def)
  with Cons show ?case by simp
qed simp

section \<open>The ring\<close>

lemma slot_tick_mod:
  "slot_tick T s = (if T mod 256 \<le> s then int T - int (T mod 256) - 256 + int s else int T - int (T mod 256) + int s)"
  by (simp add: slot_tick_def low_byte)

lemma slot_tick_range:
  assumes "s < 256"
  shows "int T - 256 \<le> slot_tick T s \<and> slot_tick T s < int T" "slot_tick T s mod 256 = int s"
proof -
  have "T mod 256 < 256" by simp
  with assms show "int T - 256 \<le> slot_tick T s \<and> slot_tick T s < int T"
    unfolding slot_tick_mod by auto
  have lap: "int T - int (T mod 256) = 256 * int (T div 256)"
    by (metis minus_mod_eq_mult_div nat_mod_as_int of_nat_div of_nat_mod of_nat_numeral zmod_int)
  have "slot_tick T s = 256 * (int (T div 256) - 1) + int s \<or> slot_tick T s = 256 * int (T div 256) + int s"
    unfolding slot_tick_mod using lap by (auto simp: algebra_simps)
  then obtain k where "slot_tick T s = 256 * k + int s" by blast
  with assms show "slot_tick T s mod 256 = int s" by simp
qed

text \<open>What the loop over the ring finds when no slot is missing.\<close>

definition checksum :: "mem \<Rightarrow> nat \<Rightarrow> nat" where
  "checksum m slot = the (dget m (0x9000 + slot * 2)) OR push_bit 8 (the (dget m (0x9000 + slot * 2 + 1)))"

definition has_slot :: "mem \<Rightarrow> nat \<Rightarrow> bool" where
  "has_slot m slot \<longleftrightarrow> dget m (0x9000 + slot * 2) \<noteq> None \<and> dget m (0x9000 + slot * 2 + 1) \<noteq> None"

lemma get16_slot: "has_slot m slot \<Longrightarrow> get16 m (0x9000 + slot * 2) = Inr (checksum m slot)"
  by (auto simp: has_slot_def get16_def get_def checksum_def)

lemma get16_Inr: "get16 m x = Inr v \<Longrightarrow> dget m x \<noteq> None"
  by (auto simp: get16_def get_def split: option.splits)

lemma ring_diff_full:
  "\<forall>s \<in> set slots. has_slot a s \<and> has_slot b s \<Longrightarrow>
     ring_diff a b T slots =
       Inr (0, map (\<lambda>s. (slot_tick T s, s, checksum a s, checksum b s))
                 (filter (\<lambda>s. checksum a s \<noteq> checksum b s) slots))"
proof (induction slots)
  case (Cons s slots)
  then have "has_slot a s" "has_slot b s" by simp_all
  with Cons get16_slot [of a s] get16_slot [of b s] show ?case
    by (simp add: Let_def) (simp add: has_slot_def)
qed simp

lemma ring_diff_missing:
  "\<forall>s \<in> set slots. dget a (0x9000 + s * 2) = None \<Longrightarrow> ring_diff a b T slots = Inr (length slots, [])"
  by (induction slots) simp_all

lemma common_set: "x \<in> set (common a b) \<longleftrightarrow> dget a x \<noteq> None \<and> dget b x \<noteq> None"
  using dict.ks_lookup [of x a] dict.ks_lookup [of x b] by (simp add: common_def)

section \<open>Properties\<close>

text \<open>C40: a debugger's log is read back completely. Its dump lines may separate their one to eight words
  by any white space, mark words with a star and end in any text after the number sign, and they may
  stand between other lines (any line that does not start with four digits and a colon). The parsed
  memory then holds at every address the word that the last dump line to show that address gives for
  it, counting on from the address the line starts with, and nothing at an address no line shows.\<close>

theorem parse_dump:
  assumes "list_all item_fine lines"
  shows "dget (parse (concat (map item_text lines))) x = map_of (rev (concat (map item_cells lines))) x"
  unfolding parse_def dump_lines_read [OF assms] store_lines dget_fold_dset by (simp split: option.split)

text \<open>The witness is a lines in the debugger's layout: two spaces, three in the middle, a star.\<close>

theorem parse_dump_witness:
  "dget (parse (lit ''> m 8108 4'' @ [10] @
      lit ''8108:  002C  0001*   FFFF  0003   # ....'' @ [10] @ lit ''810A:  0007 #'' @ [10])) 0x810A = Some 7"
proof -
  let ?lines = "[Note (lit ''> m 8108 4''),
    Dump 0x8108 [([32, 32], 0x2C, False), ([32, 32], 1, True), ([32, 32, 32], 0xFFFF, False), ([32, 32], 3, False)]
      [32, 32, 32] (lit '' ....''),
    Dump 0x810A [([32, 32], 7, False)] [32] []]"
  have zeros: "replicate 2 x = [x, x]" "replicate 3 x = [x, x, x]" for x :: nat
    by (simp_all add: numeral_2_eq_2 numeral_3_eq_3)
  have "list_all item_fine ?lines" by (simp add: word_fine_def py_space_def lit_def upper_hex_def)
  from parse_dump [OF this, of "0x810A"] show ?thesis
    by (simp add: word_text_def hex4_def hex_digits.simps hex_digit_def lit_def upt_rec zeros)
qed

text \<open>The 256 ring slots of a run parked at tick T stand for exactly the 256 ticks before T, each
  for one of them, and a tick sits in the slot of its low byte.\<close>

lemma slot_ticks_bijective:
  "bij_betw (slot_tick T) {..<256} {int T - 256..<int T} \<and>
   (\<forall>s < 256. slot_tick T s mod 256 = int s)"
proof -
  have inj: "inj_on (slot_tick T) {..<256}"
    by (rule inj_onI) (metis lessThan_iff of_nat_eq_iff slot_tick_range(2))
  have "slot_tick T ` {..<256} \<subseteq> {int T - 256..<int T}"
    using slot_tick_range(1) [of _ T] by auto
  moreover have "card (slot_tick T ` {..<256}) = card {int T - 256..<int T}"
    using inj by (simp add: card_image)
  ultimately have "slot_tick T ` {..<256} = {int T - 256..<int T}"
    by (intro card_subset_eq) simp_all
  with inj show ?thesis using slot_tick_range(2) by (simp add: bij_betw_def)
qed

text \<open>On two complete dumps parked at the same tick whose settled cells agree, the verdict is a
  pass exactly when all 256 checksums agree; otherwise the tick reported as the first divergence
  is one where they differ, and at every earlier tick of the ring they agree.\<close>

theorem trace_verdict:
  assumes "get16 a 0x8108 = Inr T" "get16 b 0x8108 = Inr T" "settled a b = []"
    and "\<forall>s < 256. has_slot a s \<and> has_slot b s"
  shows "(trace_diff a b = Inr (DeterminismPass 0) \<and> (\<forall>s < 256. checksum a s = checksum b s)) \<or>
    (\<exists>ms f. trace_diff a b = Inr (DeterminismFail 0 ms f) \<and>
       (\<exists>s < 256. slot_tick T s = f \<and> checksum a s \<noteq> checksum b s) \<and>
       (\<forall>s < 256. slot_tick T s < f \<longrightarrow> checksum a s = checksum b s))"
proof -
  define bad where "bad = filter (\<lambda>s. checksum a s \<noteq> checksum b s) [0..<256]"
  define ms where "ms = map (\<lambda>s. (slot_tick T s, s, checksum a s, checksum b s)) bad"
  have bad: "s \<in> set bad \<longleftrightarrow> s < 256 \<and> checksum a s \<noteq> checksum b s" for s
    by (simp add: bad_def)
  have ticks: "fst ` set ms = slot_tick T ` set bad" by (force simp: ms_def)
  have "dget a 0x8108 \<noteq> None" "dget b 0x8108 \<noteq> None" using get16_Inr assms(1,2) by blast+
  moreover have "ring_diff a b T [0..<256] = Inr (0, ms)"
    unfolding ms_def bad_def using assms(4) by (intro ring_diff_full) simp
  ultimately have diff: "trace_diff a b =
      (if ms \<noteq> [] then Inr (DeterminismFail 0 ms (Min (fst ` set ms))) else Inr (DeterminismPass 0))"
    using assms(1-3) by (simp add: trace_diff_def)
  show ?thesis
  proof (cases "bad = []")
    case True
    with bad have "\<forall>s < 256. checksum a s = checksum b s" by simp
    with True diff show ?thesis by (simp add: ms_def)
  next
    case False
    let ?f = "Min (slot_tick T ` set bad)"
    have "?f \<in> slot_tick T ` set bad" using False by (intro Min_in) simp_all
    then have "\<exists>s < 256. slot_tick T s = ?f \<and> checksum a s \<noteq> checksum b s" using bad by force
    moreover have "checksum a s = checksum b s" if "s < 256" "slot_tick T s < ?f" for s
    proof (rule ccontr)
      assume "checksum a s \<noteq> checksum b s"
      with that(1) have "?f \<le> slot_tick T s" using bad by (intro Min_le imageI) simp_all
      then show False using that(2) by (rule leD [THEN notE])
    qed
    moreover have "trace_diff a b = Inr (DeterminismFail 0 ms ?f)"
      using diff False ticks by (simp add: ms_def)
    ultimately show ?thesis by blast
  qed
qed

definition ring_cells :: "nat list" where
  "ring_cells = [0x9000..<0x9200]"

lemma ring_cells_set: "set ring_cells = {0x9000..<0x9200}"
  unfolding ring_cells_def by (rule set_upt)

definition sample_ring :: "nat \<Rightarrow> mem" where
  "sample_ring k = (0x8108, 5) # (0x8109, 1) # map (\<lambda>x. (x, if x = 0x9012 then k else 0)) ring_cells"

lemma sample_ring_get: "0x9000 \<le> x \<Longrightarrow> x < 0x9200 \<Longrightarrow> dget (sample_ring k) x = Some (if x = 0x9012 then k else 0)"
proof -
  have "dget (map (\<lambda>x. (x, if x = 0x9012 then k else 0)) xs) y = Some (if y = 0x9012 then k else 0)"
    if "y \<in> set xs" for xs and y :: nat
    using that by (induction xs) auto
  then show "0x9000 \<le> x \<Longrightarrow> x < 0x9200 \<Longrightarrow> ?thesis" by (simp add: sample_ring_def ring_cells_set)
qed

theorem trace_verdict_witness:
  "\<exists>ms. trace_diff (sample_ring 0) (sample_ring 1) = Inr (DeterminismFail 0 ms 9)"
proof -
  have park: "get16 (sample_ring k) 0x8108 = Inr 261" for k
    by (simp add: get16_def get_def sample_ring_def)
  have slots: "\<forall>s < 256. has_slot (sample_ring k) s" for k
    by (auto simp: has_slot_def sample_ring_get)
  have cs: "checksum (sample_ring k) s = (if s = 9 then k else 0)" if "s < 256" for k s
    using that by (auto simp: checksum_def sample_ring_get)
  have "set (dkeys (sample_ring k)) = {0x8108, 0x8109} \<union> {0x9000..<0x9200}" for k
    by (auto simp: dkeys_def sample_ring_def comp_def ring_cells_set)
  then have "settled (sample_ring 0) (sample_ring 1) = []"
    by (auto simp: settled_def common_def settled_cell_def filter_empty_conv)
  from trace_verdict [OF park park this] slots
  consider "\<forall>s < 256. checksum (sample_ring 0) s = checksum (sample_ring 1) s"
    | ms f s where "trace_diff (sample_ring 0) (sample_ring 1) = Inr (DeterminismFail 0 ms f)"
      "s < 256" "slot_tick 261 s = f" "checksum (sample_ring 0) s \<noteq> checksum (sample_ring 1) s"
    by blast
  then show ?thesis
  proof cases
    case 1
    then show ?thesis using cs [of 9 0] cs [of 9 1] by simp
  next
    case 2
    then have "s = 9" using cs by (auto split: if_splits)
    with 2 show ?thesis by (auto simp: slot_tick_mod)
  qed
qed

text \<open>A dump without the ring passes too: when every ring slot is missing, nothing is compared,
  and the verdict is still the pass that claims 256 compared ticks.\<close>

theorem trace_blind:
  assumes "get16 a 0x8108 = Inr T" "get16 b 0x8108 = Inr T" "settled a b = []"
    and "\<forall>s < 256. dget a (0x9000 + s * 2) = None"
  shows "trace_diff a b = Inr (DeterminismPass 256)"
proof -
  have "dget a 0x8108 \<noteq> None" "dget b 0x8108 \<noteq> None"
    using get16_Inr assms(1,2) by blast+
  moreover have "ring_diff a b T [0..<256] = Inr (256, [])"
    using ring_diff_missing [of "[0..<256]" a b T] assms(4) by simp
  ultimately show ?thesis using assms(1-3) by (simp add: trace_diff_def)
qed

text \<open>The cell lister shows every cell the settled-state check fails on, with both values.\<close>

lemma cell_diff_covers:
  assumes "x \<in> set (settled a b)"
  shows "(x, the (dget a x), the (dget b x)) \<in> set (cell_diff a b)"
proof -
  have x: "x \<in> set (common a b)" "dget a x \<noteq> dget b x" "settled_cell x"
    using assms by (simp_all add: settled_def)
  then have "(0x015D \<le> x \<and> x \<le> 0x01EF) \<or> (0x02F0 \<le> x \<and> x \<le> 0x035F)" by (auto simp: settled_cell_def)
  with x show ?thesis by (auto simp: cell_diff_def)
qed

text \<open>A recorded session is replayed as recorded: when the dump holds the tick count and four bytes
  per tick in the capture area, \<open>REPLAY_LEN\<close> is the count (at most 768) and the rows of that
  length are the recorded ones.\<close>

theorem replay_recorded:
  assumes "dget m 0x8108 = Some (length rec mod 256)" "dget m 0x8109 = Some (length rec div 256)"
    and "\<forall>t < length rec. \<forall>l r lk rk. rec ! t = (l, r, lk, rk) \<longrightarrow>
      l < 256 \<and> r < 256 \<and> lk < 256 \<and> rk < 256 \<and>
      dget m (0x9000 + t * 4) = Some l \<and> dget m (0x9000 + t * 4 + 1) = Some r \<and>
      dget m (0x9000 + t * 4 + 2) = Some lk \<and> dget m (0x9000 + t * 4 + 3) = Some rk"
    and "length rec \<le> REC_CAP"
  shows "fst (mk_replay m) = length rec \<and> take (length rec) (snd (mk_replay m)) = rec \<and>
    length (snd (mk_replay m)) = REC_CAP"
proof -
  let ?n = "length rec"
  have "push_bit 8 (?n div 256) OR take_bit 8 ?n = ?n"
    by (rule bit_eqI) (auto simp: bit_simps simp flip: drop_bit_eq_div [of 8, simplified])
  then have ticks: "?n mod 256 OR push_bit 8 (?n div 256) = ?n"
    by (simp add: or.commute take_bit_eq_mod)
  have row: "replay_row m t = rec ! t" if t: "t < ?n" for t
  proof -
    obtain l r lk rk where "rec ! t = (l, r, lk, rk)" by (cases "rec ! t")
    with assms(3) t show ?thesis by (simp add: replay_row_def get_or_def low_byte)
  qed
  have "take ?n (map (replay_row m) [0..<REC_CAP]) = map (replay_row m) [0..<?n]"
    using assms(4) by (simp add: take_map)
  also have "\<dots> = rec" using row by (intro nth_equalityI) simp_all
  finally show ?thesis
    using assms(1,2,4) ticks by (simp add: mk_replay_def get_or_def)
qed

theorem replay_recorded_witness:
  "fst (mk_replay [(0x8108, 1), (0x8109, 0), (0x9000, 0x44), (0x9001, 0x40), (0x9002, 5), (0x9003, 0)]) = 1"
proof -
  let ?m = "[(0x8108, 1), (0x8109, 0), (0x9000, 0x44), (0x9001, 0x40), (0x9002, 5), (0x9003, 0)] :: mem"
  have "fst (mk_replay ?m) = length [(0x44 :: nat, 0x40 :: nat, 5 :: nat, 0 :: nat)]"
    by (rule replay_recorded [THEN conjunct1]) (simp_all add: REC_CAP_def)
  then show ?thesis by simp
qed

end
