(* ===== verification/Json.thy ===== *)
theory Json
  imports Verdict
begin

text \<open>
  What \<open>_post\<close> of \<open>LobbyPublisher\<close> sends: the URL and the body, \<open>json.dumps(payload).encode()\<close>, with
  the separators and escapes of Python's \<open>json\<close> module; and \<open>json.loads\<close>, as the receivers of the
  body use it, for the values a payload is made of (strings, integers, lists and dictionaries).
  Characters are those of the model's strings, with code points below 256.
\<close>

section \<open>json.dumps\<close>

datatype json = JStr string | JInt int | JArr "json list" | JObj "(string \<times> json) list"

definition json_char :: "char \<Rightarrow> pystr" where
  "json_char ch =
     (let n = of_char ch
      in if n = 34 \<or> n = 92 then [92, n]
         else if n = 10 then [92, 110]
         else if n = 13 then [92, 114]
         else if n = 9 then [92, 116]
         else if n = 12 then [92, 102]
         else if n = 8 then [92, 98]
         else if 32 \<le> n \<and> n \<le> 126 then [n]
         else [92, 117, 48, 48, low_digit (n div 16), low_digit (n mod 16)])"

definition json_str :: "string \<Rightarrow> pystr" where
  "json_str s = 34 # concat (map json_char s) @ [34]"

definition json_int :: "int \<Rightarrow> pystr" where
  "json_int i = (if i < 0 then 45 # dec_digits (nat (- i)) else dec_digits (nat i))"

fun json_text :: "json \<Rightarrow> pystr" where
  "json_text (JStr s) = json_str s"
| "json_text (JInt i) = json_int i"
| "json_text (JArr xs) = 91 # join [44, 32] (map json_text xs) @ [93]"
| "json_text (JObj kvs) =
     123 # join [44, 32] (map (\<lambda>(k, v). json_str k @ [58, 32] @ json_text v) kvs) @ [125]"

section \<open>The request\<close>

text \<open>The dictionary \<open>self.payload\<close>, in the order it is built.\<close>

definition payload_json :: "pub_payload \<Rightarrow> json" where
  "payload_json pl = JObj
     [(''game'', JStr (pl_game pl)), (''appkey'', JInt (pl_appkey pl)), (''server'', JStr (pl_server pl)),
      (''region'', JStr (pl_region pl)), (''serverurl'', JStr (pl_serverurl pl)), (''status'', JStr (pl_status pl)),
      (''maxplayers'', JInt (pl_maxplayers pl)), (''curplayers'', JInt (int (pl_curplayers pl))),
      (''clients'', JArr (map (\<lambda>(platform, url). JObj [(''platform'', JStr platform), (''url'', JStr url)]) (pl_clients pl)))]"

text \<open>\<open>encode()\<close> of ASCII text.\<close>

definition post_body :: "pub_payload \<Rightarrow> bytes" where
  "post_body pl = map of_nat (json_text (payload_json pl))"

text \<open>\<open>base_url.rstrip("/") + "/server"\<close>.\<close>

definition post_url :: "string \<Rightarrow> string" where
  "post_url base = rev (dropWhile (\<lambda>c. c = CHR ''/'') (rev base)) @ ''/server''"

section \<open>json.loads\<close>

definition skip_ws :: "pystr \<Rightarrow> pystr" where
  "skip_ws s = dropWhile (\<lambda>c. c = 32 \<or> c = 9 \<or> c = 10 \<or> c = 13) s"

text \<open>What follows a backslash: the character meant, and the rest.\<close>

definition read_escape :: "pystr \<Rightarrow> (nat \<times> pystr) option" where
  "read_escape s =
     (case s of
        [] \<Rightarrow> None
      | e # r \<Rightarrow>
          if e = 34 \<or> e = 92 \<or> e = 47 then Some (e, r)
          else if e = 98 then Some (8, r)
          else if e = 102 then Some (12, r)
          else if e = 110 then Some (10, r)
          else if e = 114 then Some (13, r)
          else if e = 116 then Some (9, r)
          else if e = 117 \<and> 4 \<le> length r \<and> list_all (\<lambda>c. hex_value c \<noteq> None) (take 4 r)
          then Some (unhex (take 4 r), drop 4 r)
          else None)"

lemma read_escape_shorter: "read_escape s = Some (c, r) \<Longrightarrow> length r < length s"
  by (auto simp: read_escape_def split: list.splits if_splits)

definition cons_char :: "nat \<Rightarrow> (string \<times> pystr) option \<Rightarrow> (string \<times> pystr) option" where
  "cons_char n x =
     (if n < 256 then (case x of None \<Rightarrow> None | Some (s, r) \<Rightarrow> Some (char_of n # s, r)) else None)"

text \<open>The characters of a string up to its closing quote.\<close>

function read_chars :: "pystr \<Rightarrow> (string \<times> pystr) option" where
  "read_chars s =
     (case s of
        [] \<Rightarrow> None
      | c # r \<Rightarrow>
          if c = 34 then Some ([], r)
          else if c = 92 then (case read_escape r of None \<Rightarrow> None | Some (n, r') \<Rightarrow> cons_char n (read_chars r'))
          else if c < 32 then None
          else cons_char c (read_chars r))"
  by pat_completeness auto
termination
  by (relation "measure length") (auto dest!: read_escape_shorter)

declare read_chars.simps [simp del]

definition read_int :: "pystr \<Rightarrow> (int \<times> pystr) option" where
  "read_int s =
     (let neg = (s \<noteq> [] \<and> hd s = 45); r = (if neg then tl s else s); ds = takeWhile digit r
      in if ds = [] then None
         else Some ((if neg then - 1 else 1) * int (digits_value ds), dropWhile digit r))"

text \<open>Values, the items of a list, the members of a dictionary; \<open>n\<close> bounds the depth of the calls.\<close>

fun read_value :: "nat \<Rightarrow> pystr \<Rightarrow> (json \<times> pystr) option"
  and read_items :: "nat \<Rightarrow> pystr \<Rightarrow> (json list \<times> pystr) option"
  and read_members :: "nat \<Rightarrow> pystr \<Rightarrow> ((string \<times> json) list \<times> pystr) option" where
  "read_value 0 s = None"
| "read_value (Suc n) s =
     (case skip_ws s of
        [] \<Rightarrow> None
      | c # r \<Rightarrow>
          if c = 34 then map_option (apfst JStr) (read_chars r)
          else if c = 91 then
            (if skip_ws r \<noteq> [] \<and> hd (skip_ws r) = 93 then Some (JArr [], tl (skip_ws r))
             else map_option (apfst JArr) (read_items n r))
          else if c = 123 then
            (if skip_ws r \<noteq> [] \<and> hd (skip_ws r) = 125 then Some (JObj [], tl (skip_ws r))
             else map_option (apfst JObj) (read_members n r))
          else map_option (apfst JInt) (read_int (c # r)))"
| "read_items 0 s = None"
| "read_items (Suc n) s =
     (case read_value n s of
        None \<Rightarrow> None
      | Some (x, r) \<Rightarrow>
          (case skip_ws r of
             [] \<Rightarrow> None
           | c # t \<Rightarrow>
               if c = 93 then Some ([x], t)
               else if c = 44 then map_option (apfst ((#) x)) (read_items n t)
               else None))"
| "read_members 0 s = None"
| "read_members (Suc n) s =
     (case skip_ws s of
        [] \<Rightarrow> None
      | q # r \<Rightarrow>
          if q \<noteq> 34 then None
          else (case read_chars r of
             None \<Rightarrow> None
           | Some (k, r1) \<Rightarrow>
               (case skip_ws r1 of
                  [] \<Rightarrow> None
                | d # r2 \<Rightarrow>
                    if d \<noteq> 58 then None
                    else (case read_value n r2 of
                       None \<Rightarrow> None
                     | Some (x, r3) \<Rightarrow>
                         (case skip_ws r3 of
                            [] \<Rightarrow> None
                          | c # t \<Rightarrow>
                              if c = 125 then Some ([(k, x)], t)
                              else if c = 44 then map_option (apfst ((#) (k, x))) (read_members n t)
                              else None)))))"

definition json_loads :: "pystr \<Rightarrow> json option" where
  "json_loads s =
     (case read_value (length s) s of
        None \<Rightarrow> None
      | Some (j, r) \<Rightarrow> if skip_ws r = [] then Some j else None)"

section \<open>Reading what was written\<close>

lemma low_digit_value: "n < 16 \<Longrightarrow> hex_value (low_digit n) = Some n"
  by (auto simp: low_digit_def hex_value_def)

lemma skip_ws_Cons: "c \<noteq> 32 \<Longrightarrow> c \<noteq> 9 \<Longrightarrow> c \<noteq> 10 \<Longrightarrow> c \<noteq> 13 \<Longrightarrow> skip_ws (c # s) = c # s"
  by (simp add: skip_ws_def)

lemma skip_ws_blank: "skip_ws (32 # s) = skip_ws s"
  by (simp add: skip_ws_def)

lemma read_char: "read_chars (json_char ch @ s) = cons_char (of_char ch) (read_chars s)"
proof -
  let ?n = "of_char ch :: nat"
  have n: "?n < 256" by simp
  consider "?n \<in> {34, 92, 10, 13, 9, 12, 8}" | "?n \<notin> {34, 92, 10, 13, 9, 12, 8}" "32 \<le> ?n \<and> ?n \<le> 126"
    | "?n \<notin> {34, 92, 10, 13, 9, 12, 8}" "\<not> (32 \<le> ?n \<and> ?n \<le> 126)" by blast
  then show ?thesis
  proof cases
    case 1
    then show ?thesis
      by (subst read_chars.simps) (auto simp: json_char_def Let_def read_escape_def)
  next
    case 2
    then show ?thesis
      by (subst read_chars.simps) (auto simp: json_char_def Let_def)
  next
    case 3
    have d: "hex_value (low_digit (?n div 16)) = Some (?n div 16)" "hex_value (low_digit (?n mod 16)) = Some (?n mod 16)"
      using n by (simp_all add: low_digit_value less_mult_imp_div_less)
    have "hex_value 48 = Some 0" by (simp add: hex_value_def)
    then have "unhex [48, 48, low_digit (?n div 16), low_digit (?n mod 16)] = ?n"
      by (simp add: unhex_def d)
    moreover have "json_char ch = 92 # 117 # [48, 48, low_digit (?n div 16), low_digit (?n mod 16)]"
      using 3 by (auto simp: json_char_def Let_def)
    ultimately show ?thesis
      using d \<open>hex_value 48 = Some 0\<close> by (subst read_chars.simps) (simp add: read_escape_def)
  qed
qed

lemma read_str: "read_chars (concat (map json_char s) @ 34 # r) = Some (s, r)"
proof (induction s)
  case Nil
  show ?case by (subst read_chars.simps) simp
next
  case (Cons ch s)
  have "(of_char ch :: nat) < 256" by simp
  then show ?case using Cons.IH by (simp add: read_char cons_char_def)
qed

text \<open>A number ends where no digit follows.\<close>

definition ends_number :: "pystr \<Rightarrow> bool" where
  "ends_number r \<longleftrightarrow> r = [] \<or> \<not> digit (hd r)"

lemma digits_stop:
  assumes "list_all digit ds" "ends_number r"
  shows "takeWhile digit (ds @ r) = ds" "dropWhile digit (ds @ r) = r"
proof -
  have "takeWhile digit r = []" "dropWhile digit r = r" using assms(2) by (cases r; simp add: ends_number_def)+
  with assms(1) show "takeWhile digit (ds @ r) = ds" "dropWhile digit (ds @ r) = r"
    by (simp_all add: list_all_iff takeWhile_append2 dropWhile_append2)
qed

lemma dec_digits_start: "\<exists>c r. dec_digits n = c # r \<and> digit c"
  using dec_digits_digit [of n] by (cases "dec_digits n") auto

lemma read_int_text: "ends_number r \<Longrightarrow> read_int (json_int i @ r) = Some (i, r)"
proof -
  assume r: "ends_number r"
  have d: "list_all digit (dec_digits n)" "dec_digits n \<noteq> []" for n using dec_digits_digit by simp_all
  have hd: "hd (dec_digits n) \<noteq> 45" for n using dec_digits_start [of n] by (auto simp: digit_def)
  note stop = digits_stop [OF d(1) r]
  show ?thesis
    using d(2) hd by (cases "i < 0") (simp_all add: json_int_def read_int_def Let_def stop digits_value_dec)
qed

text \<open>The first character of a text, and what it is not.\<close>

lemma json_text_start:
  "\<exists>c r. json_text j = c # r \<and> c \<notin> {32, 9, 10, 13, 93, 125, 44, 58}"
proof (cases j)
  case (JInt i)
  show ?thesis
  proof (cases "i < 0")
    case True
    with JInt show ?thesis by (simp add: json_int_def)
  next
    case False
    obtain c r where "dec_digits (nat i) = c # r" "digit c" using dec_digits_start by blast
    with JInt False show ?thesis by (auto simp: json_int_def digit_def)
  qed
qed (simp_all add: json_str_def)

lemma skip_ws_text: "skip_ws (json_text j @ r) = json_text j @ r"
proof -
  obtain c s where "json_text j = c # s" "c \<notin> {32, 9, 10, 13, 93, 125, 44, 58}" using json_text_start by blast
  then show ?thesis by (simp add: skip_ws_Cons)
qed

abbreviation member_text :: "string \<times> json \<Rightarrow> pystr" where
  "member_text \<equiv> \<lambda>(k, v). json_str k @ [58, 32] @ json_text v"

definition reads_back :: "json \<Rightarrow> bool" where
  "reads_back j \<longleftrightarrow> (\<forall>n r. length (json_text j) \<le> n \<and> ends_number r \<longrightarrow> read_value n (json_text j @ r) = Some (j, r))"

lemma ends_number_Cons: "c \<in> {93, 125, 44, 32, 58} \<Longrightarrow> ends_number (c # r)"
  by (auto simp: ends_number_def digit_def)

lemma read_value_blank: "read_value n (32 # s) = read_value n s"
  by (cases n) (simp_all add: skip_ws_blank)

lemma read_items_blank: "read_items n (32 # s) = read_items n s"
  by (cases n) (simp_all add: read_value_blank)

lemma read_members_blank: "read_members n (32 # s) = read_members n s"
  by (cases n) (simp_all add: skip_ws_blank)

lemma read_items_text:
  "list_all reads_back xs \<Longrightarrow> xs \<noteq> [] \<Longrightarrow> length (join [44, 32] (map json_text xs)) < n \<Longrightarrow>
     read_items n (join [44, 32] (map json_text xs) @ 93 # r) = Some (xs, r)"
proof (induction xs arbitrary: n)
  case (Cons x xs)
  obtain m where n: "n = Suc m" using Cons.prems(3) by (cases n) auto
  show ?case
  proof (cases xs)
    case Nil
    then have "read_value m (json_text x @ 93 # r) = Some (x, 93 # r)"
      using Cons.prems(1,3) n ends_number_Cons [of 93 r] by (simp add: reads_back_def)
    with Nil n show ?thesis by (simp add: skip_ws_Cons)
  next
    case (Cons y ys)
    let ?rest = "join [44, 32] (map json_text xs)"
    have spelt: "join [44, 32] (map json_text (x # xs)) = json_text x @ 44 # 32 # ?rest" using Cons by simp
    have "read_value m (json_text x @ 44 # 32 # ?rest @ 93 # r) = Some (x, 44 # 32 # ?rest @ 93 # r)"
      using Cons.prems(1,3) n spelt ends_number_Cons [of 44] by (simp add: reads_back_def)
    moreover have "read_items m (?rest @ 93 # r) = Some (xs, r)"
      using Cons.prems(1,3) Cons n spelt by (intro Cons.IH) simp_all
    ultimately show ?thesis
      unfolding spelt n by (simp add: skip_ws_Cons read_items_blank)
  qed
qed simp

lemma read_member:
  assumes "reads_back v" "length (member_text (k, v)) \<le> n" "c = 125 \<or> c = 44"
  shows "read_members (Suc n) (member_text (k, v) @ c # r) =
    (if c = 125 then Some ([(k, v)], r) else map_option (apfst ((#) (k, v))) (read_members n r))"
proof -
  have "read_value n (32 # json_text v @ c # r) = Some (v, c # r)"
    using assms ends_number_Cons [of c r] by (auto simp: reads_back_def read_value_blank)
  then show ?thesis
    using assms(3) by (auto simp: json_str_def skip_ws_Cons read_str)
qed

lemma read_members_text:
  "list_all (\<lambda>(k, v). reads_back v) kvs \<Longrightarrow> kvs \<noteq> [] \<Longrightarrow> length (join [44, 32] (map member_text kvs)) < n \<Longrightarrow>
     read_members n (join [44, 32] (map member_text kvs) @ 125 # r) = Some (kvs, r)"
proof (induction kvs arbitrary: n)
  case (Cons kv kvs)
  obtain m where n: "n = Suc m" using Cons.prems(3) by (cases n) auto
  obtain k v where kv: "kv = (k, v)" by fastforce
  have v: "reads_back v" using Cons.prems(1) kv by simp
  show ?case
  proof (cases kvs)
    case Nil
    with read_member [OF v, of k m 125 r] Cons.prems(3) n kv show ?thesis by simp
  next
    case (Cons y ys)
    let ?rest = "join [44, 32] (map member_text kvs)"
    have spelt: "join [44, 32] (map member_text (kv # kvs)) = member_text (k, v) @ 44 # 32 # ?rest"
      using Cons kv by simp
    have l: "length (member_text (k, v)) \<le> m" "length ?rest < m" using Cons.prems(3) n spelt by simp_all
    have "read_members m (?rest @ 125 # r) = Some (kvs, r)"
      using Cons.prems(1) Cons l(2) by (intro Cons.IH) simp_all
    then have "read_members m (32 # ?rest @ 125 # r) = Some (kvs, r)" by (simp only: read_members_blank)
    with read_member [OF v l(1), of 44 "32 # ?rest @ 125 # r"] show ?thesis
      unfolding spelt n by (simp add: kv)
  qed
qed simp

lemma json_text_not_Nil [simp]: "json_text j \<noteq> []"
  using json_text_start [of j] by auto

lemma reads_back: "reads_back j"
proof (induction j)
  case (JStr s)
  have "read_value (Suc n) (json_str s @ r) = Some (JStr s, r)" for n r
    by (simp add: json_str_def skip_ws_Cons read_str)
  moreover have "length (json_str s) \<le> n \<Longrightarrow> \<exists>m. n = Suc m" for n by (cases n) (simp_all add: json_str_def)
  ultimately show ?case by (fastforce simp: reads_back_def)
next
  case (JInt i)
  show ?case
    unfolding reads_back_def
  proof (intro allI impI)
    fix n r assume a: "length (json_text (JInt i)) \<le> n \<and> ends_number r"
    obtain c s where c: "json_text (JInt i) = c # s" using json_text_start by blast
    moreover have "c = 45 \<or> digit c"
      using c dec_digits_start by (auto simp: json_int_def split: if_splits) (metis list.inject)
    moreover obtain m where "n = Suc m" using a c by (cases n) auto
    ultimately show "read_value n (json_text (JInt i) @ r) = Some (JInt i, r)"
      using read_int_text [of r i] a by (auto simp: skip_ws_Cons digit_def)
  qed
next
  case (JArr xs)
  show ?case
    unfolding reads_back_def
  proof (intro allI impI)
    fix n r assume a: "length (json_text (JArr xs)) \<le> n \<and> ends_number r"
    then obtain m where m: "n = Suc m" "length (join [44, 32] (map json_text xs)) < m" by (cases n) auto
    show "read_value n (json_text (JArr xs) @ r) = Some (JArr xs, r)"
    proof (cases xs)
      case Nil
      with m(1) show ?thesis by (simp add: skip_ws_Cons)
    next
      case (Cons x ys)
      let ?s = "join [44, 32] (map json_text xs)"
      obtain c s where c: "json_text x = c # s" "c \<notin> {32, 9, 10, 13, 93, 125, 44, 58}" using json_text_start by blast
      then have "\<exists>u. ?s = c # u" using Cons by (cases ys) auto
      then have "skip_ws (?s @ 93 # r) = ?s @ 93 # r" "?s \<noteq> []" "hd (?s @ 93 # r) \<noteq> 93"
        using c(2) by (auto simp: skip_ws_Cons)
      moreover have "read_items m (?s @ 93 # r) = Some (xs, r)"
        using JArr m(2) Cons by (intro read_items_text) (auto simp: list_all_iff)
      ultimately show ?thesis using m(1) by (simp add: skip_ws_Cons)
    qed
  qed
next
  case (JObj kvs)
  show ?case
    unfolding reads_back_def
  proof (intro allI impI)
    fix n r assume a: "length (json_text (JObj kvs)) \<le> n \<and> ends_number r"
    then obtain m where m: "n = Suc m" "length (join [44, 32] (map member_text kvs)) < m" by (cases n) auto
    show "read_value n (json_text (JObj kvs) @ r) = Some (JObj kvs, r)"
    proof (cases kvs)
      case Nil
      with m(1) show ?thesis by (simp add: skip_ws_Cons)
    next
      case (Cons kv ys)
      let ?s = "join [44, 32] (map member_text kvs)"
      have "\<exists>u. ?s = 34 # u" using Cons by (cases ys; cases kv) (auto simp: json_str_def)
      then have "skip_ws (?s @ 125 # r) = ?s @ 125 # r" "?s \<noteq> []" "hd (?s @ 125 # r) \<noteq> 125"
        by (auto simp: skip_ws_Cons)
      moreover have "read_members m (?s @ 125 # r) = Some (kvs, r)"
        using JObj m(2) Cons by (intro read_members_text) (fastforce simp: list_all_iff)+
      ultimately show ?thesis using m(1) by (simp add: skip_ws_Cons)
    qed
  qed
qed

lemma json_loads_text: "json_loads (json_text j) = Some j"
proof -
  have "read_value (length (json_text j)) (json_text j @ []) = Some (j, [])"
    using reads_back [of j, unfolded reads_back_def, rule_format, of "length (json_text j)" "[]"]
    by (simp add: ends_number_def)
  then show ?thesis by (simp add: json_loads_def skip_ws_def)
qed

section \<open>The body\<close>

text \<open>What a receiver of the body reads: \<open>json.loads\<close> of its bytes.\<close>

definition body_json :: "bytes \<Rightarrow> json option" where
  "body_json b = json_loads (map unat b)"

lemma low_digit_ascii: "n < 16 \<Longrightarrow> low_digit n < 128"
  by (simp add: low_digit_def)

lemma json_str_ascii: "list_all (\<lambda>c. c < 128) (json_str s)"
proof -
  have "list_all (\<lambda>c. c < 128) (json_char ch)" for ch
  proof -
    have "(of_char ch :: nat) div 16 < 16" by (simp add: less_mult_imp_div_less)
    then show ?thesis by (auto simp: json_char_def Let_def low_digit_ascii)
  qed
  then show ?thesis by (auto simp: json_str_def list_all_iff)
qed

lemma join_ascii: "list_all (list_all (\<lambda>c. c < 128)) xs \<Longrightarrow> list_all (\<lambda>c. c < 128) sep \<Longrightarrow> list_all (\<lambda>c. c < 128) (join sep xs)"
  by (induction sep xs rule: join.induct) simp_all

lemma json_text_ascii: "list_all (\<lambda>c. c < 128) (json_text j)"
proof (induction j)
  case (JInt i)
  have "list_all (\<lambda>c. c < 128) (dec_digits n)" for n
    using dec_digits_digit [of n] by (auto simp: list_all_iff digit_def)
  then show ?case by (simp add: json_int_def)
next
  case (JArr xs)
  have "list_all (\<lambda>c. c < 128) (join [44, 32] (map json_text xs))"
    using JArr by (intro join_ascii) (auto simp: list_all_iff)
  then show ?case by simp
next
  case (JObj kvs)
  have "list_all (list_all (\<lambda>c. c < 128)) (map member_text kvs)"
    using JObj json_str_ascii by (fastforce simp: list_all_iff)
  from join_ascii [OF this, of "[44, 32]"] show ?case by simp
qed (simp add: json_str_ascii)

lemma body_json_body: "body_json (post_body pl) = Some (payload_json pl)"
proof -
  have "map unat (post_body pl) = json_text (payload_json pl)"
    using json_text_ascii [of "payload_json pl"]
    by (auto simp: post_body_def list_all_iff comp_def intro!: map_idI)
  then show ?thesis by (simp add: body_json_def json_loads_text)
qed

lemma payload_json_inject: "payload_json pl = payload_json pl' \<longleftrightarrow> pl = pl'"
proof -
  have clients: "map (\<lambda>(p, u). JObj [(''platform'', JStr p), (''url'', JStr u)]) xs =
      map (\<lambda>(p, u). JObj [(''platform'', JStr p), (''url'', JStr u)]) ys \<longleftrightarrow> xs = ys" for xs ys
    by (rule inj_map_eq_map) (auto simp: inj_on_def)
  show ?thesis by (cases pl; cases pl') (simp only: payload_json_def pub_payload.simps, auto simp: clients)
qed

section \<open>Property\<close>

text \<open>C30: the lobby reads what the relay publishes. The body of a POST parses back to the payload's
  dictionary, its members in order, whatever characters the names and URLs contain; so two
  payloads with the same body are the same.\<close>

theorem body_roundtrip:
  "body_json (post_body pl) = Some (payload_json pl) \<and> (post_body pl = post_body pl' \<longleftrightarrow> pl = pl')"
  using body_json_body payload_json_inject by (metis option.inject)

end
