(* ===== verification/LobbyTest.thy ===== *)
theory LobbyTest
  imports Json
begin

text \<open>
  \<open>tools/test_lobby_pub.py\<close> with \<open>SERVER=py\<close>: the publisher's contract test against a mock lobby.
  The mock keeps the body of every POST; the program waits for the first, checks it, waits for one
  more, shuts the publisher down and waits for the offline one. What each wait finds when it ends, by
  its condition or by its timeout, is an argument (\<open>bs1\<close>, \<open>bs2\<close>, \<open>bs3\<close>, and \<open>n\<close>, the count taken
  before the second wait); the theorem takes them from a run of the publisher's threads. The C relay
  (\<open>SERVER=c\<close>) and the HTTP transport are left out.
\<close>

section \<open>The program\<close>

definition APPKEY :: int where
  "APPKEY = 99"

definition SERVERURL :: string where
  "SERVERURL = ''TCP://example:9999/''"

definition CLIENT_URL :: string where
  "CLIENT_URL = ''TNFS://example/game.rom''"

definition GAME :: string where
  "GAME = ''NASL Soccer''"

definition SERVER_NAME :: string where
  "SERVER_NAME = ''Soccer Netplay''"

text \<open>\<open>run_python\<close>: the publisher, with its first update.\<close>

definition run_python :: publisher where
  "run_python = pub_update 0 (pub_init SERVERURL CLIENT_URL APPKEY ''us'' GAME SERVER_NAME)"

text \<open>\<open>reg[key]\<close> of a parsed body.\<close>

definition item :: "string \<Rightarrow> json option \<Rightarrow> json option" where
  "item k j = (case j of Some (JObj kvs) \<Rightarrow> map_of kvs k | _ \<Rightarrow> None)"

definition registration_ok :: "int \<Rightarrow> json option \<Rightarrow> bool" where
  "registration_ok nseats reg \<longleftrightarrow>
     item ''status'' reg = Some (JStr ''online'') \<and> item ''appkey'' reg = Some (JInt APPKEY) \<and>
     item ''serverurl'' reg = Some (JStr SERVERURL) \<and> item ''maxplayers'' reg = Some (JInt nseats) \<and>
     item ''clients'' reg = Some (JArr [JObj [(''platform'', JStr ''intv''), (''url'', JStr CLIENT_URL)]]) \<and>
     (case item ''game'' reg of Some (JStr g) \<Rightarrow> 2 \<le> length g \<and> length g \<le> 16 | _ \<Rightarrow> False)"

text \<open>The reference body, written out in the test.\<close>

definition expected_body :: "int \<Rightarrow> bytes" where
  "expected_body nseats =
     map of_nat (json_text (JObj
       [(''game'', JStr GAME), (''appkey'', JInt APPKEY), (''server'', JStr SERVER_NAME), (''region'', JStr ''us''),
        (''serverurl'', JStr SERVERURL), (''status'', JStr ''online''), (''maxplayers'', JInt nseats),
        (''curplayers'', JInt 0),
        (''clients'', JArr [JObj [(''platform'', JStr ''intv''), (''url'', JStr CLIENT_URL)]])]))"

definition says_status :: "string \<Rightarrow> bytes list \<Rightarrow> bool" where
  "says_status st bs \<longleftrightarrow> bs \<noteq> [] \<and> item ''status'' (body_json (last bs)) = Some (JStr st)"

datatype test_end =
    SeatsHardcoded
  | NoRegistration
  | BadRegistration
  | BadBody
  | NoKeepalive
  | KeepaliveNotOnline
  | NoOffline
  | PublisherPass

definition lobby_test :: "int \<Rightarrow> bytes list \<Rightarrow> nat \<Rightarrow> bytes list \<Rightarrow> bytes list \<Rightarrow> test_end" where
  "lobby_test nseats bs1 n bs2 bs3 =
     (if nseats \<noteq> 2 then SeatsHardcoded
      else if bs1 = [] then NoRegistration
      else if \<not> registration_ok nseats (body_json (hd bs1)) then BadRegistration
      else if hd bs1 \<noteq> expected_body nseats then BadBody
      else if length bs2 \<le> n then NoKeepalive
      else if \<not> says_status ''online'' bs2 then KeepaliveNotOnline
      else if \<not> says_status ''offline'' bs3 then NoOffline
      else PublisherPass)"

section \<open>The publisher it runs\<close>

text \<open>The bodies the mock has received.\<close>

definition bodies :: "publisher \<Rightarrow> bytes list" where
  "bodies p = map post_body (pb_attempts p)"

text \<open>Until the program shuts it down only the worker moves.\<close>

abbreviation works :: "publisher \<Rightarrow> publisher \<Rightarrow> bool" where
  "works \<equiv> worker_step\<^sup>*\<^sup>*"

definition unchanged_payload :: "pub_payload \<Rightarrow> publisher \<Rightarrow> bool" where
  "unchanged_payload pl p \<longleftrightarrow> pb_payload p = pl \<and> \<not> pb_stopping p \<and> pb_main p = MRun \<and>
     list_all (\<lambda>a. a = pl) (pb_attempts p) \<and> (\<forall>a. pb_worker p = WPost a \<longrightarrow> a = pl)"

lemma unchanged_check: "unchanged_payload pl p \<Longrightarrow> unchanged_payload pl (worker_check (p\<lparr>pb_dirty := b\<rparr>))"
  "unchanged_payload pl p \<Longrightarrow> unchanged_payload pl (worker_check p)"
  by (auto simp: unchanged_payload_def worker_check_def worker_take_def Let_def)

lemma unchanged_step: "worker_step p q \<Longrightarrow> unchanged_payload pl p \<Longrightarrow> unchanged_payload pl q"
  by (erule worker_stepE)
    (simp_all add: unchanged_check, auto simp: unchanged_payload_def post_def)

lemma unchanged_works: "works p q \<Longrightarrow> unchanged_payload pl p \<Longrightarrow> unchanged_payload pl q"
  by (induction rule: rtranclp_induct) (auto intro: unchanged_step)

lemma attempts_step: "worker_step p q \<Longrightarrow> \<exists>x. pb_attempts q = pb_attempts p @ x"
  by (erule worker_stepE) (auto simp: post_def)

lemma attempts_works: "works p q \<Longrightarrow> \<exists>x. pb_attempts q = pb_attempts p @ x"
proof (induction rule: rtranclp_induct)
  case (step q r)
  then obtain x y where "pb_attempts q = pb_attempts p @ x" "pb_attempts r = pb_attempts q @ y"
    using attempts_step by blast
  then show ?case by simp
qed simp

text \<open>The payload of the test.\<close>

definition test_payload :: pub_payload where
  "test_payload = pb_payload run_python"

lemma run_python_start: "unchanged_payload test_payload run_python"
  by (simp add: unchanged_payload_def test_payload_def run_python_def pub_update_def pub_init_def)

lemma test_payload_json: "payload_json test_payload = JObj
       [(''game'', JStr GAME), (''appkey'', JInt APPKEY), (''server'', JStr SERVER_NAME), (''region'', JStr ''us''),
        (''serverurl'', JStr SERVERURL), (''status'', JStr ''online''), (''maxplayers'', JInt 2),
        (''curplayers'', JInt 0),
        (''clients'', JArr [JObj [(''platform'', JStr ''intv''), (''url'', JStr CLIENT_URL)]])]"
  by (simp add: test_payload_def run_python_def pub_update_def pub_init_def payload_json_def)

lemma test_body: "post_body test_payload = expected_body 2"
  by (simp add: post_body_def expected_body_def test_payload_json)

lemma test_registration: "registration_ok 2 (body_json (post_body test_payload))"
  by (simp add: registration_ok_def body_json_body item_def test_payload_json GAME_def)

lemma item_status: "item ''status'' (body_json (post_body pl)) = Some (JStr (pl_status pl))"
  by (simp add: body_json_body item_def payload_json_def)

lemma works_online:
  assumes "works run_python p" "pb_attempts p \<noteq> []"
  shows "hd (bodies p) = post_body test_payload" "says_status ''online'' (bodies p)"
proof -
  have u: "unchanged_payload test_payload p" by (rule unchanged_works [OF assms(1) run_python_start])
  then have all: "\<forall>a \<in> set (pb_attempts p). a = test_payload" by (simp add: unchanged_payload_def list_all_iff)
  then have "hd (pb_attempts p) = test_payload" using assms(2) by simp
  then show "hd (bodies p) = post_body test_payload" using assms(2) by (simp add: bodies_def hd_map)
  have "last (pb_attempts p) = test_payload" using all assms(2) by simp
  moreover have "pl_status test_payload = ''online''"
    by (simp add: test_payload_def run_python_def pub_update_def pub_init_def)
  ultimately show "says_status ''online'' (bodies p)"
    using assms(2) by (simp add: says_status_def bodies_def last_map item_status)
qed

section \<open>A session\<close>

text \<open>The first POST, one after the keepalive, the shutdown, and the last POST after the join.\<close>

lemma worker_posts: "pb_worker p = WPost pl \<Longrightarrow> worker_step p ((post pl PostOk p)\<lparr>pb_worker := WDebounce\<rparr>)"
  using worker_step.post [of p pl PostOk] by simp

lemmas session_defs = run_python_def pub_update_def pub_init_def worker_check_def worker_take_def Let_def post_def
  pub_shutdown_begin_def bodies_def

lemma lobby_session:
  "\<exists>p1 p2 p3. works run_python p1 \<and> works p1 p2 \<and> pub_run True (pub_shutdown_begin p2) p3 \<and> pb_main p3 = MDone \<and>
     length (bodies p1) = 1 \<and> length (bodies p2) = 2"
proof -
  define a where "a = worker_check run_python"
  define p1 where "p1 = (post test_payload PostOk a)\<lparr>pb_worker := WDebounce\<rparr>"
  define b where "b = worker_check (p1\<lparr>pb_worker := WTop\<rparr>)"
  define c where "c = worker_check (b\<lparr>pb_dirty := True\<rparr>)"
  define p2 where "p2 = (post test_payload PostOk c)\<lparr>pb_worker := WDebounce\<rparr>"
  define d where "d = (pub_shutdown_begin p2)\<lparr>pb_worker := WTop\<rparr>"
  define e where "e = worker_check d"
  define off where "off = test_payload\<lparr>pl_status := ''offline''\<rparr>"
  define p3 where "p3 = (post off PostOk (e\<lparr>pb_main := MPost off\<rparr>))\<lparr>pb_main := MDone\<rparr>"
  have a: "a = run_python\<lparr>pb_dirty := False, pb_worker := WPost test_payload\<rparr>"
    by (simp add: a_def test_payload_def session_defs)
  have p1: "p1 = a\<lparr>pb_attempts := [test_payload], pb_worker := WDebounce\<rparr>"
    by (simp add: p1_def a) (simp add: session_defs)
  have b: "b = p1\<lparr>pb_worker := WWait\<rparr>" by (simp add: b_def p1 a) (simp add: session_defs)
  have c: "c = p1\<lparr>pb_worker := WPost test_payload\<rparr>"
    by (simp add: c_def b p1 a) (simp add: session_defs test_payload_def)
  have p2: "p2 = p1\<lparr>pb_attempts := [test_payload, test_payload]\<rparr>"
    by (simp add: p2_def c p1 a) (simp add: session_defs)
  have d: "pb_worker d = WTop" "pb_main d = MJoin off" "pb_stopping d"
    by (simp_all add: d_def p2 p1 a off_def test_payload_def pub_shutdown_begin_def Let_def)
  have e: "pb_worker e = WReturned" "pb_main e = MJoin off"
    using d by (simp_all add: e_def worker_check_def worker_take_def Let_def)
  have "worker_step run_python a" unfolding a_def by (rule worker_step.enter) (simp add: session_defs)
  moreover have "worker_step a p1" unfolding p1_def by (rule worker_posts) (simp add: a)
  ultimately have w1: "works run_python p1" by (meson r_into_rtranclp rtranclp.rtrancl_into_rtrancl)
  have "worker_step p1 (p1\<lparr>pb_worker := WTop\<rparr>)" by (rule worker_step.debounce) (simp add: p1)
  moreover have "worker_step (p1\<lparr>pb_worker := WTop\<rparr>) b" unfolding b_def by (rule worker_step.enter) simp
  moreover have "worker_step b c" unfolding c_def by (rule worker_step.timeout) (simp add: b)
  moreover have "worker_step c p2" unfolding p2_def by (rule worker_posts) (simp add: c)
  ultimately have w2: "works p1 p2" by (meson r_into_rtranclp rtranclp.rtrancl_into_rtrancl)
  have "pub_step True (pub_shutdown_begin p2) d"
    unfolding d_def by (rule pub_step.worker, rule worker_step.debounce) (simp add: p2 p1 pub_shutdown_begin_def Let_def)
  moreover have "pub_step True d e" unfolding e_def by (rule pub_step.worker, rule worker_step.enter) (rule d(1))
  moreover have "pub_step True e (e\<lparr>pb_main := MPost off\<rparr>)" by (rule pub_step.joined) (simp_all add: e)
  moreover have "pub_step True (e\<lparr>pb_main := MPost off\<rparr>) p3" unfolding p3_def by (rule pub_step.last_post) simp
  ultimately have "pub_run True (pub_shutdown_begin p2) p3" by (meson pub_run.start pub_run.step)
  moreover have "length (bodies p1) = 1" "length (bodies p2) = 2" by (simp_all add: bodies_def p1 p2)
  moreover have "pb_main p3 = MDone" by (simp add: p3_def)
  ultimately show ?thesis using w1 w2 by blast
qed

section \<open>Property\<close>

text \<open>C31: the publisher's contract test never fails an assertion. Whatever the publisher's threads do, the
  checks on the registration, on the bytes of its body and on the keepalive hold as soon as the
  awaited POST has come; the test passes exactly when a first POST comes in time, then another,
  and after the shutdown the offline one is the last, which it is once the shutdown has really
  waited for the worker.\<close>

theorem lobby_test_verdict:
  assumes "works run_python p1" "works p1 p" "works p p2" "pub_run strict (pub_shutdown_begin p2) p3"
  shows "lobby_test 2 (bodies p1) (length (bodies p)) (bodies p2) (bodies p3) =
      (if bodies p1 = [] then NoRegistration
       else if length (bodies p2) \<le> length (bodies p) then NoKeepalive
       else if says_status ''offline'' (bodies p3) then PublisherPass else NoOffline) \<and>
    (strict \<and> pb_main p3 = MDone \<longrightarrow> says_status ''offline'' (bodies p3))"
proof -
  have w2: "works run_python p2" using assms(1-3) by (meson rtranclp_trans)
  have "bodies p1 = [] \<or> hd (bodies p1) = expected_body 2"
    using works_online(1) [OF assms(1)] test_body by (auto simp: bodies_def)
  moreover have "bodies p2 = [] \<or> says_status ''online'' (bodies p2)"
    using works_online(2) [OF w2] by (auto simp: bodies_def)
  moreover have "registration_ok 2 (body_json (expected_body 2))" using test_registration test_body by simp
  ultimately have "lobby_test 2 (bodies p1) (length (bodies p)) (bodies p2) (bodies p3) =
      (if bodies p1 = [] then NoRegistration
       else if length (bodies p2) \<le> length (bodies p) then NoKeepalive
       else if says_status ''offline'' (bodies p3) then PublisherPass else NoOffline)"
    by (auto simp: lobby_test_def)
  moreover have "says_status ''offline'' (bodies p3)" if "strict" "pb_main p3 = MDone"
  proof -
    have "pb_main p2 = MRun" using unchanged_works [OF w2 run_python_start] by (simp add: unchanged_payload_def)
    then have "final_ok (pub_shutdown_begin p2)" by (simp add: final_ok_def pub_shutdown_begin_def Let_def)
    then have "final_ok p3" using final_ok_run [of "pub_shutdown_begin p2" p3] assms(4) that(1) by simp
    then show ?thesis
      using that(2) by (simp add: final_ok_def says_status_def bodies_def last_map item_status)
  qed
  ultimately show ?thesis by blast
qed

theorem lobby_test_verdict_witness:
  "\<exists>p1 p2 p3. works run_python p1 \<and> works p1 p2 \<and> pub_run True (pub_shutdown_begin p2) p3 \<and>
     lobby_test 2 (bodies p1) (length (bodies p1)) (bodies p2) (bodies p3) = PublisherPass"
proof -
  obtain p1 p2 p3 where s: "works run_python p1" "works p1 p2" "pub_run True (pub_shutdown_begin p2) p3"
    "pb_main p3 = MDone" "length (bodies p1) = 1" "length (bodies p2) = 2"
    using lobby_session by blast
  have "bodies p1 \<noteq> []" using s(5) by auto
  with lobby_test_verdict [OF s(1) rtranclp.rtrancl_refl s(2,3)] s show ?thesis by fastforce
qed

end
