(* ===== verification/Idlers.thy ===== *)
theory Idlers
  imports Verdict Simulation
begin

text \<open>
  \<open>test/lobby_idlers.py\<close>: players parked in the lobby for a manual test. They say HELLO and read
  what comes; one of them may send GO some time after its room has formed (the goer), another may
  look through the lobby list for a player to join (the hunter). The clock and what each socket
  delivers are arguments; what is sent is recorded with the sender's name, and sending succeeds.
\<close>

section \<open>State and arguments\<close>

record idle_args =
  ia_names :: "pystr list"
  ia_pair :: bool
  ia_go_name :: "pystr option"
  ia_go_delay :: rat
  ia_join_guest :: "pystr option"

record idlers =
  ii_bufs :: "(pystr, bytes) pydict"
  ii_hunter :: "pystr option"
  ii_goer :: "pystr option"
  ii_joined :: bool
  ii_go_at :: "rat option"
  ii_sent :: "(pystr \<times> bytes) list"

definition idle_frame :: "byte \<Rightarrow> bytes \<Rightarrow> exn + bytes" where
  "idle_frame t payload =
     (let body = t # payload
      in case mk_byte (int (length body)) of Inl e \<Rightarrow> Inl e | Inr l \<Rightarrow> Inr (l # body))"

definition idle_says :: "pystr \<Rightarrow> exn + bytes \<Rightarrow> (idlers, unit) act" where
  "idle_says name d = bnd (lift d) (\<lambda>b. modify (\<lambda>x. x\<lparr>ii_sent := ii_sent x @ [(name, b)]\<rparr>))"

section \<open>Setting up\<close>

definition idle_hello :: "pystr \<Rightarrow> exn + bytes" where
  "idle_hello n = (case utf8 n of Inl e \<Rightarrow> Inl e | Inr b \<Rightarrow> idle_frame 0x01 (2 # b))"

definition idle_join :: "pystr \<Rightarrow> exn + bytes" where
  "idle_join target = (case encode_ascii target of Inl e \<Rightarrow> Inl e | Inr b \<Rightarrow> idle_frame 0x04 (ljust 8 b))"

definition idle_pair :: "idle_args \<Rightarrow> (idlers, unit) act" where
  "idle_pair a =
     guarded (ia_pair a \<and> 2 \<le> length (ia_names a))
       (seqs [
          idle_says (ia_names a ! 0) (idle_join (ia_names a ! 1)),
          idle_says (ia_names a ! 1) (idle_frame 0x0F [])])"

text \<open>An option that is not given, or is the empty string, is off.\<close>

definition given :: "pystr option \<Rightarrow> pystr option" where
  "given x = (case x of None \<Rightarrow> None | Some s \<Rightarrow> if s = [] then None else Some s)"

definition find_hunter :: "idle_args \<Rightarrow> exn + pystr option" where
  "find_hunter a =
     (if given (ia_join_guest a) = None then Inr None
      else if ia_names a = [] then Inl IndexError
      else Inr (Some (last (ia_names a))))"

definition find_goer :: "idle_args \<Rightarrow> pystr option" where
  "find_goer a = (case given (ia_go_name a) of None \<Rightarrow> None | Some n \<Rightarrow> if n \<in> set (ia_names a) then Some n else None)"

definition idle_start :: "idle_args \<Rightarrow> (idlers, unit) act" where
  "idle_start a =
     seqs [
       for_each (ia_names a) (\<lambda>n. idle_says n (idle_hello n)),
       idle_pair a,
       bnd (lift (find_hunter a)) (\<lambda>h. modify (\<lambda>x. x\<lparr>ii_hunter := h\<rparr>)),
       modify (\<lambda>x. x\<lparr>ii_goer := find_goer a, ii_bufs := fold (\<lambda>n d. dset d n []) (ia_names a) [],
         ii_joined := False, ii_go_at := None\<rparr>)]"

section \<open>Reading\<close>

definition idle_scan :: "bytes \<Rightarrow> (bytes \<times> bytes) option" where
  "idle_scan buf =
     (if 2 \<le> length buf \<and> unat (hd buf) + 1 \<le> length buf
      then Some (take (unat (hd buf)) (drop 1 buf), drop (unat (hd buf) + 1) buf) else None)"

text \<open>\<open>body[i]\<close>.\<close>

definition at_index :: "bytes \<Rightarrow> nat \<Rightarrow> exn + byte" where
  "at_index b i = (if i < length b then Inr (b ! i) else Inl IndexError)"

text \<open>The entries of a LOBBY frame: the first joinable one whose name has the prefix.\<close>

definition idle_name :: "bytes \<Rightarrow> pystr" where
  "idle_name e = decode_ascii (rstrip_nul (take 8 e))"

fun hunt_from :: "pystr \<Rightarrow> bytes \<Rightarrow> nat list \<Rightarrow> exn + bytes option" where
  "hunt_from prefix body [] = Inr None"
| "hunt_from prefix body (i # is) =
     (let e = take 9 (drop (2 + 9 * i) body)
      in if starts prefix (idle_name e)
         then (case at_index e 8 of
             Inl x \<Rightarrow> Inl x
           | Inr st \<Rightarrow> if st AND 0x80 = 0 then Inr (Some (take 8 e)) else hunt_from prefix body is)
         else hunt_from prefix body is)"

definition hunt :: "pystr \<Rightarrow> bytes \<Rightarrow> exn + bytes option" where
  "hunt prefix body =
     (case at_index body 1 of Inl x \<Rightarrow> Inl x | Inr n \<Rightarrow> hunt_from prefix body [0..<unat n])"

definition idle_room :: "idle_args \<Rightarrow> rat \<Rightarrow> pystr \<Rightarrow> bytes \<Rightarrow> (idlers, unit) act" where
  "idle_room a now name body =
     bnd (gets (\<lambda>x. ii_goer x = Some name)) (\<lambda>mine. guarded mine
       (bnd (lift (at_index body 0)) (\<lambda>t. guarded (t = 0x0E)
         (bnd (lift (at_index body 1)) (\<lambda>n. guarded (2 \<le> unat n)
           (modify (\<lambda>x. if ii_go_at x = None then x\<lparr>ii_go_at := Some (now + ia_go_delay a)\<rparr> else x)))))))"

definition idle_lobby :: "idle_args \<Rightarrow> pystr \<Rightarrow> bytes \<Rightarrow> (idlers, unit) act" where
  "idle_lobby a name body =
     bnd (gets (\<lambda>x. ii_hunter x = Some name)) (\<lambda>mine. guarded mine
       (bnd (lift (at_index body 0)) (\<lambda>t.
        bnd (gets ii_joined) (\<lambda>joined. guarded (t = 0x03 \<and> \<not> joined)
         (bnd (lift (hunt (the (given (ia_join_guest a))) body)) (\<lambda>found.
           case found of
             None \<Rightarrow> ret ()
           | Some field \<Rightarrow> seqs [
               idle_says name (idle_frame 0x04 field),
               modify (\<lambda>x. x\<lparr>ii_joined := True\<rparr>)]))))))"

fun idle_parse_n :: "nat \<Rightarrow> idle_args \<Rightarrow> rat \<Rightarrow> pystr \<Rightarrow> (idlers, unit) act" where
  "idle_parse_n 0 a now name = ret ()"
| "idle_parse_n (Suc n) a now name =
     bnd (gets (\<lambda>x. idle_scan (case dget (ii_bufs x) name of None \<Rightarrow> [] | Some b \<Rightarrow> b))) (\<lambda>sc.
       case sc of
         None \<Rightarrow> ret ()
       | Some (body, rest) \<Rightarrow>
           seqs [
             modify (\<lambda>x. x\<lparr>ii_bufs := dset (ii_bufs x) name rest\<rparr>),
             idle_room a now name body,
             idle_lobby a name body,
             idle_parse_n n a now name])"

text \<open>One socket: nothing to read or an error (None), or the bytes that came. A round takes at least a
  byte off the buffer, so its length bounds the rounds.\<close>

definition idle_recv :: "idle_args \<Rightarrow> rat \<Rightarrow> pystr \<times> bytes option \<Rightarrow> (idlers, unit) act" where
  "idle_recv a now r =
     (case snd r of
        None \<Rightarrow> ret ()
      | Some data \<Rightarrow>
          bnd (gets (\<lambda>x. dget (ii_bufs x) (fst r))) (\<lambda>buf.
            case buf of
              None \<Rightarrow> throw KeyError
            | Some b \<Rightarrow> bnd (modify (\<lambda>x. x\<lparr>ii_bufs := dset (ii_bufs x) (fst r) (b @ data)\<rparr>)) (\<lambda>_.
                idle_parse_n (length (b @ data)) a now (fst r))))"

section \<open>The loop\<close>

definition idle_go :: "rat \<Rightarrow> (idlers, unit) act" where
  "idle_go now =
     bnd (gets (\<lambda>x. (ii_goer x, ii_go_at x))) (\<lambda>g.
       case g of
         (Some name, Some at_time) \<Rightarrow>
           guarded (at_time \<le> now) (seqs [
             idle_says name (idle_frame 0x0F []),
             modify (\<lambda>x. x\<lparr>ii_go_at := None, ii_goer := None\<rparr>)])
       | _ \<Rightarrow> ret ())"

definition idle_list :: "(idlers, unit) act" where
  "idle_list =
     bnd (gets (\<lambda>x. (ii_hunter x, ii_joined x))) (\<lambda>h.
       case h of (Some name, False) \<Rightarrow> idle_says name (idle_frame 0x02 []) | _ \<Rightarrow> ret ())"

text \<open>One pass: the receptions, in the order of \<open>socks\<close>, then GO and LIST.\<close>

definition idle_pass :: "idle_args \<Rightarrow> rat \<times> (pystr \<times> bytes option) list \<Rightarrow> (idlers, unit) act" where
  "idle_pass a p = seqs [for_each (snd p) (idle_recv a (fst p)), idle_go (fst p), idle_list]"

definition idle_main :: "idle_args \<Rightarrow> (rat \<times> (pystr \<times> bytes option) list) list \<Rightarrow> (idlers, unit) act" where
  "idle_main a passes = seqs [idle_start a, for_each passes (idle_pass a)]"

definition no_idlers :: idlers where
  "no_idlers = \<lparr> ii_bufs = [], ii_hunter = None, ii_goer = None, ii_joined = False, ii_go_at = None, ii_sent = [] \<rparr>"

lemma idle_scan_shorter: "idle_scan b = Some (m, r) \<Longrightarrow> length r < length b"
  by (auto simp: idle_scan_def split: if_splits)

section \<open>The hunter and the relay's list\<close>

lemma idle_name_pad:
  assumes "valid_name n" "pad_name (Some n) = Inr b"
  shows "idle_name (b @ rest) = n"
proof -
  have b: "b = map of_nat n @ replicate (8 - length n) 0" "length b = 8"
    using assms pad_name_valid pad_name_length by auto
  have small: "c < 128 \<and> c \<noteq> 0" if "c \<in> set n" for c
    using valid_name_chars [OF assms(1) that] by simp
  have "(of_nat c :: byte) \<noteq> 0" if "c \<in> set n" for c
    using small [OF that] of_nat_byte_inject [of c 0] by simp
  then have "rstrip_nul b = map of_nat n" unfolding b(1) by (intro rstrip_nul_pad) auto
  moreover have "unat (of_nat c :: byte) = c" if "c \<in> set n" for c
    using small [OF that] by (intro unat_of_nat_byte) simp
  then have "decode_ascii (map of_nat n) = n"
    using small by (auto simp: decode_ascii_def comp_def intro!: map_idI)
  ultimately show ?thesis using b(2) by (simp add: idle_name_def)
qed

text \<open>The bytes of a list: nine for each player, the padded name and the status.\<close>

fun listed :: "server \<Rightarrow> cid list \<Rightarrow> bytes \<Rightarrow> bool" where
  "listed s [] b = (b = [])"
| "listed s (d # ds) b =
     (\<exists>n nm r. name_of s d = Some n \<and> valid_name n \<and> pad_name (Some n) = Inr nm \<and>
        b = nm @ of_nat (status s d) # r \<and> listed s ds r)"

lemma list_entries_listed:
  "list_entries s ds = Inr b \<Longrightarrow> (\<And>d. d \<in> set ds \<Longrightarrow> \<exists>n. name_of s d = Some n \<and> valid_name n) \<Longrightarrow> listed s ds b"
proof (induction ds arbitrary: b)
  case (Cons d ds)
  obtain n where n: "name_of s d = Some n" "valid_name n" using Cons.prems(2) [of d] by auto
  then obtain nm where "pad_name (Some n) = Inr nm" by (simp add: pad_name_valid)
  with Cons n show ?case by (auto simp: mk_byte_def split: sum.splits if_splits)
qed simp

definition open_entry :: "server \<Rightarrow> pystr \<Rightarrow> cid \<Rightarrow> bool" where
  "open_entry s prefix d \<longleftrightarrow> (\<exists>n. name_of s d = Some n \<and> starts prefix n) \<and> (of_nat (status s d) :: byte) AND 0x80 = 0"

lemma hunt_from_listed:
  "listed s ds (drop (2 + 9 * i) body) \<Longrightarrow>
     hunt_from prefix body [i..<i + length ds] =
       Inr (map_option (\<lambda>d. case pad_name (name_of s d) of Inr f \<Rightarrow> f | Inl e \<Rightarrow> []) (find (open_entry s prefix) ds))"
proof (induction ds arbitrary: i)
  case (Cons d ds)
  let ?e = "take 9 (drop (2 + 9 * i) body)"
  obtain n nm r where d: "name_of s d = Some n" "valid_name n" "pad_name (Some n) = Inr nm"
    and b: "drop (2 + 9 * i) body = nm @ of_nat (status s d) # r" "listed s ds r"
    using Cons.prems by auto
  have len: "length nm = 8" using d(3) pad_name_length by blast
  have e: "?e = nm @ [of_nat (status s d)]" using b(1) len by simp
  have "drop (2 + 9 * Suc i) body = drop 9 (drop (2 + 9 * i) body)" by (simp add: algebra_simps)
  also have "\<dots> = r" using b(1) len by simp
  finally have IH: "hunt_from prefix body [Suc i..<Suc i + length ds] =
      Inr (map_option (\<lambda>d. case pad_name (name_of s d) of Inr f \<Rightarrow> f | Inl e \<Rightarrow> []) (find (open_entry s prefix) ds))"
    using b(2) by (intro Cons.IH) simp
  have name: "idle_name ?e = n" unfolding e by (rule idle_name_pad [OF d(2,3)])
  have st: "at_index ?e 8 = Inr (of_nat (status s d))" "take 8 ?e = nm"
    unfolding e using len by (simp_all add: at_index_def nth_append)
  have head: "hunt_from prefix body (i # is) =
      (if starts prefix n then (if (of_nat (status s d) :: byte) AND 0x80 = 0 then Inr (Some nm) else hunt_from prefix body is)
       else hunt_from prefix body is)" for "is"
    by (simp only: hunt_from.simps Let_def name st sum.case)
  have range: "[i..<i + length (d # ds)] = i # [Suc i..<Suc i + length ds]" by (simp add: upt_conv_Cons del: upt_Suc)
  have "open_entry s prefix d \<longleftrightarrow> starts prefix n \<and> (of_nat (status s d) :: byte) AND 0x80 = 0"
    using d(1) by (simp add: open_entry_def)
  then show ?case
    unfolding range head IH using d(1,3) by simp
qed simp

lemma hunt_payload:
  assumes "INV s" "lobby_payload s c = Inr p"
  shows "hunt prefix (T_LOBBY # p) =
    Inr (map_option (\<lambda>d. case pad_name (name_of s d) of Inr f \<Rightarrow> f | Inl e \<Rightarrow> []) (find (open_entry s prefix) (list_others s c)))"
proof -
  let ?os = "list_others s c"
  obtain l b where p: "p = l # b" "mk_byte (int (length ?os)) = Inr l" "list_entries s ?os = Inr b"
    using assms(2) by (auto simp: lobby_payload_def Let_def split: sum.splits)
  have "unat l = length ?os" using p(2) by (auto simp: mk_byte_def split: if_splits)
  moreover have "listed s ?os b" using list_entries_listed [OF p(3)] list_others_valid [OF assms(1)] by blast
  ultimately show ?thesis
    using hunt_from_listed [of s ?os 0 "T_LOBBY # p" prefix] p(1) by (simp add: hunt_def at_index_def)
qed

text \<open>Bit 7 of the status is what keeps a player from being joined.\<close>

definition joinable :: "server \<Rightarrow> cid \<Rightarrow> bool" where
  "joinable s d \<longleftrightarrow>
     (case room_of s d of
        None \<Rightarrow> True
      | Some r \<Rightarrow> \<not> rm_started (sv_room s r) \<and> length (members s r) < MAX_SEATS)"

lemma status_joinable:
  assumes "INV s" "d < sv_nclient s"
  shows "(of_nat (status s d) :: byte) AND 0x80 = 0 \<longleftrightarrow> joinable s d"
proof (cases "room_of s d")
  case None
  then show ?thesis by (simp add: status_def joinable_def)
next
  case (Some r)
  then have "length (members s r) \<le> MAX_SEATS" "2 \<le> length (members s r)"
    using INV_D(4) [OF assms(1)] assms(2) unfolding rooms_ok_def room_fine_def by blast+
  then have n: "length (members s r) = 2" by (simp add: MAX_SEATS_def)
  have "(0x80 :: nat) OR 2 = 130" by simp
  then have "status s d = 130" using Some n by (simp add: status_def MAX_SEATS_def)
  moreover have "\<not> joinable s d" using Some n by (simp add: joinable_def MAX_SEATS_def)
  ultimately show ?thesis by simp
qed

text \<open>A JOIN with the name field of a joinable player passes the guard.\<close>

lemma on_join_open:
  assumes inv: "INV s" and d: "(n, d) \<in> set (sv_by_name s)" "pad_name (Some n) = Inr b" "d \<noteq> c" "joinable s d"
    and c: "\<not> is_dead s c" "name_of s c \<noteq> None" "room_of s c = None"
  shows "on_join c b s = join_room c d s \<and> may_join c d s"
proof -
  note names = INV_D(1) [OF inv]
  have nd: "d < sv_nclient s" "name_of s d = Some n" using names_ok_entry [OF names d(1)] by blast+
  then have "dget (sv_by_name s) (rstrip_pad (decode_ascii b)) = Some d"
    using dget_in [OF names_ok_wf [OF names] d(1)] decode_pad [OF _ d(2)] names_ok_valid [OF names] by simp
  moreover have "\<not> unjoinable s c (Some d)"
    using d(3,4) nd(2) by (auto simp: unjoinable_def joinable_def split: option.splits)
  moreover obtain nm where "name_of s c = Some nm" using c(2) by auto
  ultimately show ?thesis using c nd by (simp add: on_join_def bnd_def gets_def may_join_def is_dead_def)
qed

section \<open>What a JOIN leads to\<close>

text \<open>
  After a JOIN: a new room with the host and the guest, not started, both of them still connected,
  and each has got one frame more, the ROOM frame with both names.
\<close>

definition joined :: "server \<Rightarrow> cid \<Rightarrow> cid \<Rightarrow> server \<Rightarrow> bool" where
  "joined s h g u \<longleftrightarrow>
     \<not> is_dead u h \<and> \<not> is_dead u g \<and> members u (sv_nroom s) = [h, g] \<and>
     room_of u h = Some (sv_nroom s) \<and> room_of u g = Some (sv_nroom s) \<and> \<not> rm_started (sv_room u (sv_nroom s)) \<and>
     (\<exists>hn gn. pad_name (name_of s h) = Inr hn \<and> pad_name (name_of s g) = Inr gn \<and>
        (\<forall>m \<in> {h, g}. stream u m = stream s m @ wire_of (T_ROOM # 2 # hn @ gn @ replicate 16 0)))"

lemma join_room_joined:
  assumes t: "tidy s" and j: "may_join c d s" and auto: "sv_auto_go s = 0" and live: "\<not> is_dead s d" "\<not> is_dead s c"
  shows "\<exists>u. join_room c d s = (Inr (), u) \<and> joined s d c u"
proof -
  note inv = tidyD(1) [OF t]
  have solo: "room_of s d = None" using may_join_solo [OF inv j] .
  have dc: "d \<noteq> c" "d < sv_nclient s" "room_of s c = None" "c < sv_nclient s" and named: "name_of s d \<noteq> None" "name_of s c \<noteq> None"
    using j by (simp_all add: may_join_def unjoinable_def)
  then obtain x y where n: "name_of s d = Some x" "name_of s c = Some y" by blast
  then have v: "valid_name x" "valid_name y" using names_ok_valid [OF INV_D(1) [OF inv]] dc by blast+
  then obtain dn cn where pads: "pad_name (Some x) = Inr dn" "pad_name (Some y) = Inr cn" by (simp add: pad_name_valid)
  have "dget (sv_by_name s) x = Some d"
    using dget_in [OF names_ok_wf [OF INV_D(1) [OF inv]]] named_registered [OF inv live(1) n(1)] by blast
  then have "holder (lobby_of s) x = Some d" by (simp add: holder_def dget_holder)
  from join_room_accepted [OF t live dc(1) solo dc(3) n this refl] auto obtain u where
    u: "join_room c d s = (Inr (), u)" "lobby_of u = fst (join_lobby (sv_rand s) False c x (lobby_of s))" by auto
  have "lb_up (lobby_of u) = lb_up (lobby_of s)"
    unfolding u(2) by (simp add: join_lobby_def Let_def leave_fields named split: option.split) (use n nick_lobby [OF t dc(4) live(2)] in auto)
  then have up: "\<not> is_dead u d" "\<not> is_dead u c" using live by (metis lobby_of_simps(1))+
  have "room_payload (enter_room c (sv_nroom s) (make_room d s)) (sv_nroom s) = Inr (2 # dn @ cn @ replicate 16 0)"
    using pads n by (simp add: room_payload_def roster_def ROSTER_SLOTS_def)
  with join_room_effect [OF inv j auto u(1) up] u(1) up pads n show ?thesis
    unfolding joined_def by (intro exI [of _ u]) auto
qed

section \<open>Property\<close>

text \<open>C32: the hunter joins whom it should, and the relay puts the two in a room. In a reachable state in
  which the hunter is connected, registered and in no room, the list the relay sends it leads the hunter to the
  first player on it that can be joined and whose name has the prefix: the name field of its JOIN is
  that player's, and the relay takes the JOIN for that player. Over sockets that take what they are
  given, and with GO left to the host (the default), that makes a room of the two: both stay connected, that player
  is the host and the hunter the guest, and both get the ROOM frame with the two names and nothing else.
  If there is no such player on the list, the hunter sends no JOIN.\<close>

theorem hunter_joins:
  assumes "reachable s0 s" "initial s0" "0 \<le> sv_delay s0" "sv_delay s0 < 256"
    "\<not> is_dead s c" "name_of s c \<noteq> None" "room_of s c = None"
  shows "\<exists>p. lobby_payload s c = Inr p \<and>
    (case find (\<lambda>d. joinable s d \<and> starts prefix (the (name_of s d))) (list_others s c) of
       None \<Rightarrow> hunt prefix (T_LOBBY # p) = Inr None
     | Some d \<Rightarrow> \<exists>field. hunt prefix (T_LOBBY # p) = Inr (Some field) \<and> pad_name (name_of s d) = Inr field \<and>
         on_join c field s = join_room c d s \<and>
         (accepting s0 \<and> sv_auto_go s0 = 0 \<longrightarrow> (\<exists>u. on_join c field s = (Inr (), u) \<and> joined s d c u)))"
proof -
  have inv: "INV s" using reachable_INV [OF assms(1,2)] assms(3,4) by (simp add: delay_ok_def)
  obtain p where p: "lobby_payload s c = Inr p" using lobby_payload_ok [OF inv] by blast
  have other: "\<exists>n. name_of s d = Some n \<and> valid_name n \<and> (n, d) \<in> set (sv_by_name s) \<and> d < sv_nclient s \<and> d \<noteq> c"
    if d: "d \<in> set (list_others s c)" for d
  proof -
    obtain m where m: "(m, d) \<in> set (sv_by_name s)" "d \<noteq> c" using d by (auto simp: list_others_def dest!: in_set_takeD)
    then show ?thesis
      using names_ok_entry [OF INV_D(1) [OF inv] m(1)] list_others_valid [OF inv d] by auto
  qed
  have "find (open_entry s prefix) (list_others s c) =
      find (\<lambda>d. joinable s d \<and> starts prefix (the (name_of s d))) (list_others s c)"
  proof (rule find_cong)
    fix d assume "d \<in> set (list_others s c)"
    from other [OF this] show "open_entry s prefix d = (joinable s d \<and> starts prefix (the (name_of s d)))"
      using status_joinable [OF inv] by (auto simp: open_entry_def)
  qed simp
  note h = hunt_payload [OF inv p, of prefix, unfolded this]
  show ?thesis
  proof (cases "find (\<lambda>d. joinable s d \<and> starts prefix (the (name_of s d))) (list_others s c)")
    case None
    with h p show ?thesis by simp
  next
    case (Some d)
    then have d: "d \<in> set (list_others s c)" "joinable s d" by (auto simp: find_Some_iff)
    from other [OF d(1)] obtain n where n: "name_of s d = Some n" "valid_name n" "(n, d) \<in> set (sv_by_name s)"
      "d < sv_nclient s" "d \<noteq> c" by blast
    then obtain b where b: "pad_name (Some n) = Inr b" by (simp add: pad_name_valid)
    have join: "on_join c b s = join_room c d s" and may: "may_join c d s"
      using on_join_open [OF inv n(3) b n(5) d(2) assms(5-7)] by blast+
    have "\<exists>u. join_room c d s = (Inr (), u) \<and> joined s d c u" if a: "accepting s0" "sv_auto_go s0 = 0"
    proof -
      note sim = reachable_tidy [OF assms(1-4) a(1)]
      have "sv_auto_go s = 0" using sim(2) a(2) by (simp add: follows_def)
      then show ?thesis using join_room_joined [OF sim(1) may _ tidyD(5) [OF sim(1) n(3)] assms(5)] by blast
    qed
    with h p Some n(1) b join show ?thesis by auto
  qed
qed

text \<open>Two players over sockets that work: AA is parked, BB hunts for names with an A.\<close>

definition fair3 :: server where
  "fair3 = snd (run_event (EvAccept (Conn (''b'', 2) True) 0) fair2)"

definition fair4 :: server where
  "fair4 = snd (run_event (EvReady 1 False (Some (RData [4, 1, 2, 66, 66]))) fair3)"

lemma fair34_run:
  "run_event (EvAccept (Conn (''b'', 2) True) 0) fair2 = (Inr (), fair3)"
  "run_event (EvReady 1 False (Some (RData [4, 1, 2, 66, 66]))) fair3 = (Inr (), fair4)"
  by (simp_all add: fair4_def fair3_def fair2_def fair1_def run fair_start_def)

lemma fair4_reachable: "reachable fair_start fair4"
proof -
  have "reachable fair_start fair3"
    by (rule reachable_event [OF fair_reachable(2) _ fair34_run(1)]) (simp add: possible_def)
  then show ?thesis
    by (rule reachable_event [OF _ _ fair34_run(2)])
      (simp add: possible_def fair3_def fair2_def fair1_def run fair_start_def)
qed

lemma fair4_values:
  "\<not> is_dead fair4 1" "name_of fair4 1 = Some [66, 66]" "name_of fair4 0 = Some [65, 65]" "room_of fair4 1 = None"
  "room_of fair4 0 = None" "list_others fair4 1 = [0]" "sv_nroom fair4 = 0"
  by (simp_all add: fair4_def fair3_def fair2_def fair1_def run fair_start_def list_others_def)

theorem hunter_joins_witness:
  "\<exists>p u. lobby_payload fair4 1 = Inr p \<and> hunt [65] (T_LOBBY # p) = Inr (Some [65, 65, 0, 0, 0, 0, 0, 0]) \<and>
     on_join 1 [65, 65, 0, 0, 0, 0, 0, 0] fair4 = (Inr (), u) \<and> members u 0 = [0, 1] \<and>
     room_of u 0 = Some 0 \<and> room_of u 1 = Some 0"
proof -
  have c: "name_of fair4 1 \<noteq> None" using fair4_values(2) by (metis option.distinct(1))
  have pad: "pad_name (Some [65, 65]) = Inr [65, 65, 0, 0, 0, 0, 0, 0]" by (simp add: run)
  have "find (\<lambda>d. joinable fair4 d \<and> starts [65] (the (name_of fair4 d))) (list_others fair4 1) = Some 0"
    by (simp add: fair4_values joinable_def starts_def del: One_nat_def)
  moreover have "sv_auto_go fair_start = 0" by (simp add: fair_start_def new_server_def)
  ultimately show ?thesis
    using hunter_joins [OF fair4_reachable fair_initial(1-3) fair4_values(1) c fair4_values(4), of "[65]"] fair_initial(4) pad
    by (auto simp: fair4_values joined_def simp del: One_nat_def)
qed

end
