(* ===== verification/Spec2Isabelle.thy ===== *)
theory Spec2Isabelle
  imports Prelude PyDict Frames Publisher RelayState Plumbing DropEq Invariant DropSafe Protocol
    ProtocolSafe Service ServiceSafe Runs Behaviour Entry Fragments Drained Lobby Abstraction
    Refine Simulation Clients
    Differential Scenarios Verdict LogText Lockstep Rerun Gate Ledger Rehearsal Played GateRuns Ghost Soak Probe
    RomImages Recon MemDump Json LobbyTest Idlers
begin

text \<open>
  Verification of the netplay relay of this repository and of the tools around it.

  \<^bold>\<open>The program.\<close> Intellivision consoles connect over TCP to \<open>server/intv_relay_server.py\<close>. They
  exchange length-prefixed frames: a console registers a name (HELLO), lists the lobby (LIST), joins
  a player's room (JOIN), its host starts the match (GO), and from then on the relay passes game
  frames (INPUT, CRC, STATE, RESYNC) to the other member verbatim and compares the checksums both
  report. The relay is one thread with a selector loop over non-blocking sockets; a second thread
  (\<open>LobbyPublisher\<close>) posts the player count to a web lobby. The Python programs under \<open>tools/\<close> build and
  check the ROM image, judge logs of the debugger, and test the relay.

  \<^bold>\<open>The theories\<close>, in the order they build on each other:
  \<^item> \<open>Prelude\<close>: bytes, strings, exceptions, the state monad \<open>act\<close> whose actions may raise, triples
    (\<open>triple\<close>, \<open>safe\<close>) and frame conditions (\<open>keeps\<close>, locale \<open>preorder_rel\<close>). \<open>PyDict\<close>: Python dictionaries
    (locale \<open>py_dict\<close>). \<open>Frames\<close>: message types, limits, \<open>frame\<close>, \<open>pad_name\<close>, the reassembler's test
    (\<open>scan_frame\<close>), and the contract of writers and readers of frames (locale \<open>framing\<close>).
  \<^item> \<open>Publisher\<close>: \<open>LobbyPublisher\<close>, its worker thread as atomic steps (\<open>worker_step\<close>, \<open>pub_step\<close>).
  \<^item> \<open>RelayState\<close>: \<open>Client\<close>, \<open>Room\<close> and \<open>Server\<close> as records; a client or room is a number and the server holds
    the objects, so aliasing is as in the program. \<open>Plumbing\<close>: \<open>send\<close>, \<open>flush\<close>, \<open>room_broadcast\<close>, \<open>dissolve\<close>,
    \<open>drop\<close>, which call each other; \<open>DropEq\<close>, \<open>Invariant\<close>, \<open>DropSafe\<close>: their termination, the invariant \<open>INV\<close>,
    and that they keep it (locales \<open>sender\<close>, \<open>dropper\<close>, \<open>two_droppers\<close>).
  \<^item> \<open>Protocol\<close>: the handlers \<open>on_hello\<close>, \<open>on_list\<close>, \<open>on_join\<close>, \<open>on_go\<close>, \<open>start_room\<close>, \<open>log_crc\<close>, \<open>handle\<close>;
    \<open>ProtocolSafe\<close>, \<open>Behaviour\<close>: they keep \<open>INV\<close>, raise nothing but \<open>ProtocolError\<close>, and what each does.
  \<^item> \<open>Service\<close>: \<open>service\<close>, \<open>accept\<close>, \<open>sweep\<close>, \<open>log_stats\<close>, the loop's body (\<open>serve\<close>), and the process as a step
    relation (\<open>relay_step\<close>, \<open>reachable\<close>), with the frame conditions of all handlers in locales
    \<open>talker\<close> (every handler but the CRC bookkeeping) and \<open>handler\<close>, and of serving a connection in
    \<open>server_loop\<close>;
    \<open>ServiceSafe\<close>: every reachable state satisfies \<open>INV\<close>. \<open>Entry\<close>: \<open>main\<close>'s options, and a pass of \<open>Server.run\<close>
    with its timers as a run of the step relation. \<open>Drained\<close>: over sockets that accept everything no
    byte stays queued. \<open>Fragments\<close>: where TCP cuts a client's bytes makes no difference. \<open>Runs\<close>: sessions
    evaluated on the model, for the witnesses.
  \<^item> \<open>Lobby\<close>: the abstract specification, what the relay promises its players: who is connected, who is
    registered, who sits at a table with whom, and which message each command sends to whom
    (\<open>obey\<close>, \<open>leave_lobby\<close>, runs \<open>lobby_run\<close>, the bytes of a message \<open>body_of\<close>). \<open>Abstraction\<close>: the abstraction
    function \<open>lobby_of\<close>, which of \<open>lobby_fine\<close> holds whatever the sockets do (\<open>lobby_sound\<close>), and \<open>drop\<close> refines leaving; \<open>Refine\<close>: every handler refines its command;
    \<open>Simulation\<close>: every event, and so every run, of the relay is a run of the specification.
  \<^item> \<open>Clients\<close>: the console's side as \<open>tools/bbnet_client_sim.py\<close> has it. \<open>Differential\<close>, \<open>Scenarios\<close>, \<open>Verdict\<close>:
    \<open>tools/server_diff.py\<close>, its scripts run against the model of the relay, its scenarios for both
    protocols, its rendering, log normalisation, verdict and \<open>main\<close> (locale \<open>bracketed\<close> for the expressions it masks with).
  \<^item> \<open>Lockstep\<close>: two runs of the relay that differ in seeds and client ports, kept in step by the relation
    \<open>like\<close> (\<open>corr\<close>, one rule per construct of \<open>act\<close>; locale \<open>steady\<close> for a \<open>drop\<close> that keeps them so). \<open>Rerun\<close>: the
    harness with two copies of the relay, their log lines with level and time stamp.
  \<^item> \<open>LogText\<close>: the relay's log lines as text. \<open>Gate\<close>: the three scenarios of \<open>tools/bbnet_client_sim.py\<close> as
    scripts of steps (\<open>gate_step\<close>), run against the model of the relay (\<open>run_step\<close>), and its verdict
    (\<open>gate\<close>). \<open>Ledger\<close>: which log lines a command of the specification leaves behind. \<open>Rehearsal\<close>: the
    same scripts played on the specification, with a mailbox per player (\<open>play\<close>); \<open>Played\<close>: a script that
    can be played there passes against the relay, over any sockets that take what they are given;
    \<open>GateRuns\<close>: the three scripts are played, so the gate passes.
  \<^item> \<open>Ghost\<close>: \<open>tools/ghost_peer.py\<close>, its handlers and its loop (\<open>ghost_main\<close>). \<open>Soak\<close>: \<open>tools/soak.py\<close>, its set-up, its
    load run against the relay, its samples and report. \<open>Probe\<close>: \<open>tools/latency_probe_server.py\<close>.
  \<^item> \<open>Json\<close>: the URL and the body of a POST, as \<open>json.dumps\<close> writes it and \<open>json.loads\<close> reads it. \<open>LobbyTest\<close>:
    \<open>tools/test_lobby_pub.py\<close>, its assertions over the runs of the publisher's threads. \<open>Idlers\<close>:
    \<open>test/lobby_idlers.py\<close>, the parked players that fill a lobby, and the hunter that joins one of them.
  \<^item> \<open>RomImages\<close>: \<open>patches.py\<close>, \<open>dump_rom.py\<close>, \<open>check_patch.py\<close>, \<open>check_7000.py\<close>. \<open>Recon\<close>: \<open>recon.py\<close>. \<open>MemDump\<close>:
    \<open>crc_trace_diff.py\<close>, \<open>cell_diff.py\<close>, \<open>check_dest_phase.py\<close>, \<open>mk_replay.py\<close>.

  \<^bold>\<open>Bounds and fuel.\<close> \<open>drop\<close> recurses through \<open>send\<close>; \<open>drop_client\<close> has as many levels as there are living
  clients, and \<open>drop_equation\<close> shows that it satisfies the source's unbounded equation. Iteration over a
  member list is by index with the initial length as bound (\<open>walk_more\<close>: more steps change nothing). The
  loop of \<open>service\<close> is bounded by the buffer's length, and \<open>service_loop_equation\<close> is its unbounded equation.
  \<open>flush\<close>, the timer walk of \<open>recon.py\<close> and the log parser are total functions with a measure. The number
  of reads of \<open>drain\<close> is the buffer's length (\<open>drain_step\<close>).

  \<^bold>\<open>Parameters.\<close> What the outside does is an argument: the outcome of the \<open>k\<close>-th \<open>send\<close> on a socket (\<open>sv_net\<close>),
  what \<open>recv\<close> and \<open>accept\<close> deliver and the clock (arguments of the events), the order of the selector's
  batch and of the client set, the random seeds (\<open>sv_rand\<close>), the outcome of an HTTP request, and the
  assembler (a function from operands to words, in \<open>RomImages\<close>). Theorems hold for all of them unless a
  hypothesis says otherwise; \<open>accepting\<close> (the sockets take at least a byte at each call) is one for the
  harness and the load tests, for the refinement and for what a JOIN leads to in \<open>hunter_joins\<close>, \<open>0 \<le> sv_delay < 256\<close> one for the relay, which \<open>bad_delay_start\<close> shows to be needed.

  \<^bold>\<open>What is proved.\<close> First the invariant of all reachable states, the refinement of \<open>Lobby\<close>, that nothing
  but a failing \<open>accept\<close> ends the loop, that a pass returns, independence of fragmentation, totality of
  \<open>handle\<close>; then the handlers' and
  the departure's functional behaviour, limits, histories, the publisher under every interleaving, and
  the error cases; then the client's view of the relay's bytes, the protocol gate, the harness and its verdict; that seeds
  and ports are all that two runs of one relay can differ in, so the harness passes the relay against
  itself; then the lobby's requests and test programs, and the ROM tools. Several theorems state behaviour the authors will not have meant: \<open>zombie_name\<close>,
  \<open>bad_delay_start\<close>, \<open>crc_wrap_blind\<close>, \<open>publisher_late_post\<close>, \<open>trace_blind\<close>, \<open>ghost_refused\<close>, the at most
  eight connections of \<open>soak_load\<close>, and the exception for \<open>framing\<close> in \<open>diff_passes\<close>.

  \<^bold>\<open>Not modelled.\<close> Sockets, the listening socket and the selector's bookkeeping for it, argument parsing,
  printing and exit codes, starting and stopping processes (\<open>bbnet_client_sim.py\<close>, \<open>server_diff.py\<close>,
  \<open>soak.py\<close>), pauses and the clock of waits, reading \<open>/proc\<close>, HTTP headers and transport (\<open>_post\<close>, the mock
  lobby of \<open>test_lobby_pub.py\<close>): these lines only call the operating system or the library, and a
  definition of them would be invented. The relay of the protocol 1 scenarios of \<open>server_diff.py\<close> is in
  another repository. The C port under \<open>server/c\<close> (with it \<open>SERVER=c\<close> of the gate and of the publisher's
  test) and the assembly sources under \<open>src/\<close> are other languages. Log lines are values with the
  arguments of their format strings; \<open>LogText\<close> has their text and \<open>Rerun\<close> their levels and time stamps,
  tracebacks and the publisher's own messages are left out. Times are rationals where the programs
  have floats.
\<close>

section \<open>The relay as a whole\<close>

text \<open>C1: every state the relay can reach is consistent: the name table, the connections and
  their limits, the rooms, the CRC tables, the published player count and the framing of every
  output stream satisfy \<open>INV\<close>, for any behaviour of the sockets and any order of events.\<close>

theorem relay_invariant:
  assumes "reachable s0 s" "initial s0" "0 \<le> sv_delay s0" "sv_delay s0 < 256"
  shows "INV s"
  using reachable_INV [OF assms(1,2)] assms(3,4) by (simp add: delay_ok_def)

theorem relay_invariant_witness: "INV demo_match"
  by (rule relay_invariant [OF reachable_demo_match initial_demo])
    (simp_all add: demo_start_def new_server_def)

text \<open>C5: no exception leaves the event loop while it serves a connection, sweeps or logs
  statistics; the loop ends only by an error of the listening socket.\<close>

theorem loop_survives:
  assumes "reachable s0 s" "initial s0" "0 \<le> sv_delay s0" "sv_delay s0 < 256"
    and "possible s ev" "\<forall>conn now. ev \<noteq> EvAccept conn now"
  shows "\<exists>t. run_event ev s = (Inr (), t)"
proof -
  have "INV s \<and> delay_ok s" using reachable_INV [OF assms(1,2)] assms(3,4) by (simp add: delay_ok_def)
  then have "case run_event ev s of (Inl e, t) \<Rightarrow> INV t \<and> e = OSError \<and> (\<exists>conn now. ev = EvAccept conn now)
      | (Inr x, t) \<Rightarrow> INV t"
    using run_event_keeps [of s ev] assms(5) by simp
  with assms(6) show ?thesis by (auto split: prod.splits sum.splits)
qed

theorem loop_survives_witness:
  "\<exists>t. run_event (EvReady 0 True (Some (RData [2, 0x7F, 1]))) demo_match = (Inr (), t)"
  by (rule loop_survives [OF reachable_demo_match initial_demo])
    (simp_all add: demo_start_def new_server_def possible_def demo_match_def)

text \<open>C10: whatever frame a client sends, \<open>handle\<close> keeps the relay consistent, and the only
  exception it lets out is the protocol error that gets the sender dropped.\<close>

theorem handle_total:
  assumes "INV s" "c < sv_nclient s" "0 \<le> sv_delay s" "sv_delay s < 256" "length payload \<le> 199"
  shows "case handle c ftype payload s of
      (Inl e, t) \<Rightarrow> INV t \<and> (\<exists>p. e = ProtocolError p)
    | (Inr _, t) \<Rightarrow> INV t"
  using tripleD [OF handle_answers [OF assms(5)], of s c ftype] assms(1-4)
  by (simp add: delay_ok_def only_protocol_def split: prod.splits sum.splits)

theorem handle_total_witness:
  "case handle 0 0x7F [] demo_match of
      (Inl e, t) \<Rightarrow> INV t \<and> (\<exists>p. e = ProtocolError p)
    | (Inr _, t) \<Rightarrow> INV t"
  by (rule handle_total [OF INV_demos(4)]) (simp_all add: demo_match_def)

text \<open>C11: \<open>drop\<close> terminates although it calls itself through \<open>send\<close> and \<open>flush\<close>: the model's
  \<open>drop\<close>, bounded by the number of living clients, satisfies the unbounded recursive equation of
  the source in every state.\<close>

theorem drop_equation: "drop_client c w s = drop_body drop_client c w s"
  by (rule drop_unfold)

text \<open>The loop of \<open>service\<close> terminates and the model's bounded loop satisfies the unbounded
  equation of the source: take a frame off the buffer, handle it, go on unless the client died.\<close>

lemma service_loop_equation:
  "pump c s =
     (case scan_frame (cl_rx (sv_client s c)) of
        Wait \<Rightarrow> ret ()
      | Bad l \<Rightarrow> drop_client c (WhyBadLength l)
      | Got body rest \<Rightarrow>
          bnd (modify (set_rx c rest)) (\<lambda>_.
          bnd (handle_frame c body) (\<lambda>go_on. if go_on then pump c else ret ()))) s"
  by (rule pump_unfold)

text \<open>C12: in a running match INPUT, CRC, STATE and RESYNC frames reach the other player verbatim,
  as one frame appended to that player's stream, and nobody else gets anything (not the sender
  either).\<close>

theorem relay_verbatim:
  assumes "INV s" "c < sv_nclient s" "room_of s c = Some r" "rm_started (sv_room s r)"
    and "ftype \<in> set RELAY_TYPES" "length payload \<le> 199" "handle c ftype payload s = (res, t)"
    and "m \<in> set (members s r)" "m \<noteq> c" "\<not> is_dead t m"
  shows "stream t m = stream s m @ wire_of (ftype # payload) \<and>
    (\<forall>d. d \<noteq> m \<longrightarrow> stream t d = stream s d)"
proof -
  have "relay c ftype payload s = (res, t)" using assms(5,7) by (simp add: handle_def)
  then show ?thesis using assms relay_effect by blast
qed

theorem relay_verbatim_witness:
  "stream (snd (handle 1 T_INPUT [1, 5, 0, 0x44] demo_match)) 0
     = stream demo_match 0 @ wire_of (T_INPUT # [1, 5, 0, 0x44])"
proof -
  have goes: "handle 1 T_INPUT [1, 5, 0, 0x44] demo_match = (Inr (), snd (handle 1 T_INPUT [1, 5, 0, 0x44] demo_match))"
    by (simp add: run demo_match_def)
  show ?thesis
    by (rule conjunct1 [OF relay_verbatim [OF INV_demos(4) _ _ _ _ _ goes, of 0]])
      (simp_all add: run demo_match_def)
qed

text \<open>C13: when a player of a room is dropped, the other one is back in the lobby (no room), and
  if that player's connection works it gets exactly one message: PEER_LEFT with the leaver's seat
  and name if the match had started, an empty ROOM if the room was still forming.\<close>

theorem drop_tells_the_other:
  assumes "INV s" "\<not> is_dead s c" "room_of s c = Some r" "m \<in> set (members s r)" "m \<noteq> c"
    and "drop_client c w s = (res, t)"
  shows "room_of t m = None \<and>
    (\<not> is_dead t m \<longrightarrow> (\<exists>d. farewell s c r = Inr d \<and> stream t m = stream s m @ d))"
  using drop_empty [OF assms(1-4,6)] drop_effect [OF assms] by blast

theorem drop_tells_the_other_witness:
  "room_of (snd (drop_client 1 WhyClosed demo_match)) 0 = None \<and>
     stream (snd (drop_client 1 WhyClosed demo_match)) 0 =
       stream demo_match 0 @ wire_of (T_PEER_LEFT # 1 # [66, 66, 0, 0, 0, 0, 0, 0])"
proof -
  let ?t = "snd (drop_client 1 WhyClosed demo_match)"
  have goes: "drop_client 1 WhyClosed demo_match = (Inr (), ?t)" and live: "\<not> is_dead ?t 0"
    by (simp_all add: run demo_match_def)
  have "room_of ?t 0 = None \<and>
    (\<not> is_dead ?t 0 \<longrightarrow> (\<exists>d. farewell demo_match 1 0 = Inr d \<and> stream ?t 0 = stream demo_match 0 @ d))"
    by (rule drop_tells_the_other [OF INV_demos(4) _ _ _ _ goes])
      (simp_all add: demo_match_def access_defs)
  moreover have "farewell demo_match 1 0 = Inr (wire_of (T_PEER_LEFT # 1 # [66, 66, 0, 0, 0, 0, 0, 0]))"
    by (simp add: farewell_def run demo_match_def wire_of_def)
  ultimately show ?thesis using live by simp
qed

section \<open>The lobby, the rooms and the match\<close>

text \<open>A valid HELLO on a connection that survives it registers the name for that connection,
  and whoever else held the name is dropped.\<close>

theorem hello_registers:
  assumes "INV s" "\<not> is_dead s c" "hello_name payload = Inr n"
    and "handle c T_HELLO payload s = (res, t)" "\<not> is_dead t c"
  shows "res = Inr () \<and> dget (sv_by_name t) n = Some c \<and> name_of t c = Some n \<and>
    (\<forall>d. d \<noteq> c \<and> name_of s d = Some n \<longrightarrow> is_dead t d)"
proof -
  have "on_hello c payload s = (res, t)"
    using assms(4) by (simp add: handle_def const_defs)
  then show ?thesis using assms on_hello_effect by blast
qed

theorem hello_registers_witness:
  "dget (sv_by_name (snd (handle 1 T_HELLO [2, 65, 65] demo_idle))) [65, 65] = Some 1 \<and>
     is_dead (snd (handle 1 T_HELLO [2, 65, 65] demo_idle)) 0"
proof -
  let ?t = "snd (handle 1 T_HELLO [2, 65, 65] demo_idle)"
  have goes: "handle 1 T_HELLO [2, 65, 65] demo_idle = (Inr (), ?t)" and "\<not> is_dead ?t 1"
    by (simp_all add: run demo_idle_def)
  moreover have "hello_name [2, 65, 65] = Inr [65, 65]" "\<not> is_dead demo_idle 1" "name_of demo_idle 0 = Some [65, 65]"
    by (simp_all add: run demo_idle_def)
  ultimately show ?thesis using hello_registers [OF INV_demos(2) _ _ goes, of "[65, 65]"] by auto
qed

text \<open>A JOIN that the guard admits makes a room of the target (host, seat 0) and the joiner
  (seat 1), not started, and sends both the same ROOM frame with the new roster; with two seats
  the target is always solo.\<close>

theorem join_makes_room:
  assumes "INV s" "may_join c t s" "sv_auto_go s = 0" "join_room c t s = (res, u)"
    and "\<not> is_dead u t" "\<not> is_dead u c"
  shows "\<exists>p. room_payload (enter_room c (sv_nroom s) (make_room t s)) (sv_nroom s) = Inr p \<and>
    stream u t = stream s t @ wire_of (T_ROOM # p) \<and> stream u c = stream s c @ wire_of (T_ROOM # p) \<and>
    members u (sv_nroom s) = [t, c] \<and> \<not> rm_started (sv_room u (sv_nroom s)) \<and>
    room_of u t = Some (sv_nroom s) \<and> room_of u c = Some (sv_nroom s)"
  by (rule join_room_effect [OF assms])

theorem join_makes_room_witness:
  "members (snd (join_room 1 0 demo_idle)) 0 = [0, 1] \<and>
     stream (snd (join_room 1 0 demo_idle)) 0 = stream demo_idle 0 @
       wire_of (T_ROOM # 2 # [65, 65, 0, 0, 0, 0, 0, 0] @ [66, 66, 0, 0, 0, 0, 0, 0] @ replicate 16 0)"
proof -
  let ?u = "snd (join_room 1 0 demo_idle)"
  have goes: "join_room 1 0 demo_idle = (Inr (), ?u)" "\<not> is_dead ?u 0" "\<not> is_dead ?u 1"
    by (simp_all add: run demo_idle_def)
  have "may_join 1 0 demo_idle" "sv_auto_go demo_idle = 0" "sv_nroom demo_idle = 0"
    by (simp_all add: may_join_def run demo_idle_def)
  moreover have "room_payload (enter_room 1 0 (make_room 0 demo_idle)) 0 =
      Inr (2 # [65, 65, 0, 0, 0, 0, 0, 0] @ [66, 66, 0, 0, 0, 0, 0, 0] @ replicate 16 0)"
    by (simp add: run demo_idle_def)
  ultimately show ?thesis
    using join_makes_room [OF INV_demos(2) _ _ goes] by auto
qed

text \<open>C14: a GO from the host of a full, forming room starts the match: both players get a START
  frame, the same but for the seat byte, with a seed in 1..65535, and the room is marked
  started with that seed and an empty CRC table.\<close>

theorem go_starts_match:
  assumes "INV s" "c < sv_nclient s" "0 \<le> sv_delay s" "sv_delay s < 256"
    and "room_of s c = Some r" "members s r = [c, b]" "\<not> rm_started (sv_room s r)"
    and "on_go c s = (res, t)" "\<not> is_dead t c" "\<not> is_dead t b"
  shows "\<exists>common. start_common (begin_match r s) r = Inr common \<and>
    stream t c = stream s c @ wire_of (T_START # 0 # common) \<and>
    stream t b = stream s b @ wire_of (T_START # 1 # common) \<and>
    rm_started (sv_room t r) \<and> rm_seed (sv_room t r) \<in> {1..0xFFFF} \<and> rm_crc (sv_room t r) = []"
proof -
  have d: "delay_ok s" using assms(3,4) by (simp add: delay_ok_def)
  have cb: "c \<noteq> b"
    using room_fineD(2) rooms_okD [OF INV_D(4) [OF assms(1)] assms(2,5)] assms(6) by fastforce
  have "start_room r s = (res, t)"
    using assms(5-8) by (simp add: on_go_def seat_def MAX_SEATS_def)
  from start_room_effect [OF assms(1) INV_announceable [OF assms(1,2,5)] d assms(6) cb this assms(9,10)]
  obtain common where "start_common (begin_match r s) r = Inr common"
    "stream t c = stream s c @ wire_of (T_START # 0 # common)"
    "stream t b = stream s b @ wire_of (T_START # 1 # common)"
    "sv_room t r = sv_room (begin_match r s) r" by blast
  with seed_range [of r s] show ?thesis by auto
qed

theorem go_starts_match_witness:
  "stream (snd (on_go 0 demo_room)) 0 = stream demo_room 0 @
     wire_of (T_START # 0 # [2, 6, 0, 3] @ [65, 65, 0, 0, 0, 0, 0, 0] @ [66, 66, 0, 0, 0, 0, 0, 0] @ replicate 16 0)"
proof -
  let ?t = "snd (on_go 0 demo_room)"
  have goes: "on_go 0 demo_room = (Inr (), ?t)" "\<not> is_dead ?t 0" "\<not> is_dead ?t 1"
    by (simp_all add: run demo_room_def)
  have "start_common (begin_match 0 demo_room) 0 =
      Inr ([2, 6, 0, 3] @ [65, 65, 0, 0, 0, 0, 0, 0] @ [66, 66, 0, 0, 0, 0, 0, 0] @ replicate 16 0)"
    by (simp add: run demo_room_def)
  moreover have "0 < sv_nclient demo_room" "0 \<le> sv_delay demo_room" "sv_delay demo_room < 256"
    "room_of demo_room 0 = Some 0" "members demo_room 0 = [0, 1]" "\<not> rm_started (sv_room demo_room 0)"
    by (simp_all add: run demo_room_def)
  ultimately show ?thesis
    using go_starts_match [OF INV_demos(3) _ _ _ _ _ _ goes] by auto
qed

text \<open>Only the host of a room that is still forming can start it; a GO from anybody else, or
  when the match runs, changes nothing.\<close>

lemma go_needs_host:
  assumes "INV s" "c < sv_nclient s"
    and "case room_of s c of None \<Rightarrow> True | Some r \<Rightarrow> rm_started (sv_room s r) \<or> hd (members s r) \<noteq> c"
  shows "on_go c s = (Inr (), s)"
proof (cases "room_of s c")
  case None
  then show ?thesis by (simp add: on_go_def ret_def)
next
  case (Some r)
  obtain a b where ab: "members s r = [a, b]" "a \<noteq> b" "c = a \<or> c = b"
    using room_pair [OF assms(1,2) Some] by metis
  with assms(3) Some have "rm_started (sv_room s r) \<or> c = b" by auto
  with Some ab show ?thesis by (auto simp: on_go_def seat_def ret_def)
qed

text \<open>A player outside a running match cannot relay anything: INPUT, CRC, STATE and RESYNC
  are then ignored without any effect.\<close>

lemma relay_needs_match:
  assumes "ftype \<in> set RELAY_TYPES"
    and "case room_of s c of None \<Rightarrow> True | Some r \<Rightarrow> \<not> rm_started (sv_room s r)"
  shows "handle c ftype payload s = (Inr (), s)"
  using assms by (auto simp: handle_def relay_def ret_def split: option.splits)

text \<open>C15: the per-second sweep drops exactly the connections that have been open for more than
  the HELLO timeout without a name, counts them, and raises nothing.\<close>

theorem sweep_drops_the_silent:
  assumes "INV s" "distinct order" "set order = set (sv_clients s)"
  shows "\<exists>t. sweep now order s = (Inr (), t) \<and>
    (\<forall>c. is_dead t c \<longleftrightarrow> is_dead s c \<or> overdue now s c) \<and>
    st_hello_timeouts (sv_stats t) = st_hello_timeouts (sv_stats s) + length (filter (overdue now s) order)"
proof -
  have open_iff: "c \<in> set order \<longleftrightarrow> \<not> is_dead s c" for c
    using INV_D(2) [OF assms(1)] assms(3) by (simp add: clients_ok_def)
  obtain t where t: "sweep now order s = (Inr (), t)"
    "\<forall>c. is_dead t c \<longleftrightarrow> is_dead s c \<or> (c \<in> set order \<and> overdue now s c)"
    "st_hello_timeouts (sv_stats t) = st_hello_timeouts (sv_stats s) + length (filter (overdue now s) order)"
    using sweep_effect [OF assms(1,2)] open_iff by blast
  have "is_dead t c \<longleftrightarrow> is_dead s c \<or> overdue now s c" for c
    using t(2) open_iff [of c] by blast
  with t show ?thesis by blast
qed

theorem sweep_drops_the_silent_witness:
  "\<exists>t. sweep 100 [0] demo1 = (Inr (), t) \<and> is_dead t 0"
proof -
  have "INV demo1"
    using reachable_INV [OF reachable_event [OF reachable.start _ demo_step1] initial_demo delay_ok_demo]
    by (simp add: possible_def)
  moreover have "overdue 100 demo1 0" by (simp add: overdue_def run demo1_def)
  moreover have "set [0] = set (sv_clients demo1)" by (simp add: demo1_def)
  ultimately show ?thesis using sweep_drops_the_silent [of demo1 "[0]" 100] by auto
qed

section \<open>Limits, streams, history\<close>

text \<open>C16: whatever happens, at most 64 connections are open, at most 8 from one address, no
  output queue holds more than 64 KiB, every room a player is in has exactly two members, and no
  room remembers more than 64 CRC ticks.\<close>

theorem relay_limits:
  assumes "reachable s0 s" "initial s0" "0 \<le> sv_delay s0" "sv_delay s0 < 256"
  shows "length (sv_clients s) \<le> MAX_CLIENTS \<and>
    (\<forall>a. per_ip s a \<le> MAX_CONNECTIONS_PER_IP) \<and>
    (\<forall>c < sv_nclient s. length (cl_tx (sv_client s c)) \<le> MAX_TX_BACKLOG) \<and>
    (\<forall>c < sv_nclient s. \<forall>r. room_of s c = Some r \<longrightarrow> length (members s r) = MAX_SEATS) \<and>
    (\<forall>r. length (rm_crc (sv_room s r)) \<le> 64)"
proof -
  have inv: "INV s" using reachable_INV [OF assms(1,2)] assms(3,4) by (simp add: delay_ok_def)
  note parts = INV_D [OF inv]
  have "length (members s r) = MAX_SEATS" if "c < sv_nclient s" "room_of s c = Some r" for c r
    using rooms_okD [OF parts(4) that] room_fineD(3) [of s r] by (simp add: MAX_SEATS_def)
  with parts(2,3,5) show ?thesis
    by (simp add: clients_ok_def queues_ok_def crc_tables_ok_def per_ip_def)
qed

theorem relay_limits_witness: "length (members demo_match 0) = MAX_SEATS"
proof -
  have d: "0 \<le> sv_delay demo_start" "sv_delay demo_start < 256" "0 < sv_nclient demo_match" "room_of demo_match 0 = Some 0"
    by (simp_all add: demo_start_def new_server_def run demo_match_def)
  from relay_limits [OF reachable_demo_match initial_demo d(1,2)] d(3,4) show ?thesis by blast
qed

text \<open>A connection that reads the relay's stream with the relay's own reader gets whole frames,
  each of a length the reader accepts, and nothing is left over.\<close>

lemma streams_parse:
  assumes "reachable s0 s" "initial s0" "0 \<le> sv_delay s0" "sv_delay s0 < 256"
  shows "\<exists>ms. list_all readable ms \<and> drain scan_frame (stream s c) = (ms, Inr [])"
proof -
  have "INV s" using reachable_INV [OF assms(1,2)] assms(3,4) by (simp add: delay_ok_def)
  then obtain ms where ms: "list_all readable ms" "stream s c = concat (map wire_of ms)"
    using INV_D(7) unfolding streams_ok_def framed_def by blast
  moreover have "drain scan_frame [] = ([], Inr [])" by (simp add: drain_def)
  ultimately show ?thesis using relay_rx.drain_encs [OF ms(1), of "[]"] by auto
qed

text \<open>Until it is told to stop, the publisher's payload holds the number of registered names,
  whatever the relay did.\<close>

theorem published_count:
  assumes "reachable s0 s" "initial s0" "0 \<le> sv_delay s0" "sv_delay s0 < 256"
    and "sv_lobby s = Some p" "\<not> pb_stopping p"
  shows "pl_curplayers (pb_payload p) = length (sv_by_name s) \<and> length (sv_by_name s) \<le> sv_nclient s"
proof -
  have inv: "INV s" using reachable_INV [OF assms(1,2)] assms(3,4) by (simp add: delay_ok_def)
  have "pl_curplayers (pb_payload p) = length (sv_by_name s)"
    using INV_D(6) [OF inv] assms(5,6) by (simp add: lobby_ok_def)
  moreover have "length (sv_by_name s) \<le> sv_nclient s"
  proof -
    note names = INV_D(1) [OF inv]
    have entry: "c < sv_nclient s \<and> name_of s c = Some n" if "(n, c) \<in> set (sv_by_name s)" for n c
      using names_ok_entry [OF names that] .
    have "inj_on snd (set (sv_by_name s))"
      using entry by (intro inj_onI) (metis option.inject prod.collapse)
    moreover have "distinct (sv_by_name s)"
      using names_ok_wf [OF names] by (simp add: dwf_def dkeys_def distinct_map)
    ultimately have "distinct (map snd (sv_by_name s))" by (simp add: distinct_map)
    moreover have "set (map snd (sv_by_name s)) \<subseteq> {..<sv_nclient s}" using entry by auto
    ultimately show ?thesis
      by (metis card_lessThan card_mono distinct_card finite_lessThan length_map)
  qed
  ultimately show ?thesis by simp
qed

theorem published_count_witness:
  "\<exists>p. sv_lobby lobby_one = Some p \<and> pl_curplayers (pb_payload p) = 1"
proof -
  obtain p where p: "sv_lobby lobby_one = Some p" "\<not> pb_stopping p" using lobby_demo(4) by blast
  have d: "0 \<le> sv_delay lobby_start" "sv_delay lobby_start < 256"
    by (simp_all add: lobby_start_def new_server_def)
  from published_count [OF lobby_demo(2,1) d p] p show ?thesis by (simp add: lobby_demo(3))
qed

text \<open>C27: history is kept. From any reachable state on, a connection's stream only grows, a
  dropped connection stays dropped and gets nothing more, a name is never taken back from a
  connection, a started match stays started, and the log is only appended to.\<close>

theorem history_kept:
  assumes "reachable s t" "c < sv_nclient s"
  shows "(\<exists>ext. stream t c = stream s c @ ext) \<and>
    (is_dead s c \<longrightarrow> is_dead t c \<and> stream t c = stream s c) \<and>
    (name_of s c \<noteq> None \<longrightarrow> name_of t c \<noteq> None) \<and>
    (\<forall>r < sv_nroom s. rm_started (sv_room s r) \<longrightarrow> rm_started (sv_room t r)) \<and>
    (\<exists>l. sv_log t = sv_log s @ l)"
  using reachable_persists [OF assms(1)] assms(2) by (simp add: persists_def client_persists_def)

theorem history_kept_witness: "\<exists>ext. stream demo_match 0 = stream demo_room 0 @ ext"
proof -
  have "reachable demo_room demo_match"
    by (rule reachable_event [OF reachable.start _ demo_step6]) (simp add: possible_def demo_room_def)
  moreover have "0 < sv_nclient demo_room" by (simp add: demo_room_def)
  ultimately show ?thesis by (rule history_kept [THEN conjunct1])
qed

section \<open>The publisher\<close>

text \<open>C28: no update of the player count is lost, however the threads interleave: unless a new POST
  is due or the publisher is stopping, what the worker is posting, or has posted last, is the
  current payload; before the first POST the payload has not changed.\<close>

theorem publisher_no_lost_update:
  assumes "pub_run strict (pub_init su cu ak rg gn sn) p" "\<not> pb_dirty p" "\<not> pb_stopping p"
  shows "case pb_worker p of
      WPost pl \<Rightarrow> pl = pb_payload p
    | _ \<Rightarrow> if pb_attempts p = [] then pb_payload p = pb_payload (pub_init su cu ak rg gn sn)
          else last (pb_attempts p) = pb_payload p"
  using pub_run_inv [OF assms(1) refl] assms(2,3) by (simp add: newest_def)

theorem publisher_no_lost_update_witness:
  "pl_curplayers (last (pb_attempts pub_posted)) = 2"
proof -
  have "case pb_worker pub_posted of
      WPost pl \<Rightarrow> pl = pb_payload pub_posted
    | _ \<Rightarrow> if pb_attempts pub_posted = [] then pb_payload pub_posted = pb_payload pub_demo
          else last (pb_attempts pub_posted) = pb_payload pub_posted"
    unfolding pub_demo_def
    by (rule publisher_no_lost_update [OF pub_posted_run [unfolded pub_demo_def]])
      (simp_all add: pub_posted_def worker_check_def worker_take_def Let_def pub_update_def pub_demo_def pub_init_def)
  then show ?thesis
    by (simp add: pub_posted_def worker_check_def worker_take_def Let_def pub_update_def pub_demo_def pub_init_def)
qed

text \<open>C29: when the join of \<open>shutdown\<close> ends because the worker has ended, the last POST of all
  announces \<open>offline\<close>, and nothing happens after it.\<close>

theorem publisher_goes_offline:
  assumes "pub_run True (pub_init su cu ak rg gn sn) p" "pb_main p = MDone"
  shows "pb_attempts p \<noteq> [] \<and> pl_status (last (pb_attempts p)) = ''offline'' \<and> \<not> pub_step True p q"
  using final_ok_run [OF assms(1) final_ok_init] assms(2) done_stuck [of p q]
  by (simp add: final_ok_def)

theorem publisher_goes_offline_witness:
  "pl_status (last (pb_attempts pub_done)) = ''offline'' \<and> (\<forall>q. \<not> pub_step True pub_done q)"
proof -
  have "pb_main pub_done = MDone" by (simp add: pub_done_def)
  from publisher_goes_offline [OF pub_done_run [unfolded pub_demo_def] this] show ?thesis by blast
qed

text \<open>When the join times out instead, the promise can fail: a POST of the worker that started
  before the shutdown can arrive as the last one, and the lobby keeps showing the server online.\<close>

theorem publisher_late_post:
  "pub_run False pub_demo pub_late \<and> pb_main pub_late = MDone \<and>
     map pl_status (pb_attempts pub_late) = [''offline'', ''online'']"
proof (intro conjI)
  let ?pl = "pb_payload (pub_update 2 pub_demo)" and ?p0 = "worker_check (pub_update 2 pub_demo)"
  let ?p1 = "pub_shutdown_begin ?p0"
  let ?p2 = "?p1\<lparr>pb_main := MPost (?pl\<lparr>pl_status := ''offline''\<rparr>)\<rparr>"
  let ?p3 = "(post (?pl\<lparr>pl_status := ''offline''\<rparr>) PostOk ?p2)\<lparr>pb_main := MDone\<rparr>"
  note defs = Let_def pub_shutdown_begin_def worker_check_def worker_take_def pub_update_def pub_demo_def pub_init_def
  have "pub_run False pub_demo (pub_update 2 pub_demo)"
    by (rule pub_run.step [OF pub_run.start pub_step.update]) (simp add: defs)
  then have "pub_run False pub_demo ?p0"
    by (rule pub_run.step [OF _ pub_step.worker [OF worker_step.enter]]) (simp add: defs)
  then have "pub_run False pub_demo ?p1"
    by (rule pub_run.step [OF _ pub_step.shutdown]) (simp add: defs)
  then have "pub_run False pub_demo ?p2"
    by (rule pub_run.step [OF _ pub_step.join_timeout]) (simp_all add: defs)
  then have "pub_run False pub_demo ?p3"
    by (rule pub_run.step [OF _ pub_step.last_post]) simp
  moreover have "pb_worker ?p3 = WPost ?pl" by (simp add: defs)
  ultimately show "pub_run False pub_demo pub_late"
    using pub_run.step [OF _ pub_step.worker [OF worker_step.post], of False pub_demo ?p3 ?pl PostOk]
    by (simp add: pub_late_def Let_def)
  show "pb_main pub_late = MDone" by (simp add: pub_late_def Let_def)
  show "map pl_status (pb_attempts pub_late) = [''offline'', ''online'']"
    by (simp add: pub_late_def Let_def defs)
qed

text \<open>Names survive the wire both ways: a valid name sent in a HELLO, NUL-padded or not, is the
  name registered, and the 8-byte field the relay writes for it decodes to the name again.\<close>

theorem name_roundtrip:
  assumes "valid_name n"
  shows "hello_name (PROTO_VER # map of_nat n @ replicate k 0) = Inr n \<and>
    (\<exists>b. pad_name (Some n) = Inr b \<and> length b = 8 \<and> rstrip_pad (decode_ascii b) = n)"
proof -
  have small: "c < 128" if "c \<in> set n" for c
    using valid_name_chars [OF assms that] by simp
  have "map ((\<lambda>x. if unat x < 128 then unat x else 0xFFFD) \<circ> (of_nat :: nat \<Rightarrow> byte)) n = n"
    using small by (intro map_idI) (fastforce simp: unat_of_nat)
  then have "decode_ascii (map of_nat n @ replicate k 0) = n @ replicate k 0"
    by (simp add: decode_ascii_def)
  moreover have "n \<noteq> []" using assms by (auto simp: valid_name_def)
  then have "last n \<noteq> 0 \<and> last n \<noteq> 32"
    using valid_name_chars [OF assms, of "last n"] by auto
  ultimately have "rstrip_pad (decode_ascii (map of_nat n @ replicate k 0)) = n"
    by (simp add: rstrip_pad_append rstrip_pad_last list_all_iff)
  moreover have "2 \<le> length n" using assms by (simp add: valid_name_def)
  ultimately have "hello_name (PROTO_VER # map of_nat n @ replicate k 0) = Inr n"
    using assms by (simp add: hello_name_def)
  moreover obtain b where "pad_name (Some n) = Inr b" using assms by (simp add: pad_name_valid)
  ultimately show ?thesis using pad_name_length decode_pad [OF assms] by blast
qed

theorem name_roundtrip_witness: "hello_name ([2, 65, 66, 48] @ replicate 5 0) = Inr [65, 66, 48]"
proof -
  have "valid_name [65, 66, 48]" by (simp add: run)
  from name_roundtrip [OF this, of 5] show ?thesis by (simp add: PROTO_VER_def)
qed

text \<open>A frame that \<open>handle\<close> refuses costs the sender its connection: the loop of \<open>service\<close>
  stops, the client is dead, and the relay is consistent.\<close>

theorem refused_frame_drops:
  assumes "INV s" "c < sv_nclient s" "0 \<le> sv_delay s" "sv_delay s < 256" "readable body"
    and "fst (handle c (hd body) (tl body) s) = Inl e"
  shows "\<exists>t. handle_frame c body s = (Inr False, t) \<and> is_dead t c \<and> INV t"
proof -
  obtain u where u: "handle c (hd body) (tl body) s = (Inl e, u)"
    using assms(6) by (metis prod.collapse)
  have "length (tl body) \<le> 199" using assms(5) by (auto simp: readable_def)
  from tripleD [OF handle_answers [OF this], of s c "hd body"] assms(1-4) u
  obtain p where p: "e = ProtocolError p" "INV u"
    by (auto simp: delay_ok_def only_protocol_def)
  obtain t where t: "drop_client c (WhyProtocol p) u = (Inr (), t)" "INV t"
    using safeE [OF drop_safe [OF calm_stable_True] , of u c "WhyProtocol p"] p(2) by auto
  have "is_dead t c" using drop_dead [of c "WhyProtocol p" u] t(1) by simp
  with t u p(1) show ?thesis by (simp add: handle_frame_def bnd_def ret_def)
qed

theorem refused_frame_drops_witness:
  "\<exists>t. handle_frame 0 [1, 1, 65, 65] demo_match = (Inr False, t) \<and> is_dead t 0 \<and> INV t"
  by (rule refused_frame_drops [OF INV_demos(4), where e = "ProtocolError (BadVersion 1)"])
    (simp_all add: run demo_match_def readable_def)

text \<open>C33: two reports of one tick from two seats decide the round: equal values count as an agreed
  round and log no mismatch, different values log exactly one mismatch line with both values, and
  either way the tick leaves the table.\<close>

theorem crc_verdict:
  assumes "dget (rm_crc rm) (crc_tick p) = None" "length (rm_crc rm) < 64"
    and "crc_tick q = crc_tick p" "unat (q ! 0) \<noteq> unat (p ! 0)"
  shows "\<exists>rm1 rm2 ls. crc_round 2 p rm = (rm1, []) \<and> crc_round 2 q rm1 = (rm2, ls) \<and>
    rm_crc rm2 = rm_crc rm \<and>
    (if crc_value p = crc_value q
     then rm_crc_ok rm2 = Suc (rm_crc_ok rm) \<and> (\<forall>l \<in> set ls. \<exists>k. l = LCrcOk (crc_tick p) k)
     else rm_crc_ok rm2 = rm_crc_ok rm \<and>
       ls = [LMismatch (crc_tick p) (sort_key fst [(unat (p ! 0), crc_value p), (unat (q ! 0), crc_value q)])])"
  using crc_second [of "rm_crc rm" q "rm\<lparr>rm_crc := rm_crc rm @ [(crc_tick p, [(unat (p ! 0), crc_value p)])]\<rparr>"
      "unat (p ! 0)" "crc_value p"] assms
  by (simp add: crc_first)

theorem crc_verdict_witness:
  "snd (crc_round 2 [1, 64, 0, 2, 0] (fst (crc_round 2 [0, 64, 0, 1, 0] (new_room 0)))) = [LMismatch 64 [(0, 1), (1, 2)]]"
proof -
  have "dget (rm_crc (new_room 0)) (crc_tick [0, 64, 0, 1, 0]) = None" "length (rm_crc (new_room 0)) < 64"
    "crc_tick [1, 64, 0, 2, 0] = crc_tick [0, 64, 0, 1, 0]" "unat ([1, 64, 0, 2, 0] ! 0 :: byte) \<noteq> unat ([0, 64, 0, 1, 0] ! 0 :: byte)"
    by (simp_all add: new_room_def crc_tick_def)
  from crc_verdict [OF this] show ?thesis by (auto simp: crc_tick_def crc_value_def)
qed

text \<open>C34: a full table forgets its smallest tick. When 64 higher ticks are waiting for their second
  report, as after the 16-bit tick has wrapped, every report of a lower tick is discarded at once:
  the rounds go on without any verdict.\<close>

theorem crc_wrap_blind:
  assumes "dget (rm_crc rm) (crc_tick p) = None" "length (rm_crc rm) = 64"
    and "\<forall>k \<in> set (dkeys (rm_crc rm)). crc_tick p < k"
  shows "crc_round 2 p rm = (rm, [])"
proof -
  obtain e t where et: "crc_store p (rm_crc rm) = (e, t)" by fastforce
  then have "t = rm_crc rm" using crc_full [OF assms] by simp
  moreover have "length e = 1" using et assms(1) by (auto simp: crc_store_def Let_def)
  ultimately show ?thesis using et by (simp add: crc_round_def)
qed

theorem crc_wrap_blind_witness:
  "crc_round 2 [1, 5, 0, 1, 0] ((new_room 0)\<lparr>rm_crc := full_table\<rparr>) = ((new_room 0)\<lparr>rm_crc := full_table\<rparr>, [])"
proof (rule crc_wrap_blind)
  have "crc_tick [1, 5, 0, 1, 0] = 5" by (simp add: crc_tick_def)
  then show "\<forall>k \<in> set (dkeys (rm_crc ((new_room 0)\<lparr>rm_crc := full_table\<rparr>))). crc_tick [1, 5, 0, 1, 0] < k"
    "dget (rm_crc ((new_room 0)\<lparr>rm_crc := full_table\<rparr>)) (crc_tick [1, 5, 0, 1, 0]) = None"
    by (simp_all add: dget_None full_table_keys flip: dkeys_set)
  show "length (rm_crc ((new_room 0)\<lparr>rm_crc := full_table\<rparr>)) = 64"
    by (simp add: full_table_def)
qed

text \<open>C35: a delay that does not fit a byte breaks the start of a match half-way: \<open>start_room\<close> raises
  ValueError, which is no protocol error, after the room has been marked started, and no START
  has been sent.\<close>

theorem bad_delay_start:
  assumes "\<not> (0 \<le> sv_delay s \<and> sv_delay s < 256)" "length (members s r) < 256"
  shows "start_room r s = (Inl ValueError, begin_match r s) \<and> rm_started (sv_room (begin_match r s) r)"
proof -
  have "rm_seed (sv_room (begin_match r s) r) < 65536" using seed_range [of r s] by auto
  then have "drop_bit 8 (rm_seed (sv_room (begin_match r s) r)) < 256"
    by (simp add: drop_bit_eq_div)
  moreover have "(rm_seed (sv_room (begin_match r s) r) AND 0xFF) < 256"
    by (rule low_byte_less)
  moreover have "mk_byte (sv_delay s) = Inl ValueError" using assms(1) by (simp add: mk_byte_def)
  moreover have "members (begin_match r s) r = members s r" "sv_delay (begin_match r s) = sv_delay s"
    by (simp_all add: begin_match_def members_def)
  ultimately have "start_common (begin_match r s) r = Inl ValueError"
    using assms(2) by (simp add: start_common_def)
  then show ?thesis by (simp add: start_room_def begin_match_def)
qed

theorem bad_delay_start_witness:
  "fst (start_room 0 (demo_room\<lparr>sv_delay := 300\<rparr>)) = Inl ValueError"
proof -
  have "\<not> (0 \<le> sv_delay (demo_room\<lparr>sv_delay := 300\<rparr>) \<and> sv_delay (demo_room\<lparr>sv_delay := 300\<rparr>) < 256)"
    "length (members (demo_room\<lparr>sv_delay := 300\<rparr>) 0) < 256"
    by (simp_all add: demo_room_def members_def)
  from bad_delay_start [OF this] show ?thesis by simp
qed

text \<open>C36: a client can be registered after it died. In a running match the guest says HELLO with the
  host's name; dropping the host announces that to the guest, whose link breaks at that moment;
  the guest is dropped too, and then registered all the same.\<close>

theorem zombie_name:
  "\<exists>t. reachable demo_start t \<and> is_dead t 1 \<and> dget (sv_by_name t) [65, 65] = Some 1 \<and> sv_clients t = []"
proof -
  let ?ev = "EvReady 1 False (Some (RData [4, 1, 2, 65, 65]))"
  let ?t = "snd (run_event ?ev demo_match)"
  have "run_event ?ev demo_match = (Inr (), ?t)" by (simp add: run demo_match_def)
  then have "reachable demo_start ?t"
    by (rule reachable_event [OF reachable_demo_match, rotated]) (simp add: possible_def demo_match_def)
  moreover have "is_dead ?t 1" "dget (sv_by_name ?t) [65, 65] = Some 1" "sv_clients ?t = []"
    by (simp_all add: run demo_match_def)
  ultimately show ?thesis by blast
qed

end
